(* ===== verification/Prelude.thy ===== *)
theory Prelude
  imports Main "HOL-Library.Word"
begin

text \<open>
  What the components share: the machine integers of \<open>Types.hpp\<close>, the result type of
  operations that may fail, bounds-checked reads and writes of a C buffer, the binary
  search \<open>std::lower_bound\<close> that the mapping tables and the sorted vectors use, and
  the interface of a transition system with an inductive invariant.
\<close>

section \<open>Machine integers\<close>

type_synonym u8 = "8 word"
type_synonym u16 = "16 word"
type_synonym u32 = "32 word"
type_synonym u64 = "64 word"
type_synonym i32 = "32 word"

section \<open>Results of operations that may fail\<close>

text \<open>
  An operation that may throw returns \<open>Inl\<close> of the exception or \<open>Inr\<close> of its
  result. \<open>rbind\<close> runs the continuation only when no exception was thrown.
\<close>

named_theorems result_simps \<open>unfolding of the result monad\<close>

definition rbind :: "'e + 'a \<Rightarrow> ('a \<Rightarrow> 'e + 'b) \<Rightarrow> 'e + 'b" where
  "rbind r f = (case r of Inl e \<Rightarrow> Inl e | Inr a \<Rightarrow> f a)"

lemma rbind_simps [simp, result_simps]:
  "rbind (Inl e) f = Inl e"
  "rbind (Inr a) f = f a"
  by (simp_all add: rbind_def)

lemma rbind_eq_Inr_iff [result_simps]:
  "rbind r f = Inr b \<longleftrightarrow> (\<exists>a. r = Inr a \<and> f a = Inr b)"
  by (cases r) auto

lemma rbind_eq_Inl_iff [result_simps]:
  "rbind r f = Inl e \<longleftrightarrow> r = Inl e \<or> (\<exists>a. r = Inr a \<and> f a = Inl e)"
  by (cases r) auto

lemma rbind_assoc: "rbind (rbind r f) g = rbind r (\<lambda>a. rbind (f a) g)"
  by (cases r) auto

definition is_ok :: "'e + 'a \<Rightarrow> bool" where
  "is_ok r = (case r of Inl _ \<Rightarrow> False | Inr _ \<Rightarrow> True)"

lemma is_ok_simps [simp]: "is_ok (Inr a)" "\<not> is_ok (Inl e)"
  by (simp_all add: is_ok_def)

section \<open>Binary search\<close>

text \<open>
  \<open>std::lower_bound(first, last, val, comp)\<close> on a random-access range, with the
  comparison against \<open>val\<close> given as a predicate: the first position whose element
  does not satisfy \<open>below\<close>, found by halving the range \<open>[first, first + len)\<close>.
\<close>

function lower_bound_loop :: "('a \<Rightarrow> bool) \<Rightarrow> 'a list \<Rightarrow> nat \<Rightarrow> nat \<Rightarrow> nat" where
  "lower_bound_loop below xs first len =
     (if len = 0 then first
      else let half = len div 2; middle = first + half in
        if below (xs ! middle) then lower_bound_loop below xs (middle + 1) (len - half - 1)
        else lower_bound_loop below xs first half)"
  by pat_completeness auto
termination
  by (relation "measure (\<lambda>(below, xs, first, len). len)") auto

declare lower_bound_loop.simps [simp del]

definition lower_bound :: "('a \<Rightarrow> bool) \<Rightarrow> 'a list \<Rightarrow> nat" where
  "lower_bound below xs = lower_bound_loop below xs 0 (length xs)"

text \<open>The range is partitioned: once the predicate fails it stays false.\<close>

definition partitioned :: "('a \<Rightarrow> bool) \<Rightarrow> 'a list \<Rightarrow> bool" where
  "partitioned below xs \<longleftrightarrow> (\<forall>i j. i \<le> j \<longrightarrow> j < length xs \<longrightarrow> below (xs ! j) \<longrightarrow> below (xs ! i))"

lemma lower_bound_loop_spec:
  assumes "partitioned below xs" and "first + len \<le> length xs"
    and "\<And>i. i < first \<Longrightarrow> below (xs ! i)"
    and "\<And>i. first + len \<le> i \<Longrightarrow> i < length xs \<Longrightarrow> \<not> below (xs ! i)"
  shows "lower_bound_loop below xs first len \<le> length xs \<and>
    (\<forall>i < lower_bound_loop below xs first len. below (xs ! i)) \<and>
    (\<forall>i. lower_bound_loop below xs first len \<le> i \<longrightarrow> i < length xs \<longrightarrow> \<not> below (xs ! i))"
  using assms
proof (induction below xs first len rule: lower_bound_loop.induct)
  case (1 below xs first len)
  show ?case
  proof (cases "len = 0")
    case True
    with "1.prems" show ?thesis by (simp add: lower_bound_loop.simps)
  next
    case False
    define m where "m = first + len div 2"
    have m: "m < first + len" "m < length xs"
      using False "1.prems"(2) by (auto simp: m_def)
    show ?thesis
    proof (cases "below (xs ! m)")
      case True
      have step: "lower_bound_loop below xs first len =
          lower_bound_loop below xs (m + 1) (len - len div 2 - 1)"
        using False True by (subst lower_bound_loop.simps) (simp add: m_def Let_def)
      have sum: "m + 1 + (len - len div 2 - 1) = first + len"
        using False by (simp add: m_def)
      have low: "\<And>i. i < m + 1 \<Longrightarrow> below (xs ! i)"
        using True "1.prems"(1) m unfolding partitioned_def by (metis Suc_eq_plus1 less_Suc_eq_le)
      show ?thesis unfolding step
      proof (rule "1.IH"(1) [OF False refl m_def])
        show "below (xs ! m)" by (rule True)
        show "partitioned below xs" by (rule "1.prems"(1))
        show "m + 1 + (len - len div 2 - 1) \<le> length xs"
          unfolding sum by (rule "1.prems"(2))
        show "\<And>i. i < m + 1 \<Longrightarrow> below (xs ! i)" by (rule low)
        show "\<And>i. m + 1 + (len - len div 2 - 1) \<le> i \<Longrightarrow> i < length xs \<Longrightarrow> \<not> below (xs ! i)"
          unfolding sum by (rule "1.prems"(4))
      qed
    next
      case below: False
      have step: "lower_bound_loop below xs first len = lower_bound_loop below xs first (len div 2)"
        using False below by (subst lower_bound_loop.simps) (simp add: m_def Let_def)
      show ?thesis unfolding step
      proof (rule "1.IH"(2) [OF False refl m_def])
        show "\<not> below (xs ! m)" by (rule below)
        show "partitioned below xs" by (rule "1.prems"(1))
        show "first + len div 2 \<le> length xs" using m by (simp add: m_def)
        show "\<And>i. i < first \<Longrightarrow> below (xs ! i)" by (rule "1.prems"(3))
        show "\<And>i. first + len div 2 \<le> i \<Longrightarrow> i < length xs \<Longrightarrow> \<not> below (xs ! i)"
          using below "1.prems"(1) unfolding partitioned_def m_def by blast
      qed
    qed
  qed
qed

lemma lower_bound_spec:
  assumes "partitioned below xs"
  shows "lower_bound below xs \<le> length xs"
    and "i < lower_bound below xs \<Longrightarrow> below (xs ! i)"
    and "lower_bound below xs \<le> i \<Longrightarrow> i < length xs \<Longrightarrow> \<not> below (xs ! i)"
  using lower_bound_loop_spec [OF assms, of 0 "length xs"] by (auto simp: lower_bound_def)

text \<open>The position found is the length of the longest prefix below the value.\<close>

lemma lower_bound_takeWhile:
  assumes "partitioned below xs"
  shows "lower_bound below xs = length (takeWhile below xs)"
proof (rule antisym)
  let ?n = "lower_bound below xs"
  show "?n \<le> length (takeWhile below xs)"
  proof (rule ccontr)
    assume "\<not> ?thesis"
    then have lt: "length (takeWhile below xs) < ?n" by simp
    then have "length (takeWhile below xs) < length xs"
      using lower_bound_spec(1)[OF assms] by simp
    then have "\<not> below (xs ! length (takeWhile below xs))" by (rule nth_length_takeWhile)
    with lower_bound_spec(2)[OF assms lt] show False by blast
  qed
  show "length (takeWhile below xs) \<le> ?n"
  proof (rule ccontr)
    assume "\<not> ?thesis"
    then have lt: "?n < length (takeWhile below xs)" by simp
    then have "below (xs ! ?n)"
      by (metis nth_mem set_takeWhileD takeWhile_nth)
    moreover have "?n < length xs"
      using lt length_takeWhile_le less_le_trans by blast
    ultimately show False using lower_bound_spec(3)[OF assms, of ?n] by blast
  qed
qed

lemma sorted_wrt_partitioned:
  assumes "sorted_wrt lt xs" and "transp lt" and "\<And>x y. lt x y \<Longrightarrow> P y \<Longrightarrow> P x"
  shows "partitioned P xs"
proof -
  have "P (xs ! i)" if "i \<le> j" "j < length xs" "P (xs ! j)" for i j
  proof (cases "i = j")
    case False
    with that have "lt (xs ! i) (xs ! j)"
      using assms(1) sorted_wrt_iff_nth_less le_neq_implies_less by blast
    with that(3) assms(3) show ?thesis by blast
  qed (use that in simp)
  then show ?thesis by (auto simp: partitioned_def)
qed

section \<open>Transition systems\<close>

text \<open>
  The shared objects (locks, queues, pools) are transition systems: an initial state, a
  step relation, one step per critical section. A property that holds initially and is
  kept by each step holds in every reachable state.
\<close>

inductive reach :: "('s \<Rightarrow> bool) \<Rightarrow> ('s \<Rightarrow> 's \<Rightarrow> bool) \<Rightarrow> 's \<Rightarrow> bool"
  for init :: "'s \<Rightarrow> bool" and step :: "'s \<Rightarrow> 's \<Rightarrow> bool" where
  reach_init: "init s \<Longrightarrow> reach init step s"
| reach_step: "reach init step s \<Longrightarrow> step s t \<Longrightarrow> reach init step t"

locale invariant_system =
  fixes init :: "'s \<Rightarrow> bool"
    and step :: "'s \<Rightarrow> 's \<Rightarrow> bool"
    and inv :: "'s \<Rightarrow> bool"
  assumes inv_init: "init s \<Longrightarrow> inv s"
    and inv_step: "inv s \<Longrightarrow> step s t \<Longrightarrow> inv t"
begin

lemma reachable_inv: "reach init step s \<Longrightarrow> inv s"
  by (induction rule: reach.induct) (auto intro: inv_init inv_step)

lemma reachable_run_inv: "step\<^sup>*\<^sup>* s t \<Longrightarrow> inv s \<Longrightarrow> inv t"
  by (induction rule: rtranclp_induct) (auto intro: inv_step)

end

end
