(* ===== verification/UTF8_Codec.thy ===== *)
theory UTF8_Codec
  imports Prelude
begin

text \<open>
  The codec of \<open>src/blocxx/UTF8Utils.cpp\<close>: lengths of sequences, counting, decoding one
  character, encoding one character, and the conversions between UTF-8 strings and
  UCS-2 arrays. A \<open>const char*\<close> is the list of the bytes before its terminator; a read
  past the terminator is the error \<open>BadRead\<close>, so that memory safety is a theorem and
  not an assumption. The assertion of the decoder that its first byte is no terminator, which
  a debug build checks with an exception, is an error of the model; without it the decoder
  returns 0 there.
\<close>

unbundle bit_operations_syntax

section \<open>Bytes, reads and errors\<close>

type_synonym bytes = "u8 list"

datatype utf8_error =
    BadRead               \<comment> \<open>a read outside the buffer: undefined behaviour of the code\<close>
  | BadWrite              \<comment> \<open>a write outside the buffer: undefined behaviour of the code\<close>
  | InvalidUTF8Exception  \<comment> \<open>thrown by \<open>StringToUCS2\<close>\<close>
  | AssertionException    \<comment> \<open>thrown by \<open>BLOCXX_ASSERT\<close>\<close>

text \<open>\<open>p[i]\<close> for a pointer \<open>p\<close> into a buffer.\<close>

definition rd :: "bytes \<Rightarrow> nat \<Rightarrow> utf8_error + u8" where
  "rd p i = (if i < length p then Inr (p ! i) else Inl BadRead)"

lemma rd_append [simp]: "i < length p \<Longrightarrow> rd (p @ q) i = Inr (p ! i)"
  by (simp add: rd_def nth_append)

lemma rd_Cons [simp]: "rd (b # p) 0 = Inr b" "rd (b # p) (Suc i) = rd p i"
  by (simp_all add: rd_def)

section \<open>The codec\<close>

definition SequenceLengthTable :: "nat list" where
  "SequenceLengthTable =
    [1, 1, 1, 1, 1, 1, 1, 1, 1, 1, 1, 1, 1, 1, 1, 1,
     1, 1, 1, 1, 1, 1, 1, 1, 1, 1, 1, 1, 1, 1, 1, 1,
     1, 1, 1, 1, 1, 1, 1, 1, 1, 1, 1, 1, 1, 1, 1, 1,
     1, 1, 1, 1, 1, 1, 1, 1, 1, 1, 1, 1, 1, 1, 1, 1,
     1, 1, 1, 1, 1, 1, 1, 1, 1, 1, 1, 1, 1, 1, 1, 1,
     1, 1, 1, 1, 1, 1, 1, 1, 1, 1, 1, 1, 1, 1, 1, 1,
     1, 1, 1, 1, 1, 1, 1, 1, 1, 1, 1, 1, 1, 1, 1, 1,
     1, 1, 1, 1, 1, 1, 1, 1, 1, 1, 1, 1, 1, 1, 1, 1,
     0, 0, 0, 0, 0, 0, 0, 0, 0, 0, 0, 0, 0, 0, 0, 0,
     0, 0, 0, 0, 0, 0, 0, 0, 0, 0, 0, 0, 0, 0, 0, 0,
     0, 0, 0, 0, 0, 0, 0, 0, 0, 0, 0, 0, 0, 0, 0, 0,
     0, 0, 0, 0, 0, 0, 0, 0, 0, 0, 0, 0, 0, 0, 0, 0,
     0, 0, 2, 2, 2, 2, 2, 2, 2, 2, 2, 2, 2, 2, 2, 2,
     2, 2, 2, 2, 2, 2, 2, 2, 2, 2, 2, 2, 2, 2, 2, 2,
     3, 3, 3, 3, 3, 3, 3, 3, 3, 3, 3, 3, 3, 3, 3, 3,
     4, 4, 4, 4, 4, 0, 0, 0, 0, 0, 0, 0, 0, 0, 0, 0]"

definition seqLen :: "u8 \<Rightarrow> nat" where
  "seqLen c0 = SequenceLengthTable ! unat c0"

text \<open>\<open>charCount\<close>: every byte up to the terminator that is no continuation byte.\<close>

fun charCount_loop :: "bytes \<Rightarrow> nat \<Rightarrow> utf8_error + nat" where
  "charCount_loop [] count = Inl BadRead"
| "charCount_loop (c # p) count =
     (if c = 0 then Inr count
      else charCount_loop p (if c < 0x80 \<or> c > 0xBF then count + 1 else count))"

definition charCount :: "bytes \<Rightarrow> utf8_error + nat" where
  "charCount utf8str = charCount_loop utf8str 0"

abbreviation bad_char :: u32 where
  "bad_char \<equiv> 0xFFFFFFFF"

definition UTF8toUCS4 :: "bytes \<Rightarrow> utf8_error + u32" where
  "UTF8toUCS4 p =
     rbind (rd p 0) (\<lambda>b0. let c0 = (ucast b0 :: u32) in
       if b0 = 0 then Inl AssertionException
       else if seqLen b0 = 1 then Inr c0
       else if seqLen b0 = 2 then
         rbind (rd p 1) (\<lambda>b1. if b1 = 0 then Inr bad_char
           else let c1 = ucast b1 in
             Inr (push_bit 6 (c0 AND 0x1f) OR (c1 AND 0x3f)))
       else if seqLen b0 = 3 then
         rbind (rd p 1) (\<lambda>b1. if b1 = 0 then Inr bad_char
           else rbind (rd p 2) (\<lambda>b2. if b2 = 0 then Inr bad_char
           else let c1 = ucast b1; c2 = ucast b2 in
             Inr (push_bit 12 (c0 AND 0x0f) OR push_bit 6 (c1 AND 0x3f) OR (c2 AND 0x3f))))
       else if seqLen b0 = 4 then
         rbind (rd p 1) (\<lambda>b1. if b1 = 0 then Inr bad_char
           else rbind (rd p 2) (\<lambda>b2. if b2 = 0 then Inr bad_char
           else rbind (rd p 3) (\<lambda>b3. if b3 = 0 then Inr bad_char
           else let c1 = ucast b1; c2 = ucast b2; c3 = ucast b3 in
             Inr (push_bit 18 (c0 AND 0x03) OR push_bit 12 (c1 AND 0x3f)
                  OR push_bit 6 (c2 AND 0x3f) OR (c3 AND 0x3f)))))
       else Inr bad_char)"

definition UTF8toUCS2 :: "bytes \<Rightarrow> utf8_error + u16" where
  "UTF8toUCS2 p = rbind (UTF8toUCS4 p) (\<lambda>c. if c > 0xFFFF then Inr 0xFFFF else Inr (ucast c))"

text \<open>\<open>UCS4toUTF8(ucs4char, sb)\<close>: the bytes appended to the buffer.\<close>

definition UCS4toUTF8 :: "u32 \<Rightarrow> bytes" where
  "UCS4toUTF8 c =
     (if c < 0x80 then [ucast c]
      else if c < 0x800 then
        [ucast (0xc0 OR drop_bit 6 c), ucast (0x80 OR (c AND 0x3f))]
      else if c < 0x10000 then
        [ucast (0xe0 OR drop_bit 12 c), ucast (0x80 OR (drop_bit 6 c AND 0x3f)),
         ucast (0x80 OR (c AND 0x3f))]
      else
        [ucast (0xf0 OR drop_bit 18 c), ucast (0x80 OR (drop_bit 12 c AND 0x3f)),
         ucast (0x80 OR (drop_bit 6 c AND 0x3f)), ucast (0x80 OR (c AND 0x3f))])"

definition UCS2toUTF8 :: "u16 \<Rightarrow> bytes" where
  "UCS2toUTF8 c = UCS4toUTF8 (ucast c)"

definition UTF8CharLen :: "u32 \<Rightarrow> nat" where
  "UTF8CharLen c = (if c < 0x80 then 1 else if c < 0x800 then 2 else if c < 0x10000 then 3 else 4)"

section \<open>Conversions between UTF-8 strings and UCS-2 arrays\<close>

text \<open>
  The loop of \<open>StringToUCS2Common\<close> at position \<open>p\<close> of the string. In the branch for a
  truncated sequence with \<open>throwException\<close> false the code pushes the replacement
  character, advances \<open>p\<close>, and then falls through to the code for the complete sequence
  (there is no \<open>break\<close> and no \<open>else\<close>): it reads at the advanced position.
\<close>

function StringToUCS2_loop :: "bool \<Rightarrow> bytes \<Rightarrow> nat \<Rightarrow> u16 list \<Rightarrow> utf8_error + u16 list" where
  "StringToUCS2_loop throwException s p rval =
     (if p < length s then
        let b0 = s ! p; c0 = (ucast b0 :: u32) in
        if seqLen b0 = 1 then StringToUCS2_loop throwException s (p + 1) (rval @ [ucast c0])
        else if seqLen b0 = 2 then
          rbind (rd (s @ [0]) (p + 1)) (\<lambda>t1.
            if t1 = 0 \<and> throwException then Inl InvalidUTF8Exception
            else let short = (t1 = 0); rval' = (if short then rval @ [0xFFFD] else rval);
                     adv = (if short then 2 else 0) in
              rbind (rd (s @ [0]) (p + adv + 1)) (\<lambda>b1. let c1 = ucast b1 in
                StringToUCS2_loop throwException s (p + adv + 2)
                  (rval' @ [ucast (push_bit 6 (c0 AND 0x1f) OR (c1 AND 0x3f))])))
        else if seqLen b0 = 3 then
          rbind (rd (s @ [0]) (p + 1)) (\<lambda>t1.
          rbind (if t1 = 0 then Inr 0 else rd (s @ [0]) (p + 2)) (\<lambda>t2.
            if (t1 = 0 \<or> t2 = 0) \<and> throwException then Inl InvalidUTF8Exception
            else let short = (t1 = 0 \<or> t2 = 0); rval' = (if short then rval @ [0xFFFD] else rval);
                     adv = (if short then 3 else 0) in
              rbind (rd (s @ [0]) (p + adv + 1)) (\<lambda>b1.
              rbind (rd (s @ [0]) (p + adv + 2)) (\<lambda>b2. let c1 = ucast b1; c2 = ucast b2 in
                StringToUCS2_loop throwException s (p + adv + 3)
                  (rval' @ [ucast (push_bit 12 (c0 AND 0x0f) OR push_bit 6 (c1 AND 0x3f) OR (c2 AND 0x3f))])))))
        else if seqLen b0 = 4 then
          (if throwException then Inl InvalidUTF8Exception
           else StringToUCS2_loop throwException s (p + 4) (rval @ [0xFFFD]))
        else
          (if throwException then Inl InvalidUTF8Exception
           else StringToUCS2_loop throwException s (p + 1) (rval @ [0xFFFD]))
      else Inr rval)"
  by pat_completeness auto
termination
  by (relation "measure (\<lambda>(throwException, s, p, rval). length s - p)") auto

declare StringToUCS2_loop.simps [simp del]

definition StringToUCS2 :: "bytes \<Rightarrow> utf8_error + u16 list" where
  "StringToUCS2 input = StringToUCS2_loop True input 0 []"

definition StringToUCS2ReplaceInvalid :: "bytes \<Rightarrow> utf8_error + u16 list" where
  "StringToUCS2ReplaceInvalid input = StringToUCS2_loop False input 0 []"

fun UCS2ToString :: "u16 list \<Rightarrow> bytes" where
  "UCS2ToString [] = []"
| "UCS2ToString (c # cs) = UCS4toUTF8 (ucast c) @ UCS2ToString cs"


section \<open>Bits and bytes of one character\<close>

lemma SequenceLengthTable_upt:
  "SequenceLengthTable = map (\<lambda>n. if n < 128 then 1 else if n < 194 then 0 else if n < 224 then 2
     else if n < 240 then 3 else if n < 245 then 4 else 0) [0..<256]"
  by code_simp

lemma seqLen_eq:
  "seqLen c = (if c < 0x80 then 1 else if c < 0xC2 then 0 else if c < 0xE0 then 2
     else if c < 0xF0 then 3 else if c < 0xF5 then 4 else 0)"
proof -
  have "unat c < 256" using unsigned_less [of c, where 'a = nat] by simp
  then show ?thesis
    by (simp add: seqLen_def SequenceLengthTable_upt word_less_nat_alt)
qed

lemma seqLen_0 [simp]: "seqLen 0 = 1"
  by (simp add: seqLen_eq)

lemma seqLen_le_4: "seqLen c \<le> 4"
  by (simp add: seqLen_eq)

lemma bit_high: "(c :: 'a::len word) < 2 ^ k \<Longrightarrow> k \<le> n \<Longrightarrow> \<not> bit c n"
  by (metis bit_take_bit_iff less_mask_eq linorder_not_le take_bit_eq_mask)

lemma less_32_cases:
  "n < (32::nat) \<Longrightarrow> n \<in> {0, 1, 2, 3, 4, 5, 6, 7, 8, 9, 10, 11, 12, 13, 14, 15, 16, 17, 18, 19, 20, 21,
     22, 23, 24, 25, 26, 27, 28, 29, 30, 31}"
proof -
  assume "n < 32"
  then have "n \<in> {..<32}" by simp
  then show ?thesis by (simp add: lessThan_nat_numeral) blast
qed

lemma u32_eqI:
  assumes "\<And>n. n \<in> {0, 1, 2, 3, 4, 5, 6, 7, 8, 9, 10, 11, 12, 13, 14, 15, 16, 17, 18, 19, 20, 21,
     22, 23, 24, 25, 26, 27, 28, 29, 30, 31} \<Longrightarrow> bit (a :: u32) n = bit b n"
  shows "a = b"
  by (rule bit_word_eqI) (use assms less_32_cases in simp)

text \<open>The payload bits that the encoder splits, joined as the decoder joins them.\<close>

lemma join2:
  assumes "c < 0x800"
  shows "push_bit 6 (ucast (ucast (0xc0 OR drop_bit 6 c) :: u8) AND 0x1f)
    OR (ucast (ucast (0x80 OR (c AND 0x3f)) :: u8) AND 0x3f) = (c :: u32)"
proof -
  have h: "\<not> bit c n" if "11 \<le> n" for n using bit_high [of c 11 n] that assms by simp
  show ?thesis by (rule u32_eqI) (elim insertE emptyE; simp add: bit_simps h)
qed

lemma join3:
  assumes "c < 0x10000"
  shows "push_bit 12 (ucast (ucast (0xe0 OR drop_bit 12 c) :: u8) AND 0x0f)
    OR push_bit 6 (ucast (ucast (0x80 OR (drop_bit 6 c AND 0x3f)) :: u8) AND 0x3f)
    OR (ucast (ucast (0x80 OR (c AND 0x3f)) :: u8) AND 0x3f) = (c :: u32)"
proof -
  have h: "\<not> bit c n" if "16 \<le> n" for n using bit_high [of c 16 n] that assms by simp
  show ?thesis by (rule u32_eqI) (elim insertE emptyE; simp add: bit_simps h)
qed

lemma join4:
  "push_bit 18 (ucast (ucast (0xf0 OR drop_bit 18 c) :: u8) AND 0x03)
    OR push_bit 12 (ucast (ucast (0x80 OR (drop_bit 12 c AND 0x3f)) :: u8) AND 0x3f)
    OR push_bit 6 (ucast (ucast (0x80 OR (drop_bit 6 c AND 0x3f)) :: u8) AND 0x3f)
    OR (ucast (ucast (0x80 OR (c AND 0x3f)) :: u8) AND 0x3f) = (c :: u32) AND 0xFFFFF"
  by (rule u32_eqI) (elim insertE emptyE; simp add: bit_simps)

text \<open>The same in the simplifier's normal form.\<close>

lemmas join_simps = join2 [simplified] join3 [simplified] join4 [simplified]

lemma and_0xFFFFF_small: "(c :: u32) < 0x100000 \<Longrightarrow> c AND 0xFFFFF = c"
  using less_mask_eq [of c 20] by (simp add: mask_eq_exp_minus_1)

text \<open>Facts about a word in a small range, decided by evaluation over the range.\<close>

lemma list_all_upt_word:
  assumes "list_all (\<lambda>n. P (of_nat n :: 'a::len word)) [i..<j]" and "of_nat i \<le> x" and "x < of_nat j"
    and "unat (of_nat i :: 'a word) = i" and "unat (of_nat j :: 'a word) = j"
  shows "P x"
proof -
  have "i \<le> unat x" "unat x < j"
    using assms(2-5) by (simp_all add: word_le_nat_alt word_less_nat_alt)
  with assms(1) have "P (of_nat (unat x))"
    unfolding list_all_iff set_upt by (meson atLeastLessThan_iff)
  then show ?thesis by simp
qed

lemma drop_bit_ranges:
  fixes c :: u32
  shows "c < 0x800 \<Longrightarrow> drop_bit 6 c < 32" and "\<not> c < 0x80 \<Longrightarrow> 2 \<le> drop_bit 6 c"
    and "c < 0x10000 \<Longrightarrow> drop_bit 12 c < 16" and "c < 0x110000 \<Longrightarrow> drop_bit 18 c < 5"
  by (simp_all add: word_less_nat_alt word_le_nat_alt drop_bit_eq_div unat_div)

lemma lead2_all: "list_all (\<lambda>n. seqLen (ucast (0xc0 OR (of_nat n :: u32))) = 2) [2..<32]"
  by code_simp

lemma lead3_all: "list_all (\<lambda>n. seqLen (ucast (0xe0 OR (of_nat n :: u32))) = 3) [0..<16]"
  by code_simp

lemma lead4_all: "list_all (\<lambda>n. seqLen (ucast (0xf0 OR (of_nat n :: u32))) = 4) [0..<5]"
  by code_simp

lemma cont_all:
  "list_all (\<lambda>n. 0x80 \<le> (ucast (0x80 OR (of_nat n :: u32)) :: u8) \<and>
     (ucast (0x80 OR (of_nat n :: u32)) :: u8) \<le> 0xBF) [0..<64]"
  by code_simp

lemma lead:
  fixes c :: u32
  shows lead2: "c < 0x800 \<Longrightarrow> \<not> c < 0x80 \<Longrightarrow> seqLen (ucast (0xc0 OR drop_bit 6 c)) = 2"
    and lead3: "c < 0x10000 \<Longrightarrow> seqLen (ucast (0xe0 OR drop_bit 12 c)) = 3"
    and lead4: "c < 0x110000 \<Longrightarrow> seqLen (ucast (0xf0 OR drop_bit 18 c)) = 4"
  using list_all_upt_word [where P = "\<lambda>x::u32. seqLen (ucast (0xc0 OR x)) = 2", OF lead2_all, of "drop_bit 6 c"]
    list_all_upt_word [where P = "\<lambda>x::u32. seqLen (ucast (0xe0 OR x)) = 3", OF lead3_all, of "drop_bit 12 c"]
    list_all_upt_word [where P = "\<lambda>x::u32. seqLen (ucast (0xf0 OR x)) = 4", OF lead4_all, of "drop_bit 18 c"]
  by (simp_all add: drop_bit_ranges)

lemma cont_range:
  fixes x :: u32
  shows "0x80 \<le> (ucast (0x80 OR (x AND 0x3f)) :: u8)" and "(ucast (0x80 OR (x AND 0x3f)) :: u8) \<le> 0xBF"
proof -
  have "x AND 0x3f \<le> 0x3f" by (rule word_and_le1)
  then have "x AND 0x3f < 64" by (simp add: word_le_nat_alt word_less_nat_alt)
  then have "0x80 \<le> (ucast (0x80 OR (x AND 0x3f)) :: u8) \<and> (ucast (0x80 OR (x AND 0x3f)) :: u8) \<le> 0xBF"
    using list_all_upt_word [where P = "\<lambda>y::u32. 0x80 \<le> (ucast (0x80 OR y) :: u8) \<and>
      (ucast (0x80 OR y) :: u8) \<le> 0xBF", OF cont_all, of "x AND 0x3f"] by simp
  then show "0x80 \<le> (ucast (0x80 OR (x AND 0x3f)) :: u8)" "(ucast (0x80 OR (x AND 0x3f)) :: u8) \<le> 0xBF"
    by simp_all
qed

lemma cont_nonzero [simp]:
  fixes x :: u32
  shows "(ucast (0x80 OR (x AND 0x3f)) :: u8) \<noteq> 0"
  using cont_range(1) [of x] by auto

lemma ascii_ucast:
  fixes c :: u32
  assumes "c < 0x80"
  shows "ucast (ucast c :: u8) = c" and "(ucast c :: u8) < 0x80"
proof -
  have lt: "unat c < 128" using assms by (simp add: word_less_nat_alt)
  have u: "unat (ucast c :: u8) = unat c"
    using lt by (simp add: unsigned_ucast_eq unsigned_take_bit_eq take_bit_nat_eq_self)
  show "(ucast c :: u8) < 0x80" using u lt by (simp add: word_less_nat_alt)
  show "ucast (ucast c :: u8) = c"
    by (rule word_unat_eq_iff [THEN iffD2]) (use u lt in \<open>simp add: unsigned_ucast_eq unsigned_take_bit_eq take_bit_nat_eq_self\<close>)
qed

section \<open>Encoding, decoding and counting\<close>

lemma length_UCS4toUTF8 [simp]: "length (UCS4toUTF8 c) = UTF8CharLen c"
  by (simp add: UCS4toUTF8_def UTF8CharLen_def)

lemma UTF8CharLen_bounds: "1 \<le> UTF8CharLen c" "UTF8CharLen c \<le> 4"
  by (simp_all add: UTF8CharLen_def)

lemma UCS4toUTF8_ne [simp]: "UCS4toUTF8 c \<noteq> []"
  by (simp add: UCS4toUTF8_def)

text \<open>The four shapes of an encoded character.\<close>

lemma UCS4toUTF8_cases:
  obtains (one) "c < 0x80" "UCS4toUTF8 c = [ucast c]"
  | (two) "\<not> c < 0x80" "c < 0x800" "UCS4toUTF8 c =
        [ucast (0xc0 OR drop_bit 6 c), ucast (0x80 OR (c AND 0x3f))]"
  | (three) "\<not> c < 0x800" "c < 0x10000" "UCS4toUTF8 c =
        [ucast (0xe0 OR drop_bit 12 c), ucast (0x80 OR (drop_bit 6 c AND 0x3f)),
         ucast (0x80 OR (c AND 0x3f))]"
  | (four) "\<not> c < 0x10000" "UCS4toUTF8 c =
        [ucast (0xf0 OR drop_bit 18 c), ucast (0x80 OR (drop_bit 12 c AND 0x3f)),
         ucast (0x80 OR (drop_bit 6 c AND 0x3f)), ucast (0x80 OR (c AND 0x3f))]"
proof -
  have "\<not> c < 0x80" if "\<not> c < 0x800" using that by (simp add: word_less_nat_alt)
  moreover have "\<not> c < 0x800" if "\<not> c < 0x10000" using that by (simp add: word_less_nat_alt)
  ultimately show thesis using that by (auto simp: UCS4toUTF8_def)
qed

lemma seqLen_encoded:
  assumes "c < 0x110000"
  shows "seqLen (hd (UCS4toUTF8 c)) = UTF8CharLen c"
proof (cases c rule: UCS4toUTF8_cases)
  case one
  then show ?thesis using ascii_ucast(2) [of c] by (simp add: seqLen_eq UTF8CharLen_def)
next
  case two
  then show ?thesis by (simp add: lead2 UTF8CharLen_def)
next
  case three
  then show ?thesis by (simp add: lead3 UTF8CharLen_def word_less_nat_alt)
next
  case four
  then show ?thesis using assms by (simp add: lead4 UTF8CharLen_def word_less_nat_alt)
qed

lemma lead_nonzero: "seqLen b \<noteq> 1 \<Longrightarrow> b \<noteq> 0"
  by auto

lemma decode_encoded:
  assumes "c < 0x110000" and "c \<noteq> 0"
  shows "UTF8toUCS4 (UCS4toUTF8 c @ rest) = Inr (if c < 0x10000 then c else c AND 0xFFFFF)"
proof (cases c rule: UCS4toUTF8_cases)
  case one
  then have "c < 0x10000" by (simp add: word_less_nat_alt)
  moreover have "(ucast c :: u8) \<noteq> 0"
  proof
    assume "(ucast c :: u8) = 0"
    then have "(ucast (ucast c :: u8) :: u32) = 0" by simp
    then show False using ascii_ucast [of c] one assms(2) by simp
  qed
  ultimately show ?thesis
    using one ascii_ucast [of c] by (simp add: UTF8toUCS4_def seqLen_eq)
next
  case two
  then have "c < 0x10000" by (simp add: word_less_nat_alt)
  moreover have "(ucast (0xc0 OR drop_bit 6 c) :: u8) \<noteq> 0"
    by (rule lead_nonzero) (use two lead2 [of c] in simp)
  ultimately show ?thesis
    using two by (simp add: UTF8toUCS4_def numeral_2_eq_2 numeral_3_eq_3 lead2 join_simps)
next
  case three
  moreover have "(ucast (0xe0 OR drop_bit 12 c) :: u8) \<noteq> 0"
    by (rule lead_nonzero) (use three lead3 [of c] in simp)
  ultimately show ?thesis
    by (simp add: UTF8toUCS4_def numeral_2_eq_2 numeral_3_eq_3 lead3 join_simps)
next
  case four
  moreover have "(ucast (0xf0 OR drop_bit 18 c) :: u8) \<noteq> 0"
    by (rule lead_nonzero) (use assms(1) lead4 [of c] in simp)
  ultimately show ?thesis
    using assms by (simp add: UTF8toUCS4_def numeral_2_eq_2 numeral_3_eq_3 lead4 join_simps)
qed

lemma charCount_cont_Cons:
  fixes x :: u32
  shows "charCount_loop (ucast (0x80 OR (x AND 0x3f)) # p) n = charCount_loop p n"
  using cont_range [of x] by (auto simp: not_le not_less)

lemma seqLen_lead_byte: "2 \<le> seqLen b \<Longrightarrow> b \<noteq> 0 \<and> b > 0xBF"
  by (auto simp: seqLen_eq word_less_nat_alt split: if_splits)

lemma charCount_lead_Cons: "2 \<le> seqLen b \<Longrightarrow> charCount_loop (b # p) n = charCount_loop p (n + 1)"
  using seqLen_lead_byte [of b] by simp

lemma charCount_encoded:
  assumes "c < 0x110000" and "c \<noteq> 0"
  shows "charCount_loop (UCS4toUTF8 c @ rest) n = charCount_loop rest (n + 1)"
proof (cases c rule: UCS4toUTF8_cases)
  case one
  then have "(ucast c :: u8) \<noteq> 0"
    using ascii_ucast(1) [of c] assms(2) by (metis ucast_0)
  with one show ?thesis using ascii_ucast(2) [of c] by simp
next
  case two
  then show ?thesis by (simp add: lead2 charCount_lead_Cons charCount_cont_Cons del: charCount_loop.simps)
next
  case three
  then show ?thesis by (simp add: lead3 charCount_lead_Cons charCount_cont_Cons del: charCount_loop.simps)
next
  case four
  then show ?thesis
    using assms by (simp add: lead4 charCount_lead_Cons charCount_cont_Cons del: charCount_loop.simps)
qed

section \<open>UCS-2 conversions\<close>

lemma ucast_u16_less: "(ucast (u :: u16) :: u32) < 0x10000"
  using unsigned_less [of u, where 'a = nat]
  by (simp add: word_less_nat_alt unsigned_ucast_eq unsigned_take_bit_eq take_bit_nat_eq_self)

lemma ucast_u16_u32 [simp]: "ucast (ucast (u :: u16) :: u32) = u"
  by (rule bit_word_eqI) (simp add: bit_simps)

lemma StringToUCS2_loop_char:
  fixes u :: u16
  defines "e \<equiv> UCS4toUTF8 (ucast u)"
  shows "StringToUCS2_loop t (pre @ e @ rest) (length pre) rval =
    StringToUCS2_loop t (pre @ e @ rest) (length pre + length e) (rval @ [u])"
proof (cases "ucast u :: u32" rule: UCS4toUTF8_cases)
  case one
  then show ?thesis
    using ascii_ucast [of "ucast u"]
    by (subst StringToUCS2_loop.simps) (simp add: e_def nth_append seqLen_eq UTF8CharLen_def)
next
  case two
  then show ?thesis
    by (subst StringToUCS2_loop.simps)
      (simp add: e_def nth_append lead2 rd_def join_simps Let_def UTF8CharLen_def)
next
  case three
  then have "\<not> (ucast u :: u32) < 0x80" by (simp add: word_less_nat_alt)
  with three show ?thesis
    by (subst StringToUCS2_loop.simps)
      (simp add: e_def nth_append lead3 rd_def join_simps Let_def UTF8CharLen_def numeral_3_eq_3)
next
  case four
  with ucast_u16_less [of u] show ?thesis by simp
qed

lemma StringToUCS2_loop_prefix:
  "StringToUCS2_loop t (pre @ UCS2ToString us @ rest) (length pre) rval =
   StringToUCS2_loop t (pre @ UCS2ToString us @ rest) (length (pre @ UCS2ToString us)) (rval @ us)"
proof (induction us arbitrary: pre rval)
  case Nil
  then show ?case by simp
next
  case (Cons u us)
  have "StringToUCS2_loop t (pre @ UCS2ToString (u # us) @ rest) (length pre) rval =
      StringToUCS2_loop t ((pre @ UCS4toUTF8 (ucast u)) @ UCS2ToString us @ rest)
        (length (pre @ UCS4toUTF8 (ucast u))) (rval @ [u])"
    using StringToUCS2_loop_char [of t pre u "UCS2ToString us @ rest" rval] by simp
  also have "\<dots> = StringToUCS2_loop t ((pre @ UCS4toUTF8 (ucast u)) @ UCS2ToString us @ rest)
        (length ((pre @ UCS4toUTF8 (ucast u)) @ UCS2ToString us)) ((rval @ [u]) @ us)"
    by (rule Cons.IH)
  finally show ?case by (simp add: add.assoc)
qed

lemma StringToUCS2_loop_end: "length s \<le> p \<Longrightarrow> StringToUCS2_loop t s p rval = Inr rval"
  by (subst StringToUCS2_loop.simps) simp

text \<open>With exceptions on, the loop tests every continuation byte before it reads past it.\<close>

lemma StringToUCS2_loop_safe: "StringToUCS2_loop True s p rval \<noteq> Inl BadRead"
proof (induction "length s - p" arbitrary: p rval rule: less_induct)
  case less
  show ?case
  proof (cases "p < length s")
    case True
    then have IH: "StringToUCS2_loop True s q r \<noteq> Inl BadRead" if "p < q" for q r
      using less that by (simp add: diff_less_mono2)
    show ?thesis
      using True IH
      by (subst StringToUCS2_loop.simps) (auto simp: Let_def rd_def rbind_def nth_append split: if_splits)
  qed (simp add: StringToUCS2_loop_end)
qed

section \<open>The range of the decoder\<close>

lemma u32_small_bits:
  assumes "\<And>n. k \<le> n \<Longrightarrow> n < 32 \<Longrightarrow> \<not> bit (c :: u32) n"
  shows "unat c < 2 ^ k"
proof -
  have "c = take_bit k c"
  proof (rule bit_word_eqI)
    fix n
    assume "n < LENGTH(32)"
    then show "bit c n = bit (take_bit k c) n"
      using assms [of n] by (cases "n < k") (simp_all add: bit_simps)
  qed
  then have "unat c = unat c mod 2 ^ k"
    by (metis take_bit_eq_mod unsigned_take_bit_eq)
  then show ?thesis by (metis mod_less_divisor zero_less_numeral zero_less_power)
qed

lemma and_masks:
  fixes x :: u32
  shows "x AND 0x03 = take_bit 2 x" "x AND 0x0f = take_bit 4 x" "x AND 0x1f = take_bit 5 x"
    "x AND 0x3f = take_bit 6 x"
  by (simp_all add: take_bit_eq_mask mask_eq_exp_minus_1)

lemma decode_bounds:
  fixes c0 c1 c2 c3 :: u32
  shows "(ucast (b0 :: u8) :: u32) < 0x100"
    and "push_bit 6 (c0 AND 0x1f) OR (c1 AND 0x3f) < 0x800"
    and "push_bit 12 (c0 AND 0x0f) OR push_bit 6 (c1 AND 0x3f) OR (c2 AND 0x3f) < 0x10000"
    and "push_bit 18 (c0 AND 0x03) OR push_bit 12 (c1 AND 0x3f) OR push_bit 6 (c2 AND 0x3f)
      OR (c3 AND 0x3f) < 0x100000"
proof -
  have "unat (ucast b0 :: u32) < 2 ^ 8"
    by (rule u32_small_bits) (auto simp: bit_simps dest: bit_imp_le_length)
  then show "(ucast b0 :: u32) < 0x100" by (simp add: word_less_nat_alt)
  have "unat (push_bit 6 (c0 AND 0x1f) OR (c1 AND 0x3f)) < 2 ^ 11"
    unfolding and_masks by (rule u32_small_bits) (auto simp: bit_simps)
  then show "push_bit 6 (c0 AND 0x1f) OR (c1 AND 0x3f) < 0x800" by (simp add: word_less_nat_alt)
  have "unat (push_bit 12 (c0 AND 0x0f) OR push_bit 6 (c1 AND 0x3f) OR (c2 AND 0x3f)) < 2 ^ 16"
    unfolding and_masks by (rule u32_small_bits) (auto simp: bit_simps)
  then show "push_bit 12 (c0 AND 0x0f) OR push_bit 6 (c1 AND 0x3f) OR (c2 AND 0x3f) < 0x10000"
    by (simp add: word_less_nat_alt)
  have "unat (push_bit 18 (c0 AND 0x03) OR push_bit 12 (c1 AND 0x3f) OR push_bit 6 (c2 AND 0x3f)
      OR (c3 AND 0x3f)) < 2 ^ 20"
    unfolding and_masks by (rule u32_small_bits) (auto simp: bit_simps)
  then show "push_bit 18 (c0 AND 0x03) OR push_bit 12 (c1 AND 0x3f) OR push_bit 6 (c2 AND 0x3f)
      OR (c3 AND 0x3f) < 0x100000" by (simp add: word_less_nat_alt)
qed

lemmas decode_bounds_simps = decode_bounds [simplified]

text \<open>
  A well formed sequence at the pointer: it lies in the buffer, holds no terminator after
  its first byte, and needs at least the bytes its code point encodes to.
\<close>

lemma decode_wellformed:
  assumes "UTF8toUCS4 p = Inr c" and "c \<noteq> bad_char"
  obtains b q where "p = b # q" "1 \<le> seqLen b" "seqLen b \<le> length p" "UTF8CharLen c \<le> seqLen b"
    "0 \<notin> set (take (seqLen b - 1) q)"
proof -
  obtain b q where p: "p = b # q" using assms(1) by (cases p) (auto simp: UTF8toUCS4_def rd_def)
  have nz: "b \<noteq> 0" using assms(1) by (auto simp: p UTF8toUCS4_def)
  have "seqLen b = 1 \<or> seqLen b = 2 \<or> seqLen b = 3 \<or> seqLen b = 4"
    using assms by (auto simp: p UTF8toUCS4_def Let_def split: if_splits)
  then have "1 \<le> seqLen b \<and> seqLen b \<le> length p \<and> UTF8CharLen c \<le> seqLen b \<and>
    0 \<notin> set (take (seqLen b - 1) q)"
  proof (elim disjE)
    assume "seqLen b = 1"
    moreover from this have "b < 0x80" by (auto simp: seqLen_eq split: if_splits)
    then have "(ucast b :: u32) < 0x80"
      by (simp add: word_less_nat_alt unsigned_ucast_eq unsigned_take_bit_eq take_bit_nat_eq_self)
    ultimately show ?thesis using assms nz by (auto simp: p UTF8toUCS4_def Let_def UTF8CharLen_def)
  next
    assume "seqLen b = 2"
    then show ?thesis using assms nz decode_bounds(2)
      by (auto simp: p UTF8toUCS4_def Let_def UTF8CharLen_def rbind_def rd_def numeral_2_eq_2 take_Suc_conv_app_nth Suc_le_eq
        split: sum.splits if_splits)
  next
    assume "seqLen b = 3"
    then show ?thesis using assms nz
      by (auto simp: p UTF8toUCS4_def Let_def UTF8CharLen_def rbind_def rd_def numeral_2_eq_2 numeral_3_eq_3
        take_Suc_conv_app_nth decode_bounds_simps split: sum.splits if_splits)
  next
    assume "seqLen b = 4"
    then show ?thesis using assms nz
      by (auto simp: p UTF8toUCS4_def Let_def UTF8CharLen_def rbind_def rd_def eval_nat_numeral
        take_Suc_conv_app_nth decode_bounds_simps split: sum.splits if_splits)
  qed
  then show thesis using p that by blast
qed

text \<open>
  Decoding stops at the terminator: it reads no byte past it, whatever the bytes are.
\<close>

lemma UTF8toUCS4_range:
  assumes "0 \<in> set p" and "hd p \<noteq> 0"
  shows "\<exists>c. UTF8toUCS4 p = Inr c \<and> (c = bad_char \<or> c < 0x100000)"
proof -
  obtain b q where p: "p = b # q" and z: "0 \<in> set q" and nz: "b \<noteq> 0" using assms by (cases p) auto
  show ?thesis
  proof (cases "2 \<le> seqLen b")
    case False
    have "(ucast b :: u32) < 0x100000"
      using decode_bounds(1) [of b] by (simp add: word_less_nat_alt)
    then show ?thesis using False nz by (auto simp: p UTF8toUCS4_def Let_def)
  next
    case True
    then obtain b1 q1 where q: "q = b1 # q1" and z1: "b1 = 0 \<or> 0 \<in> set q1"
      using z seqLen_lead_byte [of b] by (cases q) auto
    have lt: "x < 0x800 \<Longrightarrow> x < 0x100000" "x < 0x10000 \<Longrightarrow> x < 0x100000" for x :: u32
      by (simp_all add: word_less_nat_alt)
    show ?thesis
      using True z1 nz by (cases q1; cases "tl q1")
        (auto simp: p q UTF8toUCS4_def Let_def numeral_2_eq_2 numeral_3_eq_3 lt decode_bounds_simps)
  qed
qed

lemma charCount_loop_encoded:
  assumes "\<And>c. c \<in> set cs \<Longrightarrow> c \<noteq> 0 \<and> c < 0x110000"
  shows "charCount_loop (concat (map UCS4toUTF8 cs) @ [0]) n = Inr (n + length cs)"
  using assms by (induction cs arbitrary: n) (simp_all add: charCount_encoded)

section \<open>Properties of the codec\<close>

text \<open>
  C1. Round trip of one character: the decoder returns every code point from 1 to 0xFFFFF
  that the encoder wrote, whatever follows in the buffer. The code point 0 is encoded as the
  terminator, which the decoder's assertion refuses.
\<close>

theorem utf8_roundtrip:
  assumes "c < 0x100000"
  shows "UTF8toUCS4 (UCS4toUTF8 c @ rest) = (if c = 0 then Inl AssertionException else Inr c)"
proof (cases "c = 0")
  case False
  moreover have "c < 0x110000" using assms by (simp add: word_less_nat_alt)
  ultimately show ?thesis using assms by (simp add: decode_encoded and_0xFFFFF_small)
qed (simp add: UCS4toUTF8_def UTF8toUCS4_def)

theorem utf8_roundtrip_witness: "UTF8toUCS4 (UCS4toUTF8 0x20AC @ [0x41]) = Inr 0x20AC"
  using utf8_roundtrip [of "0x20AC" "[0x41]"] by simp

text \<open>
  Code points of plane 16 do not survive: the mask \<open>c0 & 0x03u\<close> drops the third
  payload bit of the lead byte 0xF4, and the decoder returns the code point minus
  0x100000, so the first of them decodes to the terminator.
\<close>

theorem utf8_plane16_decodes_wrong:
  assumes "0x100000 \<le> c" and "c < 0x110000"
  shows "UTF8toUCS4 (UCS4toUTF8 c @ rest) = Inr (c - 0x100000)"
proof -
  have "\<not> c < 0x10000" using assms(1) by (simp add: word_less_nat_alt word_le_nat_alt)
  moreover have "c AND 0xFFFFF = c - 0x100000"
  proof -
    have n: "1048576 \<le> unat c" "unat c < 1114112"
      using assms by (simp_all add: word_less_nat_alt word_le_nat_alt)
    have "c AND 0xFFFFF = take_bit 20 c" by (simp add: take_bit_eq_mask mask_eq_exp_minus_1)
    then have "unat (c AND 0xFFFFF) = unat c mod 1048576"
      by (simp add: unat_mod take_bit_eq_mod)
    moreover have "unat (c - 0x100000) = unat c - 1048576"
      using assms(1) by (simp add: unat_sub)
    ultimately show ?thesis using n by (simp add: word_unat_eq_iff mod_if)
  qed
  moreover have "c \<noteq> 0" using assms(1) by auto
  ultimately show ?thesis using decode_encoded [OF assms(2)] by simp
qed

theorem utf8_plane16_decodes_wrong_witness:
  "UCS4toUTF8 0x10FFFF = [0xF4, 0x8F, 0xBF, 0xBF] \<and>
   UTF8toUCS4 [0xF4, 0x8F, 0xBF, 0xBF] = Inr 0xFFFF"
proof -
  have e: "UCS4toUTF8 0x10FFFF = [0xF4, 0x8F, 0xBF, 0xBF]" by (simp add: UCS4toUTF8_def)
  show ?thesis using utf8_plane16_decodes_wrong [of "0x10FFFF" "[]"] e by simp
qed

text \<open>
  Decoding is memory safe and total on any C string that is not empty, well formed or not: it
  returns a code point, either the mark of a malformed sequence or a value below 0x100000.
\<close>

theorem utf8_decode_total:
  assumes "s \<noteq> []" and "0 \<notin> set s"
  shows "\<exists>c. UTF8toUCS4 (s @ [0]) = Inr c \<and> (c = 0xFFFFFFFF \<or> c < 0x100000)"
  using assms by (cases s) (auto intro!: UTF8toUCS4_range)

theorem utf8_decode_total_witness: "\<exists>c. UTF8toUCS4 ([0xE2, 0x84] @ [0]) = Inr c \<and> (c = 0xFFFFFFFF \<or> c < 0x100000)"
  by (rule utf8_decode_total) simp_all

text \<open>
  \<open>charCount\<close> of an encoded string is the number of code points, as long as none of
  them is the terminator.
\<close>

theorem charCount_counts_characters:
  assumes "\<And>c. c \<in> set cs \<Longrightarrow> c \<noteq> 0 \<and> c < 0x110000"
  shows "charCount (concat (map UCS4toUTF8 cs) @ [0]) = Inr (length cs)"
  using charCount_loop_encoded [of cs 0] assms by (simp add: charCount_def)

theorem charCount_counts_characters_witness:
  "charCount (concat (map UCS4toUTF8 [0x41, 0xE9, 0x20AC, 0x10400]) @ [0]) = Inr (length [0x41, 0xE9, 0x20AC, 0x10400 :: u32])"
  by (rule charCount_counts_characters) auto

text \<open>
  Round trip of UCS-2 arrays: \<open>StringToUCS2\<close> returns the array that
  \<open>UCS2ToString\<close> encoded, without an exception.
\<close>

theorem ucs2_roundtrip: "StringToUCS2 (UCS2ToString us) = Inr us"
  using StringToUCS2_loop_prefix [of True "[]" us "[]" "[]"]
  by (simp add: StringToUCS2_def StringToUCS2_loop_end)

text \<open>
  \<open>StringToUCS2\<close> never reads past the terminator: on a malformed string it throws
  before it gets there.
\<close>

theorem StringToUCS2_memory_safe: "StringToUCS2 s \<noteq> Inl BadRead"
  by (simp add: StringToUCS2_def StringToUCS2_loop_safe)

text \<open>
  \<open>StringToUCS2ReplaceInvalid\<close> reads past the terminator on every string that ends
  in the lead byte of a two byte sequence, since it falls through to the code for a
  complete sequence after it has pushed the replacement character.
\<close>

theorem ReplaceInvalid_reads_out_of_bounds:
  assumes "seqLen b = 2"
  shows "StringToUCS2ReplaceInvalid (UCS2ToString us @ [b]) = Inl BadRead"
  using assms StringToUCS2_loop_prefix [of False "[]" us "[b]" "[]"]
  by (simp add: StringToUCS2ReplaceInvalid_def)
    (subst StringToUCS2_loop.simps, simp add: nth_append rd_def Let_def)

theorem ReplaceInvalid_reads_out_of_bounds_witness:
  "StringToUCS2ReplaceInvalid (UCS2ToString [0x63, 0x61, 0x66] @ [0xC3]) = Inl BadRead"
  by (rule ReplaceInvalid_reads_out_of_bounds) (simp add: seqLen_eq)

end
