(* ===== verification/UTF8_Case.thy ===== *)
theory UTF8_Case
  imports UTF8_Tables
begin

text \<open>
  Case conversion of \<open>src/blocxx/UTF8Utils.cpp\<close>: the \<open>Transformer\<close> that looks a code
  point up in a mapping table by binary search, \<open>transform\<close>, which builds a new string,
  and \<open>transformInPlace\<close>, which overwrites its argument. The two loops take any mapping
  of code points; what they need of it is the interface \<open>char_mapping\<close>.
\<close>

section \<open>Definitions\<close>

definition Transformer :: "CaseMapping list \<Rightarrow> u32 \<Rightarrow> u32" where
  "Transformer table inp =
     (let i = lower_bound (\<lambda>e. fst e < inp) table in
      if i = length table \<or> fst (table ! i) \<noteq> inp then inp else snd (table ! i))"

text \<open>\<open>transform\<close> at position \<open>p\<close> of the input buffer \<open>m\<close>.\<close>

function transform_loop :: "(u32 \<Rightarrow> u32) \<Rightarrow> bytes \<Rightarrow> nat \<Rightarrow> bytes \<Rightarrow> utf8_error + bytes" where
  "transform_loop transformer m p rval =
     (case rd m p of Inl e \<Rightarrow> Inl e
      | Inr c0 \<Rightarrow>
        if c0 = 0 then Inr rval
        else (case UTF8toUCS4 (drop p m) of Inl e \<Rightarrow> Inl e
          | Inr ucs4char \<Rightarrow>
            if ucs4char = bad_char then transform_loop transformer m (p + 1) (rval @ [c0])
            else transform_loop transformer m (p + seqLen c0)
                   (rval @ UCS4toUTF8 (transformer ucs4char))))"
  by pat_completeness auto
termination
proof (relation "measure (\<lambda>(transformer, m, p, rval). length m - p)", goal_cases)
  case (3 transformer m p rval c0 c)
  then have "drop p m = c0 # drop (p + 1) m" "p < length m"
    by (auto simp: rd_def Cons_nth_drop_Suc split: if_splits)
  moreover obtain b q where "drop p m = b # q" "1 \<le> seqLen b"
    using decode_wellformed [OF 3(3,4)] by metis
  ultimately show ?case by auto
qed (auto simp: rd_def split: if_splits)

declare transform_loop.simps [simp del]

definition transform :: "bytes \<Rightarrow> (u32 \<Rightarrow> u32) \<Rightarrow> utf8_error + bytes" where
  "transform input transformer = transform_loop transformer input 0 []"

text \<open>A write through a pointer into the buffer, and \<open>UCS4toUTF8(ucs4char, char* p)\<close>.\<close>

definition wr :: "bytes \<Rightarrow> nat \<Rightarrow> u8 \<Rightarrow> utf8_error + bytes" where
  "wr m i v = (if i < length m then Inr (m[i := v]) else Inl BadWrite)"

fun write_bytes :: "bytes \<Rightarrow> nat \<Rightarrow> bytes \<Rightarrow> utf8_error + bytes" where
  "write_bytes m i [] = Inr m"
| "write_bytes m i (v # vs) = rbind (wr m i v) (\<lambda>m'. write_bytes m' (i + 1) vs)"

definition write_UCS4toUTF8 :: "u32 \<Rightarrow> bytes \<Rightarrow> nat \<Rightarrow> utf8_error + bytes" where
  "write_UCS4toUTF8 c m i =
     (if c < 0x80 then write_bytes m i [ucast c]
      else if c < 0x800 then
        write_bytes m i [ucast (0xc0 OR drop_bit 6 c), ucast (0x80 OR (c AND 0x3f))]
      else if c < 0x10000 then
        write_bytes m i [ucast (0xe0 OR drop_bit 12 c), ucast (0x80 OR (drop_bit 6 c AND 0x3f)),
         ucast (0x80 OR (c AND 0x3f))]
      else
        write_bytes m i [ucast (0xf0 OR drop_bit 18 c), ucast (0x80 OR (drop_bit 12 c AND 0x3f)),
         ucast (0x80 OR (drop_bit 6 c AND 0x3f)), ucast (0x80 OR (c AND 0x3f))])"

lemma write_UCS4toUTF8_eq: "write_UCS4toUTF8 c m i = write_bytes m i (UCS4toUTF8 c)"
  by (simp add: write_UCS4toUTF8_def UCS4toUTF8_def)

lemma write_bytes_eq:
  "write_bytes m i vs = (if vs = [] \<or> i + length vs \<le> length m
     then Inr (take i m @ vs @ drop (i + length vs) m) else Inl BadWrite)"
proof (induction m i vs rule: write_bytes.induct)
  case (2 m i v vs)
  show ?case
  proof (cases "i < length m")
    case True
    with 2 show ?thesis
      by (auto simp: wr_def upd_conv_take_nth_drop take_Suc_conv_app_nth min_def not_le add.commute)
  qed (simp add: wr_def)
qed simp

text \<open>
  \<open>transformInPlace\<close> with its read pointer at \<open>p\<close> and its write pointer at \<open>output\<close>.
  The test \<open>p > output\<close> is the code's: its comment speaks of a string that would grow.
\<close>

function transformInPlace_loop ::
  "(u32 \<Rightarrow> u32) \<Rightarrow> bytes \<Rightarrow> nat \<Rightarrow> nat \<Rightarrow> utf8_error + bool \<times> bytes" where
  "transformInPlace_loop transformer m p output =
     (case rd m p of Inl e \<Rightarrow> Inl e
      | Inr c0 \<Rightarrow>
        if c0 = 0 then rbind (wr m output 0) (\<lambda>m'. Inr (True, m'))
        else (case UTF8toUCS4 (drop p m) of Inl e \<Rightarrow> Inl e
          | Inr ucs4char \<Rightarrow>
            if ucs4char = bad_char then transformInPlace_loop transformer m (p + 1) (output + 1)
            else let newUcs4Char = transformer ucs4char; prevCharLen = seqLen c0;
                     newCharLen = UTF8CharLen newUcs4Char in
              if p > output then Inr (False, m)
              else (case write_UCS4toUTF8 newUcs4Char m output of Inl e \<Rightarrow> Inl e
                | Inr m' \<Rightarrow>
                  transformInPlace_loop transformer m' (p + prevCharLen) (output + newCharLen))))"
  by pat_completeness auto
termination
proof (relation "measure (\<lambda>(transformer, m, p, output). length m - p)", goal_cases)
  case (3 transformer m p out c0 c new prev newlen m')
  then have "drop p m = c0 # drop (p + 1) m" "p < length m"
    by (auto simp: rd_def Cons_nth_drop_Suc split: if_splits)
  moreover obtain b q where "drop p m = b # q" "1 \<le> seqLen b"
    using decode_wellformed [OF 3(3,4)] by metis
  moreover have "length m' = length m"
    using 3(9) by (auto simp: write_UCS4toUTF8_eq write_bytes_eq split: if_splits)
  ultimately show ?case using 3(6) by auto
qed (auto simp: rd_def split: if_splits)

declare transformInPlace_loop.simps [simp del]

definition transformInPlace :: "bytes \<Rightarrow> (u32 \<Rightarrow> u32) \<Rightarrow> utf8_error + bool \<times> bytes" where
  "transformInPlace input transformer = transformInPlace_loop transformer input 0 0"

definition toUpperCase :: "bytes \<Rightarrow> utf8_error + bytes" where
  "toUpperCase input = transform input (Transformer upperMappings)"

definition toLowerCase :: "bytes \<Rightarrow> utf8_error + bytes" where
  "toLowerCase input = transform input (Transformer lowerMappings)"

definition toUpperCaseInPlace :: "bytes \<Rightarrow> utf8_error + bool \<times> bytes" where
  "toUpperCaseInPlace input = transformInPlace input (Transformer upperMappings)"

definition toLowerCaseInPlace :: "bytes \<Rightarrow> utf8_error + bool \<times> bytes" where
  "toLowerCaseInPlace input = transformInPlace input (Transformer lowerMappings)"

section \<open>The lookup is the finite map of the table\<close>

lemma Transformer_map_of:
  assumes "sorted_wrt (<) (map fst t)"
  shows "Transformer t c = (case map_of t c of None \<Rightarrow> c | Some m \<Rightarrow> m)"
proof -
  have part: "partitioned (\<lambda>e. fst e < c) t"
    using assms by (intro sorted_wrt_partitioned [where lt = "\<lambda>x y. fst x < fst y"])
      (auto simp: sorted_wrt_map intro: transpI)
  let ?w = "takeWhile (\<lambda>e. fst e < c) t" and ?d = "dropWhile (\<lambda>e. fst e < c) t"
  have t: "t = ?w @ ?d" by simp
  have w: "map_of ?w c = None"
    by (metis (mono_tags, lifting) less_irrefl map_of_eq_None_iff image_iff set_takeWhileD)
  have lb: "lower_bound (\<lambda>e. fst e < c) t = length ?w" by (rule lower_bound_takeWhile [OF part])
  have mo: "map_of t c = map_of ?d c"
  proof -
    have "map_of (?w @ ?d) c = map_of ?d c" unfolding map_of_append using w
      by (simp add: map_add_def split: option.split)
    then show ?thesis by simp
  qed
  show ?thesis
  proof (cases ?d)
    case Nil
    then have "length ?w = length t" by (metis append_Nil2 t)
    moreover have "map_of ?d c = None" by (simp only: Nil map_of.simps)
    ultimately show ?thesis using lb mo by (simp add: Transformer_def)
  next
    case (Cons e d)
    have "length t = length ?w + length ?d" by (metis length_append t)
    then have ne: "length ?w \<noteq> length t" using Cons by simp
    have nth: "t ! length ?w = e" using Cons by (metis nth_append_length t)
    have ge: "\<not> fst e < c" using Cons hd_dropWhile [of "\<lambda>e. fst e < c" t] by simp
    show ?thesis
    proof (cases "fst e = c")
      case True
      then show ?thesis using lb nth ne mo Cons by (cases e) (simp add: Transformer_def Let_def)
    next
      case False
      with ge have gt: "c < fst e" by simp
      have "sorted_wrt (<) (map fst (?w @ e # d))" using assms unfolding Cons [symmetric] by simp
      then have "sorted_wrt (<) (map fst (e # d))" by (simp only: map_append sorted_wrt_append)
      then have "\<forall>x \<in> set d. c < fst x" using gt by auto
      then have "map_of d c = None" unfolding map_of_eq_None_iff by fastforce
      then show ?thesis using lb nth ne mo Cons False by (cases e) (simp add: Transformer_def Let_def)
    qed
  qed
qed

lemmas Transformer_tables =
  Transformer_map_of [OF lowerMappings_sorted] Transformer_map_of [OF upperMappings_sorted]

section \<open>Strings of encoded characters\<close>

definition encode :: "u32 list \<Rightarrow> bytes" where
  "encode cs = concat (map UCS4toUTF8 cs)"

lemma encode_simps [simp]: "encode [] = []" "encode (c # cs) = UCS4toUTF8 c @ encode cs"
  by (simp_all add: encode_def)

text \<open>The characters that the codec carries: no terminator, and below plane 16.\<close>

definition text_char :: "u32 \<Rightarrow> bool" where
  "text_char c = (c \<noteq> 0 \<and> c < 0x100000)"

lemma text_char_decode:
  assumes "text_char c"
  shows "UTF8toUCS4 (UCS4toUTF8 c @ rest) = Inr c" and "c \<noteq> bad_char"
    and "seqLen (hd (UCS4toUTF8 c)) = UTF8CharLen c" and "hd (UCS4toUTF8 c) \<noteq> 0"
proof -
  have lt: "c < 0x110000" using assms by (simp add: text_char_def word_less_nat_alt)
  have "c AND 0xFFFFF = c" using assms by (simp add: text_char_def and_0xFFFFF_small)
  moreover have "c \<noteq> 0" using assms by (simp add: text_char_def)
  ultimately show "UTF8toUCS4 (UCS4toUTF8 c @ rest) = Inr c" using decode_encoded [OF lt] by simp
  show "c \<noteq> bad_char" using assms by (auto simp: text_char_def)
  show len: "seqLen (hd (UCS4toUTF8 c)) = UTF8CharLen c" by (rule seqLen_encoded [OF lt])
  show "hd (UCS4toUTF8 c) \<noteq> 0"
  proof (cases "c < 0x80")
    case True
    then have "(ucast c :: u8) \<noteq> 0"
      using ascii_ucast(1) [of c] assms by (metis text_char_def ucast_0)
    then show ?thesis using True by (simp add: UCS4toUTF8_def)
  next
    case False
    then have "2 \<le> seqLen (hd (UCS4toUTF8 c))" by (simp add: len UTF8CharLen_def)
    then show ?thesis using seqLen_lead_byte by blast
  qed
qed

lemma rd_hd [simp]: "e \<noteq> [] \<Longrightarrow> rd (pre @ e @ rest) (length pre) = Inr (hd e)"
  by (cases e) (simp_all add: rd_def nth_append)

lemma rd_terminator [simp]: "rd (pre @ b # rest) (length pre) = Inr b"
  by (simp add: rd_def nth_append)

section \<open>\<open>transform\<close>\<close>

lemma transform_loop_encode:
  assumes "\<And>c. c \<in> set cs \<Longrightarrow> text_char c"
  shows "transform_loop T (pre @ encode cs @ 0 # junk) (length pre) rval = Inr (rval @ encode (map T cs))"
  using assms
proof (induction cs arbitrary: pre rval)
  case Nil
  show ?case by (subst transform_loop.simps) simp
next
  case (Cons c cs)
  then have t: "text_char c" by simp
  have "transform_loop T (pre @ encode (c # cs) @ 0 # junk) (length pre) rval =
      transform_loop T ((pre @ UCS4toUTF8 c) @ encode cs @ 0 # junk) (length (pre @ UCS4toUTF8 c))
        (rval @ UCS4toUTF8 (T c))"
    using text_char_decode [OF t] by (subst transform_loop.simps) simp
  also have "\<dots> = Inr ((rval @ UCS4toUTF8 (T c)) @ encode (map T cs))"
    by (rule Cons.IH) (use Cons.prems in simp)
  finally show ?case by simp
qed

lemma decode_at:
  assumes "rd m p = Inr b" and "UTF8toUCS4 (drop p m) = Inr c" and "c \<noteq> bad_char"
  shows "1 \<le> seqLen b" and "p + seqLen b \<le> length m" and "UTF8CharLen c \<le> seqLen b"
    and "b \<noteq> 0 \<Longrightarrow> 0 \<in> set (drop p m) \<Longrightarrow> 0 \<in> set (drop (p + seqLen b) m)"
proof -
  have d: "drop p m = b # drop (p + 1) m" "p < length m"
    using assms(1) by (auto simp: rd_def Cons_nth_drop_Suc split: if_splits)
  obtain b' q where bq: "drop p m = b' # q" "1 \<le> seqLen b'" "seqLen b' \<le> length (drop p m)"
    "UTF8CharLen c \<le> seqLen b'" "0 \<notin> set (take (seqLen b' - 1) q)"
    using decode_wellformed [OF assms(2,3)] by metis
  then have b': "b' = b" "q = drop (p + 1) m" using d(1) by simp_all
  with bq d show "1 \<le> seqLen b" "p + seqLen b \<le> length m" "UTF8CharLen c \<le> seqLen b" by auto
  assume nz: "b \<noteq> 0" and z: "0 \<in> set (drop p m)"
  have "drop (seqLen b - 1) q = drop (p + seqLen b) m"
    using bq(2) b' by (simp add: add.commute)
  moreover have "set q = set (take (seqLen b - 1) q) \<union> set (drop (seqLen b - 1) q)"
    by (metis append_take_drop_id set_append)
  moreover have "0 \<in> set q" using nz z d(1) b' by auto
  ultimately show "0 \<in> set (drop (p + seqLen b) m)" using bq(5) b' by auto
qed

lemma terminator_Suc: "rd m p = Inr b \<Longrightarrow> b \<noteq> 0 \<Longrightarrow> 0 \<in> set (drop p m) \<Longrightarrow> 0 \<in> set (drop (p + 1) m)"
  by (auto simp: rd_def Cons_nth_drop_Suc [symmetric] split: if_splits)

lemma terminator_rd: "0 \<in> set (drop p m) \<Longrightarrow> \<exists>b. rd m p = Inr b \<and> p < length m"
  by (cases "p < length m") (auto simp: rd_def)

lemma decode_at_rd:
  assumes "rd m p = Inr b" and "0 \<in> set (drop p m)"
  shows "\<exists>c. b \<noteq> 0 \<longrightarrow> UTF8toUCS4 (drop p m) = Inr c"
proof -
  have "drop p m = b # drop (p + 1) m"
    using assms(1) by (auto simp: rd_def Cons_nth_drop_Suc split: if_splits)
  then show ?thesis using UTF8toUCS4_range [OF assms(2)] by fastforce
qed

text \<open>Any C string, well formed or not, is transformed without a wild read.\<close>

lemma transform_loop_safe: "0 \<in> set (drop p m) \<Longrightarrow> \<exists>r. transform_loop T m p rval = Inr r"
proof (induction "length m - p" arbitrary: p rval rule: less_induct)
  case less
  obtain b where b: "rd m p = Inr b" "p < length m" using terminator_rd [OF less.prems] by blast
  obtain c where c: "b \<noteq> 0 \<Longrightarrow> UTF8toUCS4 (drop p m) = Inr c"
    using decode_at_rd [OF b(1) less.prems] by blast
  have IH: "\<exists>r. transform_loop T m q rv = Inr r" if "p < q" "0 \<in> set (drop q m)" for q rv
    using less.hyps [of q] that b by (simp add: diff_less_mono2)
  consider (nul) "b = 0" | (bad) "b \<noteq> 0" "c = bad_char" | (ok) "b \<noteq> 0" "c \<noteq> bad_char" by blast
  then show ?case
  proof cases
    case nul
    then show ?thesis using b by (subst transform_loop.simps) simp
  next
    case bad
    then show ?thesis using b c IH [of "p + 1"] terminator_Suc [OF b(1) _ less.prems]
      by (subst transform_loop.simps) simp
  next
    case ok
    then show ?thesis
      using b c IH [of "p + seqLen b"] decode_at [OF b(1) c [OF ok(1)]] less.prems
      by (subst transform_loop.simps) simp
  qed
qed

section \<open>\<open>transformInPlace\<close>, for a mapping that needs no more bytes than its argument\<close>

locale char_mapping =
  fixes T :: "u32 \<Rightarrow> u32"
  assumes no_growth: "UTF8CharLen (T c) \<le> UTF8CharLen c"
begin

text \<open>One character at the position both pointers share.\<close>

lemma inPlace_char:
  assumes "text_char c"
  shows "transformInPlace_loop T (pre @ UCS4toUTF8 c @ rest) (length pre) (length pre) =
    transformInPlace_loop T (pre @ UCS4toUTF8 (T c) @ drop (UTF8CharLen (T c)) (UCS4toUTF8 c) @ rest)
      (length pre + UTF8CharLen c) (length pre + UTF8CharLen (T c))"
  using text_char_decode [OF assms] no_growth [of c]
  by (subst transformInPlace_loop.simps) (simp add: write_UCS4toUTF8_eq write_bytes_eq Let_def)

lemma inPlace_shrunk:
  assumes "text_char c" and "output < length pre"
  shows "transformInPlace_loop T (pre @ UCS4toUTF8 c @ rest) (length pre) output =
    Inr (False, pre @ UCS4toUTF8 c @ rest)"
  using text_char_decode [OF assms(1)] assms(2)
  by (subst transformInPlace_loop.simps) (simp add: Let_def)

lemma inPlace_end:
  assumes "output \<le> length pre"
  shows "transformInPlace_loop T (pre @ 0 # rest) (length pre) output =
    Inr (True, take output pre @ 0 # drop (Suc output) (pre @ 0 # rest))"
  using assms by (subst transformInPlace_loop.simps) (simp add: wr_def upd_conv_take_nth_drop)

text \<open>
  On text the routine reports success exactly when no character but the last one
  shrinks, and then the buffer holds the transformed string.
\<close>

lemma inPlace_encode:
  assumes "\<And>c. c \<in> set cs \<Longrightarrow> text_char c"
  shows "\<exists>m'. transformInPlace_loop T (pre @ encode cs @ [0]) (length pre) (length pre) =
      Inr (\<forall>c \<in> set (butlast cs). UTF8CharLen (T c) = UTF8CharLen c, m') \<and>
    ((\<forall>c \<in> set (butlast cs). UTF8CharLen (T c) = UTF8CharLen c) \<longrightarrow>
      (\<exists>junk. m' = pre @ encode (map T cs) @ 0 # junk))"
  using assms
proof (induction cs arbitrary: pre)
  case Nil
  show ?case using inPlace_end [of "length pre" pre "[]"] by simp
next
  case (Cons c cs)
  let ?e = "UCS4toUTF8 (T c)" and ?k = "drop (UTF8CharLen (T c)) (UCS4toUTF8 c)"
  have t: "text_char c" using Cons.prems by simp
  have step: "transformInPlace_loop T (pre @ encode (c # cs) @ [0]) (length pre) (length pre) =
      transformInPlace_loop T ((pre @ ?e @ ?k) @ encode cs @ [0])
        (length (pre @ ?e @ ?k)) (length (pre @ ?e))"
    using inPlace_char [OF t, of pre "encode cs @ [0]"] no_growth [of c] by simp
  show ?case
  proof (cases "UTF8CharLen (T c) = UTF8CharLen c")
    case True
    then have k: "?k = []" by simp
    have IH: "\<And>pre. \<exists>m'. transformInPlace_loop T (pre @ encode cs @ [0]) (length pre) (length pre) =
      Inr (\<forall>c \<in> set (butlast cs). UTF8CharLen (T c) = UTF8CharLen c, m') \<and>
      ((\<forall>c \<in> set (butlast cs). UTF8CharLen (T c) = UTF8CharLen c) \<longrightarrow>
        (\<exists>junk. m' = pre @ encode (map T cs) @ 0 # junk))"
      by (rule Cons.IH) (use Cons.prems in simp)
    show ?thesis using IH [of "pre @ ?e"] True unfolding step k by (cases cs) simp_all
  next
    case False
    then have lt: "length (pre @ ?e) < length (pre @ ?e @ ?k)" using no_growth [of c] by simp
    show ?thesis
    proof (cases cs)
      case Nil
      then show ?thesis using lt inPlace_end [of "length (pre @ ?e)" "pre @ ?e @ ?k" "[]"]
        unfolding step by simp
    next
      case cs: (Cons d ds)
      then have d: "text_char d" using Cons.prems by simp
      have "transformInPlace_loop T (pre @ encode (c # cs) @ [0]) (length pre) (length pre) =
          Inr (False, (pre @ ?e @ ?k) @ UCS4toUTF8 d @ encode ds @ [0])"
        unfolding step using inPlace_shrunk [OF d lt, of "encode ds @ [0]"] by (simp add: cs)
      then show ?thesis using False cs by auto
    qed
  qed
qed

text \<open>No write leaves the buffer and no read passes the terminator, whatever the bytes.\<close>

lemma inPlace_safe:
  assumes "0 \<in> set (drop p m)" and "outp \<le> p"
  shows "\<exists>r m'. transformInPlace_loop T m p outp = Inr (r, m') \<and> length m' = length m"
  using assms
proof (induction "length m - p" arbitrary: m p outp rule: less_induct)
  case less
  obtain b where b: "rd m p = Inr b" "p < length m" using terminator_rd [OF less.prems(1)] by blast
  obtain c where c: "b \<noteq> 0 \<Longrightarrow> UTF8toUCS4 (drop p m) = Inr c"
    using decode_at_rd [OF b(1) less.prems(1)] by blast
  have IH: "\<exists>r m'. transformInPlace_loop T n q ou = Inr (r, m') \<and> length m' = length m"
    if "length n = length m" "p < q" "0 \<in> set (drop q n)" "ou \<le> q" for n q ou
    using less.hyps [of n q ou] that b by (simp add: diff_less_mono2)
  consider (nul) "b = 0" | (bad) "b \<noteq> 0" "c = bad_char" | (behind) "b \<noteq> 0" "c \<noteq> bad_char" "outp < p"
    | (level) "b \<noteq> 0" "c \<noteq> bad_char" "outp = p" using less.prems(2) by force
  then show ?case
  proof cases
    case nul
    then show ?thesis using b less.prems(2) by (subst transformInPlace_loop.simps) (auto simp: wr_def)
  next
    case bad
    then show ?thesis
      using b c IH [of m "p + 1" "outp + 1"] terminator_Suc [OF b(1) _ less.prems(1)] less.prems(2)
      by (subst transformInPlace_loop.simps) simp
  next
    case behind
    then show ?thesis using b c by (subst transformInPlace_loop.simps) (auto simp: Let_def)
  next
    case level
    note at = decode_at [OF b(1) c [OF level(1)] level(2)]
    let ?e = "UCS4toUTF8 (T c)"
    have len: "UTF8CharLen (T c) \<le> seqLen b" using no_growth [of c] at(3) by simp
    then have w: "write_UCS4toUTF8 (T c) m p = Inr (take p m @ ?e @ drop (p + length ?e) m)"
      using at(2) by (simp add: write_UCS4toUTF8_eq write_bytes_eq)
    have "drop (p + seqLen b) (take p m @ ?e @ drop (p + length ?e) m) = drop (p + seqLen b) m"
      using len b(2) by (simp add: min_def add.commute)
    then show ?thesis
      using level b c w len at(1,2) at(4) [OF level(1) less.prems(1)]
        IH [of "take p m @ ?e @ drop (p + length ?e) m" "p + seqLen b" "p + UTF8CharLen (T c)"]
      by (subst transformInPlace_loop.simps) (simp add: Let_def)
  qed
qed

end

section \<open>The two tables provide the interface\<close>

lemma Transformer_no_growth:
  assumes "sorted_wrt (<) (map fst t)" and "list_all shrinks_or_keeps t"
  shows "UTF8CharLen (Transformer t c) \<le> UTF8CharLen c"
proof (cases "map_of t c")
  case None
  then show ?thesis by (simp add: Transformer_map_of [OF assms(1)])
next
  case (Some m)
  then have "(c, m) \<in> set t" by (rule map_of_SomeD)
  with assms(2) have "shrinks_or_keeps (c, m)" by (simp add: list_all_iff)
  then show ?thesis using Some by (simp add: Transformer_map_of [OF assms(1)] shrinks_or_keeps_def)
qed

interpretation lower: char_mapping "Transformer lowerMappings"
  by unfold_locales (rule Transformer_no_growth [OF lowerMappings_sorted mappings_no_growth(1)])

interpretation upper: char_mapping "Transformer upperMappings"
  by unfold_locales (rule Transformer_no_growth [OF upperMappings_sorted mappings_no_growth(2)])

section \<open>Facts for evaluation\<close>

lemma ascii_lookup:
  fixes a b :: u32
  assumes t: "t = map (\<lambda>i. (a + of_nat i, b + of_nat i)) [0..<26] @ r" and r: "beyond_ascii r"
    and s: "sorted_wrt (<) (map fst t)" and c: "c < 0x80"
  shows "Transformer t c =
    (case map_of (map (\<lambda>i. (a + of_nat i, b + of_nat i)) [0..<26]) c of None \<Rightarrow> c | Some m \<Rightarrow> m)"
proof -
  have "map_of r c = None" using r c by (force simp: map_of_eq_None_iff list_all_iff)
  then show ?thesis unfolding Transformer_map_of [OF s]
    by (subst (1) t) (simp add: map_add_def del: map_of_map split: option.split)
qed

lemma ascii_all:
  "list_all (\<lambda>n. (case map_of (map (\<lambda>i. (0x41 + of_nat i, 0x61 + of_nat i)) [0..<26]) (of_nat n :: u32) of
      None \<Rightarrow> of_nat n | Some m \<Rightarrow> m) =
    (if 0x41 \<le> (of_nat n :: u32) \<and> (of_nat n :: u32) \<le> 0x5A then of_nat n + 0x20 else (of_nat n :: u32))) [0..<128]"
  "list_all (\<lambda>n. (case map_of (map (\<lambda>i. (0x61 + of_nat i, 0x41 + of_nat i)) [0..<26]) (of_nat n :: u32) of
      None \<Rightarrow> of_nat n | Some m \<Rightarrow> m) =
    (if 0x61 \<le> (of_nat n :: u32) \<and> (of_nat n :: u32) \<le> 0x7A then of_nat n - 0x20 else (of_nat n :: u32))) [0..<128]"
  by (simp_all add: upt_conv_Cons) (simp_all add: word_le_nat_alt)

lemma Transformer_kelvin: "Transformer lowerMappings 0x212A = 0x6B"
proof -
  have "(0x212A, 0x6B) \<in> set lowerMappings_6" by (simp add: lowerMappings_6_def)
  then have "(0x212A, 0x6B) \<in> set lowerMappings" by (simp add: lowerMappings_def)
  moreover have "distinct (map fst lowerMappings)"
    using lowerMappings_sorted by (simp add: strict_sorted_iff)
  ultimately have "map_of lowerMappings 0x212A = Some 0x6B" by (simp add: map_of_eq_Some_iff)
  then show ?thesis by (simp add: Transformer_map_of [OF lowerMappings_sorted])
qed

lemma rd_numeral: "rd (b # p) (numeral n) = rd p (pred_numeral n)"
  by (simp add: rd_def)

lemma kelvin_bytes: "UCS4toUTF8 0x212A = [0xE2, 0x84, 0xAA]" "UCS4toUTF8 0x6B = [0x6B]"
  by (simp_all add: UCS4toUTF8_def)

lemma kelvin_decode: "UTF8toUCS4 (0xE2 # 0x84 # 0xAA # rest) = Inr 0x212A"
  using decode_encoded [of "0x212A" rest] by (simp add: kelvin_bytes)

lemma stray_continuation: "UTF8toUCS4 (0x80 # rest) = Inr bad_char"
  by (simp add: UTF8toUCS4_def seqLen_eq)

section \<open>Properties of case conversion\<close>

text \<open>
  C30. The binary search of \<open>Transformer\<close> over the two mapping tables of the library is
  the lookup in the finite map they list, and the identity elsewhere.
\<close>

theorem case_lookup_is_map:
  "Transformer lowerMappings c = (case map_of lowerMappings c of None \<Rightarrow> c | Some m \<Rightarrow> m) \<and>
   Transformer upperMappings c = (case map_of upperMappings c of None \<Rightarrow> c | Some m \<Rightarrow> m)"
  by (simp add: Transformer_tables)

text \<open>
  The claim of the comment in \<open>transformInPlace\<close> that no character grows when it is
  upper or lower cased holds for the tables.
\<close>

theorem case_mapping_never_grows:
  "UTF8CharLen (Transformer lowerMappings c) \<le> UTF8CharLen c \<and>
   UTF8CharLen (Transformer upperMappings c) \<le> UTF8CharLen c"
  using lower.no_growth upper.no_growth by blast

text \<open>
  On ASCII the tables are the usual case mapping: letters move by 0x20, every other
  character stays.
\<close>

theorem case_mapping_ascii:
  assumes "c < 0x80"
  shows "Transformer lowerMappings c = (if 0x41 \<le> c \<and> c \<le> 0x5A then c + 0x20 else c) \<and>
    Transformer upperMappings c = (if 0x61 \<le> c \<and> c \<le> 0x7A then c - 0x20 else c)"
proof
  note l = ascii_lookup [OF lowerMappings_split lowerMappings_sorted assms]
  note u = ascii_lookup [OF upperMappings_split upperMappings_sorted assms]
  show "Transformer lowerMappings c = (if 0x41 \<le> c \<and> c \<le> 0x5A then c + 0x20 else c)"
    unfolding l by (rule list_all_upt_word [OF ascii_all(1)]) (use assms in simp_all)
  show "Transformer upperMappings c = (if 0x61 \<le> c \<and> c \<le> 0x7A then c - 0x20 else c)"
    unfolding u by (rule list_all_upt_word [OF ascii_all(2)]) (use assms in simp_all)
qed

theorem case_mapping_ascii_witness:
  "Transformer lowerMappings 0x51 = 0x71 \<and> Transformer upperMappings 0x51 = 0x51"
  using case_mapping_ascii [of "0x51"] by simp



text \<open>
  Case conversion is memory safe on any C string, well formed or not: no read passes
  the terminator, no write leaves the buffer, and every loop ends.
\<close>

theorem case_conversion_memory_safe:
  "(\<exists>r. toLowerCase (s @ [0]) = Inr r) \<and> (\<exists>r. toUpperCase (s @ [0]) = Inr r) \<and>
   (\<exists>r m. toLowerCaseInPlace (s @ [0]) = Inr (r, m) \<and> length m = length (s @ [0])) \<and>
   (\<exists>r m. toUpperCaseInPlace (s @ [0]) = Inr (r, m) \<and> length m = length (s @ [0]))"
proof -
  have z: "0 \<in> set (drop 0 (s @ [0 :: u8]))" by simp
  show ?thesis
    unfolding toLowerCase_def toUpperCase_def toLowerCaseInPlace_def toUpperCaseInPlace_def
      transform_def transformInPlace_def
    using transform_loop_safe [OF z] lower.inPlace_safe [OF z] upper.inPlace_safe [OF z] by blast
qed

text \<open>
  What \<open>toLowerCaseInPlace\<close> does on text. It reports success exactly when no character
  except possibly the last one gets shorter, and then the buffer holds the string that
  \<open>toLowerCase\<close> returns. A string in which a character other than the last one shrinks
  is refused, although the comment in the code says that only growing is impossible.
\<close>

theorem toLowerCaseInPlace_exact:
  assumes "\<And>c. c \<in> set cs \<Longrightarrow> text_char c"
  shows "\<exists>ok m. toLowerCaseInPlace (encode cs @ [0]) = Inr (ok, m) \<and>
    (ok \<longleftrightarrow> (\<forall>c \<in> set (butlast cs). UTF8CharLen (Transformer lowerMappings c) = UTF8CharLen c)) \<and>
    (ok \<longrightarrow> (\<exists>t junk. toLowerCase (encode cs @ [0]) = Inr t \<and> m = t @ 0 # junk))"
  using lower.inPlace_encode [of cs "[]"] transform_loop_encode [of cs _ "[]" "[]" "[]"] assms
  by (fastforce simp: toLowerCaseInPlace_def transformInPlace_def toLowerCase_def transform_def)

theorem toLowerCaseInPlace_exact_witness:
  "\<exists>m. toLowerCaseInPlace (encode [0x212A, 0x41] @ [0]) = Inr (False, m)"
proof -
  have "\<exists>ok m. toLowerCaseInPlace (encode [0x212A, 0x41] @ [0]) = Inr (ok, m) \<and>
    (ok \<longleftrightarrow> (\<forall>c \<in> set (butlast [0x212A, 0x41]). UTF8CharLen (Transformer lowerMappings c) = UTF8CharLen c)) \<and>
    (ok \<longrightarrow> (\<exists>t junk. toLowerCase (encode [0x212A, 0x41] @ [0]) = Inr t \<and> m = t @ 0 # junk))"
    by (rule toLowerCaseInPlace_exact) (auto simp: text_char_def)
  then show ?thesis by (auto simp: Transformer_kelvin UTF8CharLen_def)
qed

text \<open>
  When a malformed byte follows a character that shrank, the in-place routine moves
  both pointers on without copying the byte: it reports success and leaves a byte of the
  old encoding in the string, where the copying routine keeps the malformed byte.
\<close>

theorem inPlace_leaves_stale_byte:
  "toLowerCaseInPlace [0xE2, 0x84, 0xAA, 0x80, 0] = Inr (True, [0x6B, 0x84, 0, 0x80, 0]) \<and>
   toLowerCase [0xE2, 0x84, 0xAA, 0x80, 0] = Inr [0x6B, 0x80]"
proof
  note kelvin = kelvin_bytes kelvin_decode stray_continuation Transformer_kelvin
  have sl: "seqLen 0xE2 = 3" "UTF8CharLen 0x6B = 1" by (simp_all add: seqLen_eq UTF8CharLen_def)
  let ?T = "Transformer lowerMappings"
  have "transformInPlace_loop ?T [0xE2, 0x84, 0xAA, 0x80, 0] 0 0 =
      transformInPlace_loop ?T [0x6B, 0x84, 0xAA, 0x80, 0] 3 1"
    by (subst transformInPlace_loop.simps)
      (simp add: kelvin sl write_UCS4toUTF8_eq wr_def Let_def)
  also have "\<dots> = transformInPlace_loop ?T [0x6B, 0x84, 0xAA, 0x80, 0] 4 2"
    by (subst transformInPlace_loop.simps) (simp add: kelvin rd_numeral flip: numeral_2_eq_2)
  also have "\<dots> = Inr (True, [0x6B, 0x84, 0, 0x80, 0])"
    by (subst transformInPlace_loop.simps) (simp add: rd_numeral wr_def numeral_2_eq_2)
  finally show "toLowerCaseInPlace [0xE2, 0x84, 0xAA, 0x80, 0] = Inr (True, [0x6B, 0x84, 0, 0x80, 0])"
    by (simp add: toLowerCaseInPlace_def transformInPlace_def)
  have "transform_loop ?T [0xE2, 0x84, 0xAA, 0x80, 0] 0 [] =
      transform_loop ?T [0xE2, 0x84, 0xAA, 0x80, 0] 3 [0x6B]"
    by (subst transform_loop.simps) (simp add: kelvin sl)
  also have "\<dots> = transform_loop ?T [0xE2, 0x84, 0xAA, 0x80, 0] 4 [0x6B, 0x80]"
    by (subst transform_loop.simps) (simp add: kelvin rd_numeral)
  also have "\<dots> = Inr [0x6B, 0x80]"
    by (subst transform_loop.simps) (simp add: rd_numeral)
  finally show "toLowerCase [0xE2, 0x84, 0xAA, 0x80, 0] = Inr [0x6B, 0x80]"
    by (simp add: toLowerCase_def transform_def)
qed

end
