(* ===== verification/RWLock.thy ===== *)
theory RWLock
  imports Prelude
begin

text \<open>
  The reader/writer lock of \<open>src/blocxx/GenericRWLockImpl.hpp\<close> (used by
  \<open>RWLocker.cpp\<close>): recursive, with upgrade of a read lock to a write lock. Each critical
  section under \<open>m_guard\<close> is one function; a thread that has to wait gives up the guard
  inside its \<open>while\<close> loop and resumes at the loop test. One thread acts for one id, as in
  \<open>RWLocker\<close>. Timeouts and spurious wakeups may happen at any time. The counters are
  mathematical integers: the invariant shows that they count ids, so they cannot go below
  zero, and they overflow only with \<open>2^32\<close> ids.
\<close>

section \<open>State\<close>

record LockerInfo =
  readCount :: nat
  writeCount :: nat

definition isReader :: "LockerInfo \<Rightarrow> bool" where
  "isReader ti = (readCount ti > 0)"

definition isWriter :: "LockerInfo \<Rightarrow> bool" where
  "isWriter ti = (writeCount ti > 0)"

text \<open>
  Where the thread of an id is: outside the lock's code, or asleep in one of the three
  wait loops (a new reader on \<open>m_waiting_readers\<close>, an upgrader or a new writer on
  \<open>m_waiting_writers\<close>), with the flag whether it has been notified.
\<close>

datatype position = Running | InReaders bool | InUpgraders bool | InWriters bool

record 'i rwlock =
  m_canRead :: bool
  m_numReaders :: int
  m_numWriters :: int
  m_lockerInfo :: "'i \<Rightarrow> LockerInfo option"
  pos :: "'i \<Rightarrow> position"

datatype outcome = Acquired | Released | Blocked
  | TimeoutException | DeadlockException | GenericRWLockImplException

definition rwlock_init :: "'i rwlock" where
  "rwlock_init = \<lparr>m_canRead = True, m_numReaders = 0, m_numWriters = 0,
     m_lockerInfo = (\<lambda>_. None), pos = (\<lambda>_. Running)\<rparr>"

section \<open>The two condition variables\<close>

fun wake_reader :: "position \<Rightarrow> position" where
  "wake_reader (InReaders _) = InReaders True"
| "wake_reader p = p"

fun wake_writer :: "position \<Rightarrow> position" where
  "wake_writer (InUpgraders _) = InUpgraders True"
| "wake_writer (InWriters _) = InWriters True"
| "wake_writer p = p"

definition notifyAll_readers :: "'i rwlock \<Rightarrow> 'i rwlock" where
  "notifyAll_readers s = s\<lparr>pos := (\<lambda>i. wake_reader (pos s i))\<rparr>"

definition notifyAll_writers :: "'i rwlock \<Rightarrow> 'i rwlock" where
  "notifyAll_writers s = s\<lparr>pos := (\<lambda>i. wake_writer (pos s i))\<rparr>"

text \<open>\<open>notifyOne\<close> wakes a sleeper of the system's choice, if there is one.\<close>

definition sleeping_writer :: "position \<Rightarrow> bool" where
  "sleeping_writer p = (p = InUpgraders False \<or> p = InWriters False)"

definition choice_ok :: "'i rwlock \<Rightarrow> 'i option \<Rightarrow> bool" where
  "choice_ok s c = (case c of None \<Rightarrow> \<forall>j. \<not> sleeping_writer (pos s j) | Some j \<Rightarrow> sleeping_writer (pos s j))"

definition notifyOne_writers :: "'i option \<Rightarrow> 'i rwlock \<Rightarrow> 'i rwlock" where
  "notifyOne_writers c s = (case c of None \<Rightarrow> s | Some j \<Rightarrow> s\<lparr>pos := (pos s)(j := wake_writer (pos s j))\<rparr>)"

section \<open>Operations\<close>

abbreviation set_info :: "'i rwlock \<Rightarrow> 'i \<Rightarrow> LockerInfo \<Rightarrow> 'i rwlock" where
  "set_info s i ti \<equiv> s\<lparr>m_lockerInfo := (m_lockerInfo s)(i \<mapsto> ti)\<rparr>"

abbreviation erase :: "'i rwlock \<Rightarrow> 'i \<Rightarrow> 'i rwlock" where
  "erase s i \<equiv> s\<lparr>m_lockerInfo := (m_lockerInfo s)(i := None)\<rparr>"

abbreviation at :: "'i rwlock \<Rightarrow> 'i \<Rightarrow> position \<Rightarrow> 'i rwlock" where
  "at s i p \<equiv> s\<lparr>pos := (pos s)(i := p)\<rparr>"

text \<open>The test of the loop of a new reader, at the first entry and after each wait.\<close>

definition read_loop :: "'i rwlock \<Rightarrow> 'i \<Rightarrow> outcome \<times> 'i rwlock" where
  "read_loop s i =
     (if \<not> m_canRead s \<or> m_numWriters s > 0 then (Blocked, at s i (InReaders False))
      else (Acquired, (set_info (at s i Running) i \<lparr>readCount = 1, writeCount = 0\<rparr>)
              \<lparr>m_numReaders := m_numReaders s + 1\<rparr>))"

definition acquireReadLock :: "'i rwlock \<Rightarrow> 'i \<Rightarrow> outcome \<times> 'i rwlock" where
  "acquireReadLock s i =
     (case m_lockerInfo s i of
        Some ti \<Rightarrow> (Acquired, set_info s i (ti\<lparr>readCount := readCount ti + 1\<rparr>))
      | None \<Rightarrow> read_loop s i)"

definition read_timeout :: "'i rwlock \<Rightarrow> 'i \<Rightarrow> outcome \<times> 'i rwlock" where
  "read_timeout s i = (TimeoutException, at s i Running)"

definition releaseReadLock :: "'i rwlock \<Rightarrow> 'i \<Rightarrow> outcome \<times> 'i rwlock" where
  "releaseReadLock s i =
     (case m_lockerInfo s i of
        None \<Rightarrow> (GenericRWLockImplException, s)
      | Some ti \<Rightarrow>
          if \<not> isReader ti then (GenericRWLockImplException, s)
          else let info = ti\<lparr>readCount := readCount ti - 1\<rparr> in
            if \<not> isWriter info \<and> \<not> isReader info then
              let s1 = s\<lparr>m_numReaders := m_numReaders s - 1\<rparr>;
                  s2 = (if m_numReaders s1 = 0 then notifyAll_writers s1 else s1)
              in (Released, erase s2 i)
            else (Released, set_info s i info))"

text \<open>The loop of an upgrading thread, whose counters have been moved already.\<close>

definition upgrade_loop :: "'i rwlock \<Rightarrow> 'i \<Rightarrow> LockerInfo \<Rightarrow> outcome \<times> 'i rwlock" where
  "upgrade_loop s i ti =
     (if m_numReaders s \<noteq> 0 then (Blocked, at (s\<lparr>m_canRead := False\<rparr>) i (InUpgraders False))
      else (Acquired, set_info (at s i Running) i (ti\<lparr>writeCount := writeCount ti + 1\<rparr>)))"

definition upgrade_timeout :: "'i rwlock \<Rightarrow> 'i \<Rightarrow> outcome \<times> 'i rwlock" where
  "upgrade_timeout s i =
     (let s1 = (at s i Running)\<lparr>m_numReaders := m_numReaders s + 1,
                m_numWriters := m_numWriters s - 1, m_canRead := True\<rparr>
      in (TimeoutException, if m_numWriters s1 = 0 then notifyAll_readers s1 else s1))"

text \<open>The loop of a thread that holds no lock and wants to write.\<close>

definition write_loop :: "'i rwlock \<Rightarrow> 'i \<Rightarrow> outcome \<times> 'i rwlock" where
  "write_loop s i =
     (if m_numReaders s \<noteq> 0 \<or> m_numWriters s \<noteq> 0
      then (Blocked, at (s\<lparr>m_canRead := False\<rparr>) i (InWriters False))
      else (Acquired, (set_info (at s i Running) i \<lparr>readCount = 0, writeCount = 1\<rparr>)
              \<lparr>m_numWriters := m_numWriters s + 1, m_canRead := False\<rparr>))"

definition write_timeout :: "'i rwlock \<Rightarrow> 'i \<Rightarrow> outcome \<times> 'i rwlock" where
  "write_timeout s i =
     (let s1 = (at s i Running)\<lparr>m_canRead := True\<rparr>
      in (TimeoutException, if m_numWriters s1 = 0 then notifyAll_readers s1 else s1))"

definition acquireWriteLock :: "'i rwlock \<Rightarrow> 'i \<Rightarrow> outcome \<times> 'i rwlock" where
  "acquireWriteLock s i =
     (case m_lockerInfo s i of
        Some ti \<Rightarrow>
          if \<not> isWriter ti then
            if m_numWriters s = 1 then (DeadlockException, s)
            else upgrade_loop (s\<lparr>m_numReaders := m_numReaders s - 1,
                                 m_numWriters := m_numWriters s + 1\<rparr>) i ti
          else (Acquired, set_info s i (ti\<lparr>writeCount := writeCount ti + 1\<rparr>))
      | None \<Rightarrow> write_loop s i)"

definition releaseWriteLock :: "'i option \<Rightarrow> 'i rwlock \<Rightarrow> 'i \<Rightarrow> outcome \<times> 'i rwlock" where
  "releaseWriteLock c s i =
     (case m_lockerInfo s i of
        None \<Rightarrow> (GenericRWLockImplException, s)
      | Some ti0 \<Rightarrow>
          if \<not> isWriter ti0 then (GenericRWLockImplException, s)
          else let ti = ti0\<lparr>writeCount := writeCount ti0 - 1\<rparr>; s1 = set_info s i ti in
            if \<not> isWriter ti then
              let s2 = s1\<lparr>m_numWriters := m_numWriters s - 1, m_canRead := True\<rparr>;
                  s3 = (if isReader ti then s2\<lparr>m_numReaders := m_numReaders s + 1\<rparr>
                        else erase (notifyOne_writers c s2) i)
              in (Released, notifyAll_readers s3)
            else (Released, s1))"

section \<open>Steps\<close>

text \<open>
  One critical section of one thread. With \<open>late\<close> a waiting thread may time out although it
  has been notified (the timed wait of the platform may consume the notification); without
  it a notified thread wakes up.
\<close>

inductive rw_step :: "bool \<Rightarrow> 'i rwlock \<Rightarrow> 'i rwlock \<Rightarrow> bool" for late :: bool where
  acquire_read: "pos s i = Running \<Longrightarrow> acquireReadLock s i = (r, t) \<Longrightarrow> rw_step late s t"
| acquire_write: "pos s i = Running \<Longrightarrow> acquireWriteLock s i = (r, t) \<Longrightarrow> rw_step late s t"
| release_read: "pos s i = Running \<Longrightarrow> releaseReadLock s i = (r, t) \<Longrightarrow> rw_step late s t"
| release_write: "pos s i = Running \<Longrightarrow> choice_ok s c \<Longrightarrow> releaseWriteLock c s i = (r, t) \<Longrightarrow> rw_step late s t"
| wake_read: "pos s i = InReaders n \<Longrightarrow> read_loop s i = (r, t) \<Longrightarrow> rw_step late s t"
| wake_upgrade: "pos s i = InUpgraders n \<Longrightarrow> m_lockerInfo s i = Some ti \<Longrightarrow> upgrade_loop s i ti = (r, t) \<Longrightarrow>
    rw_step late s t"
| wake_write: "pos s i = InWriters n \<Longrightarrow> write_loop s i = (r, t) \<Longrightarrow> rw_step late s t"
| timeout_read: "pos s i = InReaders n \<Longrightarrow> n \<longrightarrow> late \<Longrightarrow> read_timeout s i = (r, t) \<Longrightarrow> rw_step late s t"
| timeout_upgrade: "pos s i = InUpgraders n \<Longrightarrow> n \<longrightarrow> late \<Longrightarrow> upgrade_timeout s i = (r, t) \<Longrightarrow> rw_step late s t"
| timeout_write: "pos s i = InWriters n \<Longrightarrow> n \<longrightarrow> late \<Longrightarrow> write_timeout s i = (r, t) \<Longrightarrow> rw_step late s t"

section \<open>The invariant\<close>

definition writing :: "'i rwlock \<Rightarrow> 'i set" where
  "writing s = {i. \<exists>ti. m_lockerInfo s i = Some ti \<and> isWriter ti}"

definition upgrading :: "'i rwlock \<Rightarrow> 'i set" where
  "upgrading s = {i. \<exists>n. pos s i = InUpgraders n}"

definition reading :: "'i rwlock \<Rightarrow> 'i set" where
  "reading s = dom (m_lockerInfo s) - writing s - upgrading s"

definition info_ok :: "'i rwlock \<Rightarrow> 'i \<Rightarrow> bool" where
  "info_ok s i = (case m_lockerInfo s i of
      None \<Rightarrow> (\<forall>n. pos s i \<noteq> InUpgraders n)
    | Some ti \<Rightarrow> (isReader ti \<or> isWriter ti) \<and>
        (pos s i = Running \<or> ((\<exists>n. pos s i = InUpgraders n) \<and> isReader ti \<and> \<not> isWriter ti)))"

definition rw_inv :: "'i rwlock \<Rightarrow> bool" where
  "rw_inv s \<longleftrightarrow> finite (dom (m_lockerInfo s)) \<and> (\<forall>i. info_ok s i) \<and>
     m_numReaders s = int (card (reading s)) \<and>
     m_numWriters s = int (card (writing s \<union> upgrading s)) \<and> m_numWriters s \<le> 1 \<and>
     (writing s \<noteq> {} \<longrightarrow> reading s = {})"

section \<open>How the operations change the sets of holders\<close>

named_theorems rw_sets \<open>the sets of holders after an update of the state\<close>

lemma wake_kind [simp]:
  "(\<exists>n. wake_reader p = InUpgraders n) = (\<exists>n. p = InUpgraders n)"
  "(\<exists>n. wake_writer p = InUpgraders n) = (\<exists>n. p = InUpgraders n)"
  "(\<forall>n. wake_reader p \<noteq> InUpgraders n) = (\<forall>n. p \<noteq> InUpgraders n)"
  "(\<forall>n. wake_writer p \<noteq> InUpgraders n) = (\<forall>n. p \<noteq> InUpgraders n)"
  "(wake_reader p = Running) = (p = Running)"
  "(wake_writer p = Running) = (p = Running)"
  by (cases p; auto)+

lemma notify_fields [simp]:
  "m_canRead (notifyAll_readers s) = m_canRead s" "m_canRead (notifyAll_writers s) = m_canRead s"
  "m_canRead (notifyOne_writers c s) = m_canRead s"
  "m_numReaders (notifyAll_readers s) = m_numReaders s" "m_numReaders (notifyAll_writers s) = m_numReaders s"
  "m_numReaders (notifyOne_writers c s) = m_numReaders s"
  "m_numWriters (notifyAll_readers s) = m_numWriters s" "m_numWriters (notifyAll_writers s) = m_numWriters s"
  "m_numWriters (notifyOne_writers c s) = m_numWriters s"
  "m_lockerInfo (notifyAll_readers s) = m_lockerInfo s" "m_lockerInfo (notifyAll_writers s) = m_lockerInfo s"
  "m_lockerInfo (notifyOne_writers c s) = m_lockerInfo s"
  by (simp_all add: notifyAll_readers_def notifyAll_writers_def notifyOne_writers_def split: option.split)

lemma writing_updates [rw_sets]:
  "writing (s\<lparr>m_canRead := b\<rparr>) = writing s" "writing (s\<lparr>m_numReaders := n\<rparr>) = writing s"
  "writing (s\<lparr>m_numWriters := n\<rparr>) = writing s" "writing (s\<lparr>pos := f\<rparr>) = writing s"
  "writing (notifyAll_readers s) = writing s" "writing (notifyAll_writers s) = writing s"
  "writing (notifyOne_writers c s) = writing s"
  "writing (s\<lparr>m_lockerInfo := (m_lockerInfo s')(i \<mapsto> ti)\<rparr>) =
    (if isWriter ti then insert i (writing s') else writing s' - {i})"
  "writing (s\<lparr>m_lockerInfo := (m_lockerInfo s')(i := None)\<rparr>) = writing s' - {i}"
  "writing (s\<lparr>m_lockerInfo := [i \<mapsto> ti]\<rparr>) = (if isWriter ti then {i} else {})"
  by (auto simp: writing_def split: if_splits)

lemma upgrading_updates [rw_sets]:
  "upgrading (s\<lparr>m_canRead := b\<rparr>) = upgrading s" "upgrading (s\<lparr>m_numReaders := n\<rparr>) = upgrading s"
  "upgrading (s\<lparr>m_numWriters := n\<rparr>) = upgrading s" "upgrading (s\<lparr>m_lockerInfo := g\<rparr>) = upgrading s"
  "upgrading (notifyAll_readers s) = upgrading s" "upgrading (notifyAll_writers s) = upgrading s"
  "upgrading (notifyOne_writers c s) = upgrading s"
  "upgrading (s\<lparr>pos := (pos s')(i := Running)\<rparr>) = upgrading s' - {i}" "upgrading (s\<lparr>pos := (pos s')(i := InReaders k)\<rparr>) = upgrading s' - {i}"
  "upgrading (s\<lparr>pos := (pos s')(i := InWriters k)\<rparr>) = upgrading s' - {i}" "upgrading (s\<lparr>pos := (pos s')(i := InUpgraders k)\<rparr>) = insert i (upgrading s')"
  by (auto simp: upgrading_def notifyAll_readers_def notifyAll_writers_def notifyOne_writers_def
      split: option.split)

lemma info_ok_updates [rw_sets]:
  "info_ok (s\<lparr>m_canRead := b\<rparr>) j = info_ok s j" "info_ok (s\<lparr>m_numReaders := n\<rparr>) j = info_ok s j"
  "info_ok (s\<lparr>m_numWriters := n\<rparr>) j = info_ok s j"
  "info_ok (notifyAll_readers s) j = info_ok s j" "info_ok (notifyAll_writers s) j = info_ok s j"
  "info_ok (notifyOne_writers c s) j = info_ok s j"
  by (auto simp: info_ok_def notifyAll_readers_def notifyAll_writers_def notifyOne_writers_def
      split: option.split)

lemma info_ok_other [rw_sets]:
  "j \<noteq> i \<Longrightarrow> info_ok (set_info s i ti) j = info_ok s j"
  "j \<noteq> i \<Longrightarrow> info_ok (erase s i) j = info_ok s j"
  "j \<noteq> i \<Longrightarrow> info_ok (at s i p) j = info_ok s j"
  by (cases "m_lockerInfo s j"; simp add: info_ok_def)+

lemma info_okD:
  assumes "info_ok s i"
  shows "m_lockerInfo s i = Some ti \<Longrightarrow> isReader ti \<or> isWriter ti"
    and "m_lockerInfo s i = None \<Longrightarrow> i \<notin> upgrading s"
    and "i \<in> upgrading s \<Longrightarrow> \<exists>ti. m_lockerInfo s i = Some ti \<and> isReader ti \<and> \<not> isWriter ti"
    and "pos s i = InReaders n \<or> pos s i = InWriters n \<Longrightarrow> m_lockerInfo s i = None"
  using assms by (auto simp: info_ok_def upgrading_def split: option.splits)

text \<open>At most one id writes or upgrades, and the counter says which of the two it is.\<close>

lemma rw_inv_cases:
  assumes "rw_inv s"
  obtains (free) "writing s = {}" "upgrading s = {}" "m_numWriters s = 0"
  | (writer) w where "writing s = {w}" "upgrading s = {}" "m_numWriters s = 1"
      "dom (m_lockerInfo s) = {w}" "m_numReaders s = 0"
  | (upgrader) u where "writing s = {}" "upgrading s = {u}" "m_numWriters s = 1"
proof -
  have fin: "finite (dom (m_lockerInfo s))" and ok: "\<And>i. info_ok s i"
    and r: "m_numReaders s = int (card (reading s))"
    and w: "m_numWriters s = int (card (writing s \<union> upgrading s))" "m_numWriters s \<le> 1"
    and ex: "writing s \<noteq> {} \<Longrightarrow> reading s = {}" using assms by (auto simp: rw_inv_def)
  have sub: "writing s \<subseteq> dom (m_lockerInfo s)" by (auto simp: writing_def)
  have usub: "upgrading s \<subseteq> dom (m_lockerInfo s)" using info_okD(3) [OF ok] by fastforce
  have disj: "writing s \<inter> upgrading s = {}" using info_okD(3) [OF ok] by (fastforce simp: writing_def)
  have finK: "finite (writing s \<union> upgrading s)" using fin sub usub by (meson Un_least finite_subset)
  show thesis
  proof (cases "writing s \<union> upgrading s = {}")
    case True
    then show thesis using free w by simp
  next
    case False
    then have "card (writing s \<union> upgrading s) \<noteq> 0" using finK by (simp only: card_0_eq not_False_eq_True)
    moreover have "card (writing s \<union> upgrading s) \<le> 1" using w by linarith
    ultimately have one: "card (writing s \<union> upgrading s) = 1" by linarith
    have nW: "m_numWriters s = 1" unfolding w(1) one by simp
    from one obtain k where k: "writing s \<union> upgrading s = {k}" by (rule card_1_singletonE)
    show thesis
    proof (cases "k \<in> writing s")
      case True
      then have W: "writing s = {k}" and U: "upgrading s = {}" using k disj by blast+
      then have R: "reading s = {}" using ex by simp
      then have "dom (m_lockerInfo s) = {k}" using W U sub unfolding reading_def by blast
      moreover have "m_numReaders s = 0" unfolding r R by simp
      ultimately show thesis by (intro writer [OF W U nW])
    next
      case False
      moreover have "writing s \<subseteq> {k}" unfolding k [symmetric] by (rule Un_upper1)
      ultimately have W: "writing s = {}" by (auto simp: subset_singleton_iff)
      then have U: "upgrading s = {k}" using k by simp
      show thesis by (rule upgrader [OF W U nW])
    qed
  qed
qed

lemma rw_inv_init: "rw_inv rwlock_init"
  by (simp add: rw_inv_def rwlock_init_def info_ok_def reading_def writing_def upgrading_def)

section \<open>Every operation keeps the invariant\<close>

lemma info_ok_frame:
  assumes "rw_inv s" and "m_lockerInfo t j = m_lockerInfo s j" and "pos t j = pos s j"
  shows "info_ok t j"
proof -
  have "info_ok s j" using assms(1) by (simp add: rw_inv_def)
  then show ?thesis using assms(2,3) by (simp add: info_ok_def split: option.splits)
qed

lemma rw_invI:
  assumes "finite (dom (m_lockerInfo s))" and "\<And>i. info_ok s i"
    and "m_numReaders s = int (card (reading s))"
    and "m_numWriters s = int (card (writing s \<union> upgrading s))" and "m_numWriters s \<le> 1"
    and "writing s \<noteq> {} \<Longrightarrow> reading s = {}"
  shows "rw_inv s"
  using assms by (simp add: rw_inv_def)

lemma reading_cases:
  assumes "rw_inv s"
  shows "finite (dom (m_lockerInfo s))" "finite (reading s)" "info_ok s i"
    "m_numReaders s = 0 \<longleftrightarrow> reading s = {}" "m_numReaders s = int (card (reading s))"
    "writing s \<inter> upgrading s = {}" "writing s \<subseteq> dom (m_lockerInfo s)"
    "upgrading s \<subseteq> dom (m_lockerInfo s)"
proof -
  show f: "finite (dom (m_lockerInfo s))" and ok: "info_ok s i"
    and r: "m_numReaders s = int (card (reading s))" using assms by (auto simp: rw_inv_def)
  show fr: "finite (reading s)" using f by (simp add: reading_def)
  show "m_numReaders s = 0 \<longleftrightarrow> reading s = {}" using r fr by simp
  have ok: "\<And>i. info_ok s i" using assms by (auto simp: rw_inv_def)
  show "writing s \<inter> upgrading s = {}" using info_okD(3) [OF ok] by (fastforce simp: writing_def)
  show "writing s \<subseteq> dom (m_lockerInfo s)" by (auto simp: writing_def)
  show "upgrading s \<subseteq> dom (m_lockerInfo s)" using info_okD(3) [OF ok] by fastforce
qed

lemma rw_inv_neutral:
  assumes "rw_inv s"
  shows "rw_inv (s\<lparr>m_canRead := b\<rparr>)" "rw_inv (notifyAll_readers s)" "rw_inv (notifyAll_writers s)"
    "rw_inv (notifyOne_writers c s)"
  using assms by (simp_all add: rw_inv_def rw_sets reading_def)

lemma rw_inv_sleep:
  assumes "rw_inv s" and "m_lockerInfo s i = None"
  shows "rw_inv (at s i (InReaders n))" "rw_inv (at s i (InWriters n))" "rw_inv (at s i Running)"
proof -
  have U: "upgrading s - {i} = upgrading s"
    using info_okD(2) [OF reading_cases(3) [OF assms(1)] assms(2)] by simp
  have "info_ok (at s i p) j" if "\<forall>n. p \<noteq> InUpgraders n" for p j
    using that assms(2) info_ok_frame [OF assms(1), of "at s i p" j]
    by (cases "j = i") (simp_all add: info_ok_def)
  then show "rw_inv (at s i (InReaders n))" "rw_inv (at s i (InWriters n))" "rw_inv (at s i Running)"
    using assms(1) by (simp_all add: rw_inv_def rw_sets reading_def U)
qed

lemma read_loop_inv:
  assumes "rw_inv s" and "m_lockerInfo s i = None" and "read_loop s i = (r, t)"
  shows "rw_inv t"
proof (cases "\<not> m_canRead s \<or> m_numWriters s > 0")
  case True
  then show ?thesis using assms rw_inv_sleep [OF assms(1,2)] by (auto simp: read_loop_def)
next
  case False
  then have t: "t = (set_info (at s i Running) i \<lparr>readCount = 1, writeCount = 0\<rparr>)
      \<lparr>m_numReaders := m_numReaders s + 1\<rparr>"
    using assms(3) by (auto simp: read_loop_def)
  have W: "writing s = {}" "upgrading s = {}" "m_numWriters s = 0"
    using False by (cases rule: rw_inv_cases [OF assms(1)]; simp)+
  have i: "i \<notin> dom (m_lockerInfo s)" using assms(2) by auto
  have ok: "info_ok t j" for j
    using info_ok_frame [OF assms(1), of t j] by (cases "j = i") (simp_all add: t info_ok_def isReader_def)
  have R: "reading t = insert i (dom (m_lockerInfo s))" "writing t = {}" "upgrading t = {}"
    by (auto simp: t reading_def rw_sets W isWriter_def)
  show ?thesis
    using reading_cases(1,5) [OF assms(1)] i ok R W
    by (intro rw_invI) (simp_all add: t reading_def)
qed

lemma write_loop_inv:
  assumes "rw_inv s" and "m_lockerInfo s i = None" and "write_loop s i = (r, t)"
  shows "rw_inv t"
proof (cases "m_numReaders s \<noteq> 0 \<or> m_numWriters s \<noteq> 0")
  case True
  then show ?thesis
    using assms rw_inv_sleep(2) [OF rw_inv_neutral(1) [OF assms(1), of False], of i False] by (auto simp: write_loop_def)
next
  case False
  then have t: "t = (set_info (at s i Running) i \<lparr>readCount = 0, writeCount = 1\<rparr>)
      \<lparr>m_numWriters := m_numWriters s + 1, m_canRead := False\<rparr>"
    using assms(3) by (auto simp: write_loop_def)
  have W: "writing s = {}" "upgrading s = {}" "m_numWriters s = 0"
    using False by (cases rule: rw_inv_cases [OF assms(1)]; simp)+
  then have D: "m_lockerInfo s = (\<lambda>_. None)"
    using False reading_cases(4) [OF assms(1)] by (simp add: reading_def)
  have ok: "info_ok t j" for j
    using info_ok_frame [OF assms(1), of t j] by (cases "j = i") (simp_all add: t info_ok_def isWriter_def)
  have "reading t = {}" "writing t = {i}" "upgrading t = {}"
    by (auto simp: t reading_def rw_sets W isWriter_def D)
  then show ?thesis using False ok W by (intro rw_invI) (simp_all add: t D)
qed

lemma rw_inv_set_info:
  assumes "rw_inv s" and "m_lockerInfo s i = Some ti" and "pos s i = Running"
    and "isWriter ti' = isWriter ti" and "isReader ti' \<or> isWriter ti'"
  shows "rw_inv (set_info s i ti')"
proof -
  have "info_ok (set_info s i ti') j" for j
    using info_ok_frame [OF assms(1), of "set_info s i ti'" j] assms(3,5)
    by (cases "j = i") (simp_all add: info_ok_def)
  moreover have "writing (set_info s i ti') = writing s" using assms(2,4) by (auto simp: writing_def)
  moreover have "dom (m_lockerInfo (set_info s i ti')) = dom (m_lockerInfo s)" using assms(2) by auto
  ultimately show ?thesis
    using assms(1) by (simp add: rw_inv_def reading_def rw_sets)
qed

lemma acquireReadLock_inv:
  assumes "rw_inv s" and "pos s i = Running" and "acquireReadLock s i = (r, t)"
  shows "rw_inv t"
proof (cases "m_lockerInfo s i")
  case None
  then show ?thesis using assms read_loop_inv [OF assms(1) None] by (simp add: acquireReadLock_def)
next
  case (Some ti)
  then have "t = set_info s i (ti\<lparr>readCount := readCount ti + 1\<rparr>)"
    using assms(3) by (simp add: acquireReadLock_def)
  then show ?thesis
    using rw_inv_set_info [OF assms(1) Some assms(2)] by (simp add: isReader_def isWriter_def)
qed

lemma in_reading:
  "m_lockerInfo s i = Some ti \<Longrightarrow> \<not> isWriter ti \<Longrightarrow> pos s i = Running \<Longrightarrow> i \<in> reading s"
  by (auto simp: reading_def writing_def upgrading_def)

lemma releaseReadLock_inv:
  assumes "rw_inv s" and "pos s i = Running" and "releaseReadLock s i = (r, t)"
  shows "rw_inv t"
proof -
  consider (none) "t = s"
    | (last) ti where "m_lockerInfo s i = Some ti" "\<not> isWriter ti"
        "t = erase (s\<lparr>m_numReaders := m_numReaders s - 1\<rparr>) i \<or>
         t = erase (notifyAll_writers (s\<lparr>m_numReaders := m_numReaders s - 1\<rparr>)) i"
    | (more) ti where "m_lockerInfo s i = Some ti" "t = set_info s i (ti\<lparr>readCount := readCount ti - 1\<rparr>)"
        "isWriter ti \<or> isReader (ti\<lparr>readCount := readCount ti - 1\<rparr>)"
    using assms(3) by (auto simp: releaseReadLock_def Let_def isWriter_def split: option.splits if_splits)
  then show ?thesis
  proof cases
    case none
    then show ?thesis using assms(1) by simp
  next
    case last
    let ?u = "erase (s\<lparr>m_numReaders := m_numReaders s - 1\<rparr>) i"
    have i: "i \<in> reading s" by (rule in_reading [OF last(1,2) assms(2)])
    have W: "writing ?u = writing s" "upgrading ?u = upgrading s" "reading ?u = reading s - {i}"
      using i by (auto simp: rw_sets reading_def)
    have ok: "info_ok ?u j" for j
      using info_ok_frame [OF assms(1), of ?u j] assms(2)
      by (cases "j = i") (simp_all add: info_ok_def)
    have "rw_inv ?u"
    proof (rule rw_invI)
      show "finite (dom (m_lockerInfo ?u))" using reading_cases(1) [OF assms(1)] by simp
      have "0 < card (reading s)" using i reading_cases(2) [OF assms(1)] card_gt_0_iff by blast
      then show "m_numReaders ?u = int (card (reading ?u))"
        unfolding W using i reading_cases(2,5) [OF assms(1)] by simp
      show "m_numWriters ?u = int (card (writing ?u \<union> upgrading ?u))" "m_numWriters ?u \<le> 1"
        unfolding W using assms(1) by (simp_all add: rw_inv_def)
      show "writing ?u \<noteq> {} \<Longrightarrow> reading ?u = {}"
        unfolding W using assms(1) by (simp add: rw_inv_def)
    qed (rule ok)
    moreover have "erase (notifyAll_writers (s\<lparr>m_numReaders := m_numReaders s - 1\<rparr>)) i = notifyAll_writers ?u"
      by (simp add: notifyAll_writers_def)
    ultimately show ?thesis using last(3) rw_inv_neutral(3) [of ?u] by auto
  next
    case more
    then show ?thesis
      using rw_inv_set_info [OF assms(1) more(1) assms(2)] by (auto simp: isReader_def isWriter_def)
  qed
qed

lemma upgrade_loop_inv:
  assumes "rw_inv s" and "pos s i = InUpgraders n" and "m_lockerInfo s i = Some ti"
    and "upgrade_loop s i ti = (r, t)"
  shows "rw_inv t"
proof -
  have i: "i \<in> upgrading s" using assms(2) by (auto simp: upgrading_def)
  have U: "upgrading s = {i}" "writing s = {}" "m_numWriters s = 1"
    using i by (cases rule: rw_inv_cases [OF assms(1)]; auto)+
  have ti: "isReader ti" "\<not> isWriter ti" using info_okD(3) [OF reading_cases(3) [OF assms(1)] i] assms(3) by auto
  show ?thesis
  proof (cases "m_numReaders s \<noteq> 0")
    case True
    have "rw_inv (at s i (InUpgraders False))"
    proof -
      have "info_ok (at s i (InUpgraders False)) j" for j
        using info_ok_frame [OF assms(1), of "at s i (InUpgraders False)" j] assms(3) ti
        by (cases "j = i") (auto simp: info_ok_def)
      moreover have "upgrading (at s i (InUpgraders False)) = upgrading s" using i by (auto simp: rw_sets)
      ultimately show ?thesis using assms(1) by (simp add: rw_inv_def reading_def rw_sets)
    qed
    then have "rw_inv ((at s i (InUpgraders False))\<lparr>m_canRead := False\<rparr>)" by (rule rw_inv_neutral(1))
    moreover have "(at s i (InUpgraders False))\<lparr>m_canRead := False\<rparr> = t"
      using assms(4) True by (auto simp: upgrade_loop_def)
    ultimately show ?thesis by simp
  next
    case False
    let ?u = "set_info (at s i Running) i (ti\<lparr>writeCount := writeCount ti + 1\<rparr>)"
    have t: "t = ?u" using False assms(4) by (simp add: upgrade_loop_def)
    have D: "dom (m_lockerInfo s) = {i}"
      using False reading_cases(4,8) [OF assms(1)] U by (auto simp: reading_def)
    have "info_ok ?u j" for j
      using info_ok_frame [OF assms(1), of ?u j] by (cases "j = i") (simp_all add: info_ok_def isWriter_def)
    moreover have "writing ?u = {i}" "upgrading ?u = {}" "dom (m_lockerInfo ?u) = {i}"
      using U D by (auto simp: rw_sets isWriter_def)
    ultimately show ?thesis
      unfolding t using False U D by (intro rw_invI) (simp_all add: reading_def)
  qed
qed

lemma acquireWriteLock_inv:
  assumes "rw_inv s" and "pos s i = Running" and "acquireWriteLock s i = (r, t)"
  shows "rw_inv t"
proof (cases "m_lockerInfo s i")
  case None
  then show ?thesis using assms write_loop_inv [OF assms(1) None] by (simp add: acquireWriteLock_def)
next
  case (Some ti)
  show ?thesis
  proof (cases "isWriter ti")
    case True
    then have "t = set_info s i (ti\<lparr>writeCount := writeCount ti + 1\<rparr>)"
      using assms(3) Some by (simp add: acquireWriteLock_def)
    then show ?thesis
      using rw_inv_set_info [OF assms(1) Some assms(2)] True by (simp add: isReader_def isWriter_def)
  next
    case reader: False
    show ?thesis
    proof (cases "m_numWriters s = 1")
      case True
      then show ?thesis using assms Some reader by (simp add: acquireWriteLock_def)
    next
      case False
      let ?s = "s\<lparr>m_numReaders := m_numReaders s - 1, m_numWriters := m_numWriters s + 1\<rparr>"
      let ?u = "at ?s i (InUpgraders False)"
      have i: "i \<in> reading s" by (rule in_reading [OF Some reader assms(2)])
      have W: "writing s = {}" "upgrading s = {}" "m_numWriters s = 0"
        using False by (cases rule: rw_inv_cases [OF assms(1)]; simp)+
      have ti: "isReader ti" using info_okD(1) [OF reading_cases(3) [OF assms(1)] Some] reader by simp
      have ok: "info_ok ?u j" for j
        using info_ok_frame [OF assms(1), of ?u j] Some ti reader
        by (cases "j = i") (auto simp: info_ok_def)
      have S: "writing ?u = {}" "upgrading ?u = {i}" "reading ?u = reading s - {i}"
        using W by (auto simp: rw_sets reading_def)
      have "rw_inv ?u"
      proof (rule rw_invI)
        show "finite (dom (m_lockerInfo ?u))" using reading_cases(1) [OF assms(1)] by simp
        have "0 < card (reading s)" using i reading_cases(2) [OF assms(1)] card_gt_0_iff by blast
        then show "m_numReaders ?u = int (card (reading ?u))"
          unfolding S using i reading_cases(2,5) [OF assms(1)] by simp
      qed (use ok S W in simp_all)
      moreover have "upgrade_loop ?u i ti = (r, t)"
        
        using assms(3) Some reader False
        by (auto simp: acquireWriteLock_def upgrade_loop_def split: if_splits)
      ultimately show ?thesis using upgrade_loop_inv [of ?u i False ti r t] Some by simp
    qed
  qed
qed

lemma upgrade_timeout_inv:
  assumes "rw_inv s" and "pos s i = InUpgraders n" and "upgrade_timeout s i = (r, t)"
  shows "rw_inv t"
proof -
  let ?u = "(at s i Running)\<lparr>m_numReaders := m_numReaders s + 1, m_numWriters := m_numWriters s - 1,
    m_canRead := True\<rparr>"
  have i: "i \<in> upgrading s" using assms(2) by (auto simp: upgrading_def)
  have U: "upgrading s = {i}" "writing s = {}" "m_numWriters s = 1"
    using i by (cases rule: rw_inv_cases [OF assms(1)]; auto)+
  have d: "i \<in> dom (m_lockerInfo s)" using reading_cases(8) [OF assms(1)] i by blast
  have ok: "info_ok ?u j" for j
    using info_ok_frame [OF assms(1), of ?u j] info_okD(3) [OF reading_cases(3) [OF assms(1)] i]
    by (cases "j = i") (auto simp: info_ok_def)
  have S: "writing ?u = {}" "upgrading ?u = {}" "reading ?u = insert i (reading s)"
    using U d by (auto simp: rw_sets reading_def)
  have "i \<notin> reading s" using i by (simp add: reading_def)
  then have "rw_inv ?u"
    using ok S U reading_cases(1,2,5) [OF assms(1)] by (intro rw_invI) simp_all
  then show ?thesis
    using assms(3) rw_inv_neutral(2) [of ?u] by (auto simp: upgrade_timeout_def Let_def split: if_splits)
qed

lemma write_timeout_inv:
  assumes "rw_inv s" and "m_lockerInfo s i = None" and "write_timeout s i = (r, t)"
  shows "rw_inv t"
  using assms(3) rw_inv_neutral(1) [OF rw_inv_sleep(3) [OF assms(1,2)], of True]
    rw_inv_neutral(2) [of "(at s i Running)\<lparr>m_canRead := True\<rparr>"]
  by (auto simp: write_timeout_def Let_def split: if_splits)

lemma releaseWriteLock_inv:
  assumes "rw_inv s" and "pos s i = Running" and "releaseWriteLock c s i = (r, t)"
  shows "rw_inv t"
proof -
  let ?dec = "\<lambda>ti. ti\<lparr>writeCount := writeCount ti - 1\<rparr>"
  let ?free = "\<lambda>s :: 'a rwlock. s\<lparr>m_numWriters := m_numWriters s - 1, m_canRead := True\<rparr>"
  consider (none) "t = s"
    | (more) ti where "m_lockerInfo s i = Some ti" "isWriter ti" "isWriter (?dec ti)" "t = set_info s i (?dec ti)"
    | (reader) ti where "m_lockerInfo s i = Some ti" "isWriter ti" "\<not> isWriter (?dec ti)" "isReader ti"
        "t = notifyAll_readers ((?free (set_info s i (?dec ti)))\<lparr>m_numReaders := m_numReaders s + 1\<rparr>)"
    | (last) ti where "m_lockerInfo s i = Some ti" "isWriter ti" "\<not> isWriter (?dec ti)" "\<not> isReader ti"
        "t = notifyAll_readers (erase (notifyOne_writers c (?free (set_info s i (?dec ti)))) i)"
    using assms(3)
    by (auto simp: releaseWriteLock_def Let_def isReader_def split: option.splits if_splits)
  then show ?thesis
  proof cases
    case none
    then show ?thesis using assms(1) by simp
  next
    case more
    then show ?thesis using rw_inv_set_info [OF assms(1) more(1) assms(2)] by simp
  next
    case reader
    then have i: "i \<in> writing s" by (auto simp: writing_def)
    have W: "writing s = {i}" "upgrading s = {}" "dom (m_lockerInfo s) = {i}" "m_numReaders s = 0" "m_numWriters s = 1"
      using i by (cases rule: rw_inv_cases [OF assms(1)]; auto)+
    let ?u = "(?free (set_info s i (?dec ti)))\<lparr>m_numReaders := m_numReaders s + 1\<rparr>"
    have ok: "info_ok ?u j" for j
      using info_ok_frame [OF assms(1), of ?u j] reader(4) assms(2)
      by (cases "j = i") (simp_all add: info_ok_def isReader_def)
    have S: "writing ?u = {}" "upgrading ?u = {}" "reading ?u = {i}"
      using W reader(3) by (auto simp: rw_sets reading_def)
    have "rw_inv ?u" using ok S W by (intro rw_invI) simp_all
    then show ?thesis unfolding reader(5) by (rule rw_inv_neutral(2))
  next
    case last
    then have i: "i \<in> writing s" by (auto simp: writing_def)
    have W: "writing s = {i}" "upgrading s = {}" "dom (m_lockerInfo s) = {i}" "m_numReaders s = 0" "m_numWriters s = 1"
      using i by (cases rule: rw_inv_cases [OF assms(1)]; auto)+
    let ?u = "erase (?free s) i"
    have ok: "info_ok ?u j" for j
      using info_ok_frame [OF assms(1), of ?u j] assms(2) by (cases "j = i") (simp_all add: info_ok_def)
    have S: "writing ?u = {}" "upgrading ?u = {}" "reading ?u = {}"
      using W by (auto simp: rw_sets reading_def)
    have "rw_inv ?u" using ok S W by (intro rw_invI) simp_all
    moreover have "erase (notifyOne_writers c (?free (set_info s i (?dec ti)))) i = notifyOne_writers c ?u"
      by (simp add: notifyOne_writers_def split: option.split)
    ultimately show ?thesis unfolding last(5) using rw_inv_neutral(2,4) by metis
  qed
qed

lemma rw_step_inv:
  assumes "rw_inv s" and "rw_step late s t"
  shows "rw_inv t"
  using assms(2)
proof cases
  case (acquire_read i r)
  then show ?thesis by (rule acquireReadLock_inv [OF assms(1)])
next
  case (acquire_write i r)
  then show ?thesis by (rule acquireWriteLock_inv [OF assms(1)])
next
  case (release_read i r)
  then show ?thesis by (rule releaseReadLock_inv [OF assms(1)])
next
  case (release_write i c r)
  then show ?thesis using releaseWriteLock_inv [OF assms(1)] by blast
next
  case (wake_read i n r)
  then show ?thesis using read_loop_inv [OF assms(1)] info_okD(4) [OF reading_cases(3) [OF assms(1)]] by blast
next
  case (wake_upgrade i n ti r)
  then show ?thesis by (rule upgrade_loop_inv [OF assms(1)])
next
  case (wake_write i n r)
  then show ?thesis using write_loop_inv [OF assms(1)] info_okD(4) [OF reading_cases(3) [OF assms(1)]] by blast
next
  case (timeout_read i n r)
  then have "m_lockerInfo s i = None" using info_okD(4) [OF reading_cases(3) [OF assms(1)]] by blast
  then show ?thesis using timeout_read(3) rw_inv_sleep(3) [OF assms(1)] by (auto simp: read_timeout_def)
next
  case (timeout_upgrade i n r)
  then show ?thesis using upgrade_timeout_inv [OF assms(1)] by blast
next
  case (timeout_write i n r)
  then show ?thesis using write_timeout_inv [OF assms(1)] info_okD(4) [OF reading_cases(3) [OF assms(1)]] by blast
qed

interpretation rwlock: invariant_system "\<lambda>s. s = rwlock_init" "rw_step late" rw_inv for late
  by unfold_locales (auto intro: rw_inv_init rw_step_inv)

end
