(* ===== verification/RWLock_Live.thy ===== *)
theory RWLock_Live
  imports RWLock
begin

text \<open>
  The wakeup invariant of the reader/writer lock and its properties. \<open>rw_live\<close> says
  that whoever sleeps without a notification has a reason to; together with \<open>rw_inv\<close>
  it is an inductive invariant of the lock whose timed waits do not consume notifications.
\<close>

section \<open>No lost wakeups\<close>

text \<open>
  What the wait loops rely on: a sleeper that has not been notified has a reason to sleep,
  and readers are only kept out on behalf of a writer.
\<close>

definition writers_waiting :: "'i rwlock \<Rightarrow> 'i set" where
  "writers_waiting s = {j. \<exists>n. pos s j = InWriters n}"

definition writers_notified :: "'i rwlock \<Rightarrow> 'i set" where
  "writers_notified s = {j. pos s j = InWriters True}"

definition rw_live :: "'i rwlock \<Rightarrow> bool" where
  "rw_live s \<longleftrightarrow>
     (\<forall>i. pos s i = InUpgraders False \<longrightarrow> m_numReaders s \<noteq> 0) \<and>
     (\<forall>i. pos s i = InWriters False \<longrightarrow>
        m_numReaders s \<noteq> 0 \<or> m_numWriters s \<noteq> 0 \<or> writers_notified s \<noteq> {}) \<and>
     (\<forall>i. pos s i = InReaders False \<longrightarrow> \<not> m_canRead s \<or> m_numWriters s > 0) \<and>
     (\<not> m_canRead s \<longrightarrow> m_numWriters s > 0 \<or> writers_waiting s \<noteq> {})"

lemma wake_eq [simp]:
  "wake_reader p = InReaders n \<longleftrightarrow> n \<and> (\<exists>k. p = InReaders k)"
  "wake_reader p = InUpgraders n \<longleftrightarrow> p = InUpgraders n"
  "wake_reader p = InWriters n \<longleftrightarrow> p = InWriters n"
  "wake_writer p = InReaders n \<longleftrightarrow> p = InReaders n"
  "wake_writer p = InUpgraders n \<longleftrightarrow> n \<and> (\<exists>k. p = InUpgraders k)"
  "wake_writer p = InWriters n \<longleftrightarrow> n \<and> (\<exists>k. p = InWriters k)"
  by (cases p; auto)+

lemma pos_notify [simp]:
  "pos (notifyAll_readers s) i = wake_reader (pos s i)" "pos (notifyAll_writers s) i = wake_writer (pos s i)"
  by (simp_all add: notifyAll_readers_def notifyAll_writers_def)

lemma rw_liveI:
  assumes "\<And>i. pos s i = InUpgraders False \<Longrightarrow> m_numReaders s \<noteq> 0"
    and "\<And>i. pos s i = InWriters False \<Longrightarrow>
        m_numReaders s \<noteq> 0 \<or> m_numWriters s \<noteq> 0 \<or> writers_notified s \<noteq> {}"
    and "\<And>i. pos s i = InReaders False \<Longrightarrow> \<not> m_canRead s \<or> m_numWriters s > 0"
    and "\<not> m_canRead s \<Longrightarrow> m_numWriters s > 0 \<or> writers_waiting s \<noteq> {}"
  shows "rw_live s"
  using assms by (simp add: rw_live_def)

lemma rw_liveD:
  assumes "rw_live s"
  shows "pos s i = InUpgraders False \<Longrightarrow> m_numReaders s \<noteq> 0"
    and "pos s i = InWriters False \<Longrightarrow>
        m_numReaders s \<noteq> 0 \<or> m_numWriters s \<noteq> 0 \<or> writers_notified s \<noteq> {}"
    and "pos s i = InReaders False \<Longrightarrow> \<not> m_canRead s \<or> m_numWriters s > 0"
    and "\<not> m_canRead s \<Longrightarrow> m_numWriters s > 0 \<or> writers_waiting s \<noteq> {}"
  using assms by (auto simp: rw_live_def)

lemma waiting_updates [simp]:
  "writers_waiting (s\<lparr>m_canRead := b\<rparr>) = writers_waiting s" "writers_waiting (s\<lparr>m_numReaders := n\<rparr>) = writers_waiting s"
  "writers_waiting (s\<lparr>m_numWriters := n\<rparr>) = writers_waiting s" "writers_waiting (s\<lparr>m_lockerInfo := g\<rparr>) = writers_waiting s"
  "writers_notified (s\<lparr>m_canRead := b\<rparr>) = writers_notified s" "writers_notified (s\<lparr>m_numReaders := n\<rparr>) = writers_notified s"
  "writers_notified (s\<lparr>m_numWriters := n\<rparr>) = writers_notified s" "writers_notified (s\<lparr>m_lockerInfo := g\<rparr>) = writers_notified s"
  "writers_waiting (notifyAll_readers s) = writers_waiting s" "writers_notified (notifyAll_readers s) = writers_notified s"
  "writers_waiting (notifyAll_writers s) = writers_waiting s" "writers_notified (notifyAll_writers s) = writers_waiting s"
  by (auto simp: writers_waiting_def writers_notified_def)

lemma waiting_pos [simp]:
  "writers_waiting (s\<lparr>pos := (pos s')(i := p)\<rparr>) =
     (if \<exists>n. p = InWriters n then insert i (writers_waiting s') else writers_waiting s' - {i})"
  "writers_notified (s\<lparr>pos := (pos s')(i := p)\<rparr>) =
     (if p = InWriters True then insert i (writers_notified s') else writers_notified s' - {i})"
  by (auto simp: writers_waiting_def writers_notified_def)

lemma not_waiting:
  "pos s i = Running \<Longrightarrow> writers_waiting s - {i} = writers_waiting s \<and> writers_notified s - {i} = writers_notified s"
  "pos s i = InReaders n \<Longrightarrow> writers_waiting s - {i} = writers_waiting s \<and> writers_notified s - {i} = writers_notified s"
  "pos s i = InUpgraders n \<Longrightarrow> writers_waiting s - {i} = writers_waiting s \<and> writers_notified s - {i} = writers_notified s"
  by (auto simp: writers_waiting_def writers_notified_def)

lemma notified_waiting: "writers_waiting s = {} \<Longrightarrow> writers_notified s = {}"
  by (auto simp: writers_waiting_def writers_notified_def)

lemma read_loop_live:
  assumes "rw_live s" and "pos s i = Running \<or> pos s i = InReaders n" and "read_loop s i = (r, t)"
    and "m_numReaders s \<ge> 0"
  shows "rw_live t"
  using assms(3,4) rw_liveD [OF assms(1)] not_waiting(1,2) [of s i] assms(2)
  by (intro rw_liveI) (auto simp: read_loop_def split: if_splits)

lemma acquireReadLock_live:
  assumes "rw_live s" and "pos s i = Running" and "acquireReadLock s i = (r, t)" and "m_numReaders s \<ge> 0"
  shows "rw_live t"
  using assms(3) rw_liveD [OF assms(1)] read_loop_live [OF assms(1) _ _ assms(4), of i undefined r t] assms(2)
  by (intro rw_liveI) (auto simp: acquireReadLock_def rw_live_def split: option.splits)

lemma write_loop_live:
  assumes "rw_live s" and "write_loop s i = (r, t)" and "m_numReaders s \<ge> 0" and "m_numWriters s \<ge> 0"
  shows "rw_live t"
proof (cases "m_numReaders s \<noteq> 0 \<or> m_numWriters s \<noteq> 0")
  case True
  then have "t = at (s\<lparr>m_canRead := False\<rparr>) i (InWriters False)"
    using assms(2) by (simp add: write_loop_def)
  then show ?thesis using True rw_liveD(1) [OF assms(1)]
    by (intro rw_liveI) (auto split: if_splits)
next
  case False
  then have "t = (set_info (at s i Running) i \<lparr>readCount = 0, writeCount = 1\<rparr>)
      \<lparr>m_numWriters := m_numWriters s + 1, m_canRead := False\<rparr>"
    using assms(2) by (simp add: write_loop_def)
  then show ?thesis using False rw_liveD(1) [OF assms(1)]
    by (intro rw_liveI) (auto split: if_splits)
qed

lemma upgrade_loop_live:
  assumes "rw_live s" and "upgrade_loop s i ti = (r, t)" and "m_numWriters s = 1"
    and "\<And>j n. j \<noteq> i \<Longrightarrow> pos s j \<noteq> InUpgraders n"
  shows "rw_live t"
proof (cases "m_numReaders s \<noteq> 0")
  case True
  then have "t = at (s\<lparr>m_canRead := False\<rparr>) i (InUpgraders False)"
    using assms(2) by (simp add: upgrade_loop_def)
  then show ?thesis using True assms(3) by (intro rw_liveI) simp_all
next
  case False
  then have "t = set_info (at s i Running) i (ti\<lparr>writeCount := writeCount ti + 1\<rparr>)"
    using assms(2) by (simp add: upgrade_loop_def)
  then show ?thesis using assms(3,4) by (intro rw_liveI) (auto split: if_splits)
qed

lemma upgrade_entry_live:
  assumes "rw_live s" and "m_numWriters s = 0" and "upgrading s = {}"
    and "upgrade_loop (s\<lparr>m_numReaders := m_numReaders s - 1, m_numWriters := m_numWriters s + 1\<rparr>) i ti = (r, t)"
  shows "rw_live t"
proof -
  have none: "pos s j \<noteq> InUpgraders n" for j n using assms(3) by (auto simp: upgrading_def)
  let ?s = "s\<lparr>m_numReaders := m_numReaders s - 1, m_numWriters := m_numWriters s + 1\<rparr>"
  have "rw_live ?s" using assms(2) none by (intro rw_liveI) simp_all
  then show ?thesis by (rule upgrade_loop_live [OF _ assms(4)]) (use assms(2) none in simp_all)
qed

lemma acquireWriteLock_live:
  assumes "rw_inv s" and "rw_live s" and "acquireWriteLock s i = (r, t)"
  shows "rw_live t"
proof (cases "m_lockerInfo s i")
  case None
  then have "write_loop s i = (r, t)" using assms(3) by (simp add: acquireWriteLock_def)
  then show ?thesis by (rule write_loop_live [OF assms(2)]) (use assms(1) in \<open>simp_all add: rw_inv_def\<close>)
next
  case (Some ti)
  consider (plain) "t = s \<or> t = set_info s i (ti\<lparr>writeCount := writeCount ti + 1\<rparr>)"
    | (upgrade) "m_numWriters s \<noteq> 1"
        "upgrade_loop (s\<lparr>m_numReaders := m_numReaders s - 1, m_numWriters := m_numWriters s + 1\<rparr>) i ti = (r, t)"
    using assms(3) Some by (auto simp: acquireWriteLock_def split: if_splits)
  then show ?thesis
  proof cases
    case plain
    then show ?thesis using assms(2) by (auto simp: rw_live_def)
  next
    case upgrade
    then have "upgrading s = {}" "m_numWriters s = 0" by (cases rule: rw_inv_cases [OF assms(1)]; simp)+
    then show ?thesis using upgrade_entry_live [OF assms(2) _ _ upgrade(2)] by blast
  qed
qed

lemma releaseReadLock_live:
  assumes "rw_live s" and "releaseReadLock s i = (r, t)"
  shows "rw_live t"
proof -
  let ?d = "s\<lparr>m_numReaders := m_numReaders s - 1\<rparr>"
  have last: "rw_live (erase ?d i)" if "m_numReaders s - 1 \<noteq> 0"
    using that rw_liveD(3,4) [OF assms(1)] by (intro rw_liveI) simp_all
  have wake: "rw_live (erase (notifyAll_writers ?d) i)"
    using rw_liveD(3,4) [OF assms(1)] notified_waiting [of s] by (intro rw_liveI) (simp_all add: writers_waiting_def, blast)
  have plain: "rw_live (set_info s i ti)" for ti using assms(1) by (simp add: rw_live_def)
  show ?thesis
    using assms last wake plain
    by (auto simp: releaseReadLock_def Let_def split: option.splits if_splits)
qed

lemma releaseWriteLock_live:
  assumes "rw_inv s" and "rw_live s" and "choice_ok s c" and "releaseWriteLock c s i = (r, t)"
  shows "rw_live t"
proof -
  let ?dec = "\<lambda>ti. ti\<lparr>writeCount := writeCount ti - 1\<rparr>"
  let ?free = "\<lambda>s :: 'a rwlock. s\<lparr>m_numWriters := m_numWriters s - 1, m_canRead := True\<rparr>"
  consider (plain) ti where "t = s \<or> t = set_info s i ti"
    | (reader) ti where "m_lockerInfo s i = Some ti" "isWriter ti"
        "t = notifyAll_readers ((?free (set_info s i (?dec ti)))\<lparr>m_numReaders := m_numReaders s + 1\<rparr>)"
    | (last) ti where "m_lockerInfo s i = Some ti" "isWriter ti"
        "t = notifyAll_readers (erase (notifyOne_writers c (?free (set_info s i (?dec ti)))) i)"
    using assms(4) by (auto simp: releaseWriteLock_def Let_def split: option.splits if_splits)
  then show ?thesis
  proof cases
    case plain
    then show ?thesis using assms(2) by (auto simp: rw_live_def)
  next
    case reader
    then have "0 \<le> m_numReaders s" using assms(1) by (simp add: rw_inv_def)
    then show ?thesis using reader(3) by (intro rw_liveI) auto
  next
    case last
    then have "i \<in> writing s" by (auto simp: writing_def)
    then have U: "upgrading s = {}" by (cases rule: rw_inv_cases [OF assms(1)]; auto)
    then have none: "pos s j \<noteq> InUpgraders n" for j n by (auto simp: upgrading_def)
    show ?thesis
    proof (cases c)
      case None
      then have "pos s j \<noteq> InWriters False" for j
        using assms(3) by (auto simp: choice_ok_def sleeping_writer_def)
      then show ?thesis using last(3) None none by (intro rw_liveI) (auto simp: notifyOne_writers_def)
    next
      case (Some j)
      then have j: "pos s j = InWriters False"
        using assms(3) none by (auto simp: choice_ok_def sleeping_writer_def)
      then show ?thesis using last(3) Some none
        by (intro rw_liveI) (auto simp: notifyOne_writers_def split: if_splits)
    qed
  qed
qed

lemma timeouts_live:
  assumes "rw_inv s" and "rw_live s"
  shows "pos s i = InReaders n \<Longrightarrow> read_timeout s i = (r, t) \<Longrightarrow> rw_live t"
    and "pos s i = InUpgraders n \<Longrightarrow> upgrade_timeout s i = (r, t) \<Longrightarrow> rw_live t"
    and "pos s i = InWriters False \<Longrightarrow> write_timeout s i = (r, t) \<Longrightarrow> rw_live t"
proof -
  assume p: "pos s i = InReaders n" and "read_timeout s i = (r, t)"
  then have t: "t = at s i Running" by (simp add: read_timeout_def)
  show "rw_live t"
    unfolding t using rw_liveD [OF assms(2)] not_waiting(2) [OF p]
    by (intro rw_liveI) (auto split: if_splits)
next
  assume p: "pos s i = InUpgraders n" and u: "upgrade_timeout s i = (r, t)"
  then have "i \<in> upgrading s" by (auto simp: upgrading_def)
  then have "m_numWriters s = 1" by (cases rule: rw_inv_cases [OF assms(1)]; auto)
  moreover have "0 \<le> m_numReaders s" using assms(1) by (simp add: rw_inv_def)
  ultimately show "rw_live t"
    using u by (intro rw_liveI) (auto simp: upgrade_timeout_def Let_def)
next
  assume p: "pos s i = InWriters False" and w: "write_timeout s i = (r, t)"
  have ni: "writers_notified s - {i} = writers_notified s" using p by (auto simp: writers_notified_def)
  have nW: "0 \<le> m_numWriters s" using assms(1) by (simp add: rw_inv_def)
  show "rw_live t"
  proof (cases "m_numWriters s = 0")
    case True
    then have t: "t = notifyAll_readers ((at s i Running)\<lparr>m_canRead := True\<rparr>)"
      using w by (simp add: write_timeout_def Let_def)
    show ?thesis unfolding t using True rw_liveD(1,2) [OF assms(2)] ni
      by (intro rw_liveI) (auto split: if_splits)
  next
    case False
    then have t: "t = (at s i Running)\<lparr>m_canRead := True\<rparr>"
      using w by (simp add: write_timeout_def Let_def)
    show ?thesis unfolding t using False nW rw_liveD(1) [OF assms(2)]
      by (intro rw_liveI) (auto split: if_splits)
  qed
qed

lemma rw_live_step:
  assumes "rw_inv s" and "rw_live s" and "rw_step False s t"
  shows "rw_live t"
  using assms(3)
proof cases
  case (acquire_read i r)
  then show ?thesis using acquireReadLock_live [OF assms(2)] assms(1) by (simp add: rw_inv_def)
next
  case (acquire_write i r)
  then show ?thesis using acquireWriteLock_live [OF assms(1,2)] by blast
next
  case (release_read i r)
  then show ?thesis using releaseReadLock_live [OF assms(2)] by blast
next
  case (release_write i c r)
  then show ?thesis using releaseWriteLock_live [OF assms(1,2)] by blast
next
  case (wake_read i n r)
  then show ?thesis using read_loop_live [OF assms(2)] assms(1) by (auto simp: rw_inv_def)
next
  case (wake_upgrade i n ti r)
  then have "i \<in> upgrading s" by (auto simp: upgrading_def)
  then have U: "upgrading s = {i}" "m_numWriters s = 1" by (cases rule: rw_inv_cases [OF assms(1)]; auto)+
  then have "pos s j \<noteq> InUpgraders n" if "j \<noteq> i" for j n using that by (auto simp: upgrading_def)
  then show ?thesis using upgrade_loop_live [OF assms(2) wake_upgrade(3) U(2)] by blast
next
  case (wake_write i n r)
  then show ?thesis using write_loop_live [OF assms(2)] assms(1) by (simp add: rw_inv_def)
next
  case (timeout_read i n r)
  then show ?thesis using timeouts_live(1) [OF assms(1,2)] by blast
next
  case (timeout_upgrade i n r)
  then show ?thesis using timeouts_live(2) [OF assms(1,2)] by blast
next
  case (timeout_write i n r)
  then show ?thesis using timeouts_live(3) [OF assms(1,2)] by (cases n) auto
qed

lemma rw_live_init: "rw_live rwlock_init"
  by (simp add: rw_live_def rwlock_init_def)

interpretation rwlock_wakeups: invariant_system "\<lambda>s. s = rwlock_init" "rw_step False"
  "\<lambda>s. rw_inv s \<and> rw_live s"
  by unfold_locales (auto intro: rw_inv_init rw_live_init rw_step_inv rw_live_step)

section \<open>Properties\<close>

text \<open>
  C5. Mutual exclusion: in every reachable state, whatever the timeouts and wakeups were, an id
  that holds the write lock is the only id that holds any lock.\<close>

theorem write_lock_excludes_others:
  assumes "reach (\<lambda>s. s = rwlock_init) (rw_step late) s"
    and "m_lockerInfo s i = Some ti" and "isWriter ti"
  shows "dom (m_lockerInfo s) = {i}"
proof -
  have "i \<in> writing s" using assms(2,3) by (auto simp: writing_def)
  then show ?thesis by (cases rule: rw_inv_cases [OF rwlock.reachable_inv [OF assms(1)]]; auto)
qed

lemma reach_ops:
  assumes "reach init (rw_step late) s"
  shows "pos s i = Running \<Longrightarrow> reach init (rw_step late) (snd (acquireReadLock s i))"
    and "pos s i = Running \<Longrightarrow> reach init (rw_step late) (snd (acquireWriteLock s i))"
    and "pos s i = Running \<Longrightarrow> choice_ok s c \<Longrightarrow> reach init (rw_step late) (snd (releaseWriteLock c s i))"
    and "pos s i = InWriters n \<Longrightarrow> n \<longrightarrow> late \<Longrightarrow> reach init (rw_step late) (snd (write_timeout s i))"
  by (rule reach_step [OF assms], rule rw_step.acquire_read [of s i "fst (acquireReadLock s i)"], simp, simp)
    (rule reach_step [OF assms], rule rw_step.acquire_write [of s i "fst (acquireWriteLock s i)"], simp, simp,
     rule reach_step [OF assms], rule rw_step.release_write [of s i c "fst (releaseWriteLock c s i)"], simp, simp, simp,
     rule reach_step [OF assms], rule rw_step.timeout_write [of s i n _ "fst (write_timeout s i)"], simp, simp, simp)

definition rw_demo :: "nat rwlock" where
  "rw_demo = snd (acquireWriteLock rwlock_init 0)"

lemma rw_demo_reach: "reach (\<lambda>s. s = rwlock_init) (rw_step late) rw_demo"
  unfolding rw_demo_def by (rule reach_ops(2)) (simp_all add: reach_init rwlock_init_def)

lemma rw_demo_info: "m_lockerInfo rw_demo 0 = Some \<lparr>readCount = 0, writeCount = 1\<rparr>"
  by (simp add: rw_demo_def acquireWriteLock_def write_loop_def rwlock_init_def)

theorem write_lock_excludes_others_witness: "dom (m_lockerInfo rw_demo) = {0}"
  using write_lock_excludes_others [OF rw_demo_reach rw_demo_info] by (simp add: isWriter_def)

text \<open>
  The assertions of the code hold in every reachable state: the reader count does not wrap
  below zero, there is at most one current or upgrading writer, every entry of the table holds
  some lock, and giving up the last write lock leaves no writer.\<close>

theorem rw_counters_and_asserts:
  assumes "reach (\<lambda>s. s = rwlock_init) (rw_step late) s"
  shows "m_numReaders s \<ge> 0 \<and> (m_numWriters s = 0 \<or> m_numWriters s = 1) \<and>
    (\<forall>i ti. m_lockerInfo s i = Some ti \<longrightarrow> isReader ti \<or> isWriter ti) \<and>
    (\<forall>i ti c. m_lockerInfo s i = Some ti \<longrightarrow> writeCount ti = 1 \<longrightarrow>
       m_numWriters (snd (releaseWriteLock c s i)) = 0)"
proof -
  have inv: "rw_inv s" by (rule rwlock.reachable_inv [OF assms])
  then have ok: "info_ok s i" for i by (simp add: rw_inv_def)
  have one: "m_numWriters (snd (releaseWriteLock c s i)) = 0"
    if "m_lockerInfo s i = Some ti" "writeCount ti = 1" for i ti c
  proof -
    from that have "i \<in> writing s" by (auto simp: writing_def isWriter_def)
    then have "m_numWriters s = 1" by (cases rule: rw_inv_cases [OF inv]; auto)
    then show ?thesis using that by (simp add: releaseWriteLock_def isWriter_def Let_def)
  qed
  have "0 \<le> m_numWriters s" "m_numWriters s \<le> 1" "m_numReaders s \<ge> 0" using inv by (simp_all add: rw_inv_def)
  moreover have "isReader ti \<or> isWriter ti" if "m_lockerInfo s i = Some ti" for i ti
    using ok [of i] that by (simp add: info_ok_def)
  ultimately show ?thesis using one by auto
qed

theorem rw_counters_and_asserts_witness:
  "m_numReaders rw_demo = 0 \<and> m_numWriters rw_demo = 1 \<and> m_numWriters (snd (releaseWriteLock None rw_demo 0)) = 0"
  using rw_counters_and_asserts [OF rw_demo_reach] rw_demo_info
  by (simp add: rw_demo_def acquireWriteLock_def write_loop_def rwlock_init_def)

text \<open>
  \<open>acquireWriteLock\<close> throws \<open>DeadlockException\<close> exactly when the
  calling id holds only a read lock and another id is waiting to upgrade its own.\<close>

theorem deadlock_iff_other_upgrade:
  assumes "reach (\<lambda>s. s = rwlock_init) (rw_step late) s" and "pos s i = Running"
  shows "fst (acquireWriteLock s i) = DeadlockException \<longleftrightarrow>
    (\<exists>ti. m_lockerInfo s i = Some ti \<and> \<not> isWriter ti) \<and> (\<exists>j n. pos s j = InUpgraders n)"
proof -
  have inv: "rw_inv s" by (rule rwlock.reachable_inv [OF assms(1)])
  show ?thesis
  proof (cases "m_lockerInfo s i")
    case None
    then show ?thesis by (simp add: acquireWriteLock_def write_loop_def)
  next
    case (Some ti)
    show ?thesis
    proof (cases "isWriter ti")
      case True
      then show ?thesis using Some by (simp add: acquireWriteLock_def)
    next
      case False
      have "m_numWriters s = 1 \<longleftrightarrow> upgrading s \<noteq> {}"
      proof (cases rule: rw_inv_cases [OF inv])
        case (2 j)
        then have "i = j" using Some by (auto simp: dom_def)
        then have "i \<in> writing s" using 2 by simp
        then show ?thesis using Some False by (simp add: writing_def)
      qed simp_all
      then show ?thesis using Some False
        by (auto simp: acquireWriteLock_def upgrade_loop_def upgrading_def)
    qed
  qed
qed

definition rw_two :: "nat rwlock" where
  "rw_two = (let s1 = snd (acquireReadLock rwlock_init 0); s2 = snd (acquireReadLock s1 1)
     in snd (acquireWriteLock s2 0))"

lemma rw_two_reach: "reach (\<lambda>s. s = rwlock_init) (rw_step late) rw_two"
  unfolding rw_two_def Let_def
  by (intro reach_ops(1,2)) (simp_all add: reach_init rwlock_init_def acquireReadLock_def read_loop_def)

theorem deadlock_iff_other_upgrade_witness: "fst (acquireWriteLock rw_two 1) = DeadlockException"
proof -
  have 1: "pos rw_two 1 = Running" "pos rw_two 0 = InUpgraders False"
    "m_lockerInfo rw_two 1 = Some \<lparr>readCount = 1, writeCount = 0\<rparr>"
    by (simp_all add: rw_two_def Let_def rwlock_init_def acquireReadLock_def read_loop_def acquireWriteLock_def
        upgrade_loop_def isWriter_def)
  then show ?thesis
    using deadlock_iff_other_upgrade [OF rw_two_reach 1(1)] by (auto simp: isWriter_def)
qed

text \<open>
  Recursive locking: taking and releasing a lock inside a held one restores the state of
  the lock exactly.\<close>

theorem nested_lock_roundtrip:
  assumes "reach (\<lambda>s. s = rwlock_init) (rw_step late) s" and "m_lockerInfo s i = Some ti"
  shows "releaseReadLock (snd (acquireReadLock s i)) i = (Released, s) \<and>
    (isWriter ti \<longrightarrow> releaseWriteLock c (snd (acquireWriteLock s i)) i = (Released, s))"
proof -
  have "info_ok s i" using rwlock.reachable_inv [OF assms(1)] by (simp add: rw_inv_def)
  then have "isReader ti \<or> isWriter ti" using assms(2) by (simp add: info_ok_def)
  moreover have "(m_lockerInfo s)(i \<mapsto> ti) = m_lockerInfo s" using assms(2) by (rule map_upd_triv)
  ultimately show ?thesis using assms(2)
    by (auto simp: acquireReadLock_def releaseReadLock_def acquireWriteLock_def releaseWriteLock_def
        isReader_def isWriter_def Let_def)
qed

theorem nested_lock_roundtrip_witness:
  "releaseReadLock (snd (acquireReadLock rw_demo 0)) 0 = (Released, rw_demo) \<and>
   releaseWriteLock None (snd (acquireWriteLock rw_demo 0)) 0 = (Released, rw_demo)"
  using nested_lock_roundtrip [OF rw_demo_reach rw_demo_info] by (simp add: isWriter_def)

text \<open>
  Releasing throws \<open>GenericRWLockImplException\<close> exactly when the id holds no
  lock of that kind, and then the state is unchanged.\<close>

theorem release_errors:
  "(fst (releaseReadLock s i) = GenericRWLockImplException \<longleftrightarrow>
      (\<forall>ti. m_lockerInfo s i = Some ti \<longrightarrow> \<not> isReader ti)) \<and>
   (fst (releaseWriteLock c s i) = GenericRWLockImplException \<longleftrightarrow>
      (\<forall>ti. m_lockerInfo s i = Some ti \<longrightarrow> \<not> isWriter ti)) \<and>
   (fst (releaseReadLock s i) = GenericRWLockImplException \<longrightarrow> snd (releaseReadLock s i) = s) \<and>
   (fst (releaseWriteLock c s i) = GenericRWLockImplException \<longrightarrow> snd (releaseWriteLock c s i) = s)"
  by (auto simp: releaseReadLock_def releaseWriteLock_def Let_def split: option.splits)

definition rw_lost :: "nat rwlock" where
  "rw_lost = (let s1 = snd (acquireWriteLock rw_demo 1); s2 = snd (acquireWriteLock s1 2);
     s3 = snd (releaseWriteLock (Some 1) s2 0) in snd (write_timeout s3 1))"

lemmas rw_eval = acquireWriteLock_def write_loop_def rwlock_init_def releaseWriteLock_def write_timeout_def
  isWriter_def isReader_def Let_def notifyOne_writers_def notifyAll_readers_def choice_ok_def
  sleeping_writer_def fun_eq_iff rw_demo_def

text \<open>
  C6. No lost wakeups, when a timed wait does not consume a notification: if nobody holds the
  lock and some id still sleeps in a wait loop, then some sleeper has been notified and gets
  the lock when it runs.\<close>

theorem no_lost_wakeup:
  assumes "reach (\<lambda>s. s = rwlock_init) (rw_step False) s"
    and "dom (m_lockerInfo s) = {}" and "pos s j \<noteq> Running"
  shows "\<exists>k. (pos s k = InWriters True \<and> fst (write_loop s k) = Acquired) \<or>
    (pos s k = InReaders True \<and> fst (read_loop s k) = Acquired)"
proof -
  have inv: "rw_inv s" and live: "rw_live s" using rwlock_wakeups.reachable_inv [OF assms(1)] by auto
  have "reading s = {}" "writing s = {}" "upgrading s = {}"
    using assms(2) reading_cases(7,8) [OF inv] by (auto simp: reading_def)
  then have zero: "m_numReaders s = 0" "m_numWriters s = 0" using inv by (simp_all add: rw_inv_def)
  have up: "pos s j \<noteq> InUpgraders n" for n using \<open>upgrading s = {}\<close> by (auto simp: upgrading_def)
  show ?thesis
  proof (cases "writers_notified s = {}")
    case False
    then obtain k where "pos s k = InWriters True" by (auto simp: writers_notified_def)
    then show ?thesis using zero by (intro exI [of _ k]) (simp add: write_loop_def)
  next
    case True
    have "pos s k \<noteq> InWriters n" for k n
      using True zero rw_liveD(2) [OF live, of k] by (cases n) (auto simp: writers_notified_def)
    moreover from this have "m_canRead s"
      using zero rw_liveD(4) [OF live] by (auto simp: writers_waiting_def)
    moreover from this have "pos s k \<noteq> InReaders False" for k using zero rw_liveD(3) [OF live, of k] by auto
    ultimately have "pos s j = InReaders True" using assms(3) up by (cases "pos s j") (metis (full_types) position.exhaust)+
    then show ?thesis using zero \<open>m_canRead s\<close> by (intro exI [of _ j]) (simp add: read_loop_def)
  qed
qed

definition rw_free :: "nat rwlock" where
  "rw_free = (let s1 = snd (acquireWriteLock rw_demo 1) in snd (releaseWriteLock (Some 1) s1 0))"

lemma rw_free_reach: "reach (\<lambda>s. s = rwlock_init) (rw_step late) rw_free"
  unfolding rw_free_def Let_def
  by (intro reach_ops(2) reach_ops(3) rw_demo_reach) (simp_all add: rw_eval)

theorem no_lost_wakeup_witness:
  "\<exists>k. (pos rw_free k = InWriters True \<and> fst (write_loop rw_free k) = Acquired) \<or>
    (pos rw_free k = InReaders True \<and> fst (read_loop rw_free k) = Acquired)"
  by (rule no_lost_wakeup [OF rw_free_reach, of 1]) (simp_all add: rw_free_def rw_eval)

text \<open>
  When a timed wait may consume the notification of the waiter whose time runs out (as
  \<open>pthread_cond_timedwait\<close> may), the wakeup is lost: the lock becomes free while a
  writer sleeps that nobody will notify. The path of \<open>acquireWriteLock\<close> that throws
  \<open>TimeoutException\<close> wakes readers but passes no notification on to another
  writer.\<close>

theorem late_timeout_loses_wakeup:
  "\<exists>s :: nat rwlock. reach (\<lambda>s. s = rwlock_init) (rw_step True) s \<and> dom (m_lockerInfo s) = {} \<and>
     pos s = (\<lambda>_. Running)(2 := InWriters False)"
proof (intro exI conjI)
  show "reach (\<lambda>s. s = rwlock_init) (rw_step True) rw_lost"
    unfolding rw_lost_def Let_def
    by (intro reach_ops(2,4) reach_ops(3) rw_demo_reach) (simp_all add: rw_eval)
qed (simp_all add: rw_lost_def rw_eval)

end
