(* ===== verification/ThreadPool.thy ===== *)
theory ThreadPool
  imports Prelude
begin

text \<open>
  The thread pools of \<open>src/blocxx/ThreadPool.cpp\<close>: the shared queue of
  \<open>CommonPoolImpl\<close>, the fixed-size pool, the dynamic pool and the dynamic pool without
  a backlog. Each critical section under \<open>m_queueLock\<close> is one function and one step;
  a thread that waits resumes at the test of its loop, and what the code does after it has
  given the lock up (notifying, joining) is a step of its own. Any timed wait may end at any
  time and any wait may end spuriously.
\<close>

section \<open>State\<close>

datatype PoolType = FIXED_SIZE | DYNAMIC_SIZE | DYNAMIC_SIZE_NO_QUEUE

text \<open>
  Where a worker thread is. \<open>AtQueue\<close>: about to call \<open>getWorkFromQueue\<close>;
  \<open>InNotEmpty n\<close>: waiting on \<open>m_queueNotEmpty\<close>, notified or not;
  \<open>Working w\<close>: in \<open>runRunnable\<close>; \<open>Leaving\<close>: it got no work and is about
  to return from \<open>run\<close>, while \<open>isRunning()\<close> still answers true.
\<close>

datatype 'w worker = NotStarted | AtQueue | InNotEmpty bool | Working 'w | Leaving | Exited

text \<open>
  Where a caller is. \<open>InNotFull w n\<close>: in the wait loop of \<open>addWork\<close>;
  \<open>ToNotify\<close>, \<open>ToRelock\<close>: between \<open>l.release()\<close> and \<open>l.lock()\<close> of
  the dynamic \<open>addWork\<close>; \<open>InEmpty n\<close>: in \<open>waitForEmptyQueue\<close>;
  \<open>InDrain n\<close>: in \<open>finishOffWorkInQueue\<close>; the others are the rest of
  \<open>shutdownThreads\<close>, \<open>Joining i\<close> its join loop.
\<close>

datatype 'w caller = Idle | InNotFull 'w bool | ToNotify | ToRelock | InEmpty bool
  | InDrain bool | ToWakeWorkers | ToWakeCallers | Joining nat

record ('w, 'c) pool =
  poolType :: PoolType
  m_maxQueueSize :: nat
  m_maxThreads :: nat
  m_threads :: "nat list"
  m_queue :: "'w list"
  m_queueClosed :: bool
  m_shutdown :: bool
  m_workingThreads :: int
  next_thread :: nat
  worker :: "nat \<Rightarrow> 'w worker"
  caller :: "'c \<Rightarrow> 'w caller"
  accepted :: "'w list"
  taken :: "'w list"

text \<open>
  The last two fields are history: the work that was put into the queue and the work that
  was handed to a worker, in order. No operation reads them.
\<close>

datatype answer = Returned bool | Waits | Throws | Continues

definition pool_init :: "PoolType \<Rightarrow> nat \<Rightarrow> nat \<Rightarrow> ('w, 'c) pool" where
  "pool_init ty numThreads maxQueueSize =
     \<lparr>poolType = ty,
      m_maxQueueSize = (if ty = DYNAMIC_SIZE_NO_QUEUE then numThreads else maxQueueSize),
      m_maxThreads = numThreads,
      m_threads = (if ty = FIXED_SIZE then [0..<numThreads] else []),
      m_queue = [], m_queueClosed = False, m_shutdown = False, m_workingThreads = 0,
      next_thread = (if ty = FIXED_SIZE then numThreads else 0),
      worker = (\<lambda>t. if ty = FIXED_SIZE \<and> t < numThreads then AtQueue else NotStarted),
      caller = (\<lambda>_. Idle), accepted = [], taken = []\<rparr>"

section \<open>Conditions\<close>

fun wake_worker :: "'w worker \<Rightarrow> 'w worker" where
  "wake_worker (InNotEmpty _) = InNotEmpty True"
| "wake_worker p = p"

fun wake_adder :: "'w caller \<Rightarrow> 'w caller" where
  "wake_adder (InNotFull w _) = InNotFull w True"
| "wake_adder p = p"

fun wake_drainer :: "'w caller \<Rightarrow> 'w caller" where
  "wake_drainer (InEmpty _) = InEmpty True"
| "wake_drainer (InDrain _) = InDrain True"
| "wake_drainer p = p"

definition queueNotEmpty_notifyAll :: "('w, 'c) pool \<Rightarrow> ('w, 'c) pool" where
  "queueNotEmpty_notifyAll s = s\<lparr>worker := (\<lambda>t. wake_worker (worker s t))\<rparr>"

definition queueNotFull_notifyAll :: "('w, 'c) pool \<Rightarrow> ('w, 'c) pool" where
  "queueNotFull_notifyAll s = s\<lparr>caller := (\<lambda>c. wake_adder (caller s c))\<rparr>"

definition queueEmpty_notifyAll :: "('w, 'c) pool \<Rightarrow> ('w, 'c) pool" where
  "queueEmpty_notifyAll s = s\<lparr>caller := (\<lambda>c. wake_drainer (caller s c))\<rparr>"

section \<open>Operations\<close>

abbreviation goto :: "('w, 'c) pool \<Rightarrow> 'c \<Rightarrow> 'w caller \<Rightarrow> ('w, 'c) pool" where
  "goto s c p \<equiv> s\<lparr>caller := (caller s)(c := p)\<rparr>"

abbreviation become :: "('w, 'c) pool \<Rightarrow> nat \<Rightarrow> 'w worker \<Rightarrow> ('w, 'c) pool" where
  "become s t p \<equiv> s\<lparr>worker := (worker s)(t := p)\<rparr>"

definition queueIsFull :: "('w, 'c) pool \<Rightarrow> bool" where
  "queueIsFull s =
     (if poolType s = DYNAMIC_SIZE_NO_QUEUE
      then int (m_maxThreads s) - m_workingThreads s \<le> int (length (m_queue s))
      else m_maxQueueSize s > 0 \<and> length (m_queue s) = m_maxQueueSize s)"

definition queueClosed :: "('w, 'c) pool \<Rightarrow> bool" where
  "queueClosed s = (m_shutdown s \<or> m_queueClosed s)"

definition incrementWorkerCount :: "('w, 'c) pool \<Rightarrow> ('w, 'c) pool" where
  "incrementWorkerCount s =
     (if poolType s = DYNAMIC_SIZE_NO_QUEUE then s\<lparr>m_workingThreads := m_workingThreads s + 1\<rparr> else s)"

definition decrementWorkerCount :: "('w, 'c) pool \<Rightarrow> ('w, 'c) pool" where
  "decrementWorkerCount s =
     (if poolType s = DYNAMIC_SIZE_NO_QUEUE
      then queueNotFull_notifyAll (s\<lparr>m_workingThreads := m_workingThreads s - 1\<rparr>) else s)"

text \<open>The body of \<open>getWorkFromQueue\<close> from its loop test on.\<close>

definition getWorkFromQueue :: "('w, 'c) pool \<Rightarrow> nat \<Rightarrow> ('w, 'c) pool" where
  "getWorkFromQueue s t =
     (if m_shutdown s then become s t Leaving
      else case m_queue s of
        [] \<Rightarrow> become s t (InNotEmpty False)
      | work # rest \<Rightarrow>
          let s1 = incrementWorkerCount (s\<lparr>m_queue := rest, taken := taken s @ [work]\<rparr>);
              s2 = (if \<not> queueIsFull s1 then queueNotFull_notifyAll s1 else s1);
              s3 = (if rest = [] then queueEmpty_notifyAll s2 else s2)
          in become s3 t (Working work))"

text \<open>The rest of \<open>addWork\<close> from its loop test on, in the fixed and in the dynamic pools.\<close>

definition fixed_addWork_loop :: "('w, 'c) pool \<Rightarrow> 'c \<Rightarrow> 'w \<Rightarrow> answer \<times> ('w, 'c) pool" where
  "fixed_addWork_loop s c work =
     (if queueIsFull s \<and> \<not> queueClosed s then (Waits, goto s c (InNotFull work False))
      else if queueClosed s then (Returned False, goto s c Idle)
      else let s1 = s\<lparr>m_queue := m_queue s @ [work], accepted := accepted s @ [work]\<rparr>;
               s2 = (if length (m_queue s1) = 1 then queueNotEmpty_notifyAll s1 else s1)
           in (Returned True, goto s2 c Idle))"

definition dynamic_addWork_loop :: "('w, 'c) pool \<Rightarrow> 'c \<Rightarrow> 'w \<Rightarrow> answer \<times> ('w, 'c) pool" where
  "dynamic_addWork_loop s c work =
     (if queueIsFull s \<and> \<not> queueClosed s then (Waits, goto s c (InNotFull work False))
      else if queueClosed s then (Returned False, goto s c Idle)
      else (Continues, goto (s\<lparr>m_queue := m_queue s @ [work], accepted := accepted s @ [work]\<rparr>) c ToNotify))"

definition addWork_loop :: "('w, 'c) pool \<Rightarrow> 'c \<Rightarrow> 'w \<Rightarrow> answer \<times> ('w, 'c) pool" where
  "addWork_loop s c work =
     (if poolType s = FIXED_SIZE then fixed_addWork_loop s c work else dynamic_addWork_loop s c work)"

text \<open>The cleaning loop of the dynamic pools: joins and removes the threads that have ended.\<close>

fun reap :: "(nat \<Rightarrow> bool) \<Rightarrow> nat list \<Rightarrow> nat list" where
  "reap isRunning [] = []"
| "reap isRunning (t # ts) = (if \<not> isRunning t then reap isRunning ts else t # reap isRunning ts)"

definition fixed_addWork :: "('w, 'c) pool \<Rightarrow> 'c \<Rightarrow> 'w option \<Rightarrow> answer \<times> ('w, 'c) pool" where
  "fixed_addWork s c work =
     (case work of None \<Rightarrow> (Returned False, s) | Some w \<Rightarrow> fixed_addWork_loop s c w)"

definition dynamic_addWork :: "('w, 'c) pool \<Rightarrow> 'c \<Rightarrow> 'w option \<Rightarrow> answer \<times> ('w, 'c) pool" where
  "dynamic_addWork s c work =
     (case work of None \<Rightarrow> (Returned False, s)
      | Some w \<Rightarrow>
          if queueClosed s then (Returned False, s)
          else dynamic_addWork_loop (s\<lparr>m_threads := reap (\<lambda>t. worker s t \<noteq> Exited) (m_threads s)\<rparr>) c w)"

definition addWork :: "('w, 'c) pool \<Rightarrow> 'c \<Rightarrow> 'w option \<Rightarrow> answer \<times> ('w, 'c) pool" where
  "addWork s c work =
     (if poolType s = FIXED_SIZE then fixed_addWork s c work else dynamic_addWork s c work)"

text \<open>\<open>notifyOne\<close> on \<open>m_queueNotEmpty\<close>, with the thread the system picks.\<close>

definition queueNotEmpty_notifyOne :: "nat option \<Rightarrow> ('w, 'c) pool \<Rightarrow> ('w, 'c) pool" where
  "queueNotEmpty_notifyOne k s = (case k of None \<Rightarrow> s | Some t \<Rightarrow> become s t (wake_worker (worker s t)))"

definition pick_ok :: "('w, 'c) pool \<Rightarrow> nat option \<Rightarrow> bool" where
  "pick_ok s k = (case k of None \<Rightarrow> \<forall>t. worker s t \<noteq> InNotEmpty False | Some t \<Rightarrow> worker s t = InNotEmpty False)"

text \<open>After \<open>l.lock()\<close>: a new thread for the queued work; \<open>started\<close> says whether
  \<open>start\<close> succeeded.\<close>

definition start_thread :: "('w, 'c) pool \<Rightarrow> 'c \<Rightarrow> bool \<Rightarrow> answer \<times> ('w, 'c) pool" where
  "start_thread s c started =
     (if m_queue s \<noteq> [] \<and> length (m_threads s) < m_maxThreads s then
        if started then
          (Returned True,
           goto (s\<lparr>m_threads := m_threads s @ [next_thread s], next_thread := next_thread s + 1,
                   worker := (worker s)(next_thread s := AtQueue)\<rparr>) c Idle)
        else (Throws, goto s c Idle)
      else (Returned True, goto s c Idle))"

definition waitForEmptyQueue :: "('w, 'c) pool \<Rightarrow> 'c \<Rightarrow> answer \<times> ('w, 'c) pool" where
  "waitForEmptyQueue s c =
     (if m_queue s \<noteq> [] then (Waits, goto s c (InEmpty False)) else (Returned True, goto s c Idle))"

text \<open>\<open>finishOffWorkInQueue\<close>; its loop; the end of it when the timed wait has expired.\<close>

definition set_shutdown :: "('w, 'c) pool \<Rightarrow> 'c \<Rightarrow> ('w, 'c) pool" where
  "set_shutdown s c = goto (s\<lparr>m_shutdown := True\<rparr>) c ToWakeWorkers"

definition drain_loop :: "('w, 'c) pool \<Rightarrow> 'c \<Rightarrow> answer \<times> ('w, 'c) pool" where
  "drain_loop s c =
     (if m_queue s \<noteq> [] then (Waits, goto s c (InDrain False)) else (Continues, set_shutdown s c))"

definition finishOffWorkInQueue :: "('w, 'c) pool \<Rightarrow> 'c \<Rightarrow> bool \<Rightarrow> answer \<times> ('w, 'c) pool" where
  "finishOffWorkInQueue s c finishWorkInQueue =
     (if queueClosed s then (Returned False, s)
      else let s1 = s\<lparr>m_queueClosed := True\<rparr>
           in if finishWorkInQueue then drain_loop s1 c else (Continues, set_shutdown s1 c))"

text \<open>The join loop of \<open>shutdownThreads\<close>; \<open>join\<close> blocks until the thread has ended.\<close>

definition join_loop :: "('w, 'c) pool \<Rightarrow> 'c \<Rightarrow> nat \<Rightarrow> answer \<times> ('w, 'c) pool" where
  "join_loop s c i =
     (if i < length (m_threads s) then
        if worker s (m_threads s ! i) = Exited then (Continues, goto s c (Joining (i + 1)))
        else (Waits, s)
      else (Returned True, goto s c Idle))"

section \<open>Steps\<close>

inductive pool_step :: "('w, 'c) pool \<Rightarrow> ('w, 'c) pool \<Rightarrow> bool" where
  worker_gets: "worker s t = AtQueue \<or> worker s t = InNotEmpty n \<Longrightarrow> pool_step s (getWorkFromQueue s t)"
| worker_times_out: "poolType s \<noteq> FIXED_SIZE \<Longrightarrow> worker s t = InNotEmpty n \<Longrightarrow> pool_step s (become s t Leaving)"
| worker_done: "worker s t = Working w \<Longrightarrow> pool_step s (become (decrementWorkerCount s) t AtQueue)"
| worker_cancelled: "worker s t \<noteq> NotStarted \<Longrightarrow> m_shutdown s \<Longrightarrow> pool_step s (become s t Exited)"
| worker_exits: "worker s t = Leaving \<Longrightarrow> pool_step s (become s t Exited)"
| add: "caller s c = Idle \<Longrightarrow> addWork s c work = (a, s') \<Longrightarrow> pool_step s s'"
| add_wakes: "caller s c = InNotFull w n \<Longrightarrow> addWork_loop s c w = (a, s') \<Longrightarrow> pool_step s s'"
| add_times_out: "caller s c = InNotFull w n \<Longrightarrow> pool_step s (goto s c Idle)"
| add_notifies: "caller s c = ToNotify \<Longrightarrow> pick_ok s k \<Longrightarrow> pool_step s (goto (queueNotEmpty_notifyOne k s) c ToRelock)"
| add_relocks: "caller s c = ToRelock \<Longrightarrow> start_thread s c started = (a, s') \<Longrightarrow> pool_step s s'"
| wait_empty: "caller s c = Idle \<or> caller s c = InEmpty n \<Longrightarrow> waitForEmptyQueue s c = (a, s') \<Longrightarrow> pool_step s s'"
| shutdown: "caller s c = Idle \<Longrightarrow> finishOffWorkInQueue s c finish = (a, s') \<Longrightarrow> pool_step s s'"
| shutdown_wakes: "caller s c = InDrain n \<Longrightarrow> drain_loop s c = (a, s') \<Longrightarrow> pool_step s s'"
| shutdown_times_out: "caller s c = InDrain n \<Longrightarrow> pool_step s (set_shutdown s c)"
| shutdown_wakes_workers: "caller s c = ToWakeWorkers \<Longrightarrow>
    pool_step s (goto (queueNotEmpty_notifyAll s) c ToWakeCallers)"
| shutdown_wakes_callers: "caller s c = ToWakeCallers \<Longrightarrow>
    pool_step s (goto (queueNotFull_notifyAll s) c (Joining 0))"
| shutdown_joins: "caller s c = Joining i \<Longrightarrow> join_loop s c i = (a, s') \<Longrightarrow> pool_step s s'"

section \<open>Fields under notification\<close>

lemma wake_simps [simp]:
  "wake_worker p = InNotEmpty n \<longleftrightarrow> n \<and> (\<exists>k. p = InNotEmpty k)"
  "wake_worker p = Working w \<longleftrightarrow> p = Working w" "wake_worker p = NotStarted \<longleftrightarrow> p = NotStarted"
  "wake_worker p = Leaving \<longleftrightarrow> p = Leaving" "wake_worker p = Exited \<longleftrightarrow> p = Exited" "wake_worker p = AtQueue \<longleftrightarrow> p = AtQueue"
  "wake_adder q = InNotFull v n \<longleftrightarrow> n \<and> (\<exists>k. q = InNotFull v k)"
  "wake_adder q = InEmpty n \<longleftrightarrow> q = InEmpty n" "wake_adder q = InDrain n \<longleftrightarrow> q = InDrain n"
  "wake_adder q = Joining i \<longleftrightarrow> q = Joining i" "wake_adder q = ToWakeWorkers \<longleftrightarrow> q = ToWakeWorkers"
  "wake_adder q = ToWakeCallers \<longleftrightarrow> q = ToWakeCallers" "wake_adder q = ToNotify \<longleftrightarrow> q = ToNotify"
  "wake_adder q = ToRelock \<longleftrightarrow> q = ToRelock" "wake_adder q = Idle \<longleftrightarrow> q = Idle"
  "wake_drainer q = InNotFull v n \<longleftrightarrow> q = InNotFull v n"
  "wake_drainer q = InEmpty n \<longleftrightarrow> n \<and> (\<exists>k. q = InEmpty k)"
  "wake_drainer q = InDrain n \<longleftrightarrow> n \<and> (\<exists>k. q = InDrain k)"
  "wake_drainer q = Joining i \<longleftrightarrow> q = Joining i" "wake_drainer q = ToWakeWorkers \<longleftrightarrow> q = ToWakeWorkers"
  "wake_drainer q = ToWakeCallers \<longleftrightarrow> q = ToWakeCallers" "wake_drainer q = ToNotify \<longleftrightarrow> q = ToNotify"
  "wake_drainer q = ToRelock \<longleftrightarrow> q = ToRelock" "wake_drainer q = Idle \<longleftrightarrow> q = Idle"
  by (cases p; cases q; auto)+

lemma reap_filter: "reap isRunning ts = filter isRunning ts"
  by (induction ts) auto

lemmas notify_defs = queueNotEmpty_notifyAll_def queueNotFull_notifyAll_def queueEmpty_notifyAll_def
  queueNotEmpty_notifyOne_def

lemmas add_defs = addWork_def fixed_addWork_def dynamic_addWork_def addWork_loop_def fixed_addWork_loop_def
  dynamic_addWork_loop_def start_thread_def

lemmas close_defs = waitForEmptyQueue_def finishOffWorkInQueue_def drain_loop_def set_shutdown_def join_loop_def

lemmas work_defs = getWorkFromQueue_def incrementWorkerCount_def decrementWorkerCount_def

lemmas pool_defs = notify_defs add_defs close_defs work_defs Let_def

section \<open>The queue\<close>

definition queue_inv :: "('w, 'c) pool \<Rightarrow> bool" where
  "queue_inv s \<longleftrightarrow> accepted s = taken s @ m_queue s \<and> (m_shutdown s \<longrightarrow> m_queueClosed s) \<and>
     (\<forall>c n. caller s c = InDrain n \<longrightarrow> m_queueClosed s)"

lemma queue_inv_step:
  assumes "queue_inv s" and "pool_step s t"
  shows "queue_inv t"
  using assms(2,1)
  by cases (auto simp: queue_inv_def pool_defs split: if_splits option.splits list.splits)

definition bound_inv :: "('w, 'c) pool \<Rightarrow> bool" where
  "bound_inv s \<longleftrightarrow>
     (if poolType s = DYNAMIC_SIZE_NO_QUEUE
      then int (length (m_queue s)) + m_workingThreads s \<le> int (m_maxThreads s)
      else m_maxQueueSize s > 0 \<longrightarrow> length (m_queue s) \<le> m_maxQueueSize s)"

lemma bound_inv_step:
  assumes "bound_inv s" and "pool_step s t"
  shows "bound_inv t"
  using assms(2,1)
  by cases (auto simp: bound_inv_def pool_defs queueIsFull_def queueClosed_def split: if_splits option.splits list.splits)

section \<open>The threads\<close>

definition fresh_inv :: "('w, 'c) pool \<Rightarrow> bool" where
  "fresh_inv s \<longleftrightarrow> (\<forall>t. worker s t = NotStarted \<longleftrightarrow> next_thread s \<le> t)"

definition live :: "'w worker \<Rightarrow> bool" where
  "live p = (p \<noteq> NotStarted \<and> p \<noteq> Exited)"

lemma live_simps [simp]:
  "live AtQueue" "live Leaving" "live (InNotEmpty n)" "live (Working w)" "\<not> live Exited" "\<not> live NotStarted"
  "live (wake_worker p) = live p"
  by (auto simp: live_def)

lemma next_thread_step:
  assumes "pool_step s t"
  shows "next_thread t = next_thread s \<or>
    next_thread t = Suc (next_thread s) \<and> worker t (next_thread s) = AtQueue \<and>
    next_thread s \<in> set (m_threads t)"
  using assms by cases (auto simp: pool_defs split: if_splits option.splits list.splits)

lemma unstarted_step:
  assumes "pool_step s t" and "k \<noteq> next_thread s \<or> next_thread t = next_thread s"
  shows "worker t k = NotStarted \<longleftrightarrow> worker s k = NotStarted"
  using assms by cases (auto simp: pool_defs split: if_splits option.splits list.splits)

lemma fresh_inv_step:
  assumes "fresh_inv s" and "pool_step s t"
  shows "fresh_inv t"
  using assms(1) next_thread_step [OF assms(2)] unstarted_step [OF assms(2)]
  unfolding fresh_inv_def by (metis Suc_leD not_less_eq_eq order.refl le_antisym worker.distinct(1))

lemma thread_ids_step:
  assumes "\<forall>t \<in> set (m_threads s). t < next_thread s" and "distinct (m_threads s)" and "pool_step s t"
  shows "(\<forall>t' \<in> set (m_threads t). t' < next_thread t) \<and> distinct (m_threads t)"
  using assms(3,1,2)
  by cases (auto simp: pool_defs reap_filter less_Suc_eq split: if_splits option.splits list.splits)

lemma thread_count_step:
  assumes "length (m_threads s) \<le> m_maxThreads s" and "pool_step s t"
  shows "length (m_threads t) \<le> m_maxThreads t"
proof -
  have len: "length (filter P (m_threads s)) \<le> m_maxThreads s" for P
    using assms(1) length_filter_le [of P "m_threads s"] by linarith
  show ?thesis
    using assms(2,1) len
    by cases (simp_all add: pool_defs reap_filter split: if_splits option.splits list.splits prod.splits, auto)
qed

lemma live_worker_step:
  assumes "pool_step s t" and "live (worker t k)"
  shows "live (worker s k) \<or> (k = next_thread s \<and> k \<in> set (m_threads t))"
  using assms by cases (auto simp: pool_defs split: if_splits option.splits list.splits)

lemma listed_step:
  assumes "pool_step s t" and "k \<in> set (m_threads s)" and "live (worker s k)"
  shows "k \<in> set (m_threads t)"
  using assms by cases (auto simp: pool_defs reap_filter split: if_splits option.splits list.splits)

lemma listed_inv_step:
  assumes "\<forall>k. live (worker s k) \<longrightarrow> k \<in> set (m_threads s)" and "pool_step s t"
  shows "\<forall>k. live (worker t k) \<longrightarrow> k \<in> set (m_threads t)"
  using assms live_worker_step listed_step by blast

definition past_close :: "'w caller \<Rightarrow> bool" where
  "past_close p = (p = ToWakeWorkers \<or> p = ToWakeCallers \<or> (\<exists>i. p = Joining i))"

lemma past_close_simps [simp]:
  "past_close ToWakeWorkers" "past_close ToWakeCallers" "past_close (Joining i)"
  "\<not> past_close Idle" "\<not> past_close (InNotFull w n)" "\<not> past_close ToNotify" "\<not> past_close ToRelock"
  "\<not> past_close (InEmpty n)" "\<not> past_close (InDrain n)"
  by (auto simp: past_close_def)

lemma past_close_wake [simp]: "past_close (wake_adder p) = past_close p" "past_close (wake_drainer p) = past_close p"
  by (cases p; simp)+

lemma past_close_step:
  assumes "pool_step s t" and "past_close (caller t c)"
  shows "past_close (caller s c) \<or> m_shutdown t"
  using assms by cases (auto simp: pool_defs split: if_splits option.splits list.splits)

lemma shutdown_step:
  assumes "pool_step s t" and "m_shutdown s"
  shows "m_shutdown t \<and> taken t = taken s \<and> m_queue t = m_queue s \<and> accepted t = accepted s"
  using assms by cases (auto simp: pool_defs queueClosed_def split: if_splits option.splits list.splits)

lemma closed_step:
  assumes "pool_step s t" and "m_queueClosed s"
  shows "m_queueClosed t \<and> accepted t = accepted s"
  using assms by cases (auto simp: pool_defs queueClosed_def split: if_splits option.splits list.splits)

lemma threads_shutdown_step:
  assumes "pool_step s t" and "m_shutdown s"
  shows "\<exists>ks. m_threads t = m_threads s @ ks"
  using assms by cases (auto simp: pool_defs queueClosed_def split: if_splits option.splits list.splits)

lemma exited_step:
  assumes "pool_step s t" and "worker s k = Exited" and "k \<noteq> next_thread s"
  shows "worker t k = Exited"
  using assms by cases (auto simp: pool_defs split: if_splits option.splits list.splits)

lemma joining_step:
  assumes "pool_step s t" and "caller t c = Joining i"
  shows "caller s c = Joining i \<or> i = 0 \<or>
    (\<exists>j. i = Suc j \<and> caller s c = Joining j \<and> j < length (m_threads s) \<and> worker s (m_threads s ! j) = Exited)"
  using assms by cases (auto simp: pool_defs split: if_splits option.splits list.splits)

section \<open>The wakeups\<close>

definition fixed_wake_inv :: "('w, 'c) pool \<Rightarrow> bool" where
  "fixed_wake_inv s \<longleftrightarrow>
     (poolType s = FIXED_SIZE \<longrightarrow> m_queue s \<noteq> [] \<longrightarrow> (\<forall>t. worker s t \<noteq> InNotEmpty False))"

lemma fixed_wake_inv_step:
  assumes "fixed_wake_inv s" and "pool_step s t"
  shows "fixed_wake_inv t"
  using assms(2,1)
  by cases (auto simp: fixed_wake_inv_def pool_defs split: if_splits option.splits list.splits)

definition full_inv :: "('w, 'c) pool \<Rightarrow> bool" where
  "full_inv s \<longleftrightarrow> (\<forall>c w. caller s c = InNotFull w False \<longrightarrow> queueIsFull s)"

lemma full_inv_step:
  assumes "bound_inv s" and "full_inv s" and "pool_step s t"
  shows "full_inv t"
  using assms(3,1,2)
  by cases (auto simp: full_inv_def bound_inv_def pool_defs queueClosed_def queueIsFull_def split: if_splits option.splits list.splits)

definition drain_inv :: "('w, 'c) pool \<Rightarrow> bool" where
  "drain_inv s \<longleftrightarrow> (\<forall>c. caller s c = InEmpty False \<or> caller s c = InDrain False \<longrightarrow> m_queue s \<noteq> [])"

lemma drain_inv_step:
  assumes "drain_inv s" and "pool_step s t"
  shows "drain_inv t"
  using assms(2,1)
  by cases (auto simp: drain_inv_def pool_defs queueClosed_def split: if_splits option.splits list.splits)

lemma pending_workers:
  assumes "pool_step s t" and "caller s c = ToWakeWorkers"
  shows "caller t c = ToWakeWorkers \<or> (\<forall>k. worker t k \<noteq> InNotEmpty False)"
  using assms
  by cases (auto simp: pool_defs split: if_splits option.splits list.splits)

lemma new_sleeping_worker:
  assumes "pool_step s t" and "m_shutdown t" and "worker t k = InNotEmpty False"
  shows "(m_shutdown s \<and> worker s k = InNotEmpty False) \<or> (\<exists>c. caller t c = ToWakeWorkers)"
  using assms
  by cases (auto simp: pool_defs split: if_splits option.splits list.splits)

lemma pending_callers:
  assumes "pool_step s t" and "caller s c = ToWakeWorkers \<or> caller s c = ToWakeCallers"
  shows "caller t c = ToWakeWorkers \<or> caller t c = ToWakeCallers \<or> (\<forall>c w. caller t c \<noteq> InNotFull w False)"
  using assms
  by cases (auto simp: pool_defs split: if_splits option.splits list.splits)

lemma new_sleeping_caller:
  assumes "pool_step s t" and "m_shutdown t" and "caller t c = InNotFull w False"
  shows "(m_shutdown s \<and> caller s c = InNotFull w False) \<or> (\<exists>c. caller t c = ToWakeWorkers)"
  using assms
  by cases (auto simp: pool_defs queueClosed_def split: if_splits option.splits list.splits)

end
