(* ===== verification/ThreadPool_Props.thy ===== *)
theory ThreadPool_Props
  imports ThreadPool
begin

text \<open>
  The invariant of the thread pools, assembled from the step lemmas of \<open>ThreadPool\<close>,
  its interpretation as an invariant system, and the properties of the pools. The last two
  properties are runs in which the dynamic pool goes wrong.
\<close>

section \<open>The invariant of the pool\<close>

lemma constants_step:
  assumes "pool_step s t"
  shows "poolType t = poolType s \<and> m_maxQueueSize t = m_maxQueueSize s \<and> m_maxThreads t = m_maxThreads s \<and>
    (poolType s = FIXED_SIZE \<longrightarrow> m_threads s = [0..<m_maxThreads s] \<longrightarrow> m_threads t = m_threads s)"
  using assms by cases (auto simp: pool_defs split: if_splits option.splits list.splits)

definition busy :: "('w, 'c) pool \<Rightarrow> nat set" where
  "busy s = {k. \<exists>w. worker s k = Working w}"

lemma busy_wake [simp]: "(\<exists>w. wake_worker p = Working w) = (\<exists>w. p = Working w)"
  by simp

lemma busy_step:
  assumes "pool_step s t" and "poolType s = DYNAMIC_SIZE_NO_QUEUE"
  obtains "busy t \<subseteq> busy s" "m_workingThreads t = m_workingThreads s"
  | k where "busy t \<subseteq> insert k (busy s)" "m_workingThreads t = m_workingThreads s + 1"
  | k where "k \<in> busy s" "busy t \<subseteq> busy s - {k}" "m_workingThreads t = m_workingThreads s - 1"
  using assms(1)
proof cases
  case (worker_gets k n)
  have "busy t \<subseteq> insert k (busy s)" using worker_gets(1)
    by (auto simp: busy_def pool_defs split: if_splits list.splits)
  moreover have "m_workingThreads t = m_workingThreads s \<and> worker t k \<in> {Leaving, InNotEmpty False} \<or>
      m_workingThreads t = m_workingThreads s + 1"
    using worker_gets(1) assms(2) by (auto simp: pool_defs split: list.splits)
  ultimately consider "busy t \<subseteq> busy s" "m_workingThreads t = m_workingThreads s"
    | "busy t \<subseteq> insert k (busy s)" "m_workingThreads t = m_workingThreads s + 1"
    unfolding busy_def by fastforce
  then show ?thesis using that(1,2) by cases
next
  case (worker_done k w)
  then show ?thesis using assms(2) by (intro that(3) [of k]) (auto simp: busy_def pool_defs)
qed (rule that(1); auto simp: busy_def pool_defs split: if_splits option.splits; fail)+

definition count_inv :: "('w, 'c) pool \<Rightarrow> bool" where
  "count_inv s \<longleftrightarrow> (poolType s = DYNAMIC_SIZE_NO_QUEUE \<longrightarrow> int (card (busy s)) \<le> m_workingThreads s)"

lemma busy_finite: "fresh_inv s \<Longrightarrow> finite (busy s)"
  by (rule finite_subset [of _ "{..<next_thread s}"])
    (auto simp: fresh_inv_def busy_def, metis linorder_not_less worker.distinct(5))

lemma count_inv_step:
  assumes "fresh_inv s" and "count_inv s" and "pool_step s t"
  shows "count_inv t"
proof (cases "poolType s = DYNAMIC_SIZE_NO_QUEUE")
  case True
  note fin = busy_finite [OF assms(1)]
  have old: "int (card (busy s)) \<le> m_workingThreads s" using True assms(2) by (simp add: count_inv_def)
  from assms(3) True have "int (card (busy t)) \<le> m_workingThreads t"
  proof (cases rule: busy_step)
    case 1
    then show ?thesis using card_mono [OF fin 1(1)] old by simp
  next
    case (2 k)
    then show ?thesis using card_mono [OF _ 2(1)] fin old card_insert_le_m1 [of "Suc (card (busy s))" "busy s" k]
      by (simp add: card_insert_if split: if_splits)
  next
    case (3 k)
    then have "card (busy t) \<le> card (busy s - {k})" using 3(2) fin by (intro card_mono) simp_all
    moreover have "card (busy s - {k}) < card (busy s)" using 3(1) fin by (rule card_Diff1_less [rotated])
    ultimately show ?thesis using 3(3) old by simp
  qed
  then show ?thesis by (simp add: count_inv_def)
next
  case False
  then show ?thesis using constants_step [OF assms(3)] by (simp add: count_inv_def)
qed

definition join_inv :: "('w, 'c) pool \<Rightarrow> bool" where
  "join_inv s \<longleftrightarrow> (\<forall>c. past_close (caller s c) \<longrightarrow> m_shutdown s) \<and>
     (\<forall>c i. caller s c = Joining i \<longrightarrow> i \<le> length (m_threads s) \<and> (\<forall>k < i. worker s (m_threads s ! k) = Exited))"

definition ids_inv :: "('w, 'c) pool \<Rightarrow> bool" where
  "ids_inv s \<longleftrightarrow> (\<forall>k \<in> set (m_threads s). k < next_thread s) \<and> distinct (m_threads s) \<and>
     (\<forall>k. live (worker s k) \<longrightarrow> k \<in> set (m_threads s)) \<and> length (m_threads s) \<le> m_maxThreads s \<and>
     (poolType s = FIXED_SIZE \<longrightarrow> m_threads s = [0..<m_maxThreads s])"

lemma ids_inv_step:
  assumes "ids_inv s" and "pool_step s t"
  shows "ids_inv t"
  using assms(1) thread_ids_step [OF _ _ assms(2)] listed_inv_step [OF _ assms(2)]
    thread_count_step [OF _ assms(2)] constants_step [OF assms(2)]
  unfolding ids_inv_def by metis

lemma join_inv_step:
  assumes "ids_inv s" and "join_inv s" and "pool_step s t"
  shows "join_inv t"
proof -
  have "i \<le> length (m_threads t) \<and> (\<forall>k < i. worker t (m_threads t ! k) = Exited)"
    if j: "caller t c = Joining i" for c i
  proof (cases "i = 0")
    case False
    have old: "i \<le> length (m_threads s) \<and> (\<forall>k < i. worker s (m_threads s ! k) = Exited)" 
      using joining_step [OF assms(3) j] False assms(2) unfolding join_inv_def
      by (auto simp: less_Suc_eq)
    obtain l where "caller s c = Joining l" using joining_step [OF assms(3) j] False by blast
    then have sh: "m_shutdown s" using assms(2) past_close_simps(3) [of l] unfolding join_inv_def by metis
    obtain ks where ks: "m_threads t = m_threads s @ ks" using threads_shutdown_step [OF assms(3) sh] by blast
    have "worker t (m_threads t ! k) = Exited" if "k < i" for k
    proof -
      have "m_threads s ! k \<in> set (m_threads s)" using that old by simp
      then have "m_threads s ! k \<noteq> next_thread s" using assms(1) by (auto simp: ids_inv_def)
      then show ?thesis using exited_step [OF assms(3)] old that ks by (simp add: nth_append)
    qed
    then show ?thesis using old ks by simp
  qed simp
  moreover have "m_shutdown t" if "past_close (caller t c)" for c
    using past_close_step [OF assms(3) that] shutdown_step [OF assms(3)] assms(2) by (auto simp: join_inv_def)
  ultimately show ?thesis by (simp add: join_inv_def)
qed

definition sleep_inv :: "('w, 'c) pool \<Rightarrow> bool" where
  "sleep_inv s \<longleftrightarrow> (m_shutdown s \<longrightarrow>
     (\<forall>k. worker s k = InNotEmpty False \<longrightarrow> (\<exists>c. caller s c = ToWakeWorkers)) \<and>
     (\<forall>c w. caller s c = InNotFull w False \<longrightarrow> (\<exists>c. caller s c = ToWakeWorkers \<or> caller s c = ToWakeCallers)))"

lemma sleep_inv_step:
  assumes "sleep_inv s" and "pool_step s t"
  shows "sleep_inv t"
proof -
  have "\<exists>c. caller t c = ToWakeWorkers" if "m_shutdown t" "worker t k = InNotEmpty False" for k
    using new_sleeping_worker [OF assms(2) that] pending_workers [OF assms(2)] assms(1) that
    unfolding sleep_inv_def by metis
  moreover have "\<exists>c. caller t c = ToWakeWorkers \<or> caller t c = ToWakeCallers"
    if "m_shutdown t" "caller t c = InNotFull w False" for c w
    using new_sleeping_caller [OF assms(2) that] pending_callers [OF assms(2)] assms(1) that
    unfolding sleep_inv_def by metis
  ultimately show ?thesis by (simp add: sleep_inv_def)
qed

definition pool_inv :: "('w, 'c) pool \<Rightarrow> bool" where
  "pool_inv s \<longleftrightarrow> queue_inv s \<and> bound_inv s \<and> fresh_inv s \<and> ids_inv s \<and> count_inv s \<and> join_inv s \<and>
     fixed_wake_inv s \<and> full_inv s \<and> drain_inv s \<and> sleep_inv s"

definition pool_start :: "('w, 'c) pool \<Rightarrow> bool" where
  "pool_start s \<longleftrightarrow> (\<exists>ty n q. s = pool_init ty n q)"

lemma pool_inv_init: "pool_start s \<Longrightarrow> pool_inv s"
  by (auto simp: pool_start_def pool_init_def pool_inv_def queue_inv_def bound_inv_def fresh_inv_def
      ids_inv_def count_inv_def join_inv_def fixed_wake_inv_def full_inv_def drain_inv_def sleep_inv_def
      busy_def live_def split: if_splits)

lemma pool_inv_step: "pool_inv s \<Longrightarrow> pool_step s t \<Longrightarrow> pool_inv t"
  unfolding pool_inv_def
  by (intro conjI; elim conjE; (erule (1) queue_inv_step bound_inv_step fresh_inv_step ids_inv_step
      fixed_wake_inv_step drain_inv_step sleep_inv_step
    | erule (2) count_inv_step join_inv_step full_inv_step))

interpretation pool: invariant_system pool_start pool_step pool_inv
  by unfold_locales (auto intro: pool_inv_init pool_inv_step)
section \<open>Properties\<close>

lemma alive_step:
  assumes "pool_step s t" and "poolType s = FIXED_SIZE" and "worker t k = Leaving \<or> worker t k = Exited"
  shows "m_shutdown t \<or> worker s k = Leaving \<or> worker s k = Exited"
  using assms by cases (auto simp: pool_defs split: if_splits option.splits list.splits)

definition alive_inv :: "('w, 'c) pool \<Rightarrow> bool" where
  "alive_inv s \<longleftrightarrow>
     (poolType s = FIXED_SIZE \<longrightarrow> \<not> m_shutdown s \<longrightarrow> (\<forall>k. worker s k \<noteq> Leaving \<and> worker s k \<noteq> Exited))"

lemma alive_inv_init: "pool_start s \<Longrightarrow> alive_inv s"
  by (auto simp: pool_start_def pool_init_def alive_inv_def split: if_splits)

lemma alive_inv_step: "alive_inv s \<Longrightarrow> pool_step s t \<Longrightarrow> alive_inv t"
  using alive_step shutdown_step constants_step unfolding alive_inv_def by metis

interpretation pool_alive: invariant_system pool_start pool_step alive_inv
  by unfold_locales (rule alive_inv_init, assumption, rule alive_inv_step)

text \<open>One more step of a run, in the form the concrete runs use.\<close>

lemma reach_pool:
  assumes "reach pool_start pool_step s"
  shows "caller s c = Idle \<Longrightarrow> reach pool_start pool_step (snd (addWork s c work))"
    and "caller s c = ToNotify \<Longrightarrow> pick_ok s p \<Longrightarrow>
      reach pool_start pool_step (goto (queueNotEmpty_notifyOne p s) c ToRelock)"
    and "caller s c = ToRelock \<Longrightarrow> reach pool_start pool_step (snd (start_thread s c ok))"
    and "worker s k = AtQueue \<Longrightarrow> reach pool_start pool_step (getWorkFromQueue s k)"
    and "worker s k = Working v \<Longrightarrow> reach pool_start pool_step (become (decrementWorkerCount s) k AtQueue)"
    and "poolType s \<noteq> FIXED_SIZE \<Longrightarrow> worker s k = InNotEmpty n \<Longrightarrow> reach pool_start pool_step (become s k Leaving)"
    and "worker s k = Leaving \<Longrightarrow> reach pool_start pool_step (become s k Exited)"
    and "caller s c = Idle \<Longrightarrow> reach pool_start pool_step (snd (finishOffWorkInQueue s c fin))"
    and "caller s c = ToWakeWorkers \<Longrightarrow> reach pool_start pool_step (goto (queueNotEmpty_notifyAll s) c ToWakeCallers)"
    and "caller s c = ToWakeCallers \<Longrightarrow> reach pool_start pool_step (goto (queueNotFull_notifyAll s) c (Joining 0))"
    and "caller s c = Joining i \<Longrightarrow> reach pool_start pool_step (snd (join_loop s c i))"
  by (rule reach_step [OF assms], rule pool_step.add [OF _ surjective_pairing], assumption,
    rule reach_step [OF assms], rule pool_step.add_notifies, assumption, assumption,
    rule reach_step [OF assms], rule pool_step.add_relocks [OF _ surjective_pairing], assumption,
    rule reach_step [OF assms], rule pool_step.worker_gets, rule disjI1, assumption,
    rule reach_step [OF assms], rule pool_step.worker_done, assumption,
    rule reach_step [OF assms], rule pool_step.worker_times_out, assumption, assumption,
    rule reach_step [OF assms], rule pool_step.worker_exits, assumption,
    rule reach_step [OF assms], rule pool_step.shutdown [OF _ surjective_pairing], assumption,
    rule reach_step [OF assms], rule pool_step.shutdown_wakes_workers, assumption,
    rule reach_step [OF assms], rule pool_step.shutdown_wakes_callers, assumption,
    rule reach_step [OF assms], rule pool_step.shutdown_joins [OF _ surjective_pairing], assumption)

text \<open>
  C7. No work is lost, duplicated or reordered: what a pool has accepted is what it has handed
  to its workers followed by what is in its queue, in the order of acceptance.\<close>

theorem pool_fifo:
  assumes "reach pool_start pool_step s"
  shows "accepted s = taken s @ m_queue s"
  using pool.reachable_inv [OF assms] by (simp add: pool_inv_def queue_inv_def)

definition fixed_demo :: "(nat, nat) pool" where
  "fixed_demo = snd (addWork (snd (addWork (pool_init FIXED_SIZE 2 3) 0 (Some 7))) 0 (Some 8))"

lemma fixed_demo_reach: "reach pool_start pool_step fixed_demo"
  unfolding fixed_demo_def
  by (intro reach_pool(1) reach_init) (auto simp: pool_start_def pool_init_def pool_defs queueIsFull_def queueClosed_def)

lemma fixed_demo_fields: "poolType fixed_demo = FIXED_SIZE" "m_queue fixed_demo = [7, 8]" "\<not> m_shutdown fixed_demo"
  "m_maxThreads fixed_demo = 2" "taken fixed_demo = []" "\<not> m_queueClosed fixed_demo" "m_maxQueueSize fixed_demo = 3"
  by (simp_all add: fixed_demo_def pool_init_def pool_defs queueIsFull_def queueClosed_def)

theorem pool_fifo_witness: "accepted fixed_demo = [7, 8]"
  using pool_fifo [OF fixed_demo_reach] by (simp add: fixed_demo_fields)

text \<open>
  The limits: a bounded queue never exceeds its size, there are never more threads than
  allowed, and in the pool without a backlog the number of free threads does not wrap around
  and the queue never holds more work than there are free threads.\<close>

theorem pool_limits:
  assumes "reach pool_start pool_step s"
  shows "length (m_threads s) \<le> m_maxThreads s \<and>
    (poolType s \<noteq> DYNAMIC_SIZE_NO_QUEUE \<longrightarrow> m_maxQueueSize s > 0 \<longrightarrow> length (m_queue s) \<le> m_maxQueueSize s) \<and>
    (poolType s = DYNAMIC_SIZE_NO_QUEUE \<longrightarrow> int (card (busy s)) \<le> m_workingThreads s \<and>
       m_workingThreads s + int (length (m_queue s)) \<le> int (m_maxThreads s))"
  using pool.reachable_inv [OF assms]
  by (auto simp: pool_inv_def bound_inv_def ids_inv_def count_inv_def)

theorem pool_limits_witness: "length (m_threads fixed_demo) \<le> 2 \<and> length (m_queue fixed_demo) \<le> 3"
  using pool_limits [OF fixed_demo_reach] by (simp add: fixed_demo_fields)

text \<open>
  C8. In the fixed-size pool no work is stranded: while work is queued and the pool is not shut
  down, every one of its threads is on its way to the queue, runs work or has been woken for
  it.\<close>

theorem fixed_pool_serves_queue:
  assumes "reach pool_start pool_step s" and "poolType s = FIXED_SIZE"
    and "m_queue s \<noteq> []" and "\<not> m_shutdown s" and "k < m_maxThreads s"
  shows "worker s k = AtQueue \<or> worker s k = InNotEmpty True \<or> (\<exists>w. worker s k = Working w)"
proof -
  have inv: "pool_inv s" by (rule pool.reachable_inv [OF assms(1)])
  then have "m_threads s = [0..<m_maxThreads s]" "\<forall>t \<in> set (m_threads s). t < next_thread s"
    using assms(2) by (simp_all add: pool_inv_def ids_inv_def)
  then have "k < next_thread s" using assms(5) by simp
  then have "worker s k \<noteq> NotStarted" using inv by (simp add: pool_inv_def fresh_inv_def)
  moreover have "worker s k \<noteq> InNotEmpty False"
    using inv assms(2,3) by (simp add: pool_inv_def fixed_wake_inv_def)
  moreover have "worker s k \<noteq> Leaving \<and> worker s k \<noteq> Exited"
    using pool_alive.reachable_inv [OF assms(1)] assms(2,4) by (simp add: alive_inv_def)
  ultimately show ?thesis by (cases "worker s k") auto
qed

theorem fixed_pool_serves_queue_witness:
  "worker fixed_demo 1 = AtQueue \<or> worker fixed_demo 1 = InNotEmpty True \<or> (\<exists>w. worker fixed_demo 1 = Working w)"
  by (rule fixed_pool_serves_queue [OF fixed_demo_reach]) (simp_all add: fixed_demo_fields)

text \<open>
  In every pool a caller of \<open>addWork\<close> that sleeps without a notification sleeps
  because the queue is full, and one that waits for an empty queue because it is not empty;
  once the pool is shut down and the notifications of \<open>shutdownThreads\<close> are out, no
  worker and no caller of \<open>addWork\<close> sleeps without having been woken.\<close>

theorem pool_sleepers_have_a_reason:
  assumes "reach pool_start pool_step s"
  shows "(caller s c = InNotFull w False \<longrightarrow> queueIsFull s) \<and>
    (caller s c = InEmpty False \<or> caller s c = InDrain False \<longrightarrow> m_queue s \<noteq> []) \<and>
    (m_shutdown s \<and> (\<forall>d. caller s d \<noteq> ToWakeWorkers \<and> caller s d \<noteq> ToWakeCallers) \<longrightarrow>
       worker s k \<noteq> InNotEmpty False \<and> caller s c \<noteq> InNotFull w False)"
proof -
  have "full_inv s" "drain_inv s" "sleep_inv s"
    using pool.reachable_inv [OF assms] by (simp_all add: pool_inv_def)
  then show ?thesis unfolding full_inv_def drain_inv_def sleep_inv_def by metis
qed

definition full_demo :: "(nat, nat) pool" where
  "full_demo = snd (addWork (snd (addWork (pool_init FIXED_SIZE 1 1) 0 (Some 5))) 1 (Some 6))"

lemma full_demo_reach: "reach pool_start pool_step full_demo"
  unfolding full_demo_def
  by (intro reach_pool(1) reach_init) (auto simp: pool_start_def pool_init_def pool_defs queueIsFull_def queueClosed_def)

theorem pool_sleepers_have_a_reason_witness: "caller full_demo 1 = InNotFull 6 False \<and> queueIsFull full_demo"
proof -
  have "caller full_demo 1 = InNotFull 6 False"
    by (simp add: full_demo_def pool_init_def pool_defs queueIsFull_def queueClosed_def)
  then show ?thesis using pool_sleepers_have_a_reason [OF full_demo_reach] by blast
qed

lemma frozen_run:
  assumes "pool_step\<^sup>*\<^sup>* s t"
  shows "(m_queueClosed s \<longrightarrow> m_queueClosed t \<and> accepted t = accepted s) \<and>
    (m_shutdown s \<longrightarrow> m_shutdown t \<and> taken t = taken s \<and> m_queue t = m_queue s)"
  using assms
proof induction
  case (step t u)
  then show ?case using closed_step [OF step(2)] shutdown_step [OF step(2)] by simp
qed simp

text \<open>
  A closed pool accepts no work, and a pool that is shut down hands out none, whatever
  its threads and callers do.\<close>

theorem closed_pool_is_frozen:
  assumes "pool_step\<^sup>*\<^sup>* s t"
  shows "(m_queueClosed s \<longrightarrow> m_queueClosed t \<and> accepted t = accepted s) \<and>
    (m_shutdown s \<longrightarrow> m_shutdown t \<and> taken t = taken s \<and> m_queue t = m_queue s)"
  using assms by (rule frozen_run)

theorem closed_pool_is_frozen_witness:
  "accepted (snd (addWork (snd (finishOffWorkInQueue fixed_demo 0 False)) 1 (Some 5))) = [7, 8]"
proof -
  let ?s = "snd (finishOffWorkInQueue fixed_demo 0 False)"
  have "pool_step ?s (snd (addWork ?s 1 (Some 5)))"
    by (rule pool_step.add [OF _ surjective_pairing])
      (simp add: fixed_demo_def pool_init_def pool_defs queueIsFull_def queueClosed_def)
  moreover have "m_queueClosed ?s" "accepted ?s = [7, 8]"
    by (simp_all add: fixed_demo_def pool_init_def pool_defs queueIsFull_def queueClosed_def)
  ultimately show ?thesis using closed_pool_is_frozen by (metis r_into_rtranclp)
qed

text \<open>
  C9. A shutdown that finishes the work in the queue, and is not cut short by its timeout,
  has all accepted work handed to workers before the pool is shut down.\<close>

theorem finishing_shutdown_runs_everything:
  assumes "reach pool_start pool_step s" and "caller s c = InDrain n"
    and "drain_loop s c = (Continues, t)" and "pool_step\<^sup>*\<^sup>* t u"
  shows "m_shutdown u \<and> taken u = accepted u \<and> m_queue u = []"
proof -
  have "queue_inv s" using pool.reachable_inv [OF assms(1)] by (simp add: pool_inv_def)
  then have t: "accepted t = taken t" "m_queue t = []" "m_queueClosed t" "m_shutdown t"
    using assms(2,3) by (auto simp: queue_inv_def drain_loop_def set_shutdown_def split: if_splits)
  then show ?thesis using frozen_run [OF assms(4)] by simp
qed

definition drained_demo :: "(nat, nat) pool" where
  "drained_demo = getWorkFromQueue (getWorkFromQueue (snd (finishOffWorkInQueue fixed_demo 3 True)) 0) 1"

lemmas run_simps = fixed_demo_def pool_init_def pool_defs queueIsFull_def queueClosed_def pick_ok_def

lemma drained_demo_reach: "reach pool_start pool_step drained_demo"
  unfolding drained_demo_def
  by (intro reach_pool(4) reach_pool(8) fixed_demo_reach) (simp_all add: run_simps)

theorem finishing_shutdown_runs_everything_witness:
  "taken (snd (drain_loop drained_demo 3)) = accepted (snd (drain_loop drained_demo 3))"
proof -
  have "caller drained_demo 3 = InDrain True" "fst (drain_loop drained_demo 3) = Continues"
    by (simp_all add: drained_demo_def run_simps)
  then show ?thesis
    using finishing_shutdown_runs_everything [OF drained_demo_reach, of 3 True "snd (drain_loop drained_demo 3)"]
    by (metis prod.collapse rtranclp.rtrancl_refl)
qed

lemma finishOffWorkInQueue_False:
  "finishOffWorkInQueue s c fin = (Returned False, t) \<longleftrightarrow> queueClosed s \<and> t = s"
  by (auto simp: finishOffWorkInQueue_def drain_loop_def Let_def)

lemma join_loop_ends:
  assumes "reach pool_start pool_step s" and "caller s c = Joining i"
    and "join_loop s c i = (Returned True, t)"
  shows "(\<forall>k \<in> set (m_threads t). worker t k = Exited) \<and>
    (poolType t = FIXED_SIZE \<longrightarrow> (\<forall>k. worker t k = NotStarted \<or> worker t k = Exited))"
proof -
  have inv: "pool_inv s" by (rule pool.reachable_inv [OF assms(1)])
  have i: "\<not> i < length (m_threads s)" and t: "t = goto s c Idle"
    using assms(3) by (auto simp: join_loop_def split: if_splits)
  have "\<forall>k < i. worker s (m_threads s ! k) = Exited"
    using inv assms(2) by (simp add: pool_inv_def join_inv_def)
  then have ex: "\<forall>k \<in> set (m_threads s). worker s k = Exited"
    using i by (auto simp: in_set_conv_nth)
  have "\<not> live (worker s k)" for k
  proof
    assume l: "live (worker s k)"
    then have "k \<in> set (m_threads s)" using inv by (simp add: pool_inv_def ids_inv_def)
    then show False using ex l by simp
  qed
  then show ?thesis using ex t by (simp add: live_def)
qed

text \<open>
  C10. A shutdown returns in one of two ways. When it finds the queue closed already, by another
  call that may still be at work, it returns at once and does nothing. Otherwise it returns
  when its join loop ends, and then every thread the pool lists has ended; in the fixed-size
  pool these are all its threads.\<close>

theorem shutdown_joins_all_threads:
  assumes "reach pool_start pool_step s"
  shows "(finishOffWorkInQueue s c fin = (Returned False, t) \<longleftrightarrow> queueClosed s \<and> t = s) \<and>
    (caller s c = Joining i \<longrightarrow> join_loop s c i = (Returned True, t) \<longrightarrow>
      (\<forall>k \<in> set (m_threads t). worker t k = Exited) \<and>
      (poolType t = FIXED_SIZE \<longrightarrow> (\<forall>k. worker t k = NotStarted \<or> worker t k = Exited)))"
  using join_loop_ends [OF assms] by (simp add: finishOffWorkInQueue_False)

definition joined_demo :: "(nat, nat) pool" where
  "joined_demo =
     (let s1 = snd (finishOffWorkInQueue (pool_init FIXED_SIZE 1 0) 0 False);
        s2 = goto (queueNotEmpty_notifyAll s1) 0 ToWakeCallers; s3 = goto (queueNotFull_notifyAll s2) 0 (Joining 0)
      in snd (join_loop (become (getWorkFromQueue s3 0) 0 Exited) 0 0))"

lemma joined_demo_reach: "reach pool_start pool_step joined_demo"
  unfolding joined_demo_def Let_def
  by (intro reach_pool(11) reach_pool(7) reach_pool(4) reach_pool(10) reach_pool(9) reach_pool(8) reach_init)
    (auto simp: run_simps pool_start_def)

theorem shutdown_joins_all_threads_witness: "\<forall>k. worker joined_demo k = NotStarted \<or> worker joined_demo k = Exited"
proof -
  have "caller joined_demo 0 = Joining 1" "join_loop joined_demo 0 1 = (Returned True, goto joined_demo 0 Idle)"
    "poolType joined_demo = FIXED_SIZE"
    by (simp_all add: joined_demo_def run_simps)
  then show ?thesis using shutdown_joins_all_threads [OF joined_demo_reach, of 0 False "goto joined_demo 0 Idle" 1] by auto
qed

text \<open>The states of the two runs: a dynamic pool of one thread, its queue unlimited.\<close>

definition dynamic_state :: "nat list \<Rightarrow> nat list \<Rightarrow> bool \<Rightarrow> nat \<Rightarrow> (nat \<Rightarrow> nat worker) \<Rightarrow> (nat \<Rightarrow> nat caller) \<Rightarrow>
    nat list \<Rightarrow> nat list \<Rightarrow> (nat, nat) pool" where
  "dynamic_state ts q down nt wk cl acc tk =
     \<lparr>poolType = DYNAMIC_SIZE, m_maxQueueSize = 0, m_maxThreads = 1, m_threads = ts, m_queue = q,
      m_queueClosed = down, m_shutdown = down, m_workingThreads = 0, next_thread = nt,
      worker = wk, caller = cl, accepted = acc, taken = tk\<rparr>"

lemma const_upd [simp]: "(\<lambda>_. a)(x := a) = (\<lambda>_. a)"
  by auto

lemma wake_upd:
  "(\<lambda>c. wake_adder ((f(x := p)) c)) = (\<lambda>c. wake_adder (f c))(x := wake_adder p)"
  "(\<lambda>c. wake_drainer ((f(x := p)) c)) = (\<lambda>c. wake_drainer (f c))(x := wake_drainer p)"
  "(\<lambda>k. wake_worker ((g(x := q)) k)) = (\<lambda>k. wake_worker (g k))(x := wake_worker q)"
  by auto

lemmas dyn_simps = dynamic_state_def pool_defs queueIsFull_def queueClosed_def pick_ok_def

abbreviation one :: "'a \<Rightarrow> nat \<Rightarrow> 'a \<Rightarrow> nat \<Rightarrow> 'a" where
  "one a k b \<equiv> (\<lambda>_. a)(k := b)"

lemma dynamic_start: "reach pool_start pool_step (dynamic_state [] [] False 0 (\<lambda>_. NotStarted) (\<lambda>_. Idle) [] [])"
  by (rule reach_init) (auto simp: pool_start_def pool_init_def dynamic_state_def intro!: exI [of _ DYNAMIC_SIZE])

lemma dynamic_first_work:
  "reach pool_start pool_step (dynamic_state [] [7] False 0 (\<lambda>_. NotStarted) (one Idle 0 ToNotify) [7] [])"
  using reach_pool(1) [OF dynamic_start, of 0 "Some 7"] by (simp add: dyn_simps)

text \<open>
  The dynamic pool can strand accepted work: a worker whose one-second wait has ended is
  still counted as running when \<open>addWork\<close> looks, so no new thread is started, and when
  the worker has exited the work stays in the queue of an open pool with no thread to run it
  and no caller inside the pool.\<close>

theorem dynamic_pool_strands_work:
  "\<exists>s :: (nat, nat) pool. reach pool_start pool_step s \<and> poolType s = DYNAMIC_SIZE \<and> \<not> queueClosed s \<and>
     m_queue s = [8] \<and> accepted s = [7, 8] \<and> (\<forall>k. worker s k = NotStarted \<or> worker s k = Exited) \<and>
     (\<forall>c. caller s c = Idle)"
proof -
  let ?R = "\<lambda>q wk cl acc tk. reach pool_start pool_step (dynamic_state [0] q False 1 (one NotStarted 0 wk) cl acc tk)"
  have "reach pool_start pool_step (dynamic_state [] [7] False 0 (\<lambda>_. NotStarted) (one Idle 0 ToRelock) [7] [])"
    using reach_pool(2) [OF dynamic_first_work, of 0 None] by (simp add: dyn_simps)
  from reach_pool(3) [OF this, of 0 True] have "?R [7] AtQueue (\<lambda>_. Idle) [7] []" by (simp add: dyn_simps)
  from reach_pool(4) [OF this, of 0] have "?R [] (Working 7) (\<lambda>_. Idle) [7] [7]" by (simp add: dyn_simps)
  from reach_pool(5) [OF this, of 0] have "?R [] AtQueue (\<lambda>_. Idle) [7] [7]" by (simp add: dyn_simps)
  from reach_pool(4) [OF this, of 0] have "?R [] (InNotEmpty False) (\<lambda>_. Idle) [7] [7]" by (simp add: dyn_simps)
  from reach_pool(6) [OF this, of 0 False] have "?R [] Leaving (\<lambda>_. Idle) [7] [7]" by (simp add: dyn_simps)
  from reach_pool(1) [OF this, of 0 "Some 8"] have "?R [8] Leaving (one Idle 0 ToNotify) [7, 8] [7]"
    by (simp add: dyn_simps)
  from reach_pool(2) [OF this, of 0 None] have "?R [8] Leaving (one Idle 0 ToRelock) [7, 8] [7]"
    by (simp add: dyn_simps)
  from reach_pool(3) [OF this, of 0 True] have "?R [8] Leaving (\<lambda>_. Idle) [7, 8] [7]" by (simp add: dyn_simps)
  from reach_pool(7) [OF this, of 0] have R: "?R [8] Exited (\<lambda>_. Idle) [7, 8] [7]" by (simp add: dyn_simps)
  show ?thesis by (rule exI, rule conjI [OF R]) (simp add: dyn_simps)
qed

text \<open>
  A thread can be started after the shutdown has returned: \<open>addWork\<close> of a dynamic
  pool does not look at the flags again after it has taken the lock back, so the thread it
  starts is joined by nobody.\<close>

theorem thread_started_after_shutdown:
  "\<exists>s t u :: (nat, nat) pool. reach pool_start pool_step s \<and> caller s 1 = Joining 0 \<and>
     join_loop s 1 0 = (Returned True, t) \<and> m_shutdown t \<and> (\<forall>k. \<not> live (worker t k)) \<and>
     pool_step\<^sup>*\<^sup>* t u \<and> worker u 0 = AtQueue \<and> (\<forall>c. caller u c = Idle)"
proof -
  let ?D = "\<lambda>cl. dynamic_state [] [7] True 0 (\<lambda>_. NotStarted) ((\<lambda>_. Idle)(0 := ToNotify, 1 := cl)) [7] []"
  let ?E = "\<lambda>ts nt wk cl. dynamic_state ts [7] True nt wk cl [7] []"
  have "reach pool_start pool_step (?D ToWakeWorkers)"
    using reach_pool(8) [OF dynamic_first_work, of 1 False] by (simp add: dyn_simps)
  from reach_pool(9) [OF this, of 1] have "reach pool_start pool_step (?D ToWakeCallers)"
    by (simp add: dyn_simps wake_upd fun_upd_same del: fun_upd_apply)
  from reach_pool(10) [OF this, of 1] have R: "reach pool_start pool_step (?D (Joining 0))"
    by (simp add: dyn_simps wake_upd fun_upd_same del: fun_upd_apply)
  let ?t = "?E [] 0 (\<lambda>_. NotStarted) (one Idle 0 ToNotify)"
  let ?r = "?E [] 0 (\<lambda>_. NotStarted) (one Idle 0 ToRelock)"
  let ?u = "?E [0] 1 (one NotStarted 0 AtQueue) (\<lambda>_. Idle)"
  have j: "join_loop (?D (Joining 0)) 1 0 = (Returned True, ?t)" by (simp add: dyn_simps fun_eq_iff)
  have "pool_step ?t ?r" using pool_step.add_notifies [of ?t 0 None] by (simp add: dyn_simps)
  moreover have "pool_step ?r ?u" using pool_step.add_relocks [of ?r 0 True "Returned True" ?u] by (simp add: dyn_simps)
  ultimately have "pool_step\<^sup>*\<^sup>* ?t ?u" by simp
  then show ?thesis using R j by (intro exI conjI) (assumption | simp add: dyn_simps)+
qed

end
