(* ===== verification/UTF8_Compare.thy ===== *)
theory UTF8_Compare
  imports UTF8_CompareTables
begin

text \<open>
  The run of the automaton of \<open>UTF8UtilscompareToIgnoreCase.cpp\<close> on two buffers, with
  every read checked. The loop is a partial function; that it returns for all C strings is a
  theorem.
\<close>

section \<open>The machine\<close>

record cmp_config =
  pc :: nat
  str1 :: nat
  str2 :: nat
  str_markers :: "(nat \<times> nat) option"

text \<open>\<open>no_match\<close>: back to the markers, or the difference of the bytes read last.\<close>

definition read_before :: "bytes \<Rightarrow> nat \<Rightarrow> utf8_error + int" where
  "read_before s i = (if i = 0 then Inl BadRead else rbind (rd s (i - 1)) (\<lambda>b. Inr (int (unat b))))"

definition no_match :: "bytes \<Rightarrow> bytes \<Rightarrow> cmp_config \<Rightarrow> utf8_error + (int + cmp_config)" where
  "no_match s1 s2 c =
     (case str_markers c of
        Some (m1, m2) \<Rightarrow> Inr (Inr \<lparr>pc = 0, str1 = m1, str2 = m2, str_markers = None\<rparr>)
      | None \<Rightarrow> rbind (read_before s1 (str1 c)) (\<lambda>a. rbind (read_before s2 (str2 c)) (\<lambda>b. Inr (Inl (a - b)))))"

definition switch1 :: "bytes \<Rightarrow> bytes \<Rightarrow> (nat \<times> nat) list \<Rightarrow> cmp_config \<Rightarrow> utf8_error + (int + cmp_config)" where
  "switch1 s1 s2 cases c =
     rbind (rd s1 (str1 c)) (\<lambda>b. let c' = c\<lparr>str1 := str1 c + 1\<rparr> in
       case map_of cases (unat b) of Some k \<Rightarrow> Inr (Inr (c'\<lparr>pc := k\<rparr>)) | None \<Rightarrow> no_match s1 s2 c')"

definition switch2 :: "bytes \<Rightarrow> bytes \<Rightarrow> (nat \<times> nat) list \<Rightarrow> cmp_config \<Rightarrow> utf8_error + (int + cmp_config)" where
  "switch2 s1 s2 cases c =
     rbind (rd s2 (str2 c)) (\<lambda>b. let c' = c\<lparr>str2 := str2 c + 1\<rparr> in
       case map_of cases (unat b) of Some k \<Rightarrow> Inr (Inr (c'\<lparr>pc := k\<rparr>)) | None \<Rightarrow> no_match s1 s2 c')"

definition set_markers :: "bool \<Rightarrow> cmp_config \<Rightarrow> cmp_config" where
  "set_markers m c = (if m then c\<lparr>str_markers := Some (str1 c, str2 c)\<rparr> else c)"

text \<open>From one label to the next: an error, the value returned, or the next configuration.\<close>

definition cmp_step :: "bytes \<Rightarrow> bytes \<Rightarrow> cmp_config \<Rightarrow> utf8_error + (int + cmp_config)" where
  "cmp_step s1 s2 c =
     (case cmp_node (pc c) of
        Start cases \<Rightarrow>
          rbind (rd s1 (str1 c)) (\<lambda>b.
            if b = 0 then rbind (rd s2 (str2 c)) (\<lambda>b2. Inr (Inl (0 - int (unat b2))))
            else switch1 s1 s2 cases c)
      | Match \<Rightarrow> Inr (Inr (c\<lparr>pc := 0\<rparr>))
      | Read1 m cases \<Rightarrow> switch1 s1 s2 cases (set_markers m c)
      | Read2 m cases \<Rightarrow> switch2 s1 s2 cases (set_markers m c)
      | Peek1 cases1 cases2 \<Rightarrow>
          rbind (rd s1 (str1 c)) (\<lambda>b.
            case map_of cases1 (unat b) of
              Some k \<Rightarrow> Inr (Inr (c\<lparr>str1 := str1 c + 1, pc := k\<rparr>))
            | None \<Rightarrow> switch2 s1 s2 cases2 c))"

partial_function (option) cmp_run :: "bytes \<Rightarrow> bytes \<Rightarrow> cmp_config \<Rightarrow> (utf8_error + int) option" where
  "cmp_run s1 s2 c =
     (case cmp_step s1 s2 c of
        Inl e \<Rightarrow> Some (Inl e)
      | Inr r \<Rightarrow> (case r of Inl n \<Rightarrow> Some (Inr n) | Inr c' \<Rightarrow> cmp_run s1 s2 c'))"

definition cmp_start :: cmp_config where
  "cmp_start = \<lparr>pc = 0, str1 = 0, str2 = 0, str_markers = None\<rparr>"

definition compareToIgnoreCase :: "bytes \<Rightarrow> bytes \<Rightarrow> (utf8_error + int) option" where
  "compareToIgnoreCase s1 s2 = cmp_run s1 s2 cmp_start"

section \<open>Facts of the table\<close>

fun targets :: "node \<Rightarrow> (nat \<times> nat) list" where
  "targets (Start cases) = cases"
| "targets Match = []"
| "targets (Read1 m cases) = cases"
| "targets (Read2 m cases) = cases"
| "targets (Peek1 cases1 cases2) = cases1 @ cases2"

fun is_read2 :: "node \<Rightarrow> bool" where
  "is_read2 (Read2 m cases) = True"
| "is_read2 n = False"

text \<open>No case is for the terminator, and none but \<open>Match\<close> goes back to the first state.\<close>

definition node_ok :: "node \<Rightarrow> bool" where
  "node_ok n = list_all (\<lambda>(b, k). b \<noteq> 0 \<and> k \<noteq> 0 \<and> k < 561) (targets n)"

lemma node_ok_simps [simp]:
  "node_ok Match"
  "node_ok (Start cases) = list_all (\<lambda>(b, k). b \<noteq> 0 \<and> k \<noteq> 0 \<and> k < 561) cases"
  "node_ok (Read1 m cases) = list_all (\<lambda>(b, k). b \<noteq> 0 \<and> k \<noteq> 0 \<and> k < 561) cases"
  "node_ok (Read2 m cases) = list_all (\<lambda>(b, k). b \<noteq> 0 \<and> k \<noteq> 0 \<and> k < 561) cases"
  "node_ok (Peek1 cases cases2) = list_all (\<lambda>(b, k). b \<noteq> 0 \<and> k \<noteq> 0 \<and> k < 561) (cases @ cases2)"
  by (simp_all add: node_ok_def)

lemma rows_shape: "list_all (\<lambda>r. length r = 16) (take 35 cmp_rows)" "length cmp_rows = 36" "length (cmp_rows ! 35) = 1"
  by (simp_all add: cmp_rows_def cmp_row_defs)

lemma cmp_node_in: "k < 561 \<Longrightarrow> \<exists>r \<in> set cmp_rows. cmp_node k \<in> set r"
proof -
  assume k: "k < 561"
  have "k mod 16 < length (cmp_rows ! (k div 16))"
  proof (cases "k div 16 = 35")
    case True
    then have "k mod 16 = 0" using k by presburger
    then show ?thesis using True rows_shape(3) by simp
  next
    case False
    then have "k div 16 < 35" using k by presburger
    then have "take 35 cmp_rows ! (k div 16) = cmp_rows ! (k div 16)" "k div 16 < length (take 35 cmp_rows)"
      using rows_shape(2) by simp_all
    then have "cmp_rows ! (k div 16) \<in> set (take 35 cmp_rows)" using nth_mem by metis
    then show ?thesis using rows_shape(1) by (simp add: list_all_iff)
  qed
  moreover have "k div 16 < length cmp_rows" using k rows_shape(2) by simp
  ultimately show ?thesis
    unfolding cmp_node_def by (intro bexI [of _ "cmp_rows ! (k div 16)"] nth_mem)
qed

lemma rows_ok: "list_all (list_all node_ok) cmp_rows"
  by (simp add: cmp_rows_def cmp_row_defs cmp_state_defs cmp_start_lo_def cmp_start_hi_def)

lemma start_reads2:
  "list_all (\<lambda>(b, k). is_read2 (cmp_node k)) cmp_start_lo" "list_all (\<lambda>(b, k). is_read2 (cmp_node k)) cmp_start_hi"
  by (simp_all add: cmp_start_lo_def cmp_start_hi_def cmp_node_simps)

lemma start_total: "map fst (cmp_start_lo @ cmp_start_hi) = [1..<256]"
  by (simp add: cmp_start_lo_def cmp_start_hi_def upt_conv_Cons)

lemma cmp_node_0: "cmp_node 0 = Start (cmp_start_lo @ cmp_start_hi)"
  by (simp add: cmp_node_simps)

lemma start_case:
  assumes "(b :: u8) \<noteq> 0"
  obtains k where "map_of (cmp_start_lo @ cmp_start_hi) (unat b) = Some k" "is_read2 (cmp_node k)" "k \<noteq> 0" "k < 561"
proof -
  have "0 < unat b" "unat b < 256" using assms unsigned_less [of b, where 'a = nat] by (simp_all add: unat_gt_0)
  then have "unat b \<in> set (map fst (cmp_start_lo @ cmp_start_hi))" by (simp add: start_total flip: map_append set_append)
  then obtain k where k: "map_of (cmp_start_lo @ cmp_start_hi) (unat b) = Some k"
    by (metis list.set_map map_of_eq_None_iff not_None_eq)
  then have "(unat b, k) \<in> set (cmp_start_lo @ cmp_start_hi)" by (rule map_of_SomeD)
  moreover have "node_ok (cmp_node 0)" using rows_ok cmp_node_in [of 0] by (auto simp: list_all_iff)
  ultimately have "k \<noteq> 0 \<and> k < 561" by (auto simp: cmp_node_0 list_all_iff)
  moreover have "list_all (\<lambda>(b, k). is_read2 (cmp_node k)) (cmp_start_lo @ cmp_start_hi)"
    using start_reads2 by simp
  then have "is_read2 (cmp_node k)" using \<open>(unat b, k) \<in> set _\<close> by (auto simp: list_all_iff simp del: set_append)
  ultimately show thesis using that k by blast
qed

lemma case_target:
  assumes "k < 561" and "map_of cases (unat (b :: u8)) = Some j" and "set cases \<subseteq> set (targets (cmp_node k))"
  shows "b \<noteq> 0 \<and> j \<noteq> 0 \<and> j < 561"
proof -
  have "node_ok (cmp_node k)" using rows_ok cmp_node_in [OF assms(1)] by (auto simp: list_all_iff)
  moreover have "(unat b, j) \<in> set (targets (cmp_node k))" using assms(2,3) map_of_SomeD by fastforce
  ultimately show ?thesis by (auto simp: node_ok_def list_all_iff unat_eq_zero)
qed

section \<open>Every C string is compared, within its bounds\<close>

text \<open>\<open>c_string s\<close>: one terminator, at the end of the buffer.\<close>

definition c_string :: "bytes \<Rightarrow> bool" where
  "c_string s \<longleftrightarrow> (\<exists>xs. s = xs @ [0] \<and> 0 \<notin> set xs)"

lemma c_string_read:
  assumes "c_string s" and "i < length s"
  obtains b where "rd s i = Inr b" "b = 0 \<longleftrightarrow> Suc i = length s"
proof -
  obtain xs where xs: "s = xs @ [0]" "0 \<notin> set xs" using assms(1) by (auto simp: c_string_def)
  have "s ! i = 0 \<longleftrightarrow> Suc i = length s"
    using xs assms(2) by (cases "i < length xs") (auto simp: nth_append dest: nth_mem)
  then show thesis using that assms(2) by (simp add: rd_def)
qed

definition cmp_inv :: "bytes \<Rightarrow> bytes \<Rightarrow> cmp_config \<Rightarrow> bool" where
  "cmp_inv s1 s2 c \<longleftrightarrow> pc c < 561 \<and> str1 c < length s1 \<and> str2 c < length s2 \<and>
     (pc c \<noteq> 0 \<longrightarrow> 1 \<le> str1 c \<and> (1 \<le> str2 c \<or> is_read2 (cmp_node (pc c)))) \<and>
     (\<forall>m1 m2. str_markers c = Some (m1, m2) \<longrightarrow> m1 \<le> str1 c \<and> m2 < length s2)"

text \<open>The rank: how far the first string is from its end, seen from the marker.\<close>

definition cmp_rank :: "bytes \<Rightarrow> bytes \<Rightarrow> cmp_config \<Rightarrow> nat \<times> nat \<times> nat" where
  "cmp_rank s1 s2 c =
     ((case str_markers c of
         Some (m1, m2) \<Rightarrow> 2 * (length s1 - m1)
       | None \<Rightarrow> if pc c = 0 then 2 * (length s1 - str1 c) - 1 else 2 * (length s1 - str1 c) + 1),
      (length s1 - str1 c) + (length s2 - str2 c), if pc c = 0 then 0 else 1)"

definition cmp_less :: "bytes \<Rightarrow> bytes \<Rightarrow> (cmp_config \<times> cmp_config) set" where
  "cmp_less s1 s2 = inv_image (less_than <*lex*> less_than <*lex*> less_than) (cmp_rank s1 s2)"

lemma wf_cmp_less: "wf (cmp_less s1 s2)"
  by (auto simp: cmp_less_def)

text \<open>What a step may result in.\<close>

definition good_step :: "bytes \<Rightarrow> bytes \<Rightarrow> cmp_config \<Rightarrow> utf8_error + (int + cmp_config) \<Rightarrow> bool" where
  "good_step s1 s2 c r \<longleftrightarrow> (\<exists>n. r = Inr (Inl n)) \<or>
     (\<exists>c'. r = Inr (Inr c') \<and> cmp_inv s1 s2 c' \<and> (c', c) \<in> cmp_less s1 s2)"

lemma no_match_good:
  assumes "c_string s1" and "c_string s2" and "cmp_inv s1 s2 c"
    and "str_markers c' = str_markers c \<or> (str_markers c' = Some (str1 c, str2 c) \<and> pc c \<noteq> 0)"
    and "pc c \<noteq> 0" and "1 \<le> str1 c'" and "str1 c' \<le> length s1" and "1 \<le> str2 c'" and "str2 c' \<le> length s2"
  shows "good_step s1 s2 c (no_match s1 s2 c')"
proof (cases "str_markers c'")
  case None
  then have "\<exists>n. no_match s1 s2 c' = Inr (Inl n)"
    using assms(6-9) by (simp add: no_match_def read_before_def rd_def) linarith
  then show ?thesis by (simp add: good_step_def)
next
  case (Some m)
  then obtain m1 m2 where m: "str_markers c' = Some (m1, m2)" by (cases m) simp
  let ?d = "\<lparr>pc = 0, str1 = m1, str2 = m2, str_markers = None\<rparr>"
  have "no_match s1 s2 c' = Inr (Inr ?d)" using m by (simp add: no_match_def)
  moreover have mc: "str_markers c = Some (m1, m2) \<or> m1 = str1 c \<and> m2 = str2 c"
    using assms(4) m by auto
  then have b: "m1 \<le> str1 c" "str1 c < length s1" "m2 < length s2"
    using assms(3) by (auto simp: cmp_inv_def)
  then have "cmp_inv s1 s2 ?d" by (simp add: cmp_inv_def)
  moreover have "(?d, c) \<in> cmp_less s1 s2"
    using assms(3,5) mc b by (cases "str_markers c") (auto simp: cmp_less_def cmp_rank_def cmp_inv_def)
  ultimately show ?thesis by (simp add: good_step_def)
qed

lemma set_markers_simps [simp]:
  "pc (set_markers m c) = pc c" "str1 (set_markers m c) = str1 c" "str2 (set_markers m c) = str2 c"
  "str_markers (set_markers m c) = (if m then Some (str1 c, str2 c) else str_markers c)"
  by (simp_all add: set_markers_def)

lemma switch1_good:
  assumes "c_string s1" and "c_string s2" and "cmp_inv s1 s2 c" and "pc c \<noteq> 0" and "1 \<le> str2 c"
    and "set cases \<subseteq> set (targets (cmp_node (pc c)))"
  shows "good_step s1 s2 c (switch1 s1 s2 cases (set_markers m c))"
proof -
  have "str1 c < length s1" "pc c < 561" "str2 c < length s2" using assms(3) by (simp_all add: cmp_inv_def)
  obtain b where b: "rd s1 (str1 c) = Inr b" "b = 0 \<longleftrightarrow> Suc (str1 c) = length s1"
    using c_string_read [OF assms(1) \<open>str1 c < length s1\<close>] .
  show ?thesis
  proof (cases "map_of cases (unat b)")
    case None
    have "good_step s1 s2 c (no_match s1 s2 ((set_markers m c)\<lparr>str1 := str1 c + 1\<rparr>))"
      by (rule no_match_good [OF assms(1-3)]) (use assms \<open>str1 c < length s1\<close> \<open>str2 c < length s2\<close> in auto)
    then show ?thesis using b None by (simp add: switch1_def Let_def)
  next
    case (Some k)
    have k: "b \<noteq> 0" "k \<noteq> 0" "k < 561" using case_target [OF \<open>pc c < 561\<close> Some assms(6)] by auto
    let ?d = "(set_markers m c)\<lparr>str1 := str1 c + 1, pc := k\<rparr>"
    have "cmp_inv s1 s2 ?d" using assms(3,5) k b \<open>str1 c < length s1\<close> by (auto simp: cmp_inv_def)
    moreover have "(?d, c) \<in> cmp_less s1 s2"
      using assms(3,4) k \<open>str1 c < length s1\<close>
      by (cases "str_markers c") (auto simp: cmp_less_def cmp_rank_def cmp_inv_def)
    ultimately show ?thesis using b Some by (simp add: switch1_def Let_def good_step_def)
  qed
qed

lemma switch2_good:
  assumes "c_string s1" and "c_string s2" and "cmp_inv s1 s2 c" and "pc c \<noteq> 0"
    and "set cases \<subseteq> set (targets (cmp_node (pc c)))"
  shows "good_step s1 s2 c (switch2 s1 s2 cases (set_markers m c))"
proof -
  have "str1 c < length s1" "pc c < 561" "str2 c < length s2" using assms(3) by (simp_all add: cmp_inv_def)
  obtain b where b: "rd s2 (str2 c) = Inr b" "b = 0 \<longleftrightarrow> Suc (str2 c) = length s2"
    using c_string_read [OF assms(2) \<open>str2 c < length s2\<close>] .
  show ?thesis
  proof (cases "map_of cases (unat b)")
    case None
    have "good_step s1 s2 c (no_match s1 s2 ((set_markers m c)\<lparr>str2 := str2 c + 1\<rparr>))"
      by (rule no_match_good [OF assms(1-3)])
        (use assms \<open>str1 c < length s1\<close> \<open>str2 c < length s2\<close> in \<open>auto simp: cmp_inv_def\<close>)
    then show ?thesis using b None by (simp add: switch2_def Let_def)
  next
    case (Some k)
    have k: "b \<noteq> 0" "k \<noteq> 0" "k < 561" using case_target [OF \<open>pc c < 561\<close> Some assms(5)] by auto
    let ?d = "(set_markers m c)\<lparr>str2 := str2 c + 1, pc := k\<rparr>"
    have "cmp_inv s1 s2 ?d" using assms(3,4) k b \<open>str2 c < length s2\<close> by (auto simp: cmp_inv_def)
    moreover have "(?d, c) \<in> cmp_less s1 s2"
      using assms(3,4) k \<open>str2 c < length s2\<close>
      by (cases "str_markers c") (auto simp: cmp_less_def cmp_rank_def cmp_inv_def)
    ultimately show ?thesis using b Some by (simp add: switch2_def Let_def good_step_def)
  qed
qed

lemma cmp_step_good:
  assumes "c_string s1" and "c_string s2" and "cmp_inv s1 s2 c"
  shows "good_step s1 s2 c (cmp_step s1 s2 c)"
proof -
  have c: "str1 c < length s1" "pc c < 561" "str2 c < length s2" using assms(3) by (simp_all add: cmp_inv_def)
  obtain b where b: "rd s1 (str1 c) = Inr b" "b = 0 \<longleftrightarrow> Suc (str1 c) = length s1"
    using c_string_read [OF assms(1) c(1)] .
  show ?thesis
  proof (cases "pc c = 0")
    case True
    show ?thesis
    proof (cases "b = 0")
      case True
      then show ?thesis using b c(3) \<open>pc c = 0\<close>
        by (simp add: cmp_step_def cmp_node_0 good_step_def rd_def)
    next
      case False
      obtain k where k: "map_of (cmp_start_lo @ cmp_start_hi) (unat b) = Some k" "is_read2 (cmp_node k)" "k \<noteq> 0" "k < 561"
        using start_case [OF False] .
      let ?d = "c\<lparr>str1 := str1 c + 1, pc := k\<rparr>"
      have "cmp_inv s1 s2 ?d" using assms(3) k b False c by (auto simp: cmp_inv_def)
      moreover have "(?d, c) \<in> cmp_less s1 s2"
        using k c True by (cases "str_markers c") (auto simp: cmp_less_def cmp_rank_def)
      ultimately show ?thesis using b k(1) False True
        by (simp add: cmp_step_def cmp_node_0 switch1_def Let_def good_step_def del: map_of_append)
    qed
  next
    case False
    show ?thesis
    proof (cases "cmp_node (pc c)")
      case (Start cases)
      then have "1 \<le> str2 c" using False assms(3) by (simp add: cmp_inv_def)
      then show ?thesis using switch1_good [OF assms False, of cases False] Start b c(3)
        by (cases "b = 0") (simp_all add: cmp_step_def set_markers_def good_step_def rd_def)
    next
      case Match
      then show ?thesis using False assms(3)
        by (cases "str_markers c")
          (auto simp: cmp_step_def good_step_def cmp_inv_def cmp_less_def cmp_rank_def)
    next
      case (Read1 m cases)
      then show ?thesis using switch1_good [OF assms False, of cases m] assms(3) False
        by (simp add: cmp_step_def cmp_inv_def)
    next
      case (Read2 m cases)
      then show ?thesis using switch2_good [OF assms False, of cases m] by (simp add: cmp_step_def)
    next
      case (Peek1 cases1 cases2)
      then have "1 \<le> str2 c" using False assms(3) by (simp add: cmp_inv_def)
      show ?thesis
      proof (cases "map_of cases1 (unat b)")
        case None
        then show ?thesis using switch2_good [OF assms False, of cases2 False] Peek1 b
          by (simp add: cmp_step_def set_markers_def)
      next
        case (Some k)
        then show ?thesis using switch1_good [OF assms False \<open>1 \<le> str2 c\<close>, of cases1 False] Peek1 b
          by (simp add: cmp_step_def set_markers_def switch1_def Let_def)
      qed
    qed
  qed
qed
text \<open>
  C29. The comparison of any two C strings returns, and reads nothing outside them.\<close>

theorem compareToIgnoreCase_total:
  assumes "c_string s1" and "c_string s2"
  shows "\<exists>n. compareToIgnoreCase s1 s2 = Some (Inr n)"
proof -
  have "cmp_inv s1 s2 c \<Longrightarrow> \<exists>n. cmp_run s1 s2 c = Some (Inr n)" for c
  proof (induction c rule: wf_induct_rule [OF wf_cmp_less [of s1 s2]])
    case (1 c)
    then show ?case using cmp_step_good [OF assms "1.prems"]
      by (subst cmp_run.simps) (auto simp: good_step_def)
  qed
  moreover have "cmp_inv s1 s2 cmp_start"
    using assms by (auto simp: cmp_inv_def cmp_start_def c_string_def)
  ultimately show ?thesis by (simp add: compareToIgnoreCase_def)
qed

theorem compareToIgnoreCase_total_witness: "\<exists>n. compareToIgnoreCase [0x73, 0xC3, 0x80, 0] [0xC3, 0x80, 0] = Some (Inr n)"
  by (rule compareToIgnoreCase_total)
    (auto simp: c_string_def intro: exI [of _ "[0x73, 0xC3, 0x80]"] exI [of _ "[0xC3, 0x80]"])

end
