(* ===== verification/SortedVector.thy ===== *)
theory SortedVector
  imports Prelude "HOL-Library.Multiset" "HOL-Library.List_Lexorder"
begin

text \<open>
  The associative containers of \<open>src/blocxx/SortedVectorMap.hpp\<close> and
  \<open>SortedVectorSet.hpp\<close>: a vector kept in strict order of its keys and searched by
  \<open>std::lower_bound\<close>. A container is the list in its vector, an iterator an index
  (\<open>end()\<close> the length); the sharing by \<open>COWReference\<close> is not visible. The
  operations that both templates have in the same words are defined once over a key
  projection, \<open>fst\<close> for the map and the identity for the set.
\<close>

section \<open>Shared operations\<close>

definition equivalent :: "('k \<Rightarrow> 'k \<Rightarrow> bool) \<Rightarrow> 'k \<Rightarrow> 'k \<Rightarrow> bool" where
  "equivalent lt x y = (\<not> lt x y \<and> \<not> lt y x)"

definition sv_lower_bound :: "('k \<Rightarrow> 'k \<Rightarrow> bool) \<Rightarrow> ('d \<Rightarrow> 'k) \<Rightarrow> 'd list \<Rightarrow> 'k \<Rightarrow> nat" where
  "sv_lower_bound lt key v k = lower_bound (\<lambda>d. lt (key d) k) v"

definition sv_upper_bound :: "('k \<Rightarrow> 'k \<Rightarrow> bool) \<Rightarrow> ('d \<Rightarrow> 'k) \<Rightarrow> 'd list \<Rightarrow> 'k \<Rightarrow> nat" where
  "sv_upper_bound lt key v k = lower_bound (\<lambda>d. \<not> lt k (key d)) v"

definition sv_equal_range :: "('k \<Rightarrow> 'k \<Rightarrow> bool) \<Rightarrow> ('d \<Rightarrow> 'k) \<Rightarrow> 'd list \<Rightarrow> 'k \<Rightarrow> nat \<times> nat" where
  "sv_equal_range lt key v k = (sv_lower_bound lt key v k, sv_upper_bound lt key v k)"

text \<open>\<open>vector::insert\<close> and \<open>vector::erase\<close> at an index.\<close>

definition vector_insert :: "'d list \<Rightarrow> nat \<Rightarrow> 'd \<Rightarrow> 'd list" where
  "vector_insert v i d = take i v @ d # drop i v"

definition vector_erase :: "'d list \<Rightarrow> nat \<Rightarrow> 'd list" where
  "vector_erase v i = take i v @ drop (i + 1) v"

definition sv_present :: "('k \<Rightarrow> 'k \<Rightarrow> bool) \<Rightarrow> ('d \<Rightarrow> 'k) \<Rightarrow> 'd list \<Rightarrow> nat \<Rightarrow> 'k \<Rightarrow> bool" where
  "sv_present lt key v i k = (i \<noteq> length v \<and> equivalent lt (key (v ! i)) k)"

definition sv_insert :: "('k \<Rightarrow> 'k \<Rightarrow> bool) \<Rightarrow> ('d \<Rightarrow> 'k) \<Rightarrow> 'd list \<Rightarrow> 'd \<Rightarrow> (nat \<times> bool) \<times> 'd list" where
  "sv_insert lt key v x =
     (let i = sv_lower_bound lt key v (key x)
      in if sv_present lt key v i (key x) then ((i, False), v) else ((i, True), vector_insert v i x))"

definition sv_erase :: "('k \<Rightarrow> 'k \<Rightarrow> bool) \<Rightarrow> ('d \<Rightarrow> 'k) \<Rightarrow> 'd list \<Rightarrow> 'k \<Rightarrow> nat \<times> 'd list" where
  "sv_erase lt key v k =
     (let i = sv_lower_bound lt key v k
      in if sv_present lt key v i k then (1, vector_erase v i) else (0, v))"

definition sv_find :: "('k \<Rightarrow> 'k \<Rightarrow> bool) \<Rightarrow> ('d \<Rightarrow> 'k) \<Rightarrow> 'd list \<Rightarrow> 'k \<Rightarrow> nat" where
  "sv_find lt key v k =
     (let pos = sv_lower_bound lt key v k in if sv_present lt key v pos k then pos else length v)"

text \<open>\<open>std::binary_search\<close> is \<open>std::lower_bound\<close> and one more comparison.\<close>

definition sv_count :: "('k \<Rightarrow> 'k \<Rightarrow> bool) \<Rightarrow> ('d \<Rightarrow> 'k) \<Rightarrow> 'd list \<Rightarrow> 'k \<Rightarrow> nat" where
  "sv_count lt key v k =
     (let i = sv_lower_bound lt key v k in if i \<noteq> length v \<and> \<not> lt k (key (v ! i)) then 1 else 0)"

section \<open>The map\<close>

definition svm_index :: "('k \<Rightarrow> 'k \<Rightarrow> bool) \<Rightarrow> 'a \<Rightarrow> ('k \<times> 'a) list \<Rightarrow> 'k \<Rightarrow> nat \<times> ('k \<times> 'a) list" where
  "svm_index lt dflt v k =
     (let i = sv_lower_bound lt fst v k
      in if sv_present lt fst v i k then (i, v) else (i, vector_insert v i (k, dflt)))"

text \<open>The assignment \<open>m[k] = a\<close> through the reference that \<open>operator[]\<close> returns.\<close>

definition svm_assign :: "('k \<Rightarrow> 'k \<Rightarrow> bool) \<Rightarrow> 'a \<Rightarrow> ('k \<times> 'a) list \<Rightarrow> 'k \<Rightarrow> 'a \<Rightarrow> ('k \<times> 'a) list" where
  "svm_assign lt dflt v k a = (let (i, w) = svm_index lt dflt v k in w[i := (fst (w ! i), a)])"


definition svm_insert_hint :: "('k \<Rightarrow> 'k \<Rightarrow> bool) \<Rightarrow> ('k \<times> 'a) list \<Rightarrow> 'k \<times> 'a \<Rightarrow> nat \<times> ('k \<times> 'a) list" where
  "svm_insert_hint lt v x = (let i = sv_lower_bound lt fst v (fst x) in (i, vector_insert v i x))"

definition svm_erase :: "('k \<Rightarrow> 'k \<Rightarrow> bool) \<Rightarrow> ('k \<times> 'a) list \<Rightarrow> 'k \<Rightarrow> nat \<times> ('k \<times> 'a) list" where
  "svm_erase lt = sv_erase lt fst"

definition svm_find :: "('k \<Rightarrow> 'k \<Rightarrow> bool) \<Rightarrow> ('k \<times> 'a) list \<Rightarrow> 'k \<Rightarrow> nat" where
  "svm_find lt = sv_find lt fst"

definition svm_count :: "('k \<Rightarrow> 'k \<Rightarrow> bool) \<Rightarrow> ('k \<times> 'a) list \<Rightarrow> 'k \<Rightarrow> nat" where
  "svm_count lt = sv_count lt fst"

section \<open>The set\<close>

definition svs_insert :: "('a \<Rightarrow> 'a \<Rightarrow> bool) \<Rightarrow> 'a list \<Rightarrow> 'a \<Rightarrow> (nat \<times> bool) \<times> 'a list" where
  "svs_insert lt = sv_insert lt (\<lambda>x. x)"

definition svs_insert_hint :: "('a \<Rightarrow> 'a \<Rightarrow> bool) \<Rightarrow> 'a list \<Rightarrow> 'a \<Rightarrow> nat \<times> 'a list" where
  "svs_insert_hint lt v x = (let ((i, _), w) = svs_insert lt v x in (i, w))"

definition svs_erase :: "('a \<Rightarrow> 'a \<Rightarrow> bool) \<Rightarrow> 'a list \<Rightarrow> 'a \<Rightarrow> nat \<times> 'a list" where
  "svs_erase lt = sv_erase lt (\<lambda>x. x)"

definition svs_find :: "('a \<Rightarrow> 'a \<Rightarrow> bool) \<Rightarrow> 'a list \<Rightarrow> 'a \<Rightarrow> nat" where
  "svs_find lt = sv_find lt (\<lambda>x. x)"

definition svs_count :: "('a \<Rightarrow> 'a \<Rightarrow> bool) \<Rightarrow> 'a list \<Rightarrow> 'a \<Rightarrow> nat" where
  "svs_count lt = sv_count lt (\<lambda>x. x)"

definition svs_equal_range :: "('a \<Rightarrow> 'a \<Rightarrow> bool) \<Rightarrow> 'a list \<Rightarrow> 'a \<Rightarrow> nat \<times> nat" where
  "svs_equal_range lt = sv_equal_range lt (\<lambda>x. x)"

text \<open>
  \<open>std::unique\<close> keeps the first element of each run of equivalent ones.
  \<open>std::sort\<close> promises a sorted permutation and no more, so it is an argument.
\<close>

fun unique_by :: "('a \<Rightarrow> 'a \<Rightarrow> bool) \<Rightarrow> 'a list \<Rightarrow> 'a list" where
  "unique_by p [] = []"
| "unique_by p [x] = [x]"
| "unique_by p (x # y # ys) = (if p x y then unique_by p (x # ys) else x # unique_by p (y # ys))"

definition svs_insert_range :: "('a list \<Rightarrow> 'a list) \<Rightarrow> ('a \<Rightarrow> 'a \<Rightarrow> bool) \<Rightarrow> 'a list \<Rightarrow> 'a list \<Rightarrow> 'a list" where
  "svs_insert_range std_sort lt v xs = unique_by (equivalent lt) (std_sort (v @ xs))"

definition svs_construct :: "('a list \<Rightarrow> 'a list) \<Rightarrow> ('a \<Rightarrow> 'a \<Rightarrow> bool) \<Rightarrow> 'a list \<Rightarrow> 'a list" where
  "svs_construct std_sort lt xs = unique_by (equivalent lt) (std_sort xs)"

definition sorts :: "('a \<Rightarrow> 'a \<Rightarrow> bool) \<Rightarrow> ('a list \<Rightarrow> 'a list) \<Rightarrow> bool" where
  "sorts lt f \<longleftrightarrow> (\<forall>xs. mset (f xs) = mset xs \<and> sorted_wrt (\<lambda>x y. \<not> lt y x) (f xs))"

section \<open>Comparison of several fields\<close>

text \<open>
  \<open>StrictWeakOrdering.hpp\<close>: the overloads for one to ten pairs of fields, as one
  function on the list of the pairs. The fields of different types that the templates allow
  are values of one type here.
\<close>

fun StrictWeakOrdering :: "('a::ord \<times> 'a) list \<Rightarrow> bool" where
  "StrictWeakOrdering [] = False"
| "StrictWeakOrdering [(lhs1, rhs1)] = (lhs1 < rhs1)"
| "StrictWeakOrdering ((lhs1, rhs1) # args) =
     (if lhs1 < rhs1 then True else if rhs1 < lhs1 then False else StrictWeakOrdering args)"

section \<open>The interface of a container with unique keys\<close>

text \<open>
  What a client of the containers relies on: the elements are found by a key up to
  equivalence, inserting keeps an element that is already there, erasing removes it.
\<close>

locale unique_container =
  fixes inv :: "'c \<Rightarrow> bool" and lookup :: "'c \<Rightarrow> 'k \<Rightarrow> 'd option" and empty :: 'c
    and ins :: "'c \<Rightarrow> 'd \<Rightarrow> 'c" and del :: "'c \<Rightarrow> 'k \<Rightarrow> 'c"
    and key :: "'d \<Rightarrow> 'k" and same :: "'k \<Rightarrow> 'k \<Rightarrow> bool"
  assumes inv_empty: "inv empty"
    and inv_ins: "inv c \<Longrightarrow> inv (ins c x)"
    and inv_del: "inv c \<Longrightarrow> inv (del c k)"
    and lookup_empty: "lookup empty k = None"
    and lookup_ins: "inv c \<Longrightarrow> lookup (ins c x) k =
        (if lookup c (key x) = None \<and> same (key x) k then Some x else lookup c k)"
    and lookup_del: "inv c \<Longrightarrow> lookup (del c j) k = (if same j k then None else lookup c k)"

text \<open>Programs of insertions (\<open>Inl\<close>) and erasures (\<open>Inr\<close>), on a container and on
  the abstract lookup function.\<close>

fun run_on :: "('c \<Rightarrow> 'd \<Rightarrow> 'c) \<Rightarrow> ('c \<Rightarrow> 'k \<Rightarrow> 'c) \<Rightarrow> ('d + 'k) list \<Rightarrow> 'c \<Rightarrow> 'c" where
  "run_on ins del [] c = c"
| "run_on ins del (Inl x # ops) c = run_on ins del ops (ins c x)"
| "run_on ins del (Inr k # ops) c = run_on ins del ops (del c k)"

definition spec_ins :: "('d \<Rightarrow> 'k) \<Rightarrow> ('k \<Rightarrow> 'k \<Rightarrow> bool) \<Rightarrow> ('k \<Rightarrow> 'd option) \<Rightarrow> 'd \<Rightarrow> ('k \<Rightarrow> 'd option)" where
  "spec_ins key same m x = (if m (key x) = None then (\<lambda>k. if same (key x) k then Some x else m k) else m)"

definition spec_del :: "('k \<Rightarrow> 'k \<Rightarrow> bool) \<Rightarrow> ('k \<Rightarrow> 'd option) \<Rightarrow> 'k \<Rightarrow> ('k \<Rightarrow> 'd option)" where
  "spec_del same m j = (\<lambda>k. if same j k then None else m k)"

context unique_container
begin

lemma run_refines: "inv c \<Longrightarrow>
  inv (run_on ins del ops c) \<and>
  lookup (run_on ins del ops c) = run_on (spec_ins key same) (spec_del same) ops (lookup c)"
proof (induction ops arbitrary: c)
  case (Cons a ops)
  show ?case
  proof (cases a)
    case (Inl x)
    have "lookup (ins c x) = spec_ins key same (lookup c) x"
      using lookup_ins [OF Cons.prems] by (auto simp: spec_ins_def)
    then show ?thesis using Cons.IH [OF inv_ins [OF Cons.prems]] Inl by simp
  next
    case (Inr k)
    have "lookup (del c k) = spec_del same (lookup c) k"
      using lookup_del [OF Cons.prems] by (auto simp: spec_del_def)
    then show ?thesis using Cons.IH [OF inv_del [OF Cons.prems]] Inr by simp
  qed
qed simp

lemma run_from_empty:
  "inv (run_on ins del ops empty)"
  "lookup (run_on ins del ops empty) = run_on (spec_ins key same) (spec_del same) ops (\<lambda>_. None)"
proof -
  have "lookup empty = (\<lambda>_. None)" by (rule ext) (rule lookup_empty)
  then show "inv (run_on ins del ops empty)"
    "lookup (run_on ins del ops empty) = run_on (spec_ins key same) (spec_del same) ops (\<lambda>_. None)"
    using run_refines [OF inv_empty, of ops] by simp_all
qed

end

section \<open>Strict weak orders\<close>

definition sv_inv :: "('k \<Rightarrow> 'k \<Rightarrow> bool) \<Rightarrow> ('d \<Rightarrow> 'k) \<Rightarrow> 'd list \<Rightarrow> bool" where
  "sv_inv lt key v = sorted_wrt (\<lambda>x y. lt (key x) (key y)) v"

definition sv_lookup :: "('k \<Rightarrow> 'k \<Rightarrow> bool) \<Rightarrow> ('d \<Rightarrow> 'k) \<Rightarrow> 'd list \<Rightarrow> 'k \<Rightarrow> 'd option" where
  "sv_lookup lt key v k =
     (let i = sv_find lt key v k in if i = length v then None else Some (v ! i))"

locale strict_weak_order =
  fixes lt :: "'k \<Rightarrow> 'k \<Rightarrow> bool"
  assumes irrefl: "\<not> lt x x"
    and trans: "lt x y \<Longrightarrow> lt y z \<Longrightarrow> lt x z"
    and incomp_trans: "equivalent lt x y \<Longrightarrow> equivalent lt y z \<Longrightarrow> equivalent lt x z"
begin

lemma lt_equivalent: "equivalent lt x y \<Longrightarrow> lt x z = lt y z" "equivalent lt x y \<Longrightarrow> lt z x = lt z y"
  using trans incomp_trans unfolding equivalent_def by metis+

lemma equivalent_sym: "equivalent lt x y = equivalent lt y x"
  by (auto simp: equivalent_def)

lemma equivalent_refl: "equivalent lt x x"
  by (simp add: equivalent_def irrefl)

lemma equivalent_cong: "equivalent lt x y \<Longrightarrow> equivalent lt z x = equivalent lt z y"
  using incomp_trans equivalent_sym by metis

text \<open>The vector around the position of a key.\<close>

lemma split_at_bound:
  assumes "sv_inv lt key v"
  shows "\<forall>d \<in> set (take (sv_lower_bound lt key v k) v). lt (key d) k"
    and "\<forall>d \<in> set (drop (sv_lower_bound lt key v k) v). \<not> lt (key d) k"
    and "sv_lower_bound lt key v k \<le> length v"
    and "sv_lower_bound lt key v k < length v \<Longrightarrow>
      \<forall>d \<in> set (drop (Suc (sv_lower_bound lt key v k)) v). lt k (key d)"
proof -
  let ?i = "sv_lower_bound lt key v k"
  have part: "partitioned (\<lambda>d. lt (key d) k) v"
    using assms unfolding sv_inv_def
    by (rule sorted_wrt_partitioned) (auto intro: transpI trans)
  note spec = lower_bound_spec [OF part, folded sv_lower_bound_def]
  show le: "?i \<le> length v" by (rule spec(1))
  show "\<forall>d \<in> set (take ?i v). lt (key d) k" using spec(2) by (auto simp: in_set_conv_nth)
  show ge: "\<forall>d \<in> set (drop ?i v). \<not> lt (key d) k"
    using spec(3) le by (auto simp: in_set_conv_nth)
  show "\<forall>d \<in> set (drop (Suc ?i) v). lt k (key d)" if lt: "?i < length v"
  proof
    fix d assume d: "d \<in> set (drop (Suc ?i) v)"
    have "drop ?i v = v ! ?i # drop (Suc ?i) v" using lt by (rule Cons_nth_drop_Suc [symmetric])
    then have "lt (key (v ! ?i)) (key d)" "\<not> lt (key (v ! ?i)) k"
      using d ge sorted_wrt_drop [OF assms [unfolded sv_inv_def], of ?i] by auto
    then show "lt k (key d)" using trans lt_equivalent unfolding equivalent_def by metis
  qed
qed

end

section \<open>The operations keep the order and act on the set of elements\<close>

context strict_weak_order
begin

lemma present_index:
  assumes "sv_inv lt key v" and "d \<in> set v" and "equivalent lt (key d) k"
  shows "sv_present lt key v (sv_lower_bound lt key v k) k \<and> d = v ! sv_lower_bound lt key v k"
proof -
  let ?i = "sv_lower_bound lt key v k"
  note at = split_at_bound [OF assms(1), of k]
  have "d \<notin> set (take ?i v)" using at(1) assms(3) by (auto simp: equivalent_def)
  moreover have "set v = set (take ?i v) \<union> set (drop ?i v)" by (metis append_take_drop_id set_append)
  ultimately have d: "d \<in> set (drop ?i v)" using assms(2) by blast
  then have lt: "?i < length v" by (metis drop_all empty_iff list.set(1) not_le)
  have "drop ?i v = v ! ?i # drop (Suc ?i) v" using lt by (rule Cons_nth_drop_Suc [symmetric])
  moreover have "d \<notin> set (drop (Suc ?i) v)" using at(4) [OF lt] assms(3) by (auto simp: equivalent_def)
  ultimately have "d = v ! ?i" using d by simp
  then show ?thesis using lt assms(3) by (simp add: sv_present_def)
qed

lemma present_iff:
  assumes "sv_inv lt key v"
  shows "sv_present lt key v (sv_lower_bound lt key v k) k \<longleftrightarrow> (\<exists>d \<in> set v. equivalent lt (key d) k)"
proof
  assume p: "sv_present lt key v (sv_lower_bound lt key v k) k"
  then have "sv_lower_bound lt key v k < length v"
    using split_at_bound(3) [OF assms, of k] by (simp add: sv_present_def)
  then show "\<exists>d \<in> set v. equivalent lt (key d) k"
    using p by (intro bexI [of _ "v ! sv_lower_bound lt key v k"]) (simp_all add: sv_present_def)
qed (use present_index [OF assms] in blast)

lemma lookup_Some:
  assumes "sv_inv lt key v"
  shows "sv_lookup lt key v k = Some d \<longleftrightarrow> d \<in> set v \<and> equivalent lt (key d) k"
proof (cases "sv_present lt key v (sv_lower_bound lt key v k) k")
  case True
  have "sv_lower_bound lt key v k < length v"
    using True split_at_bound(3) [OF assms, of k] by (simp add: sv_present_def)
  then have "sv_lookup lt key v k = Some (v ! sv_lower_bound lt key v k)"
    "v ! sv_lower_bound lt key v k \<in> set v"
    using True by (simp_all add: sv_lookup_def sv_find_def Let_def)
  then show ?thesis using True present_index [OF assms, of d k] by (auto simp: sv_present_def)
next
  case False
  then have "sv_lookup lt key v k = None" by (simp add: sv_lookup_def sv_find_def Let_def)
  then show ?thesis using False present_iff [OF assms] by auto
qed

lemma lookup_None:
  assumes "sv_inv lt key v"
  shows "sv_lookup lt key v k = None \<longleftrightarrow> (\<forall>d \<in> set v. \<not> equivalent lt (key d) k)"
  using lookup_Some [OF assms, of k] by (cases "sv_lookup lt key v k") auto

lemma lookup_eqI:
  assumes "sv_inv lt key v" and "\<And>d. d \<in> set v \<and> equivalent lt (key d) k \<longleftrightarrow> r = Some d"
  shows "sv_lookup lt key v k = r"
  using lookup_Some [OF assms(1), of k] assms(2) by (cases r; cases "sv_lookup lt key v k") auto

lemma sorted_around:
  assumes "sv_inv lt key xs" and "sv_inv lt key ys"
    and "\<forall>d \<in> set xs. lt (key d) (key x)" and "\<forall>d \<in> set ys. lt (key x) (key d)"
  shows "sv_inv lt key (xs @ x # ys)"
proof -
  have "lt (key c) (key d)" if "c \<in> set xs" "d \<in> set ys" for c d
    using assms(3,4) that trans by blast
  then show ?thesis using assms by (simp add: sv_inv_def sorted_wrt_append)
qed

lemma inv_parts: "sv_inv lt key v \<Longrightarrow> sv_inv lt key (take n v) \<and> sv_inv lt key (drop n v)"
  by (simp add: sv_inv_def sorted_wrt_take sorted_wrt_drop)

lemma insert_absent:
  assumes "sv_inv lt key v" and "\<forall>d \<in> set v. \<not> equivalent lt (key d) (key x)"
  shows "sv_inv lt key (vector_insert v (sv_lower_bound lt key v (key x)) x)"
    and "set (vector_insert v (sv_lower_bound lt key v (key x)) x) = insert x (set v)"
proof -
  let ?i = "sv_lower_bound lt key v (key x)"
  note at = split_at_bound [OF assms(1), of "key x"]
  show "set (vector_insert v ?i x) = insert x (set v)"
    unfolding vector_insert_def by (metis append_take_drop_id list.simps(15) set_append Un_insert_right)
  have above: "\<forall>d \<in> set (drop ?i v). lt (key x) (key d)"
    using at(2) assms(2) in_set_dropD by (fastforce simp: equivalent_def)
  show "sv_inv lt key (vector_insert v ?i x)"
    unfolding vector_insert_def using sorted_around [OF _ _ at(1) above] inv_parts [OF assms(1)] by blast
qed

lemma ins_inv: "sv_inv lt key v \<Longrightarrow> sv_inv lt key (snd (sv_insert lt key v x))"
  using insert_absent(1) [of key v x] present_iff [of key v "key x"] by (simp add: sv_insert_def Let_def)

lemma ins_set:
  assumes "sv_inv lt key v"
  shows "set (snd (sv_insert lt key v x)) =
    (if sv_lookup lt key v (key x) = None then insert x (set v) else set v)"
  using insert_absent(2) [OF assms] present_iff [OF assms, of "key x"] lookup_None [OF assms, of "key x"]
  by (auto simp: sv_insert_def Let_def)

lemma ins_lookup:
  assumes "sv_inv lt key v"
  shows "sv_lookup lt key (snd (sv_insert lt key v x)) k =
    (if sv_lookup lt key v (key x) = None \<and> equivalent lt (key x) k then Some x else sv_lookup lt key v k)"
proof (rule lookup_eqI [OF ins_inv [OF assms]], cases "sv_lookup lt key v (key x) = None")
  case True
  fix d
  have "\<not> equivalent lt (key d) k" if "d \<in> set v" "equivalent lt (key x) k" for d
    using True that lookup_None [OF assms] incomp_trans equivalent_sym by metis
  then show "d \<in> set (snd (sv_insert lt key v x)) \<and> equivalent lt (key d) k \<longleftrightarrow>
    (if sv_lookup lt key v (key x) = None \<and> equivalent lt (key x) k then Some x else sv_lookup lt key v k) = Some d"
    using True lookup_Some [OF assms, of k d] by (auto simp: ins_set [OF assms])
next
  case False
  fix d
  show "d \<in> set (snd (sv_insert lt key v x)) \<and> equivalent lt (key d) k \<longleftrightarrow>
    (if sv_lookup lt key v (key x) = None \<and> equivalent lt (key x) k then Some x else sv_lookup lt key v k) = Some d"
    using False lookup_Some [OF assms, of k d] by (simp only: ins_set [OF assms] if_False simp_thms)
qed

lemma erase_inv:
  assumes "sv_inv lt key v"
  shows "sv_inv lt key (snd (sv_erase lt key v k))"
    and "set (snd (sv_erase lt key v k)) = {d \<in> set v. \<not> equivalent lt (key d) k}"
proof -
  let ?i = "sv_lower_bound lt key v k"
  have "sv_inv lt key (snd (sv_erase lt key v k)) \<and>
    set (snd (sv_erase lt key v k)) = {d \<in> set v. \<not> equivalent lt (key d) k}"
  proof (cases "sv_present lt key v ?i k")
    case True
    then have i: "?i < length v" and eq: "equivalent lt (key (v ! ?i)) k"
      using split_at_bound(3) [OF assms, of k] by (simp_all add: sv_present_def)
    have v: "v = take ?i v @ v ! ?i # drop (Suc ?i) v" using i by (rule id_take_nth_drop)
    have e: "snd (sv_erase lt key v k) = take ?i v @ drop (Suc ?i) v"
      using True by (simp add: sv_erase_def vector_erase_def Let_def)
    have "sorted_wrt (\<lambda>x y. lt (key x) (key y)) (take ?i v @ v ! ?i # drop (Suc ?i) v)"
      using assms v by (simp add: sv_inv_def)
    then have s: "sorted_wrt (\<lambda>x y. lt (key x) (key y)) (take ?i v @ drop (Suc ?i) v)"
      by (simp add: sorted_wrt_append)
    have "set v = set (take ?i v) \<union> {v ! ?i} \<union> set (drop (Suc ?i) v)"
      by (subst v) auto
    then have "set (take ?i v @ drop (Suc ?i) v) = {d \<in> set v. \<not> equivalent lt (key d) k}"
      using split_at_bound(1,4) [OF assms, of k] i eq by (auto simp: equivalent_def)
    then show ?thesis using s e by (simp add: sv_inv_def)
  next
    case False
    then show ?thesis using assms present_iff [OF assms] by (auto simp: sv_erase_def Let_def)
  qed
  then show "sv_inv lt key (snd (sv_erase lt key v k))"
    "set (snd (sv_erase lt key v k)) = {d \<in> set v. \<not> equivalent lt (key d) k}" by simp_all
qed

lemma erase_lookup:
  assumes "sv_inv lt key v"
  shows "sv_lookup lt key (snd (sv_erase lt key v j)) k = (if equivalent lt j k then None else sv_lookup lt key v k)"
proof (rule lookup_eqI [OF erase_inv(1) [OF assms]])
  fix d
  show "d \<in> set (snd (sv_erase lt key v j)) \<and> equivalent lt (key d) k \<longleftrightarrow>
    (if equivalent lt j k then None else sv_lookup lt key v k) = Some d"
    using lookup_Some [OF assms, of k d] equivalent_cong [of j k "key d"] incomp_trans [of j "key d" k]
    by (cases "equivalent lt j k") (auto simp: erase_inv(2) [OF assms] equivalent_sym)
qed

end

sublocale strict_weak_order \<subseteq> vec: unique_container "sv_inv lt key" "sv_lookup lt key" "[]"
  "\<lambda>v x. snd (sv_insert lt key v x)" "\<lambda>v k. snd (sv_erase lt key v k)" key "equivalent lt" for key :: "'d \<Rightarrow> 'k"
proof
  show "sv_inv lt key []" by (simp add: sv_inv_def)
  show "sv_lookup lt key [] k = None" for k by (simp add: sv_lookup_def sv_find_def sv_lower_bound_def
      lower_bound_def lower_bound_loop.simps sv_present_def)
  fix c :: "'d list" and x :: 'd and k j
  assume c: "sv_inv lt key c"
  show "sv_inv lt key (snd (sv_insert lt key c x))" by (rule ins_inv [OF c])
  show "sv_inv lt key (snd (sv_erase lt key c k))" by (rule erase_inv(1) [OF c])
  show "sv_lookup lt key (snd (sv_insert lt key c x)) k =
    (if sv_lookup lt key c (key x) = None \<and> equivalent lt (key x) k then Some x else sv_lookup lt key c k)"
    by (rule ins_lookup [OF c])
  show "sv_lookup lt key (snd (sv_erase lt key c j)) k =
    (if equivalent lt j k then None else sv_lookup lt key c k)" by (rule erase_lookup [OF c])
qed

interpretation less_order: strict_weak_order "(<) :: 'o::linorder \<Rightarrow> 'o \<Rightarrow> bool"
  by unfold_locales (auto simp: equivalent_def)

text \<open>Comparing objects by several fields is again a strict weak order.\<close>

lemma StrictWeakOrdering_lex:
  "length xs = length ys \<Longrightarrow> StrictWeakOrdering (zip xs ys) = (xs < (ys :: 'o::linorder list))"
proof (induction xs ys rule: list_induct2)
  case (Cons x xs y ys)
  then show ?case by (cases xs; cases ys) auto
qed simp

definition fields_less :: "('r \<Rightarrow> 'o::linorder) list \<Rightarrow> 'r \<Rightarrow> 'r \<Rightarrow> bool" where
  "fields_less fs x y = StrictWeakOrdering (map (\<lambda>f. (f x, f y)) fs)"

lemma fields_less_lex: "fields_less fs x y = (map (\<lambda>f. f x) fs < map (\<lambda>f. f y) fs)"
  by (simp add: fields_less_def zip_map_map zip_same_conv_map comp_def flip: StrictWeakOrdering_lex)

lemma fields_less_equivalent:
  "equivalent (fields_less fs) x y = (map (\<lambda>f. f x) fs = map (\<lambda>f. f y) fs)"
  unfolding equivalent_def fields_less_lex by (metis (no_types) less_irrefl linorder_less_linear)

interpretation field_order: strict_weak_order "fields_less fs" for fs :: "('r \<Rightarrow> 'o::linorder) list"
proof
  fix x y z :: 'r
  show "\<not> fields_less fs x x" by (simp only: fields_less_lex less_irrefl not_False_eq_True)
  show "fields_less fs x y \<Longrightarrow> fields_less fs y z \<Longrightarrow> fields_less fs x z"
    unfolding fields_less_lex by (rule less_trans)
  show "equivalent (fields_less fs) x y \<Longrightarrow> equivalent (fields_less fs) y z \<Longrightarrow> equivalent (fields_less fs) x z"
    by (simp only: fields_less_equivalent)
qed

section \<open>Total orders\<close>

lemma equivalent_less [simp]: "equivalent ((<) :: 'o::linorder \<Rightarrow> 'o \<Rightarrow> bool) = (=)"
  by (auto simp: equivalent_def fun_eq_iff)

lemma sv_inv_set: "sv_inv (<) (\<lambda>x. x) v \<longleftrightarrow> sorted v \<and> distinct (v :: 'o::linorder list)"
  by (auto simp: sv_inv_def strict_sorted_iff)

lemma sv_inv_set_unique: "sv_inv (<) (\<lambda>x. x) v \<Longrightarrow> v = sorted_list_of_set (set v)"
  by (simp add: sv_inv_set sorted_list_of_set.idem_if_sorted_distinct)

text \<open>The position of a key in any vector that is partitioned around it.\<close>

lemma bound_of_split:
  assumes "\<forall>d \<in> set xs. lt (key d) k" and "\<forall>d \<in> set ys. \<not> lt (key d) k"
  shows "sv_lower_bound lt key (xs @ ys) k = length xs"
proof -
  have "partitioned (\<lambda>d. lt (key d) k) (xs @ ys)"
    unfolding partitioned_def
  proof (intro allI impI)
    fix i j assume ij: "i \<le> j" "j < length (xs @ ys)" "lt (key ((xs @ ys) ! j)) k"
    then have "j < length xs" using assms(2) by (auto simp: nth_append split: if_splits)
    then show "lt (key ((xs @ ys) ! i)) k" using ij(1) assms(1) by (simp add: nth_append)
  qed
  moreover have "takeWhile (\<lambda>d. lt (key d) k) (xs @ ys) = xs"
    using assms by (cases ys) (simp_all add: takeWhile_append)
  ultimately show ?thesis by (simp add: sv_lower_bound_def lower_bound_takeWhile)
qed

section \<open>Properties\<close>


text \<open>
  A set driven by insertions and erasures is at every moment the increasing enumeration of
  the abstract set.\<close>

theorem svs_refines_set:
  "run_on (\<lambda>v x. snd (svs_insert (<) v x)) (\<lambda>v k. snd (svs_erase (<) v k)) ops []
     = sorted_list_of_set (run_on (\<lambda>A x. insert x A) (\<lambda>A x. A - {x}) (ops :: ('o::linorder + 'o) list) {})"
proof -
  let ?ins = "\<lambda>v x. snd (svs_insert (<) v (x :: 'o))" and ?del = "\<lambda>v k. snd (svs_erase (<) v (k :: 'o))"
  have run: "sv_inv (<) (\<lambda>x. x) v \<Longrightarrow> sv_inv (<) (\<lambda>x. x) (run_on ?ins ?del ops v) \<and>
    set (run_on ?ins ?del ops v) = run_on (\<lambda>A x. insert x A) (\<lambda>A x. A - {x}) ops (set v)" for v
  proof (induction ops arbitrary: v)
    case (Cons a ops)
    show ?case
    proof (cases a)
      case (Inl x)
      have "set (?ins v x) = insert x (set v)"
        using less_order.ins_set [OF Cons.prems, of x] less_order.lookup_None [OF Cons.prems, of x]
        by (auto simp: svs_insert_def)
      then show ?thesis
        using Cons.IH [of "?ins v x"] less_order.ins_inv [OF Cons.prems, of x] Inl by (simp add: svs_insert_def)
    next
      case (Inr k)
      have "set (?del v k) = set v - {k}"
        using less_order.erase_inv(2) [OF Cons.prems, of k] by (auto simp: svs_erase_def)
      then show ?thesis
        using Cons.IH [of "?del v k"] less_order.erase_inv(1) [OF Cons.prems, of k] Inr by (simp add: svs_erase_def)
    qed
  qed simp
  have "sv_inv (<) (\<lambda>x. x) ([] :: 'o list)" by (simp add: sv_inv_def)
  from run [OF this] sv_inv_set_unique show ?thesis by (metis empty_set)
qed

text \<open>
  \<open>m[k] = a\<close> keeps the vector sorted and changes the entry of \<open>k\<close> only, adding
  it when it was absent.\<close>

theorem svm_assign_updates:
  assumes "sv_inv (<) fst v"
  shows "sv_inv (<) fst (svm_assign (<) dflt v k a) \<and>
    sv_lookup (<) fst (svm_assign (<) dflt v k a) = (sv_lookup (<) fst v)(k \<mapsto> (k :: 'o::linorder, a))"
proof -
  let ?i = "sv_lower_bound (<) fst v k"
  let ?w = "take ?i v @ (k, a) # (if sv_present (<) fst v ?i k then drop (Suc ?i) v else drop ?i v)"
  note at = less_order.split_at_bound [OF assms, of k]
  have le: "?i \<le> length v" by (rule at(3))
  have w: "svm_assign (<) dflt v k a = ?w"
  proof (cases "sv_present (<) fst v ?i k")
    case True
    then have "?i < length v" "fst (v ! ?i) = k" using le by (simp_all add: sv_present_def)
    then show ?thesis using True by (simp add: svm_assign_def svm_index_def Let_def upd_conv_take_nth_drop)
  next
    case False
    then show ?thesis using le
      by (simp add: svm_assign_def svm_index_def Let_def vector_insert_def nth_append list_update_append)
  qed
  have above: "\<forall>d \<in> set (if sv_present (<) fst v ?i k then drop (Suc ?i) v else drop ?i v). k < fst d"
  proof (cases "sv_present (<) fst v ?i k")
    case True
    then show ?thesis using at(4) le by (simp add: sv_present_def)
  next
    case False
    then have "\<forall>d \<in> set v. fst d \<noteq> k" using less_order.present_iff [OF assms, of k] by simp
    then show ?thesis using False at(2) in_set_dropD by (fastforce simp: not_less le_less)
  qed
  have inv: "sv_inv (<) fst ?w"
    by (rule less_order.sorted_around) (use at(1) above less_order.inv_parts [OF assms] in simp_all)
  have mem: "d \<in> set ?w \<longleftrightarrow> d = (k, a) \<or> d \<in> set v \<and> fst d \<noteq> k" for d
  proof (cases "sv_present (<) fst v ?i k")
    case True
    then have i: "?i < length v" "fst (v ! ?i) = k" using le by (simp_all add: sv_present_def)
    have "set v = set (take ?i v) \<union> {v ! ?i} \<union> set (drop (Suc ?i) v)"
      by (subst id_take_nth_drop [OF i(1)]) simp
    moreover have "fst d \<noteq> k" if "d \<in> set (take ?i v) \<union> set (drop (Suc ?i) v)"
      using that at(1) above True by auto
    ultimately show ?thesis using True i(2) by auto
  next
    case False
    have "set v = set (take ?i v) \<union> set (drop ?i v)" by (metis append_take_drop_id set_append)
    moreover have "fst d \<noteq> k" if "d \<in> set v"
      using that False less_order.present_iff [OF assms, of k] by auto
    ultimately show ?thesis using False by auto
  qed
  have "sv_lookup (<) fst ?w j = (if j = k then Some (k, a) else sv_lookup (<) fst v j)" for j
    by (rule less_order.lookup_eqI [OF inv])
      (use less_order.lookup_Some [OF assms, of j] mem in \<open>auto simp del: set_append\<close>)
  then show ?thesis using w inv by auto
qed

theorem svm_assign_updates_witness:
  "sv_lookup (<) fst (svm_assign (<) 0 [(1 :: nat, 5 :: nat), (4, 6)] 4 9) 4 = Some (4, 9)"
proof -
  have "sv_inv (<) fst [(1 :: nat, 5 :: nat), (4, 6)]" by (simp add: sv_inv_def)
  from svm_assign_updates [OF this, of 0 4 9] show ?thesis by simp
qed

text \<open>
  \<open>insert\<close> with a position hint does not look for an equivalent key, so it makes
  a second entry for a key that is present; a later \<open>erase\<close> of the key removes the
  new entry and leaves the old one.\<close>

theorem svm_insert_hint_duplicates:
  assumes "sv_inv (<) fst v" and "sv_lookup (<) fst v k = Some d"
  shows "\<not> sv_inv (<) fst (snd (svm_insert_hint (<) v (k :: 'o::linorder, b))) \<and>
    sv_lookup (<) fst (snd (svm_insert_hint (<) v (k, b))) k = Some (k, b) \<and>
    svm_erase (<) (snd (svm_insert_hint (<) v (k, b))) k = (1, v)"
proof -
  let ?i = "sv_lower_bound (<) fst v k"
  let ?w = "vector_insert v ?i (k, b)"
  note at = less_order.split_at_bound [OF assms(1), of k]
  have le: "?i \<le> length v" by (rule at(3))
  have w: "snd (svm_insert_hint (<) v (k, b)) = ?w" by (simp add: svm_insert_hint_def Let_def)
  have i: "sv_lower_bound (<) fst ?w k = ?i"
    unfolding vector_insert_def using bound_of_split [where lt = "(<)" and key = fst, OF at(1)] at(2) le by simp
  have wi: "?w ! ?i = (k, b)" "?i < length ?w" using le by (simp_all add: vector_insert_def nth_append)
  then have p: "sv_present (<) fst ?w ?i k" by (simp add: sv_present_def)
  have "d \<in> set v" "fst d = k" using assms(2) less_order.lookup_Some [OF assms(1), of k d] by simp_all
  then have "d \<in> set (drop ?i v)" using at(1) by (metis append_take_drop_id less_irrefl Un_iff set_append)
  then have "\<not> sv_inv (<) fst ?w"
    using \<open>fst d = k\<close> unfolding sv_inv_def vector_insert_def by (fastforce simp: sorted_wrt_append)
  moreover have "sv_lookup (<) fst ?w k = Some (k, b)"
    using p wi i by (simp add: sv_lookup_def sv_find_def Let_def)
  moreover have "vector_erase ?w ?i = v" using le by (simp add: vector_insert_def vector_erase_def)
  ultimately show ?thesis using p i w by (simp add: svm_erase_def sv_erase_def Let_def)
qed

theorem svm_insert_hint_duplicates_witness:
  "svm_erase (<) (snd (svm_insert_hint (<) [(4 :: nat, 6 :: nat)] (4, 7))) 4 = (1, [(4, 6)])"
proof -
  have "sv_inv (<) fst [(4 :: nat, 6 :: nat)]" by (simp add: sv_inv_def)
  moreover have "sv_lookup (<) fst [(4 :: nat, 6 :: nat)] 4 = Some (4, 6)"
    using less_order.lookup_Some [OF calculation] by simp
  ultimately have "svm_erase (<) (snd (svm_insert_hint (<) [(4 :: nat, 6 :: nat)] (4, 7))) 4 = (1, [(4, 6)])"
    using svm_insert_hint_duplicates [of "[(4, 6)]" 4 "(4, 6)" 7] by blast
  then show ?thesis .
qed

lemma unique_by_sorted:
  "sorted_wrt (\<lambda>x y. \<not> y < x) xs \<Longrightarrow>
    sv_inv (<) (\<lambda>x. x) (unique_by (=) xs) \<and> set (unique_by (=) xs) = set (xs :: 'o::linorder list)"
proof (induction "(=) :: 'o \<Rightarrow> 'o \<Rightarrow> bool" xs rule: unique_by.induct)
  case (3 x y ys)
  show ?case
  proof (cases "x = y")
    case True
    then show ?thesis using 3(1) 3(3) by auto
  next
    case False
    then have "sv_inv (<) (\<lambda>x. x) (unique_by (=) (y # ys))" "set (unique_by (=) (y # ys)) = set (y # ys)"
      using 3(2,3) by auto
    moreover have "\<forall>z \<in> set (y # ys). x < z" using 3(3) False by (auto simp: not_less)
    ultimately show ?thesis using False by (simp add: sv_inv_def)
  qed
qed (simp_all add: sv_inv_def)

text \<open>
  Inserting a range, with any correct sort, gives the increasing enumeration of the union,
  without duplicates.\<close>

theorem svs_insert_range_is_union:
  assumes "sorts (<) std_sort"
  shows "svs_insert_range std_sort (<) v xs = sorted_list_of_set (set v \<union> set (xs :: 'o::linorder list))"
proof -
  have "sorted_wrt (\<lambda>x y. \<not> y < x) (std_sort (v @ xs))" "set (std_sort (v @ xs)) = set v \<union> set xs"
    using assms unfolding sorts_def by (simp_all add: mset_eq_setD [of _ "v @ xs"])
  then show ?thesis
    using unique_by_sorted sv_inv_set_unique unfolding svs_insert_range_def equivalent_less by metis
qed

theorem svs_insert_range_is_union_witness:
  "svs_insert_range sort (<) [3, 1, 3] [2, 1 :: nat] = [1, 2, 3]"
proof -
  have "sorts (<) (sort :: nat list \<Rightarrow> nat list)" by (simp add: sorts_def not_less)
  moreover have "set [3, 1, 3] \<union> set [2, 1] = set [1, 2, 3 :: nat]" by auto
  moreover have "sorted_list_of_set (set [1, 2, 3 :: nat]) = [1, 2, 3]"
    by (rule sorted_list_of_set.idem_if_sorted_distinct) simp_all
  ultimately show ?thesis using svs_insert_range_is_union [of sort "[3, 1, 3]" "[2, 1 :: nat]"] by simp
qed

text \<open>
  \<open>count\<close>, \<open>find\<close> and \<open>equal_range\<close> agree: the range has
  \<open>count\<close> elements, and \<open>find\<close> answers \<open>end()\<close> exactly when it is empty.\<close>

theorem sv_queries_agree:
  assumes "sv_inv (<) fst v"
  shows "svm_count (<) v k = length (filter (\<lambda>d. fst d = k) v) \<and>
    (svm_find (<) v k = length v \<longleftrightarrow> svm_count (<) v k = 0) \<and>
    snd (sv_equal_range (<) fst v k) = fst (sv_equal_range (<) fst v (k :: 'o::linorder)) + svm_count (<) v k"
proof -
  let ?i = "sv_lower_bound (<) fst v k"
  note at = less_order.split_at_bound [OF assms, of k]
  have part: "partitioned (\<lambda>d. \<not> k < fst d) v"
    using assms unfolding sv_inv_def by (rule sorted_wrt_partitioned) (auto intro: transpI)
  have v: "take ?i v @ drop ?i v = v" by simp
  have below: "filter (\<lambda>d. fst d = k) (take ?i v) = []" "takeWhile (\<lambda>d. \<not> k < fst d) (take ?i v) = take ?i v"
    using at(1) by (auto simp: filter_empty_conv takeWhile_eq_all_conv)
  have up: "sv_upper_bound (<) fst v k = length (takeWhile (\<lambda>d. \<not> k < fst d) (take ?i v @ drop ?i v))"
    using part by (simp add: sv_upper_bound_def lower_bound_takeWhile)
  also have "\<dots> = ?i + length (takeWhile (\<lambda>d. \<not> k < fst d) (drop ?i v))"
    using at(1,3) by (subst takeWhile_append2) auto
  finally have up: "sv_upper_bound (<) fst v k = ?i + length (takeWhile (\<lambda>d. \<not> k < fst d) (drop ?i v))" .
  have f: "filter (\<lambda>d. fst d = k) v = filter (\<lambda>d. fst d = k) (drop ?i v)"
    using below(1) v by (metis append_Nil filter_append)
  show ?thesis
  proof (cases "?i < length v \<and> \<not> k < fst (v ! ?i)")
    case True
    then have c: "drop ?i v = v ! ?i # drop (Suc ?i) v" by (simp add: Cons_nth_drop_Suc)
    then have e: "fst (v ! ?i) = k" using at(2) True by force
    have "\<forall>d \<in> set (drop (Suc ?i) v). k < fst d" using at(4) True by blast
    then have "filter (\<lambda>d. fst d = k) (drop (Suc ?i) v) = []" "takeWhile (\<lambda>d. \<not> k < fst d) (drop (Suc ?i) v) = []"
      by (auto simp: filter_empty_conv takeWhile_eq_Nil_iff dest: bspec [OF _ hd_in_set])
    then show ?thesis using True e c f up
      by (simp add: svm_count_def sv_count_def svm_find_def sv_find_def sv_present_def sv_equal_range_def Let_def)
  next
    case False
    have "\<forall>d \<in> set (drop ?i v). k < fst d"
    proof (cases "?i < length v")
      case True
      then show ?thesis using False at(4) Cons_nth_drop_Suc [OF True] by (metis set_ConsD)
    qed simp
    then have "filter (\<lambda>d. fst d = k) (drop ?i v) = []" "takeWhile (\<lambda>d. \<not> k < fst d) (drop ?i v) = []"
      by (auto simp: filter_empty_conv takeWhile_eq_Nil_iff dest: bspec [OF _ hd_in_set])
    moreover have "?i = length v \<or> fst (v ! ?i) \<noteq> k" using False at(3) by auto
    ultimately show ?thesis using False at(3) f up
      by (auto simp: svm_count_def sv_count_def svm_find_def sv_find_def sv_present_def sv_equal_range_def Let_def)
  qed
qed

theorem sv_queries_agree_witness: "svm_count (<) [(1 :: nat, True), (4, False)] 4 = 1"
proof -
  have "sv_inv (<) fst [(1 :: nat, True), (4, False)]" by (simp add: sv_inv_def)
  from sv_queries_agree [OF this, of 4] show ?thesis by simp
qed

text \<open>
  \<open>StrictWeakOrdering\<close> compares its fields lexicographically, so containers whose
  keys are compared by several fields work as well: a program of insertions and erasures finds
  each object by the values of its fields.\<close>

theorem field_container_refines_map:
  "fields_less fs x y = (map (\<lambda>f. f x) fs < map (\<lambda>f. f (y :: 'r)) fs) \<and>
   sv_lookup (fields_less fs) (\<lambda>x. x) (run_on (\<lambda>v x. snd (svs_insert (fields_less fs) v x))
       (\<lambda>v k. snd (svs_erase (fields_less fs) v k)) ops [])
     = run_on (spec_ins (\<lambda>x. x) (\<lambda>x y. map (\<lambda>f. f x) fs = map (\<lambda>f. f y) (fs :: ('r \<Rightarrow> 'o::linorder) list)))
         (spec_del (\<lambda>x y. map (\<lambda>f. f x) fs = map (\<lambda>f. f y) fs)) ops (\<lambda>_. None)"
proof -
  have "equivalent (fields_less fs) = (\<lambda>x y. map (\<lambda>f. f x) fs = map (\<lambda>f. f y) fs)"
    by (simp only: fun_eq_iff fields_less_equivalent simp_thms)
  then show ?thesis
    using field_order.vec.run_from_empty(2) [where key = "\<lambda>x. x" and ops = ops and fs = fs]
    by (simp only: fields_less_lex svs_insert_def svs_erase_def simp_thms)
qed

end
