(* ===== verification/UTF8_Compare_Props.thy ===== *)
theory UTF8_Compare_Props
  imports UTF8_Compare SortedVector
begin

text \<open>
  What \<open>compareToIgnoreCase\<close> computes: zero on equal strings, the comparison up to case
  on ASCII strings, and where it is neither an order nor an equivalence.
\<close>

section \<open>Equal strings\<close>

text \<open>
  The states in which the two strings stand at the same position when they are equal: those
  that set the markers, with the first state and \<open>Match\<close>, and those that are reached only
  after a marker.
\<close>

definition fresh_states :: "nat list" where
  "fresh_states = [0x0, 0x2, 0xb5, 0xb7, 0xb9, 0xbb, 0xbd, 0xbf, 0xc6, 0xc8, 0xca, 0xcc, 0xce, 0xd0, 0xd2, 0xd4,
     0xe1, 0xe3, 0xf1, 0xf3]"

definition marked_states :: "nat list" where
  "marked_states = [0x146, 0x149, 0x16b, 0x16d, 0x16f, 0x19d, 0x1d9, 0x1fe, 0x203, 0x22b, 0x22d]"

text \<open>After byte \<open>d\<close> of the first string: the second string is read next, and if it has
  the same byte the strings are level again.\<close>

fun level_after :: "nat set \<Rightarrow> nat \<Rightarrow> node \<Rightarrow> bool" where
  "level_after A d (Read2 m cases) = (\<not> m \<and> (case map_of cases d of None \<Rightarrow> True | Some t \<Rightarrow> t \<in> A))"
| "level_after A d n = False"

fun level_node :: "bool \<Rightarrow> node \<Rightarrow> bool" where
  "level_node fresh (Start cases) = (fresh \<and> map fst cases = [1..<256] \<and>
     list_all (\<lambda>(d, k). level_after (set fresh_states) d (cmp_node k)) cases)"
| "level_node fresh Match = fresh"
| "level_node fresh (Read1 m cases) = ((fresh \<longrightarrow> m) \<and>
     list_all (\<lambda>(d, k). level_after (set fresh_states \<union> set marked_states) d (cmp_node k)) cases)"
| "level_node fresh n = False"

lemma level_start: "level_node True (cmp_node 0)"
proof -
  have "list_all (\<lambda>(d, k). level_after (set fresh_states) d (cmp_node k)) cmp_start_lo"
    "list_all (\<lambda>(d, k). level_after (set fresh_states) d (cmp_node k)) cmp_start_hi"
    by (simp_all add: fresh_states_def cmp_node_simps cmp_start_lo_def cmp_start_hi_def)
  then show ?thesis using start_total by (simp add: cmp_node_0)
qed

lemma level_nodes:
  "list_all (\<lambda>k. level_node True (cmp_node k)) (tl fresh_states)"
  "list_all (\<lambda>k. level_node False (cmp_node k)) marked_states"
  by (simp_all add: fresh_states_def marked_states_def cmp_node_simps cmp_state_defs)

lemma level_node_states:
  "k \<in> set fresh_states \<Longrightarrow> level_node True (cmp_node k)"
  "k \<in> set marked_states \<Longrightarrow> level_node False (cmp_node k)"
proof -
  have "set fresh_states = insert 0 (set (tl fresh_states))" by (simp add: fresh_states_def)
  then show "k \<in> set fresh_states \<Longrightarrow> level_node True (cmp_node k)"
    using level_start level_nodes(1) by (auto simp: list_all_iff)
  show "k \<in> set marked_states \<Longrightarrow> level_node False (cmp_node k)"
    using level_nodes(2) by (auto simp: list_all_iff)
qed

definition level :: "bytes \<Rightarrow> cmp_config \<Rightarrow> bool" where
  "level s c \<longleftrightarrow> (\<forall>m1 m2. str_markers c = Some (m1, m2) \<longrightarrow> m1 = m2) \<and>
     (pc c \<in> set fresh_states \<and> str2 c = str1 c \<or>
      pc c \<in> set marked_states \<and> str_markers c \<noteq> None \<and> str2 c = str1 c \<or>
      str1 c = Suc (str2 c) \<and>
        (level_after (set fresh_states) (unat (s ! str2 c)) (cmp_node (pc c)) \<or>
         str_markers c \<noteq> None \<and>
         level_after (set fresh_states \<union> set marked_states) (unat (s ! str2 c)) (cmp_node (pc c))))"

definition level_result :: "bytes \<Rightarrow> utf8_error + (int + cmp_config) \<Rightarrow> bool" where
  "level_result s r \<longleftrightarrow> r = Inr (Inl 0) \<or> (\<exists>c'. r = Inr (Inr c') \<and> level s c')"

lemma no_match_marked:
  "str_markers c = Some (m1, m1) \<Longrightarrow> level_result s (no_match s s c)"
  by (simp add: no_match_def level_result_def level_def fresh_states_def)

lemma switch1_level:
  assumes "str1 c < length s" and "str2 c = str1 c" and "\<forall>m1 m2. str_markers c = Some (m1, m2) \<longrightarrow> m1 = m2"
    and "map_of cases (unat (s ! str1 c)) = None \<longrightarrow> str_markers c \<noteq> None"
    and "\<And>k. (unat (s ! str1 c), k) \<in> set cases \<Longrightarrow>
       level_after (set fresh_states) (unat (s ! str1 c)) (cmp_node k) \<or>
       str_markers c \<noteq> None \<and> level_after (set fresh_states \<union> set marked_states) (unat (s ! str1 c)) (cmp_node k)"
  shows "level_result s (switch1 s s cases c)"
proof (cases "map_of cases (unat (s ! str1 c))")
  case None
  then obtain m where "str_markers c = Some (m, m)" using assms(3,4) by (cases "str_markers c") auto
  then have "level_result s (no_match s s (c\<lparr>str1 := str1 c + 1\<rparr>))" by (intro no_match_marked) simp
  then show ?thesis using None assms(1) by (simp add: switch1_def rd_def Let_def)
next
  case (Some k)
  then show ?thesis using assms(1-3) assms(5) [OF map_of_SomeD [OF Some]]
    by (auto simp: switch1_def rd_def Let_def level_result_def level_def)
qed

lemma switch2_level:
  assumes "str2 c < length s" and "str1 c = Suc (str2 c)" and "\<forall>m1 m2. str_markers c = Some (m1, m2) \<longrightarrow> m1 = m2"
    and "case map_of cases (unat (s ! str2 c)) of None \<Rightarrow> True | Some t \<Rightarrow> t \<in> set fresh_states \<or>
      str_markers c \<noteq> None \<and> t \<in> set marked_states"
  shows "level_result s (switch2 s s cases c)"
proof (cases "map_of cases (unat (s ! str2 c))")
  case None
  have "level_result s (no_match s s (c\<lparr>str2 := str2 c + 1\<rparr>))"
  proof (cases "str_markers c")
    case None
    then show ?thesis using assms(1,2) by (simp add: no_match_def read_before_def rd_def level_result_def)
  next
    case (Some m)
    then show ?thesis using assms(3) no_match_marked [of "c\<lparr>str2 := str2 c + 1\<rparr>" "fst m"] by (cases m) simp
  qed
  then show ?thesis using None assms(1) by (simp add: switch2_def rd_def Let_def)
next
  case (Some t)
  then show ?thesis using assms
    by (auto simp: switch2_def rd_def Let_def level_result_def level_def)
qed

lemma cmp_step_level:
  assumes "cmp_inv s s c" and "level s c"
  shows "level_result s (cmp_step s s c)"
proof -
  have b: "rd s (str1 c) = Inr (s ! str1 c)" "rd s (str2 c) = Inr (s ! str2 c)" "str1 c < length s" "str2 c < length s"
    using assms(1) by (simp_all add: cmp_inv_def rd_def)
  have m: "\<forall>m1 m2. str_markers c = Some (m1, m2) \<longrightarrow> m1 = m2" using assms(2) by (simp add: level_def)
  consider (level) fresh where "level_node fresh (cmp_node (pc c))" "str2 c = str1 c" "fresh \<or> str_markers c \<noteq> None"
    | (ahead) A where "str1 c = Suc (str2 c)" "level_after A (unat (s ! str2 c)) (cmp_node (pc c))"
      "A \<subseteq> (if str_markers c = None then set fresh_states else set fresh_states \<union> set marked_states)"
  proof -
    have "(\<exists>fresh. level_node fresh (cmp_node (pc c)) \<and> str2 c = str1 c \<and> (fresh \<or> str_markers c \<noteq> None)) \<or>
      (\<exists>A. str1 c = Suc (str2 c) \<and> level_after A (unat (s ! str2 c)) (cmp_node (pc c)) \<and>
        A \<subseteq> (if str_markers c = None then set fresh_states else set fresh_states \<union> set marked_states))"
      using assms(2) level_node_states [of "pc c"] unfolding level_def
      by (elim conjE disjE) (fastforce simp del: set_append)+
    then show thesis using that by blast
  qed
  then show ?thesis
  proof cases
    case level
    show ?thesis
    proof (cases "cmp_node (pc c)")
      case (Start cases)
      show ?thesis
      proof (cases "s ! str1 c = 0")
        case True
        then show ?thesis using b level(2) Start by (simp add: cmp_step_def level_result_def)
      next
        case False
        have "level_result s (switch1 s s cases c)"
        proof (rule switch1_level [OF b(3) level(2) m])
          show "map_of cases (unat (s ! str1 c)) = None \<longrightarrow> str_markers c \<noteq> None"
          proof -
            have "0 < unat (s ! str1 c)" "unat (s ! str1 c) < 256"
              using False unsigned_less [of "s ! str1 c", where 'a = nat] by (simp_all add: unat_gt_0)
            then have "unat (s ! str1 c) \<in> set (map fst cases)" using level(1) Start by simp
            then show ?thesis by (simp add: map_of_eq_None_iff)
          qed
        qed (use level(1) Start in \<open>auto simp: list_all_iff\<close>)
        then show ?thesis using b False Start by (simp add: cmp_step_def)
      qed
    next
      case Match
      then show ?thesis using m level by (simp add: cmp_step_def level_result_def level_def fresh_states_def)
    next
      case (Read1 k cases)
      let ?c = "set_markers k c"
      have "str_markers ?c \<noteq> None" using level(1,3) Read1 by auto
      then have "level_result s (switch1 s s cases ?c)"
        using level(1,2) Read1 b(3) m by (intro switch1_level) (auto simp: list_all_iff)
      then show ?thesis using Read1 by (simp add: cmp_step_def)
    qed (use level(1) in simp_all)
  next
    case ahead
    then obtain cases where n: "cmp_node (pc c) = Read2 False cases"
      "case map_of cases (unat (s ! str2 c)) of None \<Rightarrow> True | Some t \<Rightarrow> t \<in> A"
      by (cases "cmp_node (pc c)") auto
    have "level_result s (switch2 s s cases c)"
      using switch2_level [OF b(4) ahead(1) m] n(2) ahead(3) by (auto split: option.splits if_splits)
    then show ?thesis using n(1) by (simp add: cmp_step_def set_markers_def)
  qed
qed
text \<open>
  Every C string equals itself.\<close>

theorem compareToIgnoreCase_refl:
  assumes "c_string s"
  shows "compareToIgnoreCase s s = Some (Inr 0)"
proof -
  have "cmp_inv s s c \<Longrightarrow> level s c \<Longrightarrow> cmp_run s s c = Some (Inr 0)" for c
  proof (induction c rule: wf_induct_rule [OF wf_cmp_less [of s s]])
    case (1 c)
    then show ?case using cmp_step_good [OF assms assms "1.prems"(1)] cmp_step_level [OF "1.prems"]
      by (subst cmp_run.simps) (auto simp: good_step_def level_result_def)
  qed
  moreover have "cmp_inv s s cmp_start" "level s cmp_start"
    using assms by (auto simp: cmp_inv_def cmp_start_def c_string_def level_def fresh_states_def)
  ultimately show ?thesis by (simp add: compareToIgnoreCase_def)
qed

theorem compareToIgnoreCase_refl_witness: "compareToIgnoreCase [0xC3, 0x9F, 0] [0xC3, 0x9F, 0] = Some (Inr 0)"
  by (rule compareToIgnoreCase_refl) (auto simp: c_string_def intro: exI [of _ "[0xC3, 0x9F]"])

section \<open>ASCII strings\<close>

definition ascii_lower :: "nat \<Rightarrow> nat" where
  "ascii_lower c = (if 0x41 \<le> c \<and> c \<le> 0x5A then c + 0x20 else c)"

text \<open>The reference: the difference of the first two characters that differ in more than
  case, the terminators included.\<close>

fun ascii_compare :: "bytes \<Rightarrow> bytes \<Rightarrow> int" where
  "ascii_compare [] ys = 0 - (case ys of [] \<Rightarrow> 0 | y # _ \<Rightarrow> int (unat y))"
| "ascii_compare (x # xs) [] = int (unat x)"
| "ascii_compare (x # xs) (y # ys) =
     (if ascii_lower (unat x) = ascii_lower (unat y) then ascii_compare xs ys else int (unat x) - int (unat y))"

definition ascii_cases :: "nat \<Rightarrow> (nat \<times> nat) list" where
  "ascii_cases c =
     (if 0x41 \<le> c \<and> c \<le> 0x5A then [(c, 2), (c + 0x20, 2)]
      else if 0x61 \<le> c \<and> c \<le> 0x7A then [(c - 0x20, 2), (c, 2)] else [(c, 2)])"

definition ascii_node :: "nat \<Rightarrow> node \<Rightarrow> bool" where
  "ascii_node c n = (case n of Read2 m cases \<Rightarrow> \<not> m \<and> filter (\<lambda>(d, k). d < 0x80) cases = ascii_cases c | _ \<Rightarrow> False)"

lemma ascii_nodes: "list_all (\<lambda>(c, k). ascii_node c (cmp_node k)) cmp_start_lo"
  by (simp add: cmp_start_lo_def cmp_node_simps ascii_node_def ascii_cases_def)

lemma map_of_filter_small: "d < 0x80 \<Longrightarrow> map_of cases d = map_of (filter (\<lambda>(d, k). d < 0x80) cases) d" for d :: nat
  by (induction cases) auto

lemma ascii_case:
  assumes "0 < c" "c < 0x80" "d < (0x80 :: nat)"
  shows "map_of (ascii_cases c) d = (if ascii_lower c = ascii_lower d then Some 2 else None)"
  using assms by (auto simp: ascii_cases_def ascii_lower_def)

lemma start_lo_keys: "map fst cmp_start_lo = [1..<0x80]"
  by (simp add: cmp_start_lo_def upt_conv_Cons)

lemma start_ascii:
  assumes "0 < c" and "c < 0x80"
  obtains k cases where "map_of (cmp_start_lo @ cmp_start_hi) c = Some k" "cmp_node k = Read2 False cases"
    "\<forall>d < 0x80. map_of cases d = (if ascii_lower c = ascii_lower d then Some 2 else None)"
proof -
  have "c \<in> set (map fst cmp_start_lo)" using assms by (simp add: start_lo_keys)
  then obtain k where k: "map_of cmp_start_lo c = Some k"
    by (metis list.set_map map_of_eq_None_iff not_None_eq)
  then have "ascii_node c (cmp_node k)" using ascii_nodes map_of_SomeD [OF k] by (auto simp: list_all_iff)
  then obtain cases where n: "cmp_node k = Read2 False cases" "filter (\<lambda>(d, k). d < 0x80) cases = ascii_cases c"
    by (auto simp: ascii_node_def split: node.splits)
  have "map_of cases d = (if ascii_lower c = ascii_lower d then Some 2 else None)" if "d < 0x80" for d
    using map_of_filter_small [OF that, of cases] ascii_case [OF assms that] n(2) by simp
  then show thesis using that [OF _ n(1)] k by (simp add: map_add_Some_iff)
qed

lemma cmp_run_cases:
  "cmp_step s1 s2 c = Inr (Inr c') \<Longrightarrow> cmp_run s1 s2 c = cmp_run s1 s2 c'"
  "cmp_step s1 s2 c = Inr (Inl n) \<Longrightarrow> cmp_run s1 s2 c = Some (Inr n)"
  by (subst cmp_run.simps; simp)+

lemma cmp_run_start:
  assumes "rd s1 i = Inr x" and "map_of (cmp_start_lo @ cmp_start_hi) (unat x) = Some k" and "x \<noteq> 0"
  shows "cmp_run s1 s2 \<lparr>pc = 0, str1 = i, str2 = j, str_markers = m\<rparr> =
    cmp_run s1 s2 \<lparr>pc = k, str1 = Suc i, str2 = j, str_markers = m\<rparr>"
  by (rule cmp_run_cases(1))
    (use assms in \<open>simp add: cmp_step_def cmp_node_0 switch1_def Let_def del: map_of_append\<close>)

lemma ascii_run:
  assumes "\<forall>x \<in> set xs. 0 < unat x \<and> unat x < 0x80" and "\<forall>y \<in> set ys. 0 < unat y \<and> unat y < 0x80"
  shows "cmp_run (ps @ xs @ [0]) (qs @ ys @ [0])
     \<lparr>pc = 0, str1 = length ps, str2 = length qs, str_markers = None\<rparr> = Some (Inr (ascii_compare xs ys))"
  using assms
proof (induction xs ys arbitrary: ps qs rule: ascii_compare.induct)
  case (1 ys)
  show ?case by (cases ys; rule cmp_run_cases(2)) (simp_all add: cmp_step_def cmp_node_0 rd_def nth_append)
next
  case (2 x xs)
  then have x: "0 < unat x" "unat x < 0x80" by simp_all
  obtain k cases where k: "map_of (cmp_start_lo @ cmp_start_hi) (unat x) = Some k" "cmp_node k = Read2 False cases"
    "\<forall>d < 0x80. map_of cases d = (if ascii_lower (unat x) = ascii_lower d then Some 2 else None)"
    using start_ascii [OF x] .
  have "map_of cases 0 = None" using k(3) [rule_format, of 0] x by (auto simp: ascii_lower_def)
  then have "cmp_run (ps @ (x # xs) @ [0]) (qs @ [] @ [0])
      \<lparr>pc = k, str1 = Suc (length ps), str2 = length qs, str_markers = None\<rparr> = Some (Inr (int (unat x)))"
    by (intro cmp_run_cases(2))
      (simp add: cmp_step_def k(2) rd_def nth_append switch2_def set_markers_def no_match_def read_before_def Let_def)
  then show ?case
    using x by (subst cmp_run_start [OF _ k(1)]) (simp_all add: rd_def nth_append unat_gt_0)
next
  case (3 x xs y ys)
  then have x: "0 < unat x" "unat x < 0x80" and y: "unat y < 0x80" by simp_all
  obtain k cases where k: "map_of (cmp_start_lo @ cmp_start_hi) (unat x) = Some k" "cmp_node k = Read2 False cases"
    "\<forall>d < 0x80. map_of cases d = (if ascii_lower (unat x) = ascii_lower d then Some 2 else None)"
    using start_ascii [OF x] .
  let ?c = "\<lambda>n. \<lparr>pc = n, str1 = Suc (length ps), str2 = Suc (length qs), str_markers = None\<rparr>"
  let ?s = "ps @ (x # xs) @ [0]" and ?t = "qs @ (y # ys) @ [0]"
  have two: "cmp_node 2 = Match" by (simp add: cmp_node_simps)
  show ?case
  proof (cases "ascii_lower (unat x) = ascii_lower (unat y)")
    case True
    then have "cmp_run ?s ?t \<lparr>pc = k, str1 = Suc (length ps), str2 = length qs, str_markers = None\<rparr> = cmp_run ?s ?t (?c 2)"
      using k(3) [rule_format, OF y]
      by (intro cmp_run_cases(1))
        (simp add: cmp_step_def k(2) rd_def nth_append switch2_def set_markers_def Let_def)
    also have "\<dots> = cmp_run ?s ?t (?c 0)" by (intro cmp_run_cases(1)) (simp add: cmp_step_def two)
    also have "\<dots> = Some (Inr (ascii_compare xs ys))"
      using "3.IH" [OF True, of "ps @ [x]" "qs @ [y]"] "3.prems" by simp
    finally show ?thesis
      using True x by (subst cmp_run_start [OF _ k(1)]) (simp_all add: rd_def nth_append unat_gt_0)
  next
    case False
    then have "cmp_run ?s ?t \<lparr>pc = k, str1 = Suc (length ps), str2 = length qs, str_markers = None\<rparr>
        = Some (Inr (int (unat x) - int (unat y)))"
      using k(3) [rule_format, OF y]
      by (intro cmp_run_cases(2))
        (simp add: cmp_step_def k(2) rd_def nth_append switch2_def set_markers_def no_match_def read_before_def Let_def)
    then show ?thesis
      using False x by (subst cmp_run_start [OF _ k(1)]) (simp_all add: rd_def nth_append unat_gt_0)
  qed
qed

lemma compare_ascii:
  assumes "\<forall>x \<in> set xs. 0 < unat x \<and> unat x < 0x80" and "\<forall>y \<in> set ys. 0 < unat y \<and> unat y < 0x80"
  shows "compareToIgnoreCase (xs @ [0]) (ys @ [0]) = Some (Inr (ascii_compare xs ys)) \<and>
    (ascii_compare xs ys = 0 \<longleftrightarrow> map (\<lambda>x. ascii_lower (unat x)) xs = map (\<lambda>y. ascii_lower (unat y)) ys)"
proof
  show "compareToIgnoreCase (xs @ [0]) (ys @ [0]) = Some (Inr (ascii_compare xs ys))"
    using ascii_run [OF assms, of "[]" "[]"] by (simp add: compareToIgnoreCase_def cmp_start_def)
  show "ascii_compare xs ys = 0 \<longleftrightarrow> map (\<lambda>x. ascii_lower (unat x)) xs = map (\<lambda>y. ascii_lower (unat y)) ys"
    using assms by (induction xs ys rule: ascii_compare.induct) (auto split: list.splits simp del: of_nat_unat)
qed

lemmas cmp_eval = compareToIgnoreCase_def cmp_start_def cmp_run.simps cmp_step_def switch1_def switch2_def
  no_match_def read_before_def set_markers_def rd_def cmp_node_simps cmp_start_lo_def cmp_start_hi_def cmp_state_defs

section \<open>Properties of the comparison\<close>

text \<open>
  C28. On ASCII strings the result is the difference of the first two characters that differ in
  more than case; it is zero exactly when the strings are equal up to case.\<close>

theorem compareToIgnoreCase_ascii:
  assumes "\<forall>x \<in> set xs. 0 < unat x \<and> unat x < 0x80" and "\<forall>y \<in> set ys. 0 < unat y \<and> unat y < 0x80"
  shows "compareToIgnoreCase (xs @ [0]) (ys @ [0]) = Some (Inr (ascii_compare xs ys)) \<and>
    (ascii_compare xs ys = 0 \<longleftrightarrow> map (\<lambda>x. ascii_lower (unat x)) xs = map (\<lambda>y. ascii_lower (unat y)) ys)"
  using assms by (rule compare_ascii)

theorem compareToIgnoreCase_ascii_witness:
  "compareToIgnoreCase ([0x61, 0x62] @ [0]) ([0x41, 0x43] @ [0]) = Some (Inr (0x62 - 0x43))"
  using compareToIgnoreCase_ascii [of "[0x61, 0x62]" "[0x41, 0x43]"] by (simp add: ascii_lower_def)

text \<open>
  The result is not an order: it is the difference of the original bytes, so in \<open>B\<close>,
  \<open>a\<close>, \<open>A\<close>, \<open>b\<close> each string is smaller than or equal to the next one
  and the last equals the first. A container ordered by it would not keep its contract.\<close>

theorem ignore_case_is_no_order:
  "\<not> strict_weak_order (\<lambda>x y. \<exists>n < 0. compareToIgnoreCase (x @ [0]) (y @ [0]) = Some (Inr n))"
proof
  let ?lt = "\<lambda>x y. \<exists>n < 0. compareToIgnoreCase (x @ [0]) (y @ [0]) = Some (Inr n)"
  assume "strict_weak_order ?lt"
  then have cong: "equivalent ?lt x y \<Longrightarrow> ?lt z x = ?lt z y" for x y z
    by (rule strict_weak_order.lt_equivalent(2))
  have c: "compareToIgnoreCase ([x] @ [0]) ([y] @ [0]) = Some (Inr (ascii_compare [x] [y]))"
    if "x \<in> {0x41, 0x42, 0x61, 0x62}" "y \<in> {0x41, 0x42, 0x61, 0x62}" for x y :: u8
    using that ascii_run [of "[x]" "[y]" "[]" "[]"] by (auto simp: compareToIgnoreCase_def cmp_start_def)
  have "?lt [0x42] [0x61]" "\<not> ?lt [0x42] [0x41]" "equivalent ?lt [0x61] [0x41]"
    by (simp_all add: c equivalent_def ascii_lower_def del: append.simps)
  then show False using cong by blast
qed

text \<open>
  Equality that ignores case is not transitive: the long s equals the small s, the small s
  equals the capital S, and the long s differs from the capital S. The table has each character
  with its folding, but not two characters that have the same folding.\<close>

theorem ignore_case_is_not_transitive:
  "compareToIgnoreCase [0xC5, 0xBF, 0] [0x73, 0] = Some (Inr 0) \<and>
   compareToIgnoreCase [0x73, 0] [0x53, 0] = Some (Inr 0) \<and>
   compareToIgnoreCase [0xC5, 0xBF, 0] [0x53, 0] = Some (Inr 114)"
  by (simp add: cmp_eval)

text \<open>
  Different strings compare as equal: after \<open>s\<close> the code takes the first byte
  \<open>0xC3\<close> of the second string for the beginning of a sharp s and looks for the second
  \<open>s\<close> in the first string; when it finds \<open>0xC3\<close> there instead, the two bytes it
  subtracts are the same, whatever the rest of the strings is.\<close>

theorem different_strings_compare_equal:
  "compareToIgnoreCase (0x73 # 0xC3 # xs) (0xC3 # ys) = Some (Inr 0)"
  by (simp add: cmp_eval)

end
