(* ===== verification/PathSecurity.thy ===== *)
theory PathSecurity
  imports Prelude
begin

text \<open>
  Resolution and security check of paths (\<open>PathSecurity.cpp\<close>,
  \<open>PosixPathSecurity.cpp\<close>, the path functions of \<open>PosixFileSystem.cpp\<close>).

  The file system is read through the functions of \<open>FileSystem.hpp\<close> that a
  \<open>FileSystemMockObject\<close> can replace; they are the record \<open>env\<close>, an
  argument of the model. Paths are lists of characters; where the code hands a
  \<open>String\<close> to a function that takes a \<open>char const *\<close>, the model cuts it
  at its first NUL (\<open>c_str\<close>).
\<close>

section \<open>Files and the interface to the file system\<close>

datatype EFileType = E_FILE_TYPE_UNKNOWN | E_FILE_REGULAR | E_FILE_DIRECTORY | E_FILE_SYMLINK
  | E_FILE_SPECIAL

datatype EFileStatusReturn = E_FILE_OK | E_FILE_BAD_OWNER | E_FILE_BAD_OTHER

datatype ESecurity = E_INSECURE | E_SECURE_DIR | E_SECURE_FILE

datatype ESecurityLoggingAction = E_SECURITY_DO_NOTHING | E_SECURITY_LOG_INSECURE

text \<open>The members of \<open>FileInformation\<close> that this code reads or sets; its three
  time stamps are left out.\<close>

record FileInformation =
  owner :: u32
  group :: u32
  file_size :: u64
  type_of :: EFileType
  permissions :: u32

definition E_FILE_OTHER_WRITE :: u32 where "E_FILE_OTHER_WRITE = 2"
definition E_FILE_GROUP_WRITE :: u32 where "E_FILE_GROUP_WRITE = push_bit 3 E_FILE_OTHER_WRITE"
definition E_FILE_STICKY :: u32 where "E_FILE_STICKY = push_bit 9 1"
definition E_FILE_SETUID :: u32 where "E_FILE_SETUID = push_bit 9 E_FILE_OTHER_WRITE"
definition E_FILE_SETGID :: u32 where "E_FILE_SETGID = push_bit 9 4"

text \<open>The exceptions: a failed assertion, and \<open>FileSystemException\<close> with an error
  code, with a path and an error code, or with a message.\<close>

datatype fs_error = AssertionException | Errno nat | ErrnoMsg string nat | FileSystemMsg string

definition ENOTDIR :: nat where "ENOTDIR = 20"
definition ELOOP :: nat where "ELOOP = 40"

record env =
  getFileInformation :: "string \<Rightarrow> fs_error + FileInformation"
  readSymbolicLink :: "string \<Rightarrow> fs_error + string"
  getCurrentWorkingDirectory :: "fs_error + string"
  getUserName :: "u32 \<Rightarrow> string option"

definition c_str :: "string \<Rightarrow> string" where
  "c_str s = takeWhile (\<lambda>c. c \<noteq> CHR 0x00) s"

definition separator :: char where "separator = CHR ''/''"

section \<open>What the operating system answers\<close>

text \<open>The part of \<open>struct stat\<close> that is converted, and the mode bits of Linux.\<close>

record stat_buf =
  st_mode :: u32
  st_uid :: u32
  st_gid :: u32
  st_size :: u64

definition S_ISVTX :: u32 where "S_ISVTX = 0x200"
definition S_ISGID :: u32 where "S_ISGID = 0x400"
definition S_ISUID :: u32 where "S_ISUID = 0x800"
definition S_IFMT :: u32 where "S_IFMT = 0xF000"

definition convertModeToPerms :: "u32 \<Rightarrow> u32" where
  "convertModeToPerms mode =
     (let v0 = and mode 0x1FF;
          v1 = (if and mode S_ISVTX \<noteq> 0 then or v0 E_FILE_STICKY else v0);
          v2 = (if and mode S_ISUID \<noteq> 0 then or v1 E_FILE_SETUID else v1)
      in (if and mode S_ISGID \<noteq> 0 then or v2 E_FILE_SETGID else v2))"

definition convertModeToType :: "u32 \<Rightarrow> EFileType" where
  "convertModeToType mode = (let t = and mode S_IFMT in
     if t = 0x8000 then E_FILE_REGULAR
     else if t = 0x4000 then E_FILE_DIRECTORY
     else if t = 0xA000 then E_FILE_SYMLINK
     else if t = 0x2000 \<or> t = 0x6000 \<or> t = 0x1000 \<or> t = 0xC000 then E_FILE_SPECIAL
     else E_FILE_TYPE_UNKNOWN)"

definition statToFileInfo :: "stat_buf \<Rightarrow> FileInformation" where
  "statToFileInfo statbuf = \<lparr>owner = st_uid statbuf, group = st_gid statbuf,
     file_size = st_size statbuf, type_of = convertModeToType (st_mode statbuf),
     permissions = convertModeToPerms (st_mode statbuf)\<rparr>"

definition posix_getFileInformation :: "(string \<Rightarrow> nat + stat_buf) \<Rightarrow> string \<Rightarrow> fs_error + FileInformation"
  where
  "posix_getFileInformation lstat filename = (case lstat (c_str filename) of
     Inl errno \<Rightarrow> Inl (Errno errno) | Inr statbuf \<Rightarrow> Inr (statToFileInfo statbuf))"

text \<open>
  \<open>readlink path n\<close> is what the system call answers for a buffer of \<open>n\<close>
  bytes: an error code or the bytes it wrote. The buffer is doubled until the text fits; a
  call that never fits would not return (\<open>None\<close>).
\<close>

partial_function (option) read_link_loop ::
  "(string \<Rightarrow> nat \<Rightarrow> nat + string) \<Rightarrow> string \<Rightarrow> nat \<Rightarrow> (fs_error + string) option" where
  "read_link_loop readlink path n = (case readlink (c_str path) n of
     Inl errno \<Rightarrow> Some (Inl (ErrnoMsg path errno))
   | Inr written \<Rightarrow> if length written = n then read_link_loop readlink path (n * 2)
       else Some (Inr (c_str written)))"

definition MAXPATHLEN :: nat where "MAXPATHLEN = 4096"

definition posix_readSymbolicLink ::
  "(string \<Rightarrow> nat \<Rightarrow> nat + string) \<Rightarrow> string \<Rightarrow> (fs_error + string) option" where
  "posix_readSymbolicLink readlink path = read_link_loop readlink path (MAXPATHLEN + 1)"

section \<open>The status of one file\<close>

definition group_ok :: "u32 \<Rightarrow> bool" where "group_ok gid \<longleftrightarrow> gid = 0"

definition check_grp_oth :: "FileInformation \<Rightarrow> bool" where
  "check_grp_oth x = (let badmsk = (if group_ok (group x) then E_FILE_OTHER_WRITE
      else or E_FILE_OTHER_WRITE E_FILE_GROUP_WRITE) in and (permissions x) badmsk = 0)"

definition file_ok :: "FileInformation \<Rightarrow> u32 \<Rightarrow> bool \<Rightarrow> EFileStatusReturn" where
  "file_ok x uid full_path =
     (if owner x = 0 \<or> owner x = uid then
        if \<not> (type_of x = E_FILE_SYMLINK \<or> check_grp_oth x \<or>
             (type_of x = E_FILE_DIRECTORY \<and> \<not> full_path \<and> and (permissions x) E_FILE_STICKY \<noteq> 0))
        then E_FILE_BAD_OTHER else E_FILE_OK
      else E_FILE_BAD_OWNER)"

definition getFileStatus :: "FileInformation \<Rightarrow> u32 \<Rightarrow> bool \<Rightarrow> string \<Rightarrow> EFileStatusReturn" where
  "getFileStatus x uid is_full_path path = file_ok x uid is_full_path"

definition isPathAbsolute :: "string \<Rightarrow> bool" where
  "isPathAbsolute path \<longleftrightarrow> path \<noteq> [] \<and> hd path = separator"

section \<open>Partially resolved paths\<close>

text \<open>
  Both members are vectors used as stacks; here the head of a list is the \<open>back()\<close> of
  its vector. So \<open>m_unresolved\<close>, which the code stores in reverse order, reads
  forwards, and \<open>m_resolved\<close> is the reverse of the path.
\<close>

record PartiallyResolvedPath =
  m_resolved :: string
  m_unresolved :: string

definition new_prp :: "string \<Rightarrow> PartiallyResolvedPath" where
  "new_prp base_dir = \<lparr>m_resolved = rev base_dir, m_unresolved = []\<rparr>"

text \<open>One turn of the loop that pushes a path from its end to its start: the last
  character seen and the stack.\<close>

definition push_char :: "char \<Rightarrow> bool \<times> string \<Rightarrow> bool \<times> string" where
  "push_char c st = (let sep = (c = separator) in
     (sep, if \<not> (sep \<and> fst st) then c # snd st else snd st))"

definition multi_push_unresolved :: "string \<Rightarrow> PartiallyResolvedPath \<Rightarrow> fs_error + PartiallyResolvedPath"
  where
  "multi_push_unresolved path prp =
     (if path \<noteq> [] \<and> hd path = separator then Inl AssertionException
      else if path = [] then Inr prp
      else Inr (prp\<lparr>m_unresolved :=
        snd (foldr push_char path (True, separator # m_unresolved prp))\<rparr>))"

definition skip_component :: "string \<Rightarrow> string" where
  "skip_component u = dropWhile (\<lambda>c. c = separator) (dropWhile (\<lambda>c. c \<noteq> separator) u)"

definition pop_unresolved :: "PartiallyResolvedPath \<Rightarrow> fs_error + PartiallyResolvedPath" where
  "pop_unresolved prp = (if m_unresolved prp = [] then Inl AssertionException
     else Inr (prp\<lparr>m_unresolved := skip_component (m_unresolved prp)\<rparr>))"

definition unresolved_empty :: "PartiallyResolvedPath \<Rightarrow> bool" where
  "unresolved_empty prp \<longleftrightarrow> m_unresolved prp = []"

definition unresolved_starts_with_curdir :: "PartiallyResolvedPath \<Rightarrow> bool" where
  "unresolved_starts_with_curdir prp = (let u = m_unresolved prp; n = length u in
     n > 0 \<and> u ! 0 = CHR ''.'' \<and> (n = 1 \<or> u ! 1 = separator))"

definition unresolved_starts_with_parent :: "PartiallyResolvedPath \<Rightarrow> bool" where
  "unresolved_starts_with_parent prp = (let u = m_unresolved prp; n = length u in
     n \<ge> 2 \<and> u ! 0 = CHR ''.'' \<and> u ! 1 = CHR ''.'' \<and> (n = 2 \<or> u ! 2 = separator))"

definition xfer_component :: "PartiallyResolvedPath \<Rightarrow> fs_error + PartiallyResolvedPath" where
  "xfer_component prp = (let u = m_unresolved prp; r = m_resolved prp; n = length r in
     if u = [] \<or> \<not> (n > 0 \<and> (n = 1 \<or> hd r \<noteq> separator)) then Inl AssertionException
     else let r1 = (if n > 1 then separator # r else r) in
       Inr \<lparr>m_resolved = rev (takeWhile (\<lambda>c. c \<noteq> separator) u) @ r1,
            m_unresolved = skip_component u\<rparr>)"

definition pop_resolved :: "PartiallyResolvedPath \<Rightarrow> fs_error + PartiallyResolvedPath" where
  "pop_resolved prp = (let r = m_resolved prp; n = length r in
     if \<not> (n > 0 \<and> last r = separator) then Inl AssertionException
     else if n = 1 then Inr prp
     else if hd r = separator then Inl AssertionException
     else let r1 = dropWhile (\<lambda>c. c \<noteq> separator) r in
       Inr (prp\<lparr>m_resolved := (if length r1 > 1 then tl r1 else r1)\<rparr>))"

definition reset_resolved :: "PartiallyResolvedPath \<Rightarrow> PartiallyResolvedPath" where
  "reset_resolved prp = prp\<lparr>m_resolved := [separator]\<rparr>"

definition get_resolved :: "PartiallyResolvedPath \<Rightarrow> string" where
  "get_resolved prp = rev (m_resolved prp)"

definition lstat_resolved :: "env \<Rightarrow> PartiallyResolvedPath \<Rightarrow> fs_error + FileInformation" where
  "lstat_resolved e prp = getFileInformation e (get_resolved prp)"

definition read_symlink :: "env \<Rightarrow> PartiallyResolvedPath \<Rightarrow> fs_error + string" where
  "read_symlink e prp = rbind (readSymbolicLink e (get_resolved prp)) (\<lambda>linkPath. Inr (c_str linkPath))"

definition strip_leading_slashes :: "string \<Rightarrow> string" where
  "strip_leading_slashes path = dropWhile (\<lambda>c. c = separator) path"

section \<open>Reporting\<close>

type_synonym path_results = "(string \<times> EFileStatusReturn) list"

definition bad_owner_message :: "env \<Rightarrow> u32 \<Rightarrow> string \<Rightarrow> string" where
  "bad_owner_message e uid path = path @ '' was insecure.  It was not owned by '' @
     (case getUserName e uid of Some userName \<Rightarrow> userName | None \<Rightarrow> ''the proper user'') @ ''.''"

definition bad_other_message :: "string \<Rightarrow> string" where
  "bad_other_message path = path @ '' was owned by the proper user, but was not a symlink and was either'' @
     '' world (or non-root group) writable or did not have the sticky bit set on the directory.''"

fun getFileStatusMessages :: "env \<Rightarrow> path_results \<Rightarrow> u32 \<Rightarrow> string list" where
  "getFileStatusMessages e [] uid = []"
| "getFileStatusMessages e ((path, st) # results) uid =
     (case st of E_FILE_BAD_OWNER \<Rightarrow> [bad_owner_message e uid path]
       | E_FILE_BAD_OTHER \<Rightarrow> [bad_other_message path] | E_FILE_OK \<Rightarrow> [])
     @ getFileStatusMessages e results uid"

text \<open>What is written to the log is a list of messages.\<close>

definition takeSecurityAction :: "env \<Rightarrow> path_results \<Rightarrow> u32 \<Rightarrow> ESecurityLoggingAction \<Rightarrow> string list" where
  "takeSecurityAction e results uid action = (case action of E_SECURITY_DO_NOTHING \<Rightarrow> []
     | E_SECURITY_LOG_INSECURE \<Rightarrow> getFileStatusMessages e results uid)"

section \<open>The walk along a path\<close>

record walk =
  prp :: PartiallyResolvedPath
  status_if_secure :: ESecurity
  num_symbolic_links :: nat
  file_status :: EFileStatusReturn
  results :: path_results

definition MAX_SYMBOLIC_LINKS :: nat where "MAX_SYMBOLIC_LINKS = 100"

text \<open>The treatment of a component after it was transferred and its status was recorded.\<close>

definition follow_symlink :: "env \<Rightarrow> walk \<Rightarrow> fs_error + walk" where
  "follow_symlink e w =
     (let n = num_symbolic_links w + 1 in
      if n > MAX_SYMBOLIC_LINKS then Inl (ErrnoMsg (get_resolved (prp w)) ELOOP)
      else rbind (read_symlink e (prp w)) (\<lambda>slpath.
        rbind (if slpath \<noteq> [] \<and> hd slpath = separator
               then Inr (reset_resolved (prp w), strip_leading_slashes slpath)
               else rbind (pop_resolved (prp w)) (\<lambda>p. Inr (p, slpath))) (\<lambda>(p, sl).
        rbind (multi_push_unresolved sl p) (\<lambda>p'.
          Inr (w\<lparr>prp := p', num_symbolic_links := n\<rparr>)))))"

definition examine_component :: "env \<Rightarrow> u32 \<Rightarrow> walk \<Rightarrow> fs_error + walk" where
  "examine_component e uid w =
     rbind (xfer_component (prp w)) (\<lambda>p.
     rbind (lstat_resolved e p) (\<lambda>st.
       let fs = getFileStatus st uid (unresolved_empty p) (get_resolved p);
           w1 = w\<lparr>prp := p, file_status := fs,
                  results := (if fs \<noteq> E_FILE_OK then results w @ [(get_resolved p, fs)] else results w)\<rparr> in
       case type_of st of
         E_FILE_REGULAR \<Rightarrow>
           (if \<not> unresolved_empty p then Inl (ErrnoMsg (get_resolved p) ENOTDIR)
            else Inr (w1\<lparr>status_if_secure := E_SECURE_FILE\<rparr>))
       | E_FILE_SYMLINK \<Rightarrow> follow_symlink e w1
       | E_FILE_DIRECTORY \<Rightarrow> Inr w1
       | _ \<Rightarrow> Inl (FileSystemMsg (get_resolved p @ '' is not a directory, symbolic link, nor regular file''))))"

definition path_step :: "env \<Rightarrow> u32 \<Rightarrow> walk \<Rightarrow> fs_error + walk" where
  "path_step e uid w =
     (if unresolved_starts_with_curdir (prp w) then
        rbind (pop_unresolved (prp w)) (\<lambda>p. Inr (w\<lparr>prp := p\<rparr>))
      else if unresolved_starts_with_parent (prp w) then
        rbind (pop_unresolved (prp w)) (\<lambda>p. rbind (pop_resolved p) (\<lambda>p'. Inr (w\<lparr>prp := p'\<rparr>)))
      else examine_component e uid w)"

lemma skip_component_shorter: "u \<noteq> [] \<Longrightarrow> length (skip_component u) < length u"
proof (cases u)
  case (Cons c cs)
  have "length (dropWhile P (dropWhile Q cs)) \<le> length cs" for P Q
    by (rule le_trans [OF length_dropWhile_le length_dropWhile_le])
  with Cons show ?thesis
    by (simp add: skip_component_def le_imp_less_Suc length_dropWhile_le)
qed simp

lemma pop_unresolved_shorter:
  "pop_unresolved p = Inr p' \<Longrightarrow> length (m_unresolved p') < length (m_unresolved p)"
  by (auto simp: pop_unresolved_def skip_component_shorter split: if_splits)

lemma xfer_component_shorter:
  "xfer_component p = Inr p' \<Longrightarrow> length (m_unresolved p') < length (m_unresolved p)"
  by (auto simp: xfer_component_def Let_def skip_component_shorter split: if_splits)

lemma pop_resolved_unresolved: "pop_resolved p = Inr p' \<Longrightarrow> m_unresolved p' = m_unresolved p"
  by (auto simp: pop_resolved_def Let_def split: if_splits)

lemma follow_symlink_links:
  "follow_symlink e w = Inr w' \<Longrightarrow> num_symbolic_links w' = Suc (num_symbolic_links w) \<and>
     num_symbolic_links w < 100"
  by (auto simp: follow_symlink_def Let_def rbind_eq_Inr_iff MAX_SYMBOLIC_LINKS_def split: if_splits)

lemma examine_component_decreases:
  assumes "examine_component e uid w = Inr w'"
  shows "(num_symbolic_links w' = Suc (num_symbolic_links w) \<and> num_symbolic_links w < 100) \<or>
    (num_symbolic_links w' = num_symbolic_links w \<and>
     length (m_unresolved (prp w')) < length (m_unresolved (prp w)))"
proof -
  obtain p st where p: "xfer_component (prp w) = Inr p" and st: "lstat_resolved e p = Inr st"
    using assms unfolding examine_component_def rbind_eq_Inr_iff by blast
  from xfer_component_shorter [OF p] assms show ?thesis
    unfolding examine_component_def p st Let_def rbind_simps
    by (cases "type_of st") (auto dest!: follow_symlink_links split: if_splits)
qed

lemma path_step_decreases:
  assumes "path_step e uid w = Inr w'"
  shows "(w', w) \<in> measures [\<lambda>w. 101 - num_symbolic_links w, \<lambda>w. length (m_unresolved (prp w))]"
proof -
  have "(num_symbolic_links w' = Suc (num_symbolic_links w) \<and> num_symbolic_links w < 100) \<or>
    (num_symbolic_links w' = num_symbolic_links w \<and>
     length (m_unresolved (prp w')) < length (m_unresolved (prp w)))"
    using assms
    by (auto simp: path_step_def rbind_eq_Inr_iff split: if_splits
        dest!: pop_unresolved_shorter pop_resolved_unresolved examine_component_decreases)
  then show ?thesis by auto
qed

function path_walk :: "env \<Rightarrow> u32 \<Rightarrow> walk \<Rightarrow> fs_error + walk" where
  "path_walk e uid w = (if unresolved_empty (prp w) then Inr w
     else case path_step e uid w of Inl err \<Rightarrow> Inl err | Inr w' \<Rightarrow> path_walk e uid w')"
  by pat_completeness auto
termination
  by (relation "inv_image (measures [\<lambda>w. 101 - num_symbolic_links w,
        \<lambda>w. length (m_unresolved (prp w))]) (\<lambda>(e, uid, w). w)")
    (auto dest: path_step_decreases simp del: in_measures)

declare path_walk.simps [simp del]

section \<open>The entry points\<close>

text \<open>The messages logged and the result; on an exception inside the walk nothing is logged.\<close>

type_synonym 'a logged = "string list \<times> (fs_error + 'a)"

definition base_path_security ::
  "env \<Rightarrow> string \<Rightarrow> string \<Rightarrow> u32 \<Rightarrow> bool \<Rightarrow> ESecurityLoggingAction \<Rightarrow> (ESecurity \<times> string) logged"
  where
  "base_path_security e base_dir rel_path uid bdsecure loggingAction =
     (if \<not> (base_dir \<noteq> [] \<and> hd base_dir = separator \<and>
           (length base_dir = 1 \<or> last base_dir \<noteq> separator) \<and>
           \<not> (rel_path \<noteq> [] \<and> hd rel_path = separator)) then ([], Inl AssertionException)
      else case rbind (multi_push_unresolved rel_path (new_prp base_dir)) (\<lambda>p.
          let w = \<lparr>prp = p, status_if_secure = E_SECURE_DIR, num_symbolic_links = 0,
                   file_status = E_FILE_BAD_OTHER, results = []\<rparr> in
          rbind (if unresolved_empty p then rbind (lstat_resolved e p) (\<lambda>st.
                   Inr (w\<lparr>file_status := getFileStatus st uid True rel_path\<rparr>)) else Inr w)
            (path_walk e uid)) of
        Inl err \<Rightarrow> ([], Inl err)
      | Inr w \<Rightarrow> (takeSecurityAction e (results w) uid loggingAction,
          Inr (if bdsecure \<and> file_status w = E_FILE_OK then status_if_secure w else E_INSECURE,
               get_resolved (prp w))))"

definition path_security ::
  "env \<Rightarrow> string \<Rightarrow> u32 \<Rightarrow> ESecurityLoggingAction \<Rightarrow> (ESecurity \<times> string) logged" where
  "path_security e path uid loggingAction =
     (if \<not> isPathAbsolute path then ([], Inl (FileSystemMsg (path @ '' is not an absolute path'')))
      else let relpath = strip_leading_slashes path in
        case getFileInformation e [separator] of Inl err \<Rightarrow> ([], Inl err)
        | Inr st \<Rightarrow>
          (let status = getFileStatus st uid (relpath = []) path;
               log = (if status \<noteq> E_FILE_OK
                 then takeSecurityAction e [(path, status)] uid loggingAction else []);
               (log', r) = base_path_security e [separator] relpath uid (status = E_FILE_OK) loggingAction
           in (log @ log', r)))"

definition security ::
  "env \<Rightarrow> string \<Rightarrow> u32 \<Rightarrow> ESecurityLoggingAction \<Rightarrow> (ESecurity \<times> string) logged" where
  "security e path uid loggingAction =
     (if isPathAbsolute path then path_security e (c_str path) uid loggingAction
      else case getCurrentWorkingDirectory e of Inl err \<Rightarrow> ([], Inl err)
        | Inr cwd \<Rightarrow> path_security e (c_str (cwd @ [separator] @ path)) uid loggingAction)"

definition base_security ::
  "env \<Rightarrow> string \<Rightarrow> string \<Rightarrow> u32 \<Rightarrow> ESecurityLoggingAction \<Rightarrow> (ESecurity \<times> string) logged" where
  "base_security e base_dir rel_path uid loggingAction =
     base_path_security e (c_str base_dir) (c_str rel_path) uid True loggingAction"

definition realPath :: "env \<Rightarrow> string \<Rightarrow> fs_error + string" where
  "realPath e path =
     (if isPathAbsolute path then rbind (snd (security e path 0 E_SECURITY_DO_NOTHING)) (\<lambda>r. Inr (snd r))
      else rbind (getCurrentWorkingDirectory e) (\<lambda>cwd.
        rbind (snd (base_security e cwd path 0 E_SECURITY_DO_NOTHING)) (\<lambda>r. Inr (snd r))))"

end
