(* ===== verification/PathSecurity_Props.thy ===== *)
theory PathSecurity_Props
  imports PathSecurity "HOL-Library.Sublist"
begin

text \<open>
  The resolution of a path as a function on lists of components, the proof that the
  character-level code of \<open>PathSecurity.cpp\<close> implements it, and what follows for
  \<open>realPath\<close> and \<open>security\<close>.
\<close>

section \<open>Paths and components\<close>

fun components :: "string \<Rightarrow> string list" where
  "components [] = []"
| "components (c # p) = (if c = separator then components p
     else if p = [] \<or> hd p = separator then [c] # components p
     else (case components p of [] \<Rightarrow> [[c]] | w # ws \<Rightarrow> (c # w) # ws))"

definition path_string :: "string list \<Rightarrow> string" where
  "path_string cs = (if cs = [] then [separator] else concat (map (\<lambda>c. separator # c) cs))"

definition unresolved_string :: "string list \<Rightarrow> string" where
  "unresolved_string cs = concat (map (\<lambda>c. c @ [separator]) cs)"

definition is_component :: "string \<Rightarrow> bool" where
  "is_component c \<longleftrightarrow> c \<noteq> [] \<and> separator \<notin> set c \<and> CHR 0x00 \<notin> set c"

lemma separator_not_dot [simp]: "separator \<noteq> CHR ''.''" "CHR ''.'' \<noteq> separator"
  by (simp_all add: separator_def)

lemma separator_not_nul [simp]: "separator \<noteq> CHR 0x00" "CHR 0x00 \<noteq> separator"
  by (simp_all add: separator_def)

lemma components_nonempty: "p \<noteq> [] \<Longrightarrow> hd p \<noteq> separator \<Longrightarrow> components p \<noteq> []"
  by (cases p) (auto split: list.splits)

lemma components_wf: "CHR 0x00 \<notin> set p \<Longrightarrow> c \<in> set (components p) \<Longrightarrow> is_component c"
proof (induction p arbitrary: c)
  case (Cons x p)
  show ?case
  proof (cases "x = separator \<or> p = [] \<or> hd p = separator")
    case True
    with Cons show ?thesis by (auto simp: is_component_def split: if_splits)
  next
    case False
    then obtain w ws where "components p = w # ws"
      using components_nonempty by (metis neq_Nil_conv)
    with False Cons show ?thesis by (auto simp: is_component_def)
  qed
qed simp

lemma nul_c_str [simp]: "CHR 0x00 \<notin> set (c_str s)"
  unfolding c_str_def by (metis (mono_tags, lifting) set_takeWhileD)

lemma c_str_id: "CHR 0x00 \<notin> set s \<Longrightarrow> c_str s = s"
  unfolding c_str_def by (rule takeWhile_eq_all_conv [THEN iffD2]) auto

lemma components_strip [simp]: "components (strip_leading_slashes p) = components p"
  unfolding strip_leading_slashes_def by (induction p) auto

lemma nul_strip: "CHR 0x00 \<notin> set p \<Longrightarrow> CHR 0x00 \<notin> set (strip_leading_slashes p)"
  unfolding strip_leading_slashes_def by (meson set_dropWhileD)

lemma strip_no_separator: "\<not> (strip_leading_slashes p \<noteq> [] \<and> hd (strip_leading_slashes p) = separator)"
  unfolding strip_leading_slashes_def using hd_dropWhile [of "\<lambda>c. c = separator" p] by auto

lemma components_append_sep: "components (p @ separator # q) = components p @ components q"
proof (induction p)
  case (Cons x p)
  show ?case
  proof (cases "x = separator \<or> p = [] \<or> hd p = separator")
    case True
    with Cons show ?thesis by (auto simp: hd_append split: list.splits if_splits)
  next
    case False
    then obtain w ws where "components p = w # ws"
      using components_nonempty by (metis neq_Nil_conv)
    with False Cons show ?thesis by (auto simp: hd_append)
  qed
qed simp

lemma components_single: "is_component c \<Longrightarrow> components c = [c]"
proof (induction c)
  case (Cons x c)
  show ?case
  proof (cases c)
    case (Cons y d)
    with Cons.prems Cons.IH show ?thesis by (auto simp: is_component_def)
  qed (use Cons.prems in \<open>auto simp: is_component_def\<close>)
qed (simp add: is_component_def)

lemma components_path_string: "\<forall>c \<in> set cs. is_component c \<Longrightarrow> components (path_string cs) = cs"
proof (induction cs)
  case (Cons c cs)
  have "components (c @ concat (map ((#) separator) cs)) = c # cs"
  proof (cases cs)
    case (Cons d ds)
    with Cons.prems Cons.IH have "components (concat (map ((#) separator) cs)) = cs"
      by (simp add: path_string_def)
    with Cons show ?thesis
      using Cons.prems by (simp add: components_append_sep components_single)
  qed (use Cons.prems in \<open>simp add: components_single\<close>)
  then show ?case by (simp add: path_string_def)
qed (simp add: path_string_def)

lemma nul_path_string: "\<forall>c \<in> set cs. is_component c \<Longrightarrow> CHR 0x00 \<notin> set (path_string cs)"
  by (auto simp: path_string_def is_component_def)

lemma path_string_absolute [simp]: "isPathAbsolute (path_string cs)"
  by (cases cs) (auto simp: path_string_def isPathAbsolute_def)

section \<open>The operations on component lists\<close>

lemma push_chars:
  "foldr push_char p (True, separator # u) =
     (p = [] \<or> hd p = separator,
      (if p = [] \<or> hd p = separator then [separator] else []) @ unresolved_string (components p) @ u)"
proof (induction p)
  case (Cons x p)
  show ?case
  proof (cases "x = separator \<or> p = [] \<or> hd p = separator")
    case True
    with Cons show ?thesis
      by (auto simp: push_char_def unresolved_string_def Let_def)
  next
    case False
    then obtain w ws where "components p = w # ws"
      using components_nonempty by (metis neq_Nil_conv)
    with False Cons show ?thesis by (auto simp: push_char_def unresolved_string_def Let_def)
  qed
qed (simp add: unresolved_string_def)

lemma multi_push:
  "\<not> (p \<noteq> [] \<and> hd p = separator) \<Longrightarrow> multi_push_unresolved p q =
     Inr (q\<lparr>m_unresolved := unresolved_string (components p) @ m_unresolved q\<rparr>)"
  by (auto simp: multi_push_unresolved_def push_chars unresolved_string_def)

lemma takeWhile_component:
  "is_component c \<Longrightarrow> takeWhile (\<lambda>x. x \<noteq> separator) (c @ separator # u) = c"
  by (subst takeWhile_append2) (auto simp: is_component_def)

lemma skip_component_component:
  assumes "is_component c" and "\<forall>c \<in> set cs. is_component c"
  shows "skip_component (c @ separator # unresolved_string cs) = unresolved_string cs"
proof -
  have "dropWhile (\<lambda>x. x \<noteq> separator) (c @ separator # unresolved_string cs) =
      separator # unresolved_string cs"
    using assms(1) by (subst dropWhile_append2) (auto simp: is_component_def)
  moreover have "dropWhile (\<lambda>x. x = separator) (unresolved_string cs) = unresolved_string cs"
    using assms(2) by (cases cs) (auto simp: unresolved_string_def is_component_def
        dropWhile_append neq_Nil_conv)
  ultimately show ?thesis by (simp add: skip_component_def)
qed

lemma unresolved_string_simps [simp]:
  "unresolved_string [] = []"
  "unresolved_string (c # cs) = c @ separator # unresolved_string cs"
  "unresolved_string (cs @ ds) = unresolved_string cs @ unresolved_string ds"
  by (simp_all add: unresolved_string_def)

lemma component_cases:
  assumes "is_component c"
  obtains x where "c = [x]" "x \<noteq> separator"
  | x y where "c = [x, y]" "x \<noteq> separator" "y \<noteq> separator"
  | x y z d where "c = x # y # z # d" "x \<noteq> separator" "y \<noteq> separator" "z \<noteq> separator"
  using assms unfolding is_component_def
  by (metis list.set_intros neq_Nil_conv)

lemma starts_with_component:
  assumes "is_component c" and "m_unresolved q = c @ separator # u"
  shows "unresolved_starts_with_curdir q \<longleftrightarrow> c = ''.''"
    and "unresolved_starts_with_parent q \<longleftrightarrow> c = ''..''"
  using component_cases [OF assms(1)] assms(2)
  by (cases; simp add: unresolved_starts_with_curdir_def unresolved_starts_with_parent_def
      Let_def numeral_2_eq_2; fail)+

text \<open>The state of the walk as two lists of components.\<close>

definition prp_of :: "string list \<Rightarrow> string list \<Rightarrow> PartiallyResolvedPath" where
  "prp_of rs cs = \<lparr>m_resolved = rev (path_string rs), m_unresolved = unresolved_string cs\<rparr>"

lemma prp_of_fields [simp]:
  "get_resolved (prp_of rs cs) = path_string rs"
  "m_unresolved (prp_of rs cs) = unresolved_string cs"
  "unresolved_empty (prp_of rs cs) \<longleftrightarrow> cs = []"
  by (auto simp: prp_of_def get_resolved_def unresolved_empty_def unresolved_string_def)

lemma pop_unresolved_prp:
  "is_component c \<Longrightarrow> \<forall>c \<in> set cs. is_component c \<Longrightarrow>
    pop_unresolved (prp_of rs (c # cs)) = Inr (prp_of rs cs)"
  by (simp add: pop_unresolved_def prp_of_def skip_component_component)

lemma path_string_snoc:
  "path_string (rs @ [c]) = (if rs = [] then separator # c else path_string rs @ separator # c)"
  by (simp add: path_string_def)

lemma rev_path_string:
  assumes "\<forall>c \<in> set rs. is_component c"
  shows "rev (path_string rs) \<noteq> []" and "last (rev (path_string rs)) = separator"
    and "length (path_string rs) = 1 \<longleftrightarrow> rs = []" and "hd (rev (path_string rs)) = separator \<longleftrightarrow> rs = []"
proof -
  show "rev (path_string rs) \<noteq> []" "last (rev (path_string rs)) = separator"
    by (cases rs; simp add: path_string_def last_rev)+
  have "rs = [] \<or> (\<exists>q c x d. rs = q @ [c] \<and> c = d @ [x] \<and> x \<noteq> separator)"
    using assms by (cases rs rule: rev_cases; simp add: is_component_def)
      (metis append_butlast_last_id last_in_set)
  then show "length (path_string rs) = 1 \<longleftrightarrow> rs = []" "hd (rev (path_string rs)) = separator \<longleftrightarrow> rs = []"
    by (auto simp: path_string_def)
qed

lemma xfer_prp:
  assumes "is_component c" and "\<forall>c \<in> set cs. is_component c" and "\<forall>c \<in> set rs. is_component c"
  shows "xfer_component (prp_of rs (c # cs)) = Inr (prp_of (rs @ [c]) cs)"
proof -
  have "length (path_string rs) > 1 \<longleftrightarrow> rs \<noteq> []"
    using rev_path_string(1,3) [OF assms(3)] by (metis length_greater_0_conv length_rev less_one nat_neq_iff)
  then show ?thesis
    using rev_path_string [OF assms(3)] assms
    by (auto simp: xfer_component_def prp_of_def Let_def takeWhile_component skip_component_component
        path_string_snoc) (simp_all add: path_string_def)
qed

lemma pop_resolved_prp:
  assumes "\<forall>c \<in> set rs. is_component c"
  shows "pop_resolved (prp_of rs cs) = Inr (prp_of (butlast rs) cs)"
proof (cases rs rule: rev_cases)
  case Nil
  then show ?thesis by (simp add: pop_resolved_def prp_of_def path_string_def)
next
  case (snoc q c)
  with assms have c: "is_component c" and q: "\<forall>c \<in> set q. is_component c" by auto
  have d: "dropWhile (\<lambda>x. x \<noteq> separator) (rev c @ separator # v) = separator # v" for v
    using c by (subst dropWhile_append2) (auto simp: is_component_def)
  define v where "v = (if q = [] then [] else rev (path_string q))"
  have r: "rev (path_string rs) = rev c @ separator # v"
    by (simp add: snoc path_string_snoc v_def)
  have nonempty: "rs \<noteq> []" by (simp add: snoc)
  have drop: "dropWhile (\<lambda>x. x \<noteq> separator) (rev (path_string rs)) = separator # v"
    by (simp add: r d)
  have "pop_resolved (prp_of rs cs) = Inr (prp_of rs cs
      \<lparr>m_resolved := if length (separator # v) > 1 then v else [separator]\<rparr>)"
    using rev_path_string [OF assms] nonempty
    by (simp add: pop_resolved_def prp_of_def Let_def drop del: rev_is_Nil_conv)
  moreover have "(if length (separator # v) > 1 then v else [separator]) = rev (path_string q)"
    using rev_path_string(1) [OF q] by (simp add: v_def) (simp add: path_string_def)
  ultimately show ?thesis by (simp add: snoc prp_of_def)
qed

section \<open>Resolution on component lists\<close>

text \<open>
  The reference: the path is resolved component by component. The result holds, in order,
  every file examined (its path, what \<open>lstat\<close> says of it, whether nothing of the path
  was left), and the components of the canonical path.
\<close>

type_synonym examined = "(string \<times> FileInformation \<times> bool) list"

definition add_examined ::
  "string \<times> FileInformation \<times> bool \<Rightarrow> fs_error + examined \<times> string list \<Rightarrow>
   fs_error + examined \<times> string list" where
  "add_examined x r = rbind r (\<lambda>(tr, rs). Inr (x # tr, rs))"

function resolve ::
  "env \<Rightarrow> nat \<Rightarrow> string list \<Rightarrow> string list \<Rightarrow> fs_error + examined \<times> string list" where
  "resolve e n rs [] = Inr ([], rs)"
| "resolve e n rs (c # cs) =
     (if c = ''.'' then resolve e n rs cs
      else if c = ''..'' then resolve e n (butlast rs) cs
      else let p = path_string (rs @ [c]) in
        case getFileInformation e p of Inl err \<Rightarrow> Inl err
        | Inr st \<Rightarrow> (case type_of st of
            E_FILE_DIRECTORY \<Rightarrow> add_examined (p, st, cs = []) (resolve e n (rs @ [c]) cs)
          | E_FILE_REGULAR \<Rightarrow> (if cs = [] then Inr ([(p, st, True)], rs @ [c])
                                      else Inl (ErrnoMsg p ENOTDIR))
          | E_FILE_SYMLINK \<Rightarrow>
              (if n \<ge> MAX_SYMBOLIC_LINKS then Inl (ErrnoMsg p ELOOP)
               else case readSymbolicLink e p of Inl err \<Rightarrow> Inl err
                 | Inr t \<Rightarrow> add_examined (p, st, cs = [])
                     (resolve e (Suc n) (if isPathAbsolute (c_str t) then [] else rs)
                       (components (c_str t) @ cs)))
          | _ \<Rightarrow> Inl (FileSystemMsg (p @ '' is not a directory, symbolic link, nor regular file''))))"
  by pat_completeness auto
termination
  by (relation "measures [\<lambda>(e, n, rs, cs). MAX_SYMBOLIC_LINKS - n, \<lambda>(e, n, rs, cs). length cs]")
    (auto simp: MAX_SYMBOLIC_LINKS_def)

declare resolve.simps(2) [simp del]

text \<open>What the walk records of an examined file.\<close>

definition note_examined :: "u32 \<Rightarrow> string \<times> FileInformation \<times> bool \<Rightarrow> walk \<Rightarrow> walk" where
  "note_examined uid x w = (case x of (p, st, full) \<Rightarrow>
     let fs = getFileStatus st uid full p in
     w\<lparr>file_status := fs,
       results := (if fs \<noteq> E_FILE_OK then results w @ [(p, fs)] else results w),
       status_if_secure := (if type_of st = E_FILE_REGULAR then E_SECURE_FILE else status_if_secure w),
       num_symbolic_links := (if type_of st = E_FILE_SYMLINK then Suc (num_symbolic_links w)
         else num_symbolic_links w)\<rparr>)"

definition walk_result :: "u32 \<Rightarrow> walk \<Rightarrow> fs_error + examined \<times> string list \<Rightarrow> fs_error + walk" where
  "walk_result uid w r = rbind r (\<lambda>(tr, rs).
     Inr ((fold (note_examined uid) tr w)\<lparr>prp := prp_of rs []\<rparr>))"

lemma note_examined_prp: "note_examined uid x (w\<lparr>prp := p\<rparr>) = (note_examined uid x w)\<lparr>prp := p\<rparr>"
  by (simp add: note_examined_def Let_def split: prod.splits)

lemma fold_note_prp:
  "fold (note_examined uid) tr (w\<lparr>prp := p\<rparr>) = (fold (note_examined uid) tr w)\<lparr>prp := p\<rparr>"
  by (induction tr arbitrary: w) (simp_all add: note_examined_prp)

lemma walk_result_prp: "walk_result uid (w\<lparr>prp := p\<rparr>) r = walk_result uid w r"
  by (cases r) (auto simp: walk_result_def fold_note_prp)

lemma walk_result_add:
  "walk_result uid w (add_examined x r) = walk_result uid (note_examined uid x w) r"
  by (cases r) (auto simp: walk_result_def add_examined_def)

definition comps_ok :: "string list \<Rightarrow> bool" where
  "comps_ok cs \<longleftrightarrow> (\<forall>c \<in> set cs. is_component c)"

lemma comps_ok_simps [simp]:
  "comps_ok []"
  "comps_ok (c # cs) \<longleftrightarrow> is_component c \<and> comps_ok cs"
  "comps_ok (cs @ ds) \<longleftrightarrow> comps_ok cs \<and> comps_ok ds"
  by (auto simp: comps_ok_def)

lemma comps_ok_butlast: "comps_ok rs \<Longrightarrow> comps_ok (butlast rs)"
  by (auto simp: comps_ok_def dest: in_set_butlastD)

lemma comps_ok_components: "comps_ok (components (c_str s))"
  unfolding comps_ok_def using components_wf nul_c_str by blast

lemmas prp_steps = pop_unresolved_prp [folded comps_ok_def] xfer_prp [folded comps_ok_def]
  pop_resolved_prp [folded comps_ok_def]

lemma curdir_prp:
  assumes "is_component c"
  shows "unresolved_starts_with_curdir (prp_of rs (c # cs)) \<longleftrightarrow> c = ''.''"
    and "unresolved_starts_with_parent (prp_of rs (c # cs)) \<longleftrightarrow> c = ''..''"
  by (rule starts_with_component [OF assms]; simp)+

text \<open>A symbolic link: its text replaces the component it was reached by.\<close>

lemma follow_symlink_prp:
  assumes "prp w = prp_of (rs @ [c]) cs" and "comps_ok rs" and "is_component c"
  shows "follow_symlink e w =
    (if num_symbolic_links w \<ge> MAX_SYMBOLIC_LINKS then Inl (ErrnoMsg (path_string (rs @ [c])) ELOOP)
     else rbind (readSymbolicLink e (path_string (rs @ [c]))) (\<lambda>t.
       Inr (w\<lparr>num_symbolic_links := Suc (num_symbolic_links w),
             prp := prp_of (if isPathAbsolute (c_str t) then [] else rs) (components (c_str t) @ cs)\<rparr>)))"
proof (cases "readSymbolicLink e (path_string (rs @ [c]))")
  case (Inr t)
  let ?s = "c_str t"
  have pop: "pop_resolved (prp w) = Inr (prp_of rs cs)"
    using assms by (simp add: prp_steps)
  have push: "multi_push_unresolved s (prp_of q cs) = Inr (prp_of q (components s @ cs))"
    if "\<not> (s \<noteq> [] \<and> hd s = separator)" for s q
    using that by (simp add: multi_push) (simp add: prp_of_def)
  have reset: "reset_resolved (prp w) = prp_of [] cs"
    by (simp add: assms reset_resolved_def prp_of_def path_string_def)
  show ?thesis
    using Inr pop reset push [of ?s] push [of "strip_leading_slashes ?s" "[]"] strip_no_separator [of ?s]
    by (auto simp: follow_symlink_def read_symlink_def assms(1) Let_def isPathAbsolute_def)
qed (use assms in \<open>simp add: follow_symlink_def read_symlink_def Let_def\<close>)

lemma walk_result_Inl [simp]: "walk_result uid w (Inl err) = Inl err"
  by (simp add: walk_result_def)

text \<open>One step of the walk at a component other than the current and the parent directory.\<close>

lemma path_step_component:
  fixes uid :: u32
  assumes "prp w = prp_of rs (c # cs)" and "is_component c" "comps_ok rs" "comps_ok cs"
    and "c \<noteq> ''.''" "c \<noteq> ''..''" and "getFileInformation e (path_string (rs @ [c])) = Inr st"
  defines "w1 \<equiv> note_examined uid (path_string (rs @ [c]), st, cs = []) w"
  shows "path_step e uid w = (case type_of st of
      E_FILE_REGULAR \<Rightarrow> (if cs \<noteq> [] then Inl (ErrnoMsg (path_string (rs @ [c])) ENOTDIR)
        else Inr (w1\<lparr>prp := prp_of (rs @ [c]) cs\<rparr>))
    | E_FILE_SYMLINK \<Rightarrow> (if num_symbolic_links w \<ge> MAX_SYMBOLIC_LINKS
        then Inl (ErrnoMsg (path_string (rs @ [c])) ELOOP)
        else rbind (readSymbolicLink e (path_string (rs @ [c]))) (\<lambda>t. Inr (w1\<lparr>prp :=
          prp_of (if isPathAbsolute (c_str t) then [] else rs) (components (c_str t) @ cs)\<rparr>)))
    | E_FILE_DIRECTORY \<Rightarrow> Inr (w1\<lparr>prp := prp_of (rs @ [c]) cs\<rparr>)
    | _ \<Rightarrow> Inl (FileSystemMsg (path_string (rs @ [c]) @
        '' is not a directory, symbolic link, nor regular file'')))"
proof -
  note prps = assms(1-7) curdir_prp [OF assms(2)] prp_steps
  define w0 where "w0 = (note_examined uid (path_string (rs @ [c]), st, cs = [])
      (w\<lparr>prp := prp_of (rs @ [c]) cs\<rparr>))\<lparr>num_symbolic_links := num_symbolic_links w\<rparr>"
  have w1: "w1\<lparr>prp := p\<rparr> = note_examined uid (path_string (rs @ [c]), st, cs = []) (w\<lparr>prp := p\<rparr>)" for p
    by (simp add: w1_def note_examined_prp)
  have "path_step e uid w = follow_symlink e w0" if "type_of st = E_FILE_SYMLINK"
    using that by (simp add: path_step_def examine_component_def prps lstat_resolved_def w0_def
        note_examined_def Let_def cong: if_cong)
  moreover have "follow_symlink e w0 = (if num_symbolic_links w \<ge> MAX_SYMBOLIC_LINKS
      then Inl (ErrnoMsg (path_string (rs @ [c])) ELOOP)
      else rbind (readSymbolicLink e (path_string (rs @ [c]))) (\<lambda>t. Inr (w1\<lparr>prp :=
        prp_of (if isPathAbsolute (c_str t) then [] else rs) (components (c_str t) @ cs)\<rparr>)))"
    if "type_of st = E_FILE_SYMLINK"
    using that by (subst follow_symlink_prp [where rs = rs and c = c and cs = cs])
      (simp_all add: w0_def w1_def note_examined_def Let_def prps cong: if_cong)
  ultimately show ?thesis unfolding w1
    by (cases "type_of st") (simp_all add: path_step_def examine_component_def prps
        lstat_resolved_def note_examined_def Let_def)
qed

lemma path_walk_resolve:
  assumes "prp w = prp_of rs cs" and "comps_ok rs" and "comps_ok cs"
  shows "path_walk e uid w = walk_result uid w (resolve e (num_symbolic_links w) rs cs)"
  using assms
proof (induction e "num_symbolic_links w" rs cs arbitrary: w rule: resolve.induct)
  case (1 e rs w)
  then show ?case by (simp add: path_walk.simps walk_result_def)
next
  case (2 e rs c cs w)
  then have ok: "is_component c" "comps_ok rs" "comps_ok cs" by simp_all
  note prps = 2(5) curdir_prp [OF ok(1)] prp_steps ok
  note walk = path_walk.simps [of e uid w] resolve.simps
  let ?p = "path_string (rs @ [c])"
  consider "c = ''.'' \<or> c = ''..''" | err where "c \<noteq> ''.''" "c \<noteq> ''..''" "getFileInformation e ?p = Inl err"
    | st where "c \<noteq> ''.''" "c \<noteq> ''..''" "getFileInformation e ?p = Inr st"
    by (cases "getFileInformation e ?p") blast+
  then show ?case
  proof cases
    case 1
    have step: "path_step e uid w = Inr (w\<lparr>prp := prp_of (if c = ''.'' then rs else butlast rs) cs\<rparr>)"
      unfolding path_step_def prps(1-3) prp_steps(1) [OF ok(1,3)] rbind_simps prp_steps(3) [OF ok(2)]
      using 1 by auto
    show ?thesis
      using "2.hyps"(1) [of "w\<lparr>prp := prp_of rs cs\<rparr>"]
        "2.hyps"(2) [of "w\<lparr>prp := prp_of (butlast rs) cs\<rparr>"] 1 ok
      by (auto simp: walk step prps(1) comps_ok_butlast walk_result_prp)
  next
    case 2
    then show ?thesis
      by (simp add: walk path_step_def examine_component_def prps lstat_resolved_def)
  next
    case (3 st)
    note step = path_step_component [OF 2(5) ok 3]
    define w1 where "w1 = note_examined uid (?p, st, cs = []) w"
    have n: "num_symbolic_links (w1\<lparr>prp := q\<rparr>) = (if type_of st = E_FILE_SYMLINK
        then Suc (num_symbolic_links w) else num_symbolic_links w)" for q
      by (simp add: w1_def note_examined_def Let_def)
    show ?thesis
    proof (cases "type_of st")
      case E_FILE_DIRECTORY
      with "2.hyps"(3) [OF _ _ refl 3(3) E_FILE_DIRECTORY, of "w1\<lparr>prp := prp_of (rs @ [c]) cs\<rparr>"] 3 ok n
      show ?thesis
        by (simp add: walk step prps(1) walk_result_add walk_result_prp flip: w1_def)
    next
      case E_FILE_REGULAR
      moreover have "path_walk e uid (v\<lparr>prp := prp_of q []\<rparr>) = Inr (v\<lparr>prp := prp_of q []\<rparr>)" for q v
        by (subst path_walk.simps) simp
      ultimately show ?thesis
        using 3 by (simp add: walk step prps(1) walk_result_def w1_def)
    next
      case E_FILE_SYMLINK
      show ?thesis
      proof (cases "readSymbolicLink e ?p")
        case (Inr t)
        let ?rs = "if isPathAbsolute (c_str t) then [] else rs" and ?cs = "components (c_str t) @ cs"
        have "path_walk e uid (w1\<lparr>prp := prp_of ?rs ?cs\<rparr>) =
            walk_result uid w1 (resolve e (Suc (num_symbolic_links w)) ?rs ?cs)"
          if "\<not> MAX_SYMBOLIC_LINKS \<le> num_symbolic_links w"
          using "2.hyps"(4) [OF 3(1,2) refl 3(3) E_FILE_SYMLINK that Inr, of "w1\<lparr>prp := prp_of ?rs ?cs\<rparr>"] ok
          unfolding n by (simp add: E_FILE_SYMLINK comps_ok_components walk_result_prp)
        with E_FILE_SYMLINK 3 Inr show ?thesis
          by (simp add: walk step prps(1) walk_result_add flip: w1_def)
      qed (use E_FILE_SYMLINK 3 in \<open>simp add: walk step prps(1)\<close>)
    qed (use 3 in \<open>simp_all add: walk step prps(1)\<close>)
  qed
qed

section \<open>The entry points over the reference\<close>

definition status_of :: "u32 \<Rightarrow> string \<times> FileInformation \<times> bool \<Rightarrow> EFileStatusReturn" where
  "status_of uid x = (case x of (p, st, full) \<Rightarrow> file_ok st uid full)"

definition bad_files :: "u32 \<Rightarrow> examined \<Rightarrow> path_results" where
  "bad_files uid tr = [(fst x, status_of uid x). x \<leftarrow> tr, status_of uid x \<noteq> E_FILE_OK]"

text \<open>The verdict rests on the last file examined only.\<close>

definition verdict :: "u32 \<Rightarrow> bool \<Rightarrow> examined \<Rightarrow> ESecurity" where
  "verdict uid bdsecure tr =
     (if bdsecure \<and> tr \<noteq> [] \<and> status_of uid (last tr) = E_FILE_OK
      then if \<exists>x \<in> set tr. type_of (fst (snd x)) = E_FILE_REGULAR then E_SECURE_FILE else E_SECURE_DIR
      else E_INSECURE)"

lemma fold_note_fields:
  "results (fold (note_examined uid) tr w) = results w @ bad_files uid tr"
  "file_status (fold (note_examined uid) tr w) = (if tr = [] then file_status w else status_of uid (last tr))"
  "status_if_secure (fold (note_examined uid) tr w) =
     (if \<exists>x \<in> set tr. type_of (fst (snd x)) = E_FILE_REGULAR then E_SECURE_FILE else status_if_secure w)"
  by (induction tr arbitrary: w)
    (auto simp: note_examined_def bad_files_def status_of_def getFileStatus_def Let_def)

lemma base_path_security_resolve:
  assumes "comps_ok ds" and "CHR 0x00 \<notin> set rel" and "\<not> (rel \<noteq> [] \<and> hd rel = separator)"
    and "components rel \<noteq> []"
  shows "base_path_security e (path_string ds) rel uid bdsecure act =
    (case resolve e 0 ds (components rel) of Inl err \<Rightarrow> ([], Inl err)
     | Inr (tr, rs) \<Rightarrow> (takeSecurityAction e (bad_files uid tr) uid act,
         Inr (verdict uid bdsecure tr, path_string rs)))"
proof -
  have ok: "comps_ok (components rel)"
    using assms(2) components_wf unfolding comps_ok_def by blast
  have start: "multi_push_unresolved rel (new_prp (path_string ds)) = Inr (prp_of ds (components rel))"
    using assms(3) by (simp add: multi_push new_prp_def prp_of_def)
  have base: "path_string ds \<noteq> [] \<and> hd (path_string ds) = separator \<and>
      (length (path_string ds) = 1 \<or> last (path_string ds) \<noteq> separator)"
    using rev_path_string [OF assms(1) [unfolded comps_ok_def]]
    by (metis hd_rev last_rev length_0_conv rev_is_Nil_conv rev_rev_ident)
  show ?thesis
  proof (cases "resolve e 0 ds (components rel)")
    case (Inr b)
    then obtain tr rs where "resolve e 0 ds (components rel) = Inr (tr, rs)" by (cases b) auto
    then show ?thesis
      using base assms(3,4) ok assms(1)
      by (auto simp: base_path_security_def start Let_def path_walk_resolve walk_result_def
          fold_note_fields verdict_def)
  qed (use base assms(3,4) ok assms(1) in \<open>auto simp: base_path_security_def start Let_def
      path_walk_resolve walk_result_def\<close>)
qed

lemma base_path_security_empty:
  assumes "comps_ok ds" and "\<not> (rel \<noteq> [] \<and> hd rel = separator)" and "components rel = []"
  shows "base_path_security e (path_string ds) rel uid bdsecure act =
    (case getFileInformation e (path_string ds) of Inl err \<Rightarrow> ([], Inl err)
     | Inr st \<Rightarrow> ([], Inr (if bdsecure \<and> file_ok st uid True = E_FILE_OK then E_SECURE_DIR
         else E_INSECURE, path_string ds)))"
proof -
  have start: "multi_push_unresolved rel (new_prp (path_string ds)) = Inr (prp_of ds [])"
    using assms(2,3) by (simp add: multi_push new_prp_def prp_of_def)
  have base: "path_string ds \<noteq> [] \<and> hd (path_string ds) = separator \<and>
      (length (path_string ds) = 1 \<or> last (path_string ds) \<noteq> separator)"
    using rev_path_string [OF assms(1) [unfolded comps_ok_def]]
    by (metis hd_rev last_rev length_0_conv rev_is_Nil_conv rev_rev_ident)
  show ?thesis
    using base assms(2,3)
    by (cases "getFileInformation e (path_string ds)")
      (auto simp: base_path_security_def start Let_def lstat_resolved_def path_walk.simps
        getFileStatus_def takeSecurityAction_def split: ESecurityLoggingAction.splits)
qed

definition security_spec ::
  "env \<Rightarrow> string \<Rightarrow> u32 \<Rightarrow> ESecurityLoggingAction \<Rightarrow> (ESecurity \<times> string) logged" where
  "security_spec e path uid act =
     (case getFileInformation e (path_string []) of Inl err \<Rightarrow> ([], Inl err)
      | Inr st \<Rightarrow>
        (let cs = components path; root = file_ok st uid (cs = []);
             log = takeSecurityAction e (if root = E_FILE_OK then [] else [(path, root)]) uid act in
         if cs = [] then (log, Inr (if root = E_FILE_OK then E_SECURE_DIR else E_INSECURE, path_string []))
         else case resolve e 0 [] cs of Inl err \<Rightarrow> (log, Inl err)
           | Inr (tr, rs) \<Rightarrow> (log @ takeSecurityAction e (bad_files uid tr) uid act,
               Inr (verdict uid (root = E_FILE_OK) tr, path_string rs))))"

lemma components_Nil_strip: "components p = [] \<longleftrightarrow> strip_leading_slashes p = []"
proof (induction p)
  case (Cons c p)
  then show ?case by (auto simp: strip_leading_slashes_def split: list.splits)
qed (simp add: strip_leading_slashes_def)

lemma takeSecurityAction_Nil [simp]: "takeSecurityAction e [] uid act = []"
  by (simp add: takeSecurityAction_def split: ESecurityLoggingAction.splits)

lemma c_str_absolute: "isPathAbsolute p \<Longrightarrow> isPathAbsolute (c_str p)"
  by (cases p) (auto simp: isPathAbsolute_def c_str_def)

lemma security_absolute:
  assumes "isPathAbsolute path"
  shows "security e path uid act = security_spec e (c_str path) uid act"
proof -
  define p where "p = strip_leading_slashes (c_str path)"
  have root: "path_string [] = [separator]" by (simp add: path_string_def)
  have p: "components p = components (c_str path)" "CHR 0x00 \<notin> set p"
    "\<not> (p \<noteq> [] \<and> hd p = separator)" "p = [] \<longleftrightarrow> components (c_str path) = []"
    using components_strip nul_strip [OF nul_c_str] strip_no_separator components_Nil_strip
    by (auto simp: p_def)
  note run = base_path_security_resolve [OF comps_ok_simps(1) p(2,3), unfolded root p(1)]
    base_path_security_empty [OF comps_ok_simps(1), of "[]", unfolded root, simplified]
  show ?thesis
    using assms c_str_absolute [OF assms] p(4)
    by (cases "p = []")
      (auto simp: security_def path_security_def security_spec_def Let_def run getFileStatus_def root
        split: sum.splits simp flip: p_def)
qed

section \<open>Canonical paths\<close>

text \<open>
  Every directory on the way is a directory that is not a symbolic link; only the last
  component may be a regular file.
\<close>

definition names_ok :: "string list \<Rightarrow> bool" where
  "names_ok cs \<longleftrightarrow> (\<forall>c \<in> set cs. is_component c \<and> c \<noteq> ''.'' \<and> c \<noteq> ''..'')"

definition has_type :: "env \<Rightarrow> EFileType \<Rightarrow> string list \<Rightarrow> bool" where
  "has_type e t cs \<longleftrightarrow> (\<exists>st. getFileInformation e (path_string cs) = Inr st \<and> type_of st = t)"

definition canonical :: "env \<Rightarrow> string list \<Rightarrow> bool" where
  "canonical e cs \<longleftrightarrow> names_ok cs \<and> (\<forall>q. q \<noteq> [] \<and> prefix q cs \<longrightarrow>
     has_type e E_FILE_DIRECTORY q \<or> (q = cs \<and> has_type e E_FILE_REGULAR q))"

definition directories :: "env \<Rightarrow> string list \<Rightarrow> bool" where
  "directories e cs \<longleftrightarrow> names_ok cs \<and> (\<forall>q. q \<noteq> [] \<and> prefix q cs \<longrightarrow> has_type e E_FILE_DIRECTORY q)"

lemma names_ok_simps [simp]:
  "names_ok []"
  "names_ok (c # cs) \<longleftrightarrow> is_component c \<and> c \<noteq> ''.'' \<and> c \<noteq> ''..'' \<and> names_ok cs"
  "names_ok (cs @ ds) \<longleftrightarrow> names_ok cs \<and> names_ok ds"
  by (auto simp: names_ok_def)

lemma directories_Nil [simp]: "directories e []"
  by (simp add: directories_def)

lemma all_prefixes_snoc:
  "(\<forall>q. q \<noteq> [] \<and> prefix q (cs @ [c]) \<longrightarrow> P q) \<longleftrightarrow>
     (\<forall>q. q \<noteq> [] \<and> prefix q cs \<longrightarrow> P q) \<and> P (cs @ [c])"
  by (auto simp: prefix_snoc)

lemma not_prefix_of_start: "prefix q cs \<Longrightarrow> q \<noteq> cs @ [c]"
  by (auto dest: prefix_length_le)

lemma directories_snoc:
  "directories e (cs @ [c]) \<longleftrightarrow> directories e cs \<and> names_ok [c] \<and> has_type e E_FILE_DIRECTORY (cs @ [c])"
  unfolding directories_def all_prefixes_snoc by auto

lemma canonical_snoc:
  "canonical e (cs @ [c]) \<longleftrightarrow> directories e cs \<and> names_ok [c] \<and>
     (has_type e E_FILE_DIRECTORY (cs @ [c]) \<or> has_type e E_FILE_REGULAR (cs @ [c]))"
  unfolding canonical_def directories_def all_prefixes_snoc
  using not_prefix_of_start by fastforce

lemma directories_canonical: "directories e cs \<Longrightarrow> canonical e cs"
  by (auto simp: directories_def canonical_def)

lemma directories_butlast: "directories e cs \<Longrightarrow> directories e (butlast cs)"
  by (cases cs rule: rev_cases) (auto simp: directories_snoc)

lemma canonical_ok: "canonical e cs \<Longrightarrow> comps_ok cs"
  by (auto simp: canonical_def names_ok_def comps_ok_def)

lemma add_examined_Inr:
  "add_examined x r = Inr (tr, rs) \<longleftrightarrow> (\<exists>tr'. tr = x # tr' \<and> r = Inr (tr', rs))"
  by (cases r) (auto simp: add_examined_def)

lemma resolve_ConsE:
  assumes "resolve e n rs (c # cs) = Inr (tr, ds)"
  obtains (cur) "c = ''.''" "resolve e n rs cs = Inr (tr, ds)"
  | (parent) "c \<noteq> ''.''" "c = ''..''" "resolve e n (butlast rs) cs = Inr (tr, ds)"
  | (dir) st tr' where "c \<noteq> ''.''" "c \<noteq> ''..''" "getFileInformation e (path_string (rs @ [c])) = Inr st"
      "type_of st = E_FILE_DIRECTORY" "resolve e n (rs @ [c]) cs = Inr (tr', ds)"
      "tr = (path_string (rs @ [c]), st, cs = []) # tr'"
  | (reg) st where "c \<noteq> ''.''" "c \<noteq> ''..''" "getFileInformation e (path_string (rs @ [c])) = Inr st"
      "type_of st = E_FILE_REGULAR" "cs = []" "ds = rs @ [c]"
      "tr = [(path_string (rs @ [c]), st, True)]"
  | (link) st t tr' where "c \<noteq> ''.''" "c \<noteq> ''..''" "getFileInformation e (path_string (rs @ [c])) = Inr st"
      "type_of st = E_FILE_SYMLINK" "\<not> n \<ge> MAX_SYMBOLIC_LINKS"
      "readSymbolicLink e (path_string (rs @ [c])) = Inr t"
      "resolve e (Suc n) (if isPathAbsolute (c_str t) then [] else rs) (components (c_str t) @ cs)
         = Inr (tr', ds)"
      "tr = (path_string (rs @ [c]), st, cs = []) # tr'"
  using assms that
  by (auto simp: resolve.simps add_examined_Inr Let_def
      split: if_splits sum.splits EFileType.splits)

text \<open>Everything the reference returns is canonical, and the parents of what it examined are.\<close>

lemma resolve_canonical:
  "resolve e n rs cs = Inr (tr, ds) \<Longrightarrow> directories e rs \<Longrightarrow> comps_ok cs \<Longrightarrow> canonical e ds"
proof (induction e n rs cs arbitrary: tr rule: resolve.induct)
  case (2 e n rs c cs)
  from 2(5) show ?case
  proof (cases rule: resolve_ConsE)
    case (dir st)
    with 2(6,7) have "directories e (rs @ [c])" by (auto simp: directories_snoc has_type_def)
    with dir 2 show ?thesis by auto
  next
    case (reg st)
    with 2(6,7) show ?thesis by (auto simp: canonical_snoc has_type_def)
  next
    case (link st t)
    with 2(4) [OF link(1,2) refl link(3-6) link(7)] 2(6,7) show ?thesis
      by (auto simp: comps_ok_components)
  qed (use 2 in \<open>auto simp: directories_butlast\<close>)
qed (simp add: directories_canonical)

text \<open>A canonical path resolves to itself.\<close>

lemma resolve_directories:
  assumes "directories e (rs @ ds)" and "cs \<noteq> []"
  obtains xs where "\<And>n. resolve e n rs (ds @ cs) = foldr add_examined xs (resolve e n (rs @ ds) cs)"
    and "\<forall>x \<in> set xs. type_of (fst (snd x)) = E_FILE_DIRECTORY"
proof -
  have "\<exists>xs. (\<forall>x \<in> set xs. type_of (fst (snd x)) = E_FILE_DIRECTORY) \<and> (\<forall>n. resolve e n rs (ds @ cs) = foldr add_examined xs (resolve e n (rs @ ds) cs))"
    using assms(1)
  proof (induction ds arbitrary: rs)
    case Nil
    show ?case by (rule exI [of _ "[]"]) simp
  next
    case (Cons d ds)
    then have "directories e ((rs @ [d]) @ ds)" by simp
    then obtain xs where xs: "\<And>n. resolve e n (rs @ [d]) (ds @ cs) =
        foldr add_examined xs (resolve e n (rs @ d # ds) cs)"
      and dirs: "\<forall>x \<in> set xs. type_of (fst (snd x)) = E_FILE_DIRECTORY"
      using Cons.IH by fastforce
    have "has_type e E_FILE_DIRECTORY (rs @ [d])" "names_ok [d]"
      using Cons.prems by (auto simp: directories_def prefix_def)
    then obtain st where "getFileInformation e (path_string (rs @ [d])) = Inr st"
      "type_of st = E_FILE_DIRECTORY" "d \<noteq> ''.''" "d \<noteq> ''..''"
      by (auto simp: has_type_def)
    then show ?case
      using assms(2) by (intro exI [of _ "(path_string (rs @ [d]), st, False) # xs"])
        (simp add: resolve.simps xs dirs)
  qed
  with that show thesis by blast
qed

lemma resolve_last:
  assumes "canonical e (rs @ [c])"
  obtains st where "resolve e n rs [c] = Inr ([(path_string (rs @ [c]), st, True)], rs @ [c])"
    and "getFileInformation e (path_string (rs @ [c])) = Inr st"
    and "type_of st = E_FILE_DIRECTORY \<or> type_of st = E_FILE_REGULAR"
proof -
  obtain st where st: "getFileInformation e (path_string (rs @ [c])) = Inr st"
    and type: "type_of st = E_FILE_DIRECTORY \<or> type_of st = E_FILE_REGULAR"
    using assms unfolding canonical_snoc has_type_def by blast
  have "c \<noteq> ''.''" "c \<noteq> ''..''"
    using assms unfolding canonical_snoc by simp_all
  with st type have "resolve e n rs [c] = Inr ([(path_string (rs @ [c]), st, True)], rs @ [c])"
    by (cases "type_of st") (simp_all add: resolve.simps(2) add_examined_def)
  with that st type show thesis by blast
qed

lemma foldr_add_examined: "foldr add_examined xs (Inr (tr, rs)) = Inr (xs @ tr, rs)"
  by (induction xs) (simp_all add: add_examined_def)

lemma resolve_self:
  assumes "canonical e cs"
  obtains tr where "resolve e n [] cs = Inr (tr, cs)"
proof (cases cs rule: rev_cases)
  case (snoc q c)
  with assms obtain st where "resolve e n q [c] = Inr ([(path_string (q @ [c]), st, True)], q @ [c])"
    using resolve_last by metis
  moreover have "directories e ([] @ q)"
    using assms by (simp add: snoc canonical_snoc)
  then obtain xs where "\<And>n. resolve e n [] (q @ [c]) = foldr add_examined xs (resolve e n ([] @ q) [c])"
    by (rule resolve_directories) (use that in auto)
  ultimately show thesis
    using that snoc by (simp add: foldr_add_examined)
qed (use that in simp)

lemma realPath_absolute:
  assumes "isPathAbsolute p"
  shows "realPath e p = rbind (getFileInformation e (path_string [])) (\<lambda>_.
    rbind (resolve e 0 [] (components (c_str p))) (\<lambda>(tr, rs). Inr (path_string rs)))"
  using assms
  by (auto simp: realPath_def security_absolute security_spec_def Let_def split: sum.splits)

lemma realPath_resolved:
  assumes "isPathAbsolute p" and "realPath e p = Inr r"
  obtains st tr rs where "getFileInformation e (path_string []) = Inr st"
    and "resolve e 0 [] (components (c_str p)) = Inr (tr, rs)" and "r = path_string rs"
    and "canonical e rs"
proof -
  obtain st tr rs where "getFileInformation e (path_string []) = Inr st"
    and res: "resolve e 0 [] (components (c_str p)) = Inr (tr, rs)" and "r = path_string rs"
    using assms(2) unfolding realPath_absolute [OF assms(1)] rbind_eq_Inr_iff by auto
  with that resolve_canonical [OF res] show thesis
    by (simp add: comps_ok_components)
qed

lemma canonical_realPath:
  assumes "canonical e rs" and "getFileInformation e (path_string []) = Inr st"
  shows "realPath e (path_string rs) = Inr (path_string rs)"
proof -
  have "components (c_str (path_string rs)) = rs"
    using canonical_ok [OF assms(1)]
    by (simp add: comps_ok_def c_str_id nul_path_string components_path_string)
  moreover obtain tr where "resolve e 0 [] rs = Inr (tr, rs)"
    using resolve_self [OF assms(1)] .
  ultimately show ?thesis
    using assms(2) by (simp add: realPath_absolute)
qed

lemma relative_c_str: "\<not> isPathAbsolute p \<Longrightarrow> \<not> (c_str p \<noteq> [] \<and> hd (c_str p) = separator)"
  by (cases p) (auto simp: c_str_def isPathAbsolute_def)

lemma realPath_relative:
  assumes "\<not> isPathAbsolute p" and "getCurrentWorkingDirectory e = Inr (path_string ds)"
    and "directories e ds" and "realPath e p = Inr r"
  obtains rs where "r = path_string rs" and "canonical e rs"
proof -
  have ok: "comps_ok ds" using assms(3) by (auto simp: directories_def names_ok_def comps_ok_def)
  have "c_str (path_string ds) = path_string ds"
    using ok by (simp add: comps_ok_def c_str_id nul_path_string)
  with assms(1,2,4) obtain v where b:
    "snd (base_path_security e (path_string ds) (c_str p) 0 True E_SECURITY_DO_NOTHING) = Inr (v, r)"
    by (auto simp: realPath_def base_security_def rbind_eq_Inr_iff)
  show thesis
  proof (cases "components (c_str p) = []")
    case True
    have "r = path_string ds"
      using b base_path_security_empty [OF ok relative_c_str [OF assms(1)] True]
      by (auto split: sum.splits)
    then show thesis using that directories_canonical [OF assms(3)] by blast
  next
    case False
    then obtain tr rs where res: "resolve e 0 ds (components (c_str p)) = Inr (tr, rs)" and r: "r = path_string rs"
      using b base_path_security_resolve [OF ok nul_c_str relative_c_str [OF assms(1)]]
      by (auto split: sum.splits)
    have "canonical e rs"
      by (rule resolve_canonical [OF res assms(3)]) (simp add: comps_ok_components)
    with r that show thesis by blast
  qed
qed

section \<open>What a verdict means\<close>

text \<open>A file system for the witnesses: a list of files and a list of symbolic links.\<close>

definition node :: "EFileType \<Rightarrow> u32 \<Rightarrow> u32 \<Rightarrow> FileInformation" where
  "node t uid perms = \<lparr>owner = uid, group = 0, file_size = 0, type_of = t, permissions = perms\<rparr>"

definition demo_env :: env where
  "demo_env = \<lparr>getFileInformation = (\<lambda>p. case map_of
       [(''/'', node E_FILE_DIRECTORY 0 0x1ED), (''/srv'', node E_FILE_DIRECTORY 1000 0x1FF),
        (''/srv/f'', node E_FILE_REGULAR 0 0x1A4), (''/tmp'', node E_FILE_DIRECTORY 0 0x3FF),
        (''/etc'', node E_FILE_DIRECTORY 0 0x1ED), (''/etc/f'', node E_FILE_REGULAR 0 0x1A4),
        (''/l'', node E_FILE_SYMLINK 0 0x1FF), (''/loop'', node E_FILE_SYMLINK 0 0x1FF)] p of
        Some st \<Rightarrow> Inr st | None \<Rightarrow> Inl (Errno 2)),
     readSymbolicLink = (\<lambda>p. case map_of [(''/l'', ''etc//./f''), (''/loop'', ''loop'')] p of
        Some t \<Rightarrow> Inr t | None \<Rightarrow> Inl (Errno 22)),
     getCurrentWorkingDirectory = Inr ''/etc'', getUserName = (\<lambda>_. None)\<rparr>"

lemmas run_path = resolve.simps add_examined_def path_string_def separator_def
  verdict_def bad_files_def status_of_def file_ok_def check_grp_oth_def group_ok_def
  E_FILE_OTHER_WRITE_def E_FILE_GROUP_WRITE_def E_FILE_STICKY_def c_str_def isPathAbsolute_def
  MAX_SYMBOLIC_LINKS_def

definition passes :: "env \<Rightarrow> u32 \<Rightarrow> string list \<Rightarrow> bool" where
  "passes e uid q \<longleftrightarrow> (\<exists>st. getFileInformation e (path_string q) = Inr st \<and> file_ok st uid False = E_FILE_OK)"

lemma file_ok_weaken: "file_ok st uid full = E_FILE_OK \<Longrightarrow> file_ok st uid False = E_FILE_OK"
  by (auto simp: file_ok_def split: if_splits)

lemma bad_files_Cons:
  "bad_files uid (x # tr) = [] \<longleftrightarrow> status_of uid x = E_FILE_OK \<and> bad_files uid tr = []"
  by (simp add: bad_files_def)

lemma no_messages: "getFileStatusMessages e rs uid = [] \<longleftrightarrow> (\<forall>r \<in> set rs. snd r = E_FILE_OK)"
  by (induction rs) (auto split: EFileStatusReturn.splits)

lemma no_bad_files: "(\<forall>r \<in> set (bad_files uid tr). snd r = E_FILE_OK) \<longleftrightarrow> bad_files uid tr = []"
  by (auto simp: bad_files_def filter_empty_conv concat_eq_Nil_conv split: if_splits)

definition all_pass :: "env \<Rightarrow> u32 \<Rightarrow> string list \<Rightarrow> bool" where
  "all_pass e uid rs \<longleftrightarrow> (\<forall>q. q \<noteq> [] \<and> prefix q rs \<longrightarrow> passes e uid q)"

lemma all_pass_simps [simp]:
  "all_pass e uid []"
  "all_pass e uid (rs @ [c]) \<longleftrightarrow> all_pass e uid rs \<and> passes e uid (rs @ [c])"
  unfolding all_pass_def all_prefixes_snoc by simp_all

lemma all_pass_butlast: "all_pass e uid rs \<Longrightarrow> all_pass e uid (butlast rs)"
  by (cases rs rule: rev_cases) auto

lemma resolve_passes:
  "resolve e n rs cs = Inr (tr, ds) \<Longrightarrow> bad_files uid tr = [] \<Longrightarrow> all_pass e uid rs \<Longrightarrow> all_pass e uid ds"
proof (induction e n rs cs arbitrary: tr rule: resolve.induct)
  case (2 e n rs c cs)
  have pass: "passes e uid (rs @ [c])" if "getFileInformation e (path_string (rs @ [c])) = Inr st"
    "status_of uid (path_string (rs @ [c]), st, full) = E_FILE_OK" for st full
    using that file_ok_weaken by (auto simp: passes_def status_of_def)
  from 2(5) show ?case
  proof (cases rule: resolve_ConsE)
    case cur
    then show ?thesis using 2(1) [OF cur 2(6,7)] by simp
  next
    case parent
    then show ?thesis using 2(2) [OF parent 2(6)] 2(7) all_pass_butlast by blast
  next
    case (dir st tr')
    then have ok: "passes e uid (rs @ [c])" "bad_files uid tr' = []"
      using 2(6) pass [OF dir(3)] by (auto simp: bad_files_Cons)
    with 2(3) [OF dir(1,2) refl dir(3-5)] 2(7) show ?thesis by simp
  next
    case (reg st)
    then show ?thesis
      using 2(6,7) pass [OF reg(3)] by (auto simp: bad_files_Cons)
  next
    case (link st t tr')
    then have "bad_files uid tr' = []" using 2(6) by (auto simp: bad_files_Cons)
    moreover have "all_pass e uid (if isPathAbsolute (c_str t) then [] else rs)"
      using 2(7) by simp
    ultimately show ?thesis
      by (rule 2(4) [OF link(1,2) refl link(3-7)])
  qed
qed simp

lemma security_absolute_path:
  "security e (separator # p) uid act = security_spec e (c_str (separator # p)) uid act"
  by (rule security_absolute) (simp add: isPathAbsolute_def)

section \<open>Properties\<close>

text \<open>
  C2. The character-level check of an absolute path is the resolution of its components, one
  file at a time: same canonical path, same exceptions, same messages, and a verdict that is
  a function of the list of the files examined.\<close>

theorem security_refines_resolution:
  "security e (separator # p) uid act = security_spec e (c_str (separator # p)) uid act"
  by (rule security_absolute_path)

text \<open>
  C4. \<open>realPath\<close> of an absolute path, or of a relative one when the working directory is a
  canonical path of directories below a root that can be examined, is canonical: no empty,
  current or parent component, every directory on the way a directory and no symbolic link;
  and it is its own real path.\<close>

theorem realPath_canonical:
  assumes "realPath e p = Inr r"
    and "isPathAbsolute p \<or>
      (getCurrentWorkingDirectory e = Inr (path_string ds) \<and> directories e ds \<and>
       getFileInformation e (path_string []) = Inr root)"
  shows "\<exists>cs. r = path_string cs \<and> canonical e cs \<and> realPath e r = Inr r"
proof (cases "isPathAbsolute p")
  case True
  then show ?thesis
    using assms(1) by (rule realPath_resolved) (auto intro: canonical_realPath)
next
  case False
  with assms(2) have wd: "getCurrentWorkingDirectory e = Inr (path_string ds)" "directories e ds"
    and root: "getFileInformation e (path_string []) = Inr root" by auto
  from False wd assms(1) show ?thesis
    by (rule realPath_relative) (auto intro: canonical_realPath [OF _ root])
qed

theorem realPath_canonical_witness:
  "\<exists>cs. ''/etc/f'' = path_string cs \<and> canonical demo_env cs \<and>
     realPath demo_env ''/etc/f'' = Inr ''/etc/f''"
proof (rule realPath_canonical)
  have "\<not> (''../l'' \<noteq> [] \<and> hd ''../l'' = separator)" by simp
  then have "base_path_security demo_env (path_string [''etc'']) ''../l'' 0 True E_SECURITY_DO_NOTHING =
      (case resolve demo_env 0 [''etc''] (components ''../l'') of Inl err \<Rightarrow> ([], Inl err)
       | Inr (tr, rs) \<Rightarrow> (takeSecurityAction demo_env (bad_files 0 tr) 0 E_SECURITY_DO_NOTHING,
           Inr (verdict 0 True tr, path_string rs)))"
    by (intro base_path_security_resolve) (simp_all add: is_component_def separator_def)
  then show "realPath demo_env ''../l'' = Inr ''/etc/f''"
    by (simp add: realPath_def base_security_def demo_env_def node_def run_path)
  show "isPathAbsolute ''../l'' \<or>
      (getCurrentWorkingDirectory demo_env = Inr (path_string [''etc'']) \<and> directories demo_env [''etc''] \<and>
       getFileInformation demo_env (path_string []) = Inr (node E_FILE_DIRECTORY 0 0x1ED))"
    using directories_snoc [of demo_env "[]" "''etc''"]
    by (simp add: has_type_def demo_env_def node_def path_string_def separator_def is_component_def)
qed

text \<open>
  C3. When nothing is reported and the verdict is secure, the root and every directory and
  file of the canonical path have passed the check of owner and permissions.\<close>

theorem silent_verdict_is_sound:
  assumes "security e (separator # p) uid E_SECURITY_LOG_INSECURE = ([], Inr (sec, r))"
    and "sec \<noteq> E_INSECURE"
  shows "\<exists>cs. r = path_string cs \<and> (\<forall>q. prefix q cs \<longrightarrow> passes e uid q)"
proof -
  let ?cs = "components (c_str (separator # p))"
  have spec: "security_spec e (c_str (separator # p)) uid E_SECURITY_LOG_INSECURE = ([], Inr (sec, r))"
    using assms(1) by (simp add: security_absolute_path)
  then obtain st where st: "getFileInformation e (path_string []) = Inr st"
    by (auto simp: security_spec_def split: sum.splits)
  show ?thesis
  proof (cases "?cs = []")
    case True
    with spec st assms(2) show ?thesis
      by (auto simp: security_spec_def Let_def passes_def intro!: exI [of _ "[]"] intro: file_ok_weaken
          split: if_splits)
  next
    case False
    with spec st obtain tr rs where res: "resolve e 0 [] ?cs = Inr (tr, rs)"
      by (auto simp: security_spec_def Let_def split: sum.splits)
    have root: "file_ok st uid False = E_FILE_OK" and bad: "bad_files uid tr = []"
      and r: "r = path_string rs"
      using spec st res False assms(2)
      by (simp_all add: security_spec_def Let_def takeSecurityAction_def no_messages no_bad_files
          verdict_def split: if_splits)
    have "all_pass e uid rs" using res bad by (rule resolve_passes) simp
    moreover have "passes e uid []" using st root by (auto simp: passes_def)
    ultimately have "passes e uid q" if "prefix q rs" for q
      using that by (cases "q = []") (auto simp: all_pass_def)
    with r show ?thesis by blast
  qed
qed

theorem silent_verdict_is_sound_witness:
  "\<exists>cs. ''/etc/f'' = path_string cs \<and> (\<forall>q. prefix q cs \<longrightarrow> passes demo_env 0 q)"
proof (rule silent_verdict_is_sound)
  show "security demo_env (separator # ''l'') 0 E_SECURITY_LOG_INSECURE = ([], Inr (E_SECURE_FILE, ''/etc/f''))"
    unfolding security_absolute_path
    by (simp add: security_spec_def run_path demo_env_def node_def takeSecurityAction_def)
qed simp

text \<open>
  The verdict ignores the directories between the root and the last component: a file
  that passes is reported secure in a directory of any owner and any permissions.\<close>

theorem insecure_directory_accepted:
  assumes "getFileInformation e ''/'' = Inr root" and "file_ok root uid False = E_FILE_OK"
    and "getFileInformation e ''/srv'' = Inr dir" and "type_of dir = E_FILE_DIRECTORY"
    and "getFileInformation e ''/srv/f'' = Inr file" and "type_of file = E_FILE_REGULAR"
    and "file_ok file uid True = E_FILE_OK"
  shows "security e ''/srv/f'' uid E_SECURITY_DO_NOTHING = ([], Inr (E_SECURE_FILE, ''/srv/f''))"
proof -
  have "security e (separator # ''srv/f'') uid E_SECURITY_DO_NOTHING = ([], Inr (E_SECURE_FILE, ''/srv/f''))"
    unfolding security_absolute_path
    using assms by (simp add: security_spec_def resolve.simps add_examined_def path_string_def
        separator_def verdict_def status_of_def c_str_def takeSecurityAction_def)
  then show ?thesis by (simp add: separator_def)
qed

theorem insecure_directory_accepted_witness:
  "security demo_env ''/srv/f'' 0 E_SECURITY_DO_NOTHING = ([], Inr (E_SECURE_FILE, ''/srv/f'')) \<and>
   file_ok (node E_FILE_DIRECTORY 1000 0x1FF) 0 False = E_FILE_BAD_OWNER"
  using insecure_directory_accepted [of demo_env "node E_FILE_DIRECTORY 0 0x1ED" 0
      "node E_FILE_DIRECTORY 1000 0x1FF" "node E_FILE_REGULAR 0 0x1A4"]
  by (simp add: demo_env_def run_path node_def)

text \<open>
  A world-writable directory with the sticky bit is insecure, but the same directory with
  \<open>/.\<close> appended is reported secure: the component was checked as one on the way.\<close>

theorem dot_hides_sticky_directory:
  assumes "getFileInformation e ''/'' = Inr root" and "file_ok root uid False = E_FILE_OK"
    and "getFileInformation e ''/tmp'' = Inr dir" and "type_of dir = E_FILE_DIRECTORY"
    and "owner dir = 0" and "permissions dir = 0x3FF"
  shows "snd (security e ''/tmp'' uid act) = Inr (E_INSECURE, ''/tmp'') \<and>
    snd (security e ''/tmp/.'' uid act) = Inr (E_SECURE_DIR, ''/tmp'')"
proof -
  have "snd (security e (separator # ''tmp'') uid act) = Inr (E_INSECURE, ''/tmp'')"
    "snd (security e (separator # ''tmp/.'') uid act) = Inr (E_SECURE_DIR, ''/tmp'')"
    unfolding security_absolute_path
    using assms by (simp_all add: security_spec_def resolve.simps add_examined_def path_string_def
        separator_def verdict_def status_of_def c_str_def file_ok_def [of dir] check_grp_oth_def
        E_FILE_OTHER_WRITE_def E_FILE_GROUP_WRITE_def E_FILE_STICKY_def)
  then show ?thesis by (simp add: separator_def)
qed

theorem dot_hides_sticky_directory_witness:
  "snd (security demo_env ''/tmp'' 7 E_SECURITY_DO_NOTHING) = Inr (E_INSECURE, ''/tmp'') \<and>
   snd (security demo_env ''/tmp/.'' 7 E_SECURITY_DO_NOTHING) = Inr (E_SECURE_DIR, ''/tmp'')"
  by (rule dot_hides_sticky_directory [of demo_env "node E_FILE_DIRECTORY 0 0x1ED" 7
        "node E_FILE_DIRECTORY 0 0x3FF"]) (simp_all add: demo_env_def run_path node_def)

text \<open>
  A symbolic link that names itself is given up after 100 links, with ELOOP.\<close>

lemma self_link_resolve:
  assumes "getFileInformation e (path_string (rs @ [c])) = Inr st" and "type_of st = E_FILE_SYMLINK"
    and "readSymbolicLink e (path_string (rs @ [c])) = Inr c" and "names_ok [c]"
  shows "resolve e n rs [c] = Inl (ErrnoMsg (path_string (rs @ [c])) ELOOP)"
proof (induction "MAX_SYMBOLIC_LINKS - n" arbitrary: n)
  case 0
  with assms show ?case by (simp add: resolve.simps)
next
  case (Suc k)
  have c: "c_str c = c" "components c = [c]" "\<not> isPathAbsolute c"
    using assms(4) by (auto simp: c_str_id components_single is_component_def isPathAbsolute_def)
      (metis hd_in_set)
  have "resolve e (Suc n) rs [c] = Inl (ErrnoMsg (path_string (rs @ [c])) ELOOP)"
    using Suc by simp
  with assms c Suc(2) show ?case
    by (simp add: resolve.simps(2) [of e n] add_examined_def Let_def)
qed

theorem self_link_is_ELOOP:
  assumes "getFileInformation e (separator # c) = Inr st" and "type_of st = E_FILE_SYMLINK"
    and "readSymbolicLink e (separator # c) = Inr c" and "names_ok [c]"
    and "getFileInformation e [separator] = Inr root"
  shows "realPath e (separator # c) = Inl (ErrnoMsg (separator # c) ELOOP)"
proof -
  have "c_str (separator # c) = separator # c" "components c = [c]"
    using assms(4) by (auto simp: c_str_id components_single is_component_def)
  moreover have "path_string [] = [separator]" "path_string ([] @ [c]) = separator # c"
    by (simp_all add: path_string_def)
  ultimately show ?thesis
    using assms self_link_resolve [of e "[]" c st 0]
    by (simp add: realPath_absolute isPathAbsolute_def)
qed

theorem self_link_is_ELOOP_witness:
  "realPath demo_env (separator # ''loop'') = Inl (ErrnoMsg (separator # ''loop'') ELOOP)"
  by (rule self_link_is_ELOOP [of demo_env _ "node E_FILE_SYMLINK 0 0x1FF" "node E_FILE_DIRECTORY 0 0x1ED"])
    (simp_all add: demo_env_def node_def separator_def is_component_def)

lemma resolve_examines:
  "resolve e n rs cs = Inr (tr, ds) \<Longrightarrow> \<exists>c \<in> set cs. c \<noteq> ''.'' \<and> c \<noteq> ''..'' \<Longrightarrow> tr \<noteq> []"
proof (induction e n rs cs rule: resolve.induct)
  case (2 e n rs c cs)
  from 2(5) show ?case
    by (cases rule: resolve_ConsE) (use 2 in auto)
qed simp

lemma verdict_append:
  assumes "tr \<noteq> []" and "\<forall>x \<in> set xs. type_of (fst (snd x)) = E_FILE_DIRECTORY"
  shows "verdict uid b (xs @ tr) = verdict uid b tr"
  using assms by (auto simp: verdict_def)

lemma c_str_append: "CHR 0x00 \<notin> set p \<Longrightarrow> c_str (p @ q) = p @ c_str q"
  unfolding c_str_def by (subst takeWhile_append2) auto

text \<open>
  The variant with a base directory gives the verdict and the path of the check of the
  whole path, when the base directory is canonical, the root passes and the relative path
  names at least one file.\<close>

theorem base_security_agrees:
  assumes "directories e ds" and "\<not> isPathAbsolute rel"
    and "\<exists>c \<in> set (components (c_str rel)). c \<noteq> ''.'' \<and> c \<noteq> ''..''"
    and "getFileInformation e (path_string []) = Inr root" and "file_ok root uid False = E_FILE_OK"
  shows "snd (base_security e (path_string ds) rel uid act) =
    snd (security e (path_string ds @ separator # rel) uid act')"
proof -
  let ?cs = "components (c_str rel)"
  have names: "\<forall>c \<in> set ds. is_component c" and ok: "comps_ok ds"
    using assms(1) by (auto simp: directories_def names_ok_def comps_ok_def)
  have rel: "\<not> (c_str rel \<noteq> [] \<and> hd (c_str rel) = separator)"
    using assms(2) by (cases rel) (auto simp: c_str_def isPathAbsolute_def)
  have cs: "?cs \<noteq> []" using assms(3) by auto
  have "directories e ([] @ ds)" using assms(1) by simp
  then obtain xs where walk: "resolve e 0 [] (ds @ ?cs) = foldr add_examined xs (resolve e 0 ds ?cs)"
    and dirs: "\<forall>x \<in> set xs. type_of (fst (snd x)) = E_FILE_DIRECTORY"
    using cs by (rule resolve_directories) (use that in auto)
  have whole: "components (c_str (path_string ds @ separator # rel)) = ds @ ?cs"
    using names by (simp add: c_str_append nul_path_string components_append_sep components_path_string)
      (simp add: c_str_def components_append_sep [of _ "takeWhile (\<lambda>c. c \<noteq> CHR 0x00) rel"]
        components_path_string)
  have abs: "isPathAbsolute (path_string ds @ separator # rel)"
    using path_string_absolute [of ds] by (auto simp: isPathAbsolute_def)
  have err: "foldr add_examined xs (Inl err) = Inl err" for err
    by (induction xs) (simp_all add: add_examined_def)
  have base: "snd (base_security e (path_string ds) rel uid act) =
      (case resolve e 0 ds ?cs of Inl err \<Rightarrow> Inl err
       | Inr (tr, rs) \<Rightarrow> Inr (verdict uid True tr, path_string rs))"
    using base_path_security_resolve [OF ok nul_c_str rel cs] names
    by (auto simp: base_security_def c_str_id nul_path_string split: sum.splits prod.splits)
  show ?thesis
  proof (cases "resolve e 0 ds ?cs")
    case (Inl err)
    with cs show ?thesis
      by (simp add: base security_absolute [OF abs] security_spec_def assms(4,5) whole walk Let_def err)
  next
    case (Inr b)
    obtain tr rs where b: "b = (tr, rs)" by (cases b)
    with resolve_examines [OF _ assms(3)] Inr have "tr \<noteq> []" by blast
    with Inr b cs show ?thesis
      by (simp add: base security_absolute [OF abs] security_spec_def assms(4,5) whole walk Let_def
          foldr_add_examined verdict_append dirs)
  qed
qed

theorem base_security_agrees_witness:
  "snd (base_security demo_env (path_string [''etc'']) ''./f'' 0 E_SECURITY_DO_NOTHING) =
    snd (security demo_env (path_string [''etc''] @ separator # ''./f'') 0 E_SECURITY_LOG_INSECURE)"
proof (rule base_security_agrees)
  show "directories demo_env [''etc'']"
    using directories_snoc [of demo_env "[]" "''etc''"]
    by (simp add: has_type_def demo_env_def node_def path_string_def separator_def is_component_def)
  show "getFileInformation demo_env (path_string []) = Inr (node E_FILE_DIRECTORY 0 0x1ED)"
    by (simp add: demo_env_def path_string_def separator_def)
qed (simp_all add: run_path node_def)

text \<open>With nothing but the base directory itself named, the variant reports every base
  directory as insecure.\<close>

lemma base_curdir_insecure:
  assumes "comps_ok ds"
  shows "base_security e (path_string ds) ''.'' uid act = ([], Inr (E_INSECURE, path_string ds))"
proof -
  have "base_path_security e (path_string ds) ''.'' uid True act = ([], Inr (E_INSECURE, path_string ds))"
    by (subst base_path_security_resolve [OF assms])
      (simp_all add: separator_def resolve.simps verdict_def bad_files_def)
  then show ?thesis
    using assms by (simp add: base_security_def c_str_id nul_path_string comps_ok_def)
qed

text \<open>
  Reading a symbolic link returns, with the whole text up to its first NUL however long
  it is, when \<open>readlink\<close> writes as much of the text as fits.\<close>

theorem read_link_returns:
  assumes "\<And>n. readlink (c_str path) n = Inr (take n text)"
  shows "posix_readSymbolicLink readlink path = Some (Inr (c_str text))"
proof -
  have "read_link_loop readlink path n = Some (Inr (c_str text))" if "0 < n" for n
    using that
  proof (induction "Suc (length text) - n" arbitrary: n rule: less_induct)
    case less
    show ?case
    proof (cases "n \<le> length text")
      case True
      with less(1) [of "n * 2"] less(2) show ?thesis
        by (simp add: read_link_loop.simps [of _ _ n] assms)
    qed (simp add: read_link_loop.simps [of _ _ n] assms)
  qed
  then show ?thesis by (simp add: posix_readSymbolicLink_def)
qed

theorem read_link_returns_witness:
  "posix_readSymbolicLink (\<lambda>_ n. Inr (take n (replicate 10000 CHR ''a''))) ''/l'' =
     Some (Inr (replicate 10000 CHR ''a''))"
proof -
  have "c_str (replicate n CHR ''a'') = replicate n CHR ''a''" for n
    by (induction n) (simp_all add: c_str_def)
  then show ?thesis
    using read_link_returns [of "\<lambda>_ n. Inr (take n (replicate 10000 CHR ''a''))" "''/l''"
        "replicate 10000 CHR ''a''"] by simp
qed

end
