(* ===== verification/Strings.thy ===== *)
theory Strings
  imports UTF8_Case UTF8_Compare
begin

text \<open>
  The class \<open>String\<close> (\<open>String.cpp\<close>, \<open>String.hpp\<close>): a counted and NUL-terminated
  buffer of bytes. Positions are natural numbers below \<open>2 ^ 64\<close>; where the code adds two
  of them, the sum wraps. A read outside the buffer is \<open>OutOfBounds\<close>. Copy-on-write is not
  visible in the value of a string and is left out; a null buffer and an empty one are
  distinguished as the code does.
\<close>

record ByteBuf =
  m_len :: nat
  m_data :: bytes

type_synonym String = "ByteBuf option"

datatype string_error =
    OutOfBounds        \<comment> \<open>an access outside the buffer: undefined behaviour of the code\<close>
  | BadAlloc           \<comment> \<open>\<open>std::bad_alloc\<close>\<close>
  | CaseError utf8_error
  | StringConversionException bytes bytes

section \<open>C strings\<close>

text \<open>A literal of the source.\<close>

definition lit :: "string \<Rightarrow> bytes" where "lit s = map of_char s"

definition cstr :: "bytes \<Rightarrow> bytes" where
  "cstr p = takeWhile (\<lambda>c. c \<noteq> 0) p"

definition strlen :: "bytes \<Rightarrow> nat" where
  "strlen p = length (cstr p)"

text \<open>The sign of \<open>strcmp\<close>, which compares unsigned bytes.\<close>

fun strcmp :: "bytes \<Rightarrow> bytes \<Rightarrow> int" where
  "strcmp [] [] = 0"
| "strcmp [] (y # ys) = -1"
| "strcmp (x # xs) [] = 1"
| "strcmp (x # xs) (y # ys) = (if x < y then -1 else if y < x then 1 else strcmp xs ys)"

definition npos :: nat where "npos = 2 ^ 64 - 1"

definition size_add :: "nat \<Rightarrow> nat \<Rightarrow> nat" where
  "size_add a b = (a + b) mod 2 ^ 64"

text \<open>\<open>static_cast<int>\<close> of a position.\<close>

definition int_cast :: "nat \<Rightarrow> int" where
  "int_cast n = sint (of_nat n :: 32 word)"

definition isspace :: "u8 \<Rightarrow> bool" where
  "isspace c \<longleftrightarrow> c = 0x20 \<or> (0x09 \<le> c \<and> c \<le> 0x0D)"

section \<open>Construction\<close>

definition ByteBuf_of :: "bytes \<Rightarrow> ByteBuf" where
  "ByteBuf_of s = \<lparr>m_len = strlen s, m_data = cstr s @ [0]\<rparr>"

definition String_of :: "bytes \<Rightarrow> String" where
  "String_of str = Some (ByteBuf_of str)"

text \<open>\<open>String(str, len)\<close> copies \<open>len\<close> bytes; an allocation of more than
  \<open>2 ^ 63\<close> bytes fails.\<close>

definition String_of_len :: "bytes \<Rightarrow> nat \<Rightarrow> string_error + String" where
  "String_of_len str len =
     (if len + 1 > 2 ^ 63 then Inl BadAlloc
      else if len > length str then Inl OutOfBounds
      else Inr (Some \<lparr>m_len = len, m_data = take len str @ [0]\<rparr>))"

definition String_of_char :: "u8 \<Rightarrow> String" where
  "String_of_char c = (if c \<noteq> 0 then Some (ByteBuf_of [c, 0]) else None)"

section \<open>Queries\<close>

definition slength :: "String \<Rightarrow> nat" where
  "slength s = (case s of Some b \<Rightarrow> m_len b | None \<Rightarrow> 0)"

definition c_str :: "String \<Rightarrow> bytes" where
  "c_str s = (case s of Some b \<Rightarrow> m_data b | None \<Rightarrow> [0])"

definition charAt :: "String \<Rightarrow> nat \<Rightarrow> string_error + u8" where
  "charAt s ndx = (case s of Some b \<Rightarrow>
     (if ndx < length (m_data b) then Inr (m_data b ! ndx) else Inl OutOfBounds) | None \<Rightarrow> Inr 0)"

definition at :: "String \<Rightarrow> nat \<Rightarrow> u8" where
  "at s ndx = (let b = (case s of None \<Rightarrow> ByteBuf_of [0] | Some b \<Rightarrow> b) in
     if ndx \<le> m_len b then m_data b ! ndx else 0)"

definition compareTo :: "String \<Rightarrow> bytes \<Rightarrow> int" where
  "compareTo s arg = strcmp (cstr (c_str s)) (cstr arg)"

definition equals :: "String \<Rightarrow> bytes \<Rightarrow> bool" where
  "equals s arg \<longleftrightarrow> compareTo s arg = 0"

definition endsWith_char :: "String \<Rightarrow> u8 \<Rightarrow> bool" where
  "endsWith_char s arg \<longleftrightarrow> (\<exists>b. s = Some b \<and> m_len b \<noteq> 0 \<and> m_data b ! (m_len b - 1) = arg)"

definition endsWith :: "String \<Rightarrow> bytes \<Rightarrow> bool" where
  "endsWith s arg =
     (if cstr arg = [] then slength s = 0
      else case s of None \<Rightarrow> False | Some b \<Rightarrow>
        (let ndx = int_cast ((m_len b + 2 ^ 64 - strlen arg) mod 2 ^ 64) in
         if ndx < 0 then False else strcmp (cstr (drop (nat ndx) (m_data b))) (cstr arg) = 0))"

definition startsWith_char :: "String \<Rightarrow> u8 \<Rightarrow> bool" where
  "startsWith_char s arg \<longleftrightarrow> (\<exists>b. s = Some b \<and> m_len b \<noteq> 0 \<and> m_data b ! 0 = arg)"

definition startsWith :: "String \<Rightarrow> bytes \<Rightarrow> bool" where
  "startsWith s arg = (if cstr arg = [] then True
     else if strlen arg \<le> slength s then take (strlen arg) (c_str s) = cstr arg else False)"

text \<open>One character of the hash: \<open>temp\<close> is a signed \<open>char\<close>.\<close>

definition hash_char :: "u32 \<Rightarrow> u8 \<Rightarrow> u32" where
  "hash_char hash temp =
     (let hash1 = push_bit 4 hash + (scast temp :: u32) * 13; g = and hash1 0xf0000000 in
      if g \<noteq> 0 then xor (xor hash1 (drop_bit 24 g)) g else hash1)"

definition hashCode :: "String \<Rightarrow> u32" where
  "hashCode s = foldl hash_char 0 (take (slength s) (c_str s))"

section \<open>Searching\<close>

text \<open>\<open>String::strchr\<close>: the offset at which the scan stops, if it stopped at \<open>c\<close>.\<close>

fun strchr :: "bytes \<Rightarrow> u8 \<Rightarrow> nat option" where
  "strchr [] c = None"
| "strchr (x # xs) c = (if x = c then Some 0 else if x = 0 then None
     else map_option Suc (strchr xs c))"

definition indexOf_char :: "String \<Rightarrow> u8 \<Rightarrow> nat \<Rightarrow> nat" where
  "indexOf_char s ch fromIndex =
     (if fromIndex < slength s then
        case strchr (drop fromIndex (c_str s)) ch of Some i \<Rightarrow> fromIndex + i | None \<Rightarrow> npos
      else npos)"

text \<open>\<open>strstr\<close>.\<close>

fun strstr :: "bytes \<Rightarrow> bytes \<Rightarrow> nat option" where
  "strstr [] arg = (if arg = [] then Some 0 else None)"
| "strstr (x # xs) arg = (if take (length arg) (x # xs) = arg then Some 0 else map_option Suc (strstr xs arg))"

definition indexOf :: "String \<Rightarrow> bytes \<Rightarrow> nat \<Rightarrow> nat" where
  "indexOf s arg fromIndex =
     (if fromIndex < slength s then
        (if cstr arg \<noteq> [] then
           case strstr (cstr (drop fromIndex (c_str s))) (cstr arg) of
             Some i \<Rightarrow> fromIndex + i | None \<Rightarrow> npos
         else fromIndex)
      else npos)"

text \<open>The loops count down and end when the index wraps to \<open>npos\<close>.\<close>

fun last_char_loop :: "bytes \<Rightarrow> u8 \<Rightarrow> nat \<Rightarrow> nat" where
  "last_char_loop d ch i = (if d ! i = ch then i else case i of 0 \<Rightarrow> npos | Suc j \<Rightarrow> last_char_loop d ch j)"

declare last_char_loop.simps [simp del]

definition lastIndexOf_char :: "String \<Rightarrow> u8 \<Rightarrow> nat \<Rightarrow> nat" where
  "lastIndexOf_char s ch fromIndex =
     (if fromIndex = npos \<and> slength s = 0 then npos
      else let from1 = (if fromIndex = npos then slength s - 1 else fromIndex) in
        if from1 < slength s then last_char_loop (c_str s) ch from1 else npos)"

fun last_string_loop :: "bytes \<Rightarrow> bytes \<Rightarrow> nat \<Rightarrow> nat" where
  "last_string_loop d arg i = (if take (length arg) (drop i d) = arg then i
     else case i of 0 \<Rightarrow> npos | Suc j \<Rightarrow> last_string_loop d arg j)"

declare last_string_loop.simps [simp del]

definition lastIndexOf :: "String \<Rightarrow> bytes \<Rightarrow> nat \<Rightarrow> nat" where
  "lastIndexOf s arg fromIndex =
     (let l = slength s; reset = (fromIndex = npos \<or> fromIndex \<ge> l);
          from1 = (if reset then size_add l npos else fromIndex);
          arglen = strlen arg;
          from2 = (from1 + 2 ^ 64 + 1 - arglen) mod 2 ^ 64 in
      if reset \<and> int_cast from1 < 0 then npos
      else if int_cast from2 < 0 then npos
      else last_string_loop (cstr (c_str s)) (cstr arg) from2)"

section \<open>Parts and changes\<close>

definition substring :: "String \<Rightarrow> nat \<Rightarrow> nat \<Rightarrow> string_error + String" where
  "substring s beginIndex len =
     (let l = slength s in
      if l = 0 \<or> beginIndex \<ge> l \<or> len = 0 then Inr None
      else let count = (if len = npos then l - beginIndex else len);
               count' = (if size_add count beginIndex > l then l - beginIndex else count) in
        String_of_len (drop beginIndex (c_str s)) count')"

definition concat_cstr :: "String \<Rightarrow> bytes \<Rightarrow> String" where
  "concat_cstr s arg = (if cstr arg = [] then s
     else Some \<lparr>m_len = slength s + strlen arg, m_data = cstr (c_str s) @ cstr arg @ [0]\<rparr>)"

definition concat_String :: "String \<Rightarrow> String \<Rightarrow> String" where
  "concat_String s arg = concat_cstr s (c_str arg)"

text \<open>\<open>concat(char)\<close>: the bytes between the copied text and the new character, if any, are
  uninitialised; the model writes zeros.\<close>

definition concat_char :: "String \<Rightarrow> u8 \<Rightarrow> String" where
  "concat_char s arg =
     (let l = slength s; t = cstr (c_str s) in
      Some \<lparr>m_len = l + 1, m_data = take l (t @ replicate (l - length t) 0) @ [arg, 0]\<rparr>)"

definition erase :: "String \<Rightarrow> nat \<Rightarrow> nat \<Rightarrow> string_error + String" where
  "erase s idx len =
     (if idx \<ge> slength s then Inr s
      else if len = npos then substring s 0 idx
      else rbind (substring s 0 idx) (\<lambda>a. rbind (substring s (size_add idx len) npos) (\<lambda>b.
        Inr (concat_String a b))))"

definition isSpaces :: "String \<Rightarrow> bool" where
  "isSpaces s = (case s of None \<Rightarrow> True | Some b \<Rightarrow> cstr (dropWhile isspace (m_data b)) = [])"

definition ltrim :: "String \<Rightarrow> String" where
  "ltrim s = (case s of None \<Rightarrow> s | Some b \<Rightarrow>
     (let s1 = dropWhile isspace (m_data b) in if s1 = m_data b then s else String_of s1))"

text \<open>\<open>rtrim\<close> tests the character before it tests the pointer: when all characters are
  spaces it reads the byte in front of the buffer.\<close>

fun rtrim_loop :: "bytes \<Rightarrow> nat \<Rightarrow> string_error + nat" where
  "rtrim_loop d 0 = Inl OutOfBounds"
| "rtrim_loop d (Suc i) = (if isspace (d ! i) then rtrim_loop d i else Inr (Suc i))"

definition rtrim :: "String \<Rightarrow> string_error + String" where
  "rtrim s = (if slength s = 0 then Inr s
     else rbind (rtrim_loop (c_str s) (slength s)) (\<lambda>len.
       if len = slength s then Inr s else String_of_len (c_str s) len))"

fun trim_end_loop :: "bytes \<Rightarrow> nat \<Rightarrow> string_error + nat" where
  "trim_end_loop d 0 = Inl OutOfBounds"
| "trim_end_loop d (Suc i) = (if isspace (d ! i) then trim_end_loop d i else Inr i)"

definition trim :: "String \<Rightarrow> string_error + String" where
  "trim s = (if slength s = 0 then Inr s
     else let s1 = dropWhile isspace (c_str s) in
       if cstr s1 = [] then Inr None
       else rbind (trim_end_loop (cstr s1) (strlen s1)) (\<lambda>s2. String_of_len s1 (s2 + 1)))"

definition case_result :: "utf8_error + 'a \<Rightarrow> string_error + 'a" where
  "case_result r = (case r of Inl e \<Rightarrow> Inl (CaseError e) | Inr a \<Rightarrow> Inr a)"

text \<open>The in-place conversion does not change the stored length; when it fails, the other
  conversion starts from what it left in the buffer.\<close>

definition String_toLowerCase :: "String \<Rightarrow> string_error + String" where
  "String_toLowerCase s = (case s of None \<Rightarrow> Inr None | Some b \<Rightarrow>
     rbind (case_result (toLowerCaseInPlace (m_data b))) (\<lambda>(ok, d).
       if ok then Inr (Some (b\<lparr>m_data := d\<rparr>))
       else rbind (case_result (toLowerCase d)) (\<lambda>r. Inr (String_of (r @ [0])))))"

definition String_toUpperCase :: "String \<Rightarrow> string_error + String" where
  "String_toUpperCase s = (case s of None \<Rightarrow> Inr None | Some b \<Rightarrow>
     rbind (case_result (toUpperCaseInPlace (m_data b))) (\<lambda>(ok, d).
       if ok then Inr (Some (b\<lparr>m_data := d\<rparr>))
       else rbind (case_result (toUpperCase d)) (\<lambda>r. Inr (String_of (r @ [0])))))"

definition padOnLeft :: "String \<Rightarrow> nat \<Rightarrow> u8 \<Rightarrow> String" where
  "padOnLeft s width fill = (if slength s \<ge> width then s
     else String_of (replicate (width - slength s) fill @ take (slength s) (c_str s) @ [0]))"

definition padOnRight :: "String \<Rightarrow> nat \<Rightarrow> u8 \<Rightarrow> String" where
  "padOnRight s width fill = (if slength s \<ge> width then s
     else String_of (take (slength s) (c_str s) @ replicate (width - slength s) fill @ [0]))"

section \<open>Tokens\<close>

definition is_delim :: "bytes \<Rightarrow> u8 \<Rightarrow> bool" where
  "is_delim delims c \<longleftrightarrow> strchr delims c \<noteq> None"

text \<open>\<open>data\<close> is the token collected so far; \<open>ra\<close> the result, \<open>last_was_delim\<close> as in the code.\<close>

fun tokenize_loop :: "bytes \<Rightarrow> bool \<Rightarrow> bool \<Rightarrow> bytes \<Rightarrow> bytes \<Rightarrow> bool \<Rightarrow> String list \<Rightarrow> String list"
  where
  "tokenize_loop delims ret_delims ret_empty [] data last_was_delim ra =
     (if data \<noteq> [] then ra @ [String_of (data @ [0])]
      else if ret_empty \<and> last_was_delim then ra @ [None] else ra)"
| "tokenize_loop delims ret_delims ret_empty (c # pstr) data last_was_delim ra =
     (if is_delim delims c then
        tokenize_loop delims ret_delims ret_empty pstr [] True
          (ra @ (if data \<noteq> [] then [String_of (data @ [0])] else [])
              @ (if ret_empty \<and> last_was_delim then [None] else [])
              @ (if ret_delims then [String_of_char c] else []))
      else tokenize_loop delims ret_delims ret_empty pstr (data @ [c]) False ra)"

definition tokenize :: "String \<Rightarrow> bytes option \<Rightarrow> bool \<Rightarrow> bool \<Rightarrow> String list" where
  "tokenize s delims ret_delims ret_empty =
     (if slength s = 0 then []
      else case delims of None \<Rightarrow> [s]
        | Some ds \<Rightarrow> tokenize_loop ds ret_delims ret_empty (cstr (c_str s)) [] False [])"

end
