(* ===== verification/Strings_Props.thy ===== *)
theory Strings_Props
  imports Strings "HOL-Library.Sublist"
begin

text \<open>
  What the operations of \<open>String\<close> do to the text of a string, and where they do not do
  it.
\<close>

section \<open>The class invariant\<close>

text \<open>
  The comment of the class: the buffer is a NUL-terminated sequence of characters and is
  \<open>m_len + 1\<close> bytes long. A string of this kind is its text.
\<close>

definition str_ok :: "String \<Rightarrow> bool" where
  "str_ok s \<longleftrightarrow> (case s of None \<Rightarrow> True | Some b \<Rightarrow>
     \<exists>t. 0 \<notin> set t \<and> m_data b = t @ [0] \<and> m_len b = length t)"

definition text_of :: "String \<Rightarrow> bytes" where
  "text_of s = cstr (c_str s)"

lemma cstr_append_nul: "0 \<notin> set t \<Longrightarrow> cstr (t @ 0 # r) = t"
  unfolding cstr_def by (subst takeWhile_append2) auto

lemma cstr_id: "0 \<notin> set t \<Longrightarrow> cstr t = t"
  unfolding cstr_def by (rule takeWhile_eq_all_conv [THEN iffD2]) auto

lemma nul_cstr [simp]: "0 \<notin> set (cstr t)"
  unfolding cstr_def by (metis (mono_tags, lifting) set_takeWhileD)

lemma str_okE:
  assumes "str_ok s"
  obtains t where "0 \<notin> set t" "c_str s = t @ [0]" "slength s = length t" "text_of s = t"
proof (cases s)
  case None
  with that [of "[]"] show thesis by (simp add: c_str_def slength_def text_of_def cstr_def)
next
  case (Some b)
  with assms obtain t where "0 \<notin> set t" "m_data b = t @ [0]" "m_len b = length t"
    by (auto simp: str_ok_def)
  with that [of t] Some show thesis by (simp add: c_str_def slength_def text_of_def cstr_append_nul)
qed

lemma str_ok_None [simp]: "str_ok None" "text_of None = []" "slength None = 0"
  by (simp_all add: str_ok_def text_of_def c_str_def cstr_def slength_def)

lemma str_ok_Some:
  "0 \<notin> set t \<Longrightarrow> str_ok (Some \<lparr>m_len = length t, m_data = t @ [0]\<rparr>) \<and>
     text_of (Some \<lparr>m_len = length t, m_data = t @ [0]\<rparr>) = t"
  by (auto simp: str_ok_def text_of_def c_str_def cstr_append_nul)

lemma String_of_ok [simp]: "str_ok (String_of t)" "text_of (String_of t) = cstr t"
  using str_ok_Some [of "cstr t"] by (simp_all add: String_of_def ByteBuf_of_def strlen_def)

lemma strcmp_eq_0: "strcmp xs ys = 0 \<longleftrightarrow> xs = ys"
  by (induction xs ys rule: strcmp.induct) (auto dest: less_imp_neq split: if_splits)

lemma strchr_nul: "0 \<notin> set t \<Longrightarrow> c \<noteq> 0 \<Longrightarrow> strchr (t @ 0 # r) c =
   (if c \<in> set t then Some (length (takeWhile (\<lambda>x. x \<noteq> c) t)) else None)"
  by (induction t) auto

section \<open>Tokens\<close>

text \<open>The reference: the pieces between delimiters.\<close>

fun pieces :: "('a \<Rightarrow> bool) \<Rightarrow> 'a list \<Rightarrow> 'a list list" where
  "pieces P [] = [[]]"
| "pieces P (x # xs) = (if P x then [] # pieces P xs
     else (x # hd (pieces P xs)) # tl (pieces P xs))"

lemma pieces_nonempty [simp]: "pieces P xs \<noteq> []"
  by (cases xs) auto

lemma pieces_cong_start: "\<not> P x \<Longrightarrow> pieces P (x # xs) = (x # hd (pieces P xs)) # tl (pieces P xs)"
  by simp

text \<open>The pieces with what stands between them.\<close>

fun weave :: "'a list \<Rightarrow> 'a list \<Rightarrow> 'a list" where
  "weave (p # ps) (d # ds) = p # d # weave ps ds"
| "weave ps ds = ps"

text \<open>The tokens of a text: its pieces, with the delimiters between them when these are wanted;
  without the empty ones, or, when these are wanted, without an empty one at the start.\<close>

definition tokens_of :: "('a \<Rightarrow> bool) \<Rightarrow> bool \<Rightarrow> bool \<Rightarrow> 'a list \<Rightarrow> 'a list list" where
  "tokens_of P ret_delims ret_empty t =
     (let ts = (if ret_delims then weave (pieces P t) (map (\<lambda>c. [c]) (filter P t)) else pieces P t)
      in if \<not> ret_empty then filter (\<lambda>p. p \<noteq> []) ts else if hd ts = [] then tl ts else ts)"

lemma weave_Nil [simp]: "weave ps [] = ps"
  by (cases ps) simp_all

text \<open>With the token collected so far in front of the rest, the loop yields the tokens of
  both; after a delimiter a first empty piece counts, at the start it does not.\<close>

lemma tokenize_loop_tokens:
  assumes "0 \<notin> set data" and "0 \<notin> set p" and "data \<noteq> [] \<longrightarrow> \<not> lw"
  shows "map text_of (tokenize_loop ds rdl re p data lw ra) = map text_of ra @
    (let ps = (data @ hd (pieces (is_delim ds) p)) # tl (pieces (is_delim ds) p);
         ts = (if rdl then weave ps (map (\<lambda>c. [c]) (filter (is_delim ds) p)) else ps)
     in if \<not> re then filter (\<lambda>p. p \<noteq> []) ts else if hd ts = [] \<and> \<not> lw then tl ts else ts)"
  using assms
proof (induction p arbitrary: data lw ra)
  case Nil
  then show ?case by (auto simp: cstr_append_nul Let_def)
next
  case (Cons c p)
  obtain q qs where q: "pieces (is_delim ds) p = q # qs"
    using pieces_nonempty neq_Nil_conv by metis
  have c: "text_of (String_of_char c) = [c]" using Cons.prems
    by (simp add: String_of_char_def text_of_def c_str_def ByteBuf_of_def cstr_def)
  show ?case
  proof (cases "is_delim ds c")
    case True
    then show ?thesis using Cons q c by (cases "filter (is_delim ds) p") (auto simp: Let_def cstr_append_nul)
  next
    case False
    then show ?thesis using Cons q
      by (cases "filter (is_delim ds) p") (auto simp: Let_def)
  qed
qed

section \<open>Parts\<close>

lemma String_of_len_ok:
  assumes "0 \<notin> set t" and "n \<le> length t" and "n + 1 \<le> 2 ^ 63"
  obtains r where "String_of_len (t @ rest) n = Inr r" "str_ok r" "text_of r = take n t"
proof -
  have "0 \<notin> set (take n t)" using assms(1) by (meson in_set_takeD)
  moreover have "length (take n t) = n" using assms(2) by simp
  ultimately show thesis
    using str_ok_Some [of "take n t"] assms(2,3) that by (simp add: String_of_len_def)
qed

text \<open>A string that fits into memory.\<close>

definition fits :: "String \<Rightarrow> bool" where
  "fits s \<longleftrightarrow> slength s < 2 ^ 63"

lemma substring_text:
  assumes "str_ok s" and "fits s" and "len = npos \<or> beginIndex + len < 2 ^ 64"
  obtains r where "substring s beginIndex len = Inr r" "str_ok r"
    "text_of r = take len (drop beginIndex (text_of s))"
proof -
  obtain t where t: "0 \<notin> set t" "c_str s = t @ [0]" "slength s = length t" "text_of s = t"
    using assms(1) by (rule str_okE)
  show thesis
  proof (cases "beginIndex < length t \<and> len \<noteq> 0")
    case False
    then have "substring s beginIndex len = Inr None"
      using t by (auto simp: substring_def Let_def)
    with False that [of None] t show thesis by auto
  next
    case True
    define count where "count = (if len = npos then length t - beginIndex else len)"
    have small: "length t < 2 ^ 63" using assms(2) t by (simp add: fits_def)
    have "count + beginIndex < 2 ^ 64"
      using assms(3) small True by (auto simp: count_def)
    then have run: "substring s beginIndex len =
        String_of_len (drop beginIndex t @ [0])
          (if count + beginIndex > length t then length t - beginIndex else count)"
      using t True by (auto simp: substring_def Let_def count_def size_add_def)
    have "0 \<notin> set (drop beginIndex t)" using t(1) by (meson in_set_dropD)
    then obtain r where "substring s beginIndex len = Inr r" "str_ok r"
      "text_of r = take (if count + beginIndex > length t then length t - beginIndex else count) (drop beginIndex t)"
      unfolding run
      by (rule String_of_len_ok [where rest = "[0]" and n = "if count + beginIndex > length t
            then length t - beginIndex else count"]) (use small True in auto)
    with that [of r] True t small show thesis
      by (auto simp: count_def npos_def split: if_splits)
  qed
qed

lemma concat_text:
  assumes "str_ok s" and "str_ok r"
  shows "str_ok (concat_String s r)" and "text_of (concat_String s r) = text_of s @ text_of r"
proof -
  obtain t where t: "0 \<notin> set t" "c_str s = t @ [0]" "slength s = length t" "text_of s = t"
    using assms(1) by (rule str_okE)
  obtain u where u: "0 \<notin> set u" "c_str r = u @ [0]" "slength r = length u" "text_of r = u"
    using assms(2) by (rule str_okE)
  show "str_ok (concat_String s r)" "text_of (concat_String s r) = text_of s @ text_of r"
    using t u assms(1) str_ok_Some [of "t @ u"]
    by (auto simp: concat_String_def concat_cstr_def strlen_def cstr_append_nul)
qed

lemma erase_text:
  assumes "str_ok s" and "fits s" and "idx + len < 2 ^ 64 \<or> len = npos"
  obtains r where "erase s idx len = Inr r" "str_ok r"
    "text_of r = take idx (text_of s) @ drop (idx + len) (text_of s)"
proof (cases "idx < slength s")
  case False
  then have "erase s idx len = Inr s" by (simp add: erase_def)
  with that [of s] assms(1) False show thesis by (auto elim: str_okE)
next
  case True
  have small: "slength s < 2 ^ 63" using assms(2) by (simp add: fits_def)
  have len: "slength s = length (text_of s)" using assms(1) by (rule str_okE) simp
  obtain a where a: "substring s 0 idx = Inr a" "str_ok a" "text_of a = take idx (text_of s)"
    using assms(1,2) by (rule substring_text [where beginIndex = 0 and len = idx]) (use True small in auto)
  show thesis
  proof (cases "len = npos")
    case True
    with that [of a] a \<open>idx < slength s\<close> len small show thesis by (simp add: erase_def npos_def)
  next
    case False
    with assms(3) have "size_add idx len = idx + len" by (simp add: size_add_def)
    moreover obtain b where "substring s (idx + len) npos = Inr b" "str_ok b"
      "text_of b = take npos (drop (idx + len) (text_of s))"
      using assms(1,2) by (rule substring_text [where beginIndex = "idx + len" and len = npos]) auto
    ultimately show thesis
      using that [of "concat_String a b"] a True False len small
      by (simp add: erase_def concat_text npos_def)
  qed
qed

text \<open>When the end of the part would lie beyond \<open>2 ^ 64\<close> the sum wraps.\<close>

lemma substring_wraps:
  assumes "beginIndex < slength s" and "fits s" and "len < npos" and "beginIndex + len \<ge> 2 ^ 64"
  shows "substring s beginIndex len = Inl BadAlloc"
proof -
  have "size_add len beginIndex = len + beginIndex - 2 ^ 64"
    using assms by (simp add: size_add_def fits_def npos_def mod_if)
  then show ?thesis
    using assms by (auto simp: substring_def Let_def fits_def npos_def String_of_len_def)
qed

lemma erase_wraps_text:
  assumes "str_ok s" and "idx < slength s" and "fits s" and "len < npos" and "idx + len \<ge> 2 ^ 64"
  obtains r where "erase s idx len = Inr r" "str_ok r"
    "text_of r = take idx (text_of s) @ drop (idx + len - 2 ^ 64) (text_of s)"
proof -
  have small: "slength s < 2 ^ 63" using assms(3) by (simp add: fits_def)
  have len: "slength s = length (text_of s)" using assms(1) by (rule str_okE) simp
  obtain a where a: "substring s 0 idx = Inr a" "str_ok a" "text_of a = take idx (text_of s)"
    using assms(1,3) by (rule substring_text [where beginIndex = 0 and len = idx]) (use assms(2) small in auto)
  have "size_add idx len = idx + len - 2 ^ 64"
    using assms small by (simp add: size_add_def npos_def mod_if)
  moreover obtain b where "substring s (idx + len - 2 ^ 64) npos = Inr b" "str_ok b"
    "text_of b = take npos (drop (idx + len - 2 ^ 64) (text_of s))"
    using assms(1,3) by (rule substring_text [where beginIndex = "idx + len - 2 ^ 64" and len = npos]) auto
  ultimately show thesis
    using that [of "concat_String a b"] a assms(2,4) len small
    by (simp add: erase_def concat_text npos_def)
qed

section \<open>Trimming\<close>

lemma trim_end_loop:
  "i \<le> length d \<Longrightarrow> trim_end_loop d i = (case dropWhile isspace (rev (take i d)) of
     [] \<Rightarrow> Inl OutOfBounds | x # xs \<Rightarrow> Inr (length xs))"
  by (induction i) (auto simp: take_Suc_conv_app_nth)

lemma rtrim_loop:
  "i \<le> length d \<Longrightarrow> rtrim_loop d i = (case dropWhile isspace (rev (take i d)) of
     [] \<Rightarrow> Inl OutOfBounds | x # xs \<Rightarrow> Inr (Suc (length xs)))"
  by (induction i) (auto simp: take_Suc_conv_app_nth)

definition strip_end :: "bytes \<Rightarrow> bytes" where
  "strip_end t = rev (dropWhile isspace (rev t))"

lemma strip_end_take: "strip_end t = take (length (dropWhile isspace (rev t))) t"
proof -
  have "t = rev (dropWhile isspace (rev t)) @ rev (takeWhile isspace (rev t))"
    by (metis rev_append rev_rev_ident takeWhile_dropWhile_id)
  then show ?thesis unfolding strip_end_def by (metis append_eq_conv_conj length_rev)
qed

lemma strip_end_length: "length (dropWhile isspace (rev t)) \<le> length t"
  using length_dropWhile_le [of isspace "rev t"] by simp

lemma isspace_nul [simp]: "\<not> isspace 0"
  by (simp add: isspace_def)

lemma rtrim_text:
  assumes "str_ok s" and "fits s"
  shows "strip_end (text_of s) \<noteq> [] \<or> text_of s = [] \<Longrightarrow>
      \<exists>r. rtrim s = Inr r \<and> str_ok r \<and> text_of r = strip_end (text_of s)"
    and "strip_end (text_of s) = [] \<Longrightarrow> text_of s \<noteq> [] \<Longrightarrow> rtrim s = Inl OutOfBounds"
proof -
  obtain t where t: "0 \<notin> set t" "c_str s = t @ [0]" "slength s = length t" "text_of s = t"
    using assms(1) by (rule str_okE)
  have small: "length t < 2 ^ 63" using assms(2) t by (simp add: fits_def)
  have loop: "rtrim_loop (c_str s) (length t) = (case dropWhile isspace (rev t) of
      [] \<Rightarrow> Inl OutOfBounds | x # xs \<Rightarrow> Inr (Suc (length xs)))"
    using t by (simp add: rtrim_loop)
  { assume "strip_end (text_of s) = []" "text_of s \<noteq> []"
    then have "dropWhile isspace (rev t) = []" using t by (simp add: strip_end_def)
    then show "rtrim s = Inl OutOfBounds"
      using t loop \<open>text_of s \<noteq> []\<close> by (simp add: rtrim_def del: dropWhile_eq_Nil_conv) }
  assume *: "strip_end (text_of s) \<noteq> [] \<or> text_of s = []"
  show "\<exists>r. rtrim s = Inr r \<and> str_ok r \<and> text_of r = strip_end (text_of s)"
  proof (cases "t = []")
    case True
    with t assms(1) show ?thesis by (simp add: rtrim_def strip_end_def)
  next
    case False
    define n where "n = length (dropWhile isspace (rev t))"
    have n: "0 < n" "n \<le> length t" "strip_end t = take n t"
      using * t False strip_end_length [of t] by (auto simp: n_def strip_end_take [symmetric] strip_end_def)
    then have "rtrim_loop (c_str s) (length t) = Inr n"
      by (auto simp: loop n_def split: list.splits)
    moreover obtain r where "String_of_len (t @ [0]) n = Inr r" "str_ok r" "text_of r = take n t"
      using t(1) n(2) by (rule String_of_len_ok) (use n small in auto)
    ultimately show ?thesis
      using t n assms(1) False by (cases "n = length t") (auto simp: rtrim_def)
  qed
qed

lemma trim_text:
  assumes "str_ok s" and "fits s"
  shows "\<exists>r. trim s = Inr r \<and> str_ok r \<and> text_of r = strip_end (dropWhile isspace (text_of s))"
proof -
  obtain t where t: "0 \<notin> set t" "c_str s = t @ [0]" "slength s = length t" "text_of s = t"
    using assms(1) by (rule str_okE)
  have small: "length t < 2 ^ 63" using assms(2) t by (simp add: fits_def)
  define u where "u = dropWhile isspace t"
  have u: "0 \<notin> set u" "dropWhile isspace (t @ [0]) = u @ [0]"
    using t(1) by (auto simp: u_def dropWhile_append3 dest: set_dropWhileD)
  then have cu: "cstr (u @ [0]) = u" by (simp add: cstr_append_nul)
  have lu: "length u \<le> length t" by (simp add: u_def length_dropWhile_le)
  show ?thesis
  proof (cases "u = []")
    case True
    with t u cu assms(1) show ?thesis
      by (cases "t = []") (auto simp: trim_def strip_end_def Let_def u_def [symmetric])
  next
    case False
    then have "\<not> isspace (hd u)" unfolding u_def using hd_dropWhile by blast
    then have "dropWhile isspace (rev u) \<noteq> []" using False by (auto simp: dropWhile_eq_Nil_conv)
    then obtain x xs where xs: "dropWhile isspace (rev u) = x # xs" by (meson neq_Nil_conv)
    define n where "n = length (dropWhile isspace (rev u))"
    have n: "n \<le> length u" "strip_end u = take n u" "length xs + 1 = n"
      using strip_end_length [of u] by (simp_all add: n_def strip_end_take xs)
    obtain r where "String_of_len (u @ [0]) n = Inr r" "str_ok r" "text_of r = take n u"
      using u(1) n(1) by (rule String_of_len_ok) (use n lu small in auto)
    moreover have "t \<noteq> []" using False by (auto simp: u_def)
    ultimately show ?thesis
      using t u cu n False xs by (auto simp: trim_def Let_def strlen_def trim_end_loop u_def [symmetric])
  qed
qed

section \<open>The hash\<close>

lemma high_bits: "bit (0xf0000000 :: u32) n \<longleftrightarrow> 28 \<le> n \<and> n < 32"
proof -
  have "(0xf0000000 :: u32) = push_bit 28 (mask 4)" by (simp add: mask_eq_exp_minus_1 push_bit_eq_mult)
  then show ?thesis by (simp only: bit_push_bit_iff bit_mask_iff) auto
qed

lemma hash_fold: "and (xor (xor h (drop_bit 24 (and h 0xf0000000))) (and h 0xf0000000)) 0xf0000000 = (0 :: u32)"
  by (rule bit_word_eqI)
    (simp only: bit_and_iff bit_xor_iff bit_drop_bit_eq high_bits o_apply bit_0_eq bot_apply, auto)

lemma hash_char_bound: "and (hash_char h c) 0xf0000000 = 0"
  using hash_fold [of "push_bit 4 h + (scast c :: u32) * 13"]
  by (auto simp: hash_char_def Let_def)

lemma hashCode_bits: "and (hashCode s) 0xf0000000 = 0"
proof -
  have "and (foldl hash_char h t) 0xf0000000 = 0" if "and h 0xf0000000 = 0" for h t
    using that by (induction t arbitrary: h) (simp_all add: hash_char_bound)
  then show ?thesis by (simp add: hashCode_def)
qed

section \<open>Case conversion of strings\<close>

lemma encode_no_nul:
  assumes "\<And>c. c \<in> set cs \<Longrightarrow> text_char c"
  shows "0 \<notin> set (encode cs)"
proof -
  have "0 \<notin> set (UCS4toUTF8 c)" if "text_char c" for c
    using text_char_decode(4) [OF that] cont_nonzero
    by (cases c rule: UCS4toUTF8_cases) auto
  with assms show ?thesis by (auto simp: encode_def)
qed

text \<open>The table maps text to text.\<close>

lemma lower_parts_text:
  "list_all (\<lambda>e. text_char (snd e)) lowerMappings_1" "list_all (\<lambda>e. text_char (snd e)) lowerMappings_2"
  "list_all (\<lambda>e. text_char (snd e)) lowerMappings_3" "list_all (\<lambda>e. text_char (snd e)) lowerMappings_4"
  "list_all (\<lambda>e. text_char (snd e)) lowerMappings_5" "list_all (\<lambda>e. text_char (snd e)) lowerMappings_6"
  by (simp_all add: lowerMappings_parts text_char_def)

lemma lower_text_char:
  assumes "text_char c"
  shows "text_char (Transformer lowerMappings c)"
proof (cases "map_of lowerMappings c")
  case None
  with assms show ?thesis by (simp add: Transformer_map_of [OF lowerMappings_sorted])
next
  case (Some m)
  then have "(c, m) \<in> set lowerMappings" by (rule map_of_SomeD)
  moreover have "list_all (\<lambda>e. text_char (snd e)) lowerMappings"
    by (simp add: lowerMappings_def lower_parts_text)
  ultimately have "text_char m" by (force simp: list_all_iff)
  with Some show ?thesis by (simp add: Transformer_map_of [OF lowerMappings_sorted])
qed

text \<open>
  What the code does to the buffer of a string whose text is \<open>cs\<close>: when only the last
  character shrinks, if any, the text is right but the stored length is the old one.
\<close>

lemma toLowerCase_in_place:
  assumes "\<And>c. c \<in> set cs \<Longrightarrow> text_char c"
    and "\<And>c. c \<in> set (butlast cs) \<Longrightarrow> UTF8CharLen (Transformer lowerMappings c) = UTF8CharLen c"
  obtains r where "String_toLowerCase (String_of (encode cs @ [0])) = Inr r"
    and "text_of r = encode (map (Transformer lowerMappings) cs)"
    and "slength r = length (encode cs)"
proof -
  have c: "cstr (encode cs @ [0]) = encode cs"
    by (rule cstr_append_nul [OF encode_no_nul [OF assms(1)]])
  have n: "0 \<notin> set (encode (map (Transformer lowerMappings) cs))"
    using assms(1) lower_text_char by (intro encode_no_nul) auto
  obtain junk where "toLowerCaseInPlace (encode cs @ [0]) =
      Inr (True, encode (map (Transformer lowerMappings) cs) @ 0 # junk)"
    using lower.inPlace_encode [OF assms(1), of cs "[]"] assms(2)
    by (auto simp: toLowerCaseInPlace_def transformInPlace_def)
  then show thesis
    using that c n
    by (auto simp: String_toLowerCase_def String_of_def ByteBuf_of_def case_result_def text_of_def
        c_str_def cstr_append_nul slength_def strlen_def)
qed

text \<open>When an earlier character shrinks, the copying conversion runs over a buffer that holds
  the new character followed by the last bytes of the old one.\<close>

lemma kelvin_in_place:
  assumes "\<And>c. c \<in> set ds \<Longrightarrow> text_char c" and "ds \<noteq> []"
  shows "toLowerCaseInPlace (encode (0x212A # ds) @ [0]) = Inr (False, [0x6B, 0x84, 0xAA] @ encode ds @ [0])"
proof -
  obtain d es where ds: "ds = d # es" using assms(2) by (cases ds) auto
  have "text_char 0x212A" by (simp add: text_char_def)
  from lower.inPlace_char [OF this, of "[]" "encode ds @ [0]"]
  have "transformInPlace_loop (Transformer lowerMappings) (encode (0x212A # ds) @ [0]) 0 0 =
      transformInPlace_loop (Transformer lowerMappings) ([0x6B, 0x84, 0xAA] @ encode ds @ [0])
        (length [0x6B, 0x84, 0xAA :: u8]) 1"
    by (simp add: Transformer_kelvin kelvin_bytes UTF8CharLen_def del: One_nat_def)
      (simp add: numeral_3_eq_3)
  also have "\<dots> = Inr (False, [0x6B, 0x84, 0xAA] @ encode ds @ [0])"
    using lower.inPlace_shrunk [of d 1 "[0x6B, 0x84, 0xAA]" "encode es @ [0]"] assms(1) ds by simp
  finally show ?thesis by (simp add: toLowerCaseInPlace_def transformInPlace_def)
qed

lemma kelvin_again:
  assumes "\<And>c. c \<in> set ds \<Longrightarrow> text_char c"
  shows "toLowerCase ([0x6B, 0x84, 0xAA] @ encode ds @ [0]) =
    Inr ([0x6B, 0x84, 0xAA] @ encode (map (Transformer lowerMappings) ds))"
proof -
  let ?T = "Transformer lowerMappings" and ?m = "[0x6B, 0x84, 0xAA] @ encode ds @ [0]"
  have k: "?T 0x6B = 0x6B"
    unfolding ascii_lookup [OF lowerMappings_split lowerMappings_sorted, of "0x6B", simplified]
    by (rule list_all_upt_word [OF ascii_all(1), of "0x6B", simplified])
  have d: "UTF8toUCS4 (0x6B # r) = Inr 0x6B" "UTF8toUCS4 (0x84 # r) = Inr bad_char"
    "UTF8toUCS4 (0xAA # r) = Inr bad_char" for r
    by (simp_all add: UTF8toUCS4_def seqLen_eq)
  have nz: "(0x84 :: u8) \<noteq> 0" "(0xAA :: u8) \<noteq> 0" by simp_all
  have "transform_loop ?T ?m 0 [] = transform_loop ?T ?m 1 [0x6B]"
    by (subst transform_loop.simps) (simp add: d k kelvin_bytes seqLen_eq)
  also have "\<dots> = transform_loop ?T ?m (Suc (Suc 0)) [0x6B, 0x84]"
    by (subst transform_loop.simps) (simp add: d nz rd_def)
  also have "\<dots> = transform_loop ?T ?m (Suc (Suc (Suc 0))) [0x6B, 0x84, 0xAA]"
    by (subst transform_loop.simps) (simp add: d nz rd_def)
  also have "\<dots> = Inr ([0x6B, 0x84, 0xAA] @ encode (map ?T ds))"
    using transform_loop_encode [of ds ?T "[0x6B, 0x84, 0xAA]" "[]" "[0x6B, 0x84, 0xAA]"] assms
    by simp
  finally show ?thesis by (simp add: toLowerCase_def transform_def)
qed

section \<open>Searching backwards\<close>

lemma int_cast_of_int:
  assumes "(of_nat n :: 32 word) = word_of_int k" and "- (2 ^ 31) \<le> k" and "k < 2 ^ 31"
  shows "int_cast n = k"
proof -
  have "sint (word_of_int k :: 32 word) = signed_take_bit 31 k"
    by (subst sint_sbintrunc') simp
  also have "\<dots> = k" using assms(2,3) by (simp add: signed_take_bit_int_eq_self)
  finally show ?thesis by (simp only: int_cast_def assms(1))
qed

lemma int_cast_small: "n < 2 ^ 31 \<Longrightarrow> int_cast n = int n"
  by (rule int_cast_of_int) simp_all

lemma int_cast_wrapped:
  assumes "0 < k" and "k \<le> 2 ^ 31"
  shows "int_cast (2 ^ 64 - k) < 0"
proof -
  have "(of_nat (2 ^ 64 - k) :: 32 word) = word_of_int (- int k)"
    using assms(2) by (simp add: of_nat_diff word_of_int_minus)
  then have "int_cast (2 ^ 64 - k) = - int k"
    by (rule int_cast_of_int) (use assms in simp_all)
  then show ?thesis using assms(1) by simp
qed

definition occurs :: "bytes \<Rightarrow> nat \<Rightarrow> bytes \<Rightarrow> nat \<Rightarrow> bool" where
  "occurs t lim a i \<longleftrightarrow> i + length a \<le> lim \<and> take (length a) (drop i t) = a"

lemma last_string_loop_spec:
  "let r = last_string_loop t a i in
     (r = npos \<and> (\<forall>j \<le> i. take (length a) (drop j t) \<noteq> a)) \<or>
     (r \<le> i \<and> take (length a) (drop r t) = a \<and> (\<forall>j. r < j \<and> j \<le> i \<longrightarrow> take (length a) (drop j t) \<noteq> a))"
proof (induction i)
  case 0
  then show ?case by (simp add: last_string_loop.simps)
next
  case (Suc i)
  then show ?case
    by (cases "take (length a) (drop (Suc i) t) = a")
      (auto simp: last_string_loop.simps [of t a "Suc i"] Let_def le_Suc_eq)
qed

lemma lastIndexOf_spec:
  assumes "str_ok s" and "slength s < 2 ^ 31" and "0 \<notin> set a" and "a \<noteq> []" and "length a < 2 ^ 31"
    and "from < slength s \<or> from = npos"
  defines "lim \<equiv> (if from = npos then slength s else Suc from)" and "r \<equiv> lastIndexOf s (a @ [0]) from"
  shows "(r = npos \<and> (\<forall>i. \<not> occurs (text_of s) lim a i)) \<or>
    (occurs (text_of s) lim a r \<and> (\<forall>i. r < i \<longrightarrow> \<not> occurs (text_of s) lim a i))"
proof -
  obtain t where t: "0 \<notin> set t" "c_str s = t @ [0]" "slength s = length t" "text_of s = t"
    using assms(1) by (rule str_okE)
  have ct: "cstr (t @ [0]) = t" "cstr (a @ [0]) = a" using t(1) assms(3) by (simp_all add: cstr_append_nul)
  have lim: "lim \<le> length t" using assms(6) t by (auto simp: lim_def)
  show ?thesis
  proof (cases "lim < length a")
    case True
    have "r = npos"
    proof (cases "lim = 0")
      case True
      then have "from = npos" "length t = 0" using t by (auto simp: lim_def split: if_splits)
      then show ?thesis
        using int_cast_wrapped [of 1]
        by (simp add: r_def lastIndexOf_def t size_add_def npos_def Let_def)
    next
      case False
      define k where "k = length a - lim"
      have from1: "(if from = npos \<or> from \<ge> slength s then size_add (slength s) npos else from) = lim - 1"
        using False t assms(2,6) by (auto simp: lim_def size_add_def npos_def mod_if)
      have from2: "(lim - 1 + 2 ^ 64 + 1 - strlen (a @ [0])) mod 2 ^ 64 = 2 ^ 64 - k"
        using False True assms(5) by (simp add: k_def strlen_def ct mod_if)
      have "int_cast (2 ^ 64 - k) < 0"
        using True assms(5) by (intro int_cast_wrapped) (auto simp: k_def)
      then show ?thesis
        unfolding r_def lastIndexOf_def Let_def from1 from2 by simp
    qed
    with True show ?thesis by (auto simp: occurs_def)
  next
    case False
    then have pos: "0 < lim" using assms(4) by (cases a) auto
    define i where "i = lim - length a"
    have from1: "(if from = npos \<or> from \<ge> slength s then size_add (slength s) npos else from) = lim - 1"
      using pos t assms(2,6) by (auto simp: lim_def size_add_def npos_def mod_if)
    have from2: "(lim - 1 + 2 ^ 64 + 1 - strlen (a @ [0])) mod 2 ^ 64 = i"
      using False pos lim t assms(2) by (simp add: i_def strlen_def ct mod_if)
    have "lim - 1 < 2 ^ 31" "i < 2 ^ 31" using lim t assms(2) by (auto simp: i_def)
    then have r: "r = last_string_loop t a i"
      unfolding r_def lastIndexOf_def Let_def from1 from2 by (simp add: int_cast_small t ct)
    have "i < npos" using \<open>i < 2 ^ 31\<close> by (simp add: npos_def)
    have occ: "occurs t lim a j \<longleftrightarrow> j \<le> i \<and> take (length a) (drop j t) = a" for j
      using False by (auto simp: occurs_def i_def)
    show ?thesis
      using last_string_loop_spec [of t a i] \<open>i < npos\<close> t(4)
      by (auto simp: Let_def occ r [symmetric])
  qed
qed

section \<open>Properties\<close>

text \<open>
  C32. \<open>tokenize\<close> splits a text at the delimiters, for every combination of its two flags:
  the tokens are the maximal pieces without a delimiter, between them the delimiters one by one
  when the flag asks for them. Without the other flag the empty pieces are left out; with it
  there is one between two delimiters that follow each other and one behind a delimiter at the
  end, but none before a delimiter at the start.\<close>

theorem tokenize_pieces:
  assumes "str_ok s"
  shows "map text_of (tokenize s (Some ds) rdl re) = tokens_of (is_delim ds) rdl re (text_of s)"
proof -
  obtain t where t: "0 \<notin> set t" "c_str s = t @ [0]" "slength s = length t" "text_of s = t"
    using assms by (rule str_okE)
  have p: "hd (pieces (is_delim ds) t) # tl (pieces (is_delim ds) t) = pieces (is_delim ds) t"
    by (rule list.collapse) simp
  show ?thesis
  proof (cases "t = []")
    case True
    then show ?thesis using t by (simp add: tokenize_def tokens_of_def Let_def)
  next
    case False
    then have "map text_of (tokenize s (Some ds) rdl re) = map text_of (tokenize_loop ds rdl re t [] False [])"
      using t by (simp add: tokenize_def cstr_append_nul)
    then show ?thesis
      using t(1,4) p tokenize_loop_tokens [of "[]" t False ds rdl re "[]"] by (simp add: tokens_of_def Let_def)
  qed
qed

theorem tokenize_pieces_witness:
  "map text_of (tokenize (String_of [0x2C, 0x61, 0x2C, 0x2C, 0]) (Some [0x2C, 0]) False False) = [[0x61]] \<and>
   map text_of (tokenize (String_of [0x2C, 0x61, 0x2C, 0x2C, 0]) (Some [0x2C, 0]) False True) = [[0x61], [], []] \<and>
   map text_of (tokenize (String_of [0x30, 0x2E, 0x2E, 0x31, 0]) (Some [0x2E, 0]) True False) =
     [[0x30], [0x2E], [0x2E], [0x31]] \<and>
   map text_of (tokenize (String_of [0x30, 0x2E, 0x2E, 0x31, 0]) (Some [0x2E, 0]) True True) =
     [[0x30], [0x2E], [], [0x2E], [0x31]]"
  unfolding tokenize_pieces [OF String_of_ok(1)]
  by (simp add: tokens_of_def is_delim_def cstr_def)

text \<open>
  Parts of a string that fits into memory: \<open>substring\<close> takes and \<open>erase\<close>
  removes the bytes they are asked for, up to the end of the text, and keep the class
  invariant, whenever the end of the part does not overflow.\<close>

theorem parts_of_text:
  assumes "str_ok s" and "fits s" and "i + n < 2 ^ 64 \<or> n = npos"
  shows "(\<exists>r. substring s i n = Inr r \<and> str_ok r \<and> text_of r = take n (drop i (text_of s))) \<and>
    (\<exists>r. erase s i n = Inr r \<and> str_ok r \<and> text_of r = take i (text_of s) @ drop (i + n) (text_of s))"
proof
  show "\<exists>r. substring s i n = Inr r \<and> str_ok r \<and> text_of r = take n (drop i (text_of s))"
    using assms(1,2) by (rule substring_text [where beginIndex = i and len = n]) (use assms(3) in auto)
  show "\<exists>r. erase s i n = Inr r \<and> str_ok r \<and> text_of r = take i (text_of s) @ drop (i + n) (text_of s)"
    using assms by (rule erase_text [where idx = i and len = n]) auto
qed

lemma digits_string:
  assumes "0 \<notin> set t"
  shows "str_ok (String_of (t @ [0]))" "text_of (String_of (t @ [0])) = t" "slength (String_of (t @ [0])) = length t"
proof -
  show "str_ok (String_of (t @ [0]))" "text_of (String_of (t @ [0])) = t"
    using assms by (simp_all add: cstr_append_nul)
  show "slength (String_of (t @ [0])) = length t"
    using assms by (simp add: cstr_append_nul slength_def String_of_def ByteBuf_of_def strlen_def)
qed

theorem parts_of_text_witness:
  "\<exists>r. erase (String_of ([1, 2, 3, 4, 5] @ [0])) 2 1 = Inr r \<and> text_of r = [1, 2, 4, 5]"
proof -
  note d = digits_string [of "[1, 2, 3, 4, 5]"]
  have "str_ok (String_of ([1, 2, 3, 4, 5] @ [0]))" "fits (String_of ([1, 2, 3, 4, 5] @ [0]))"
    using d by (simp_all add: fits_def)
  from parts_of_text [OF this, of 2 1] obtain r where
    "erase (String_of ([1, 2, 3, 4, 5] @ [0])) 2 1 = Inr r" and r: "text_of r =
      take 2 (text_of (String_of ([1, 2, 3, 4, 5] @ [0]))) @
      drop (2 + 1) (text_of (String_of ([1, 2, 3, 4, 5] @ [0])))" by auto
  moreover have "text_of r = [1, 2, 4, 5]" unfolding r using d(2) by simp
  ultimately show ?thesis by blast
qed

text \<open>
  When start and length add up to \<open>2 ^ 64\<close> or more, the sum wraps: \<open>substring\<close>
  asks for an impossible amount of memory, and \<open>erase\<close> erases nothing but appends a
  part of the text that it has kept already, so the string grows.\<close>

theorem erase_wraps:
  assumes "str_ok s" and "fits s" and "i < slength s" and "n < npos" and "2 ^ 64 \<le> i + n"
  shows "substring s i n = Inl BadAlloc \<and>
    (\<exists>r. erase s i n = Inr r \<and> str_ok r \<and>
      text_of r = take i (text_of s) @ drop (i + n - 2 ^ 64) (text_of s) \<and>
      length (text_of s) < length (text_of r))"
proof
  show "substring s i n = Inl BadAlloc"
    using assms by (intro substring_wraps)
  have i: "i < length (text_of s)" using assms(1,3) by (auto elim: str_okE)
  obtain r where r: "erase s i n = Inr r" "str_ok r"
    "text_of r = take i (text_of s) @ drop (i + n - 2 ^ 64) (text_of s)"
    using assms(1,3,2,4,5) by (rule erase_wraps_text)
  moreover have "length (text_of s) < length (text_of r)"
    unfolding r(3) using i assms(4,5) by (simp add: npos_def)
  ultimately show "\<exists>r. erase s i n = Inr r \<and> str_ok r \<and>
      text_of r = take i (text_of s) @ drop (i + n - 2 ^ 64) (text_of s) \<and>
      length (text_of s) < length (text_of r)" by blast
qed

theorem erase_wraps_witness:
  "\<exists>r. erase (String_of ([1, 2, 3, 4, 5] @ [0])) 3 (2 ^ 64 - 2) = Inr r \<and> text_of r = [1, 2, 3, 2, 3, 4, 5]"
proof -
  note d = digits_string [of "[1, 2, 3, 4, 5]"]
  have "str_ok (String_of ([1, 2, 3, 4, 5] @ [0]))" "fits (String_of ([1, 2, 3, 4, 5] @ [0]))"
    "3 < slength (String_of ([1, 2, 3, 4, 5] @ [0]))"
    using d by (simp_all add: fits_def)
  from erase_wraps [OF this, of "2 ^ 64 - 2"] obtain r where
    "erase (String_of ([1, 2, 3, 4, 5] @ [0])) 3 (2 ^ 64 - 2) = Inr r" and r: "text_of r =
      take 3 (text_of (String_of ([1, 2, 3, 4, 5] @ [0]))) @
      drop (3 + (2 ^ 64 - 2) - 2 ^ 64) (text_of (String_of ([1, 2, 3, 4, 5] @ [0])))"
    by (auto simp: npos_def)
  moreover have "text_of r = [1, 2, 3, 2, 3, 4, 5]" unfolding r using d(2) by simp
  ultimately show ?thesis by blast
qed

text \<open>
  \<open>trim\<close> removes the spaces at both ends; \<open>rtrim\<close> removes those at the end,
  but on a string of nothing but spaces it reads the byte in front of the buffer.\<close>

theorem trim_removes_spaces:
  assumes "str_ok s" and "fits s"
  shows "(\<exists>r. trim s = Inr r \<and> str_ok r \<and>
      text_of r = rev (dropWhile isspace (rev (dropWhile isspace (text_of s))))) \<and>
    (if text_of s \<noteq> [] \<and> list_all isspace (text_of s) then rtrim s = Inl OutOfBounds
     else \<exists>r. rtrim s = Inr r \<and> str_ok r \<and> text_of r = rev (dropWhile isspace (rev (text_of s))))"
proof
  show "\<exists>r. trim s = Inr r \<and> str_ok r \<and>
      text_of r = rev (dropWhile isspace (rev (dropWhile isspace (text_of s))))"
    using trim_text [OF assms] by (simp add: strip_end_def)
  have "strip_end (text_of s) = [] \<longleftrightarrow> list_all isspace (text_of s)"
    by (simp add: strip_end_def list_all_iff)
  then show "if text_of s \<noteq> [] \<and> list_all isspace (text_of s) then rtrim s = Inl OutOfBounds
     else \<exists>r. rtrim s = Inr r \<and> str_ok r \<and> text_of r = rev (dropWhile isspace (rev (text_of s)))"
    using rtrim_text [OF assms] unfolding strip_end_def by auto
qed

theorem trim_removes_spaces_witness:
  "(\<exists>r. trim (String_of ([0x20, 0x41, 0x20] @ [0])) = Inr r \<and> text_of r = [0x41]) \<and>
   rtrim (String_of ([0x20, 0x09] @ [0])) = Inl OutOfBounds"
proof
  note d = digits_string [of "[0x20, 0x41, 0x20]"] digits_string [of "[0x20, 0x09]"]
  have "\<exists>r. trim (String_of ([0x20, 0x41, 0x20] @ [0])) = Inr r \<and> str_ok r \<and>
      text_of r = rev (dropWhile isspace (rev (dropWhile isspace [0x20, 0x41, 0x20])))"
    using trim_removes_spaces [of "String_of ([0x20, 0x41, 0x20] @ [0])"] d(1-3)
    by (simp add: fits_def)
  then show "\<exists>r. trim (String_of ([0x20, 0x41, 0x20] @ [0])) = Inr r \<and> text_of r = [0x41]"
    by (auto simp: isspace_def)
  show "rtrim (String_of ([0x20, 0x09] @ [0])) = Inl OutOfBounds"
    using trim_removes_spaces [of "String_of ([0x20, 0x09] @ [0])"] d(4-6)
    by (simp add: fits_def isspace_def)
qed

text \<open>
  \<open>toLowerCase\<close> of a string: when no character but the last one gets shorter the
  text is the lower-case text, but the stored length is the one before. So the class
  invariant breaks when the last character gets shorter.\<close>

theorem toLowerCase_keeps_length:
  assumes "\<And>c. c \<in> set cs \<Longrightarrow> text_char c"
    and "\<And>c. c \<in> set (butlast cs) \<Longrightarrow> UTF8CharLen (Transformer lowerMappings c) = UTF8CharLen c"
  shows "\<exists>r. String_toLowerCase (String_of (encode cs @ [0])) = Inr r \<and>
    text_of r = encode (map (Transformer lowerMappings) cs) \<and> slength r = length (encode cs) \<and>
    (str_ok r \<longrightarrow> length (encode (map (Transformer lowerMappings) cs)) = length (encode cs))"
proof -
  obtain r where r: "String_toLowerCase (String_of (encode cs @ [0])) = Inr r"
    "text_of r = encode (map (Transformer lowerMappings) cs)" "slength r = length (encode cs)"
    using assms by (rule toLowerCase_in_place)
  moreover have "slength r = length (text_of r)" if "str_ok r"
    using that by (rule str_okE) simp
  ultimately show ?thesis by auto
qed

theorem toLowerCase_keeps_length_witness:
  "\<exists>r. String_toLowerCase (String_of (encode [0x212A] @ [0])) = Inr r \<and>
    text_of r = [0x6B] \<and> slength r = 3 \<and> \<not> str_ok r"
proof -
  have "\<exists>r. String_toLowerCase (String_of (encode [0x212A] @ [0])) = Inr r \<and>
    text_of r = encode (map (Transformer lowerMappings) [0x212A]) \<and> slength r = length (encode [0x212A]) \<and>
    (str_ok r \<longrightarrow> length (encode (map (Transformer lowerMappings) [0x212A])) = length (encode [0x212A]))"
    by (rule toLowerCase_keeps_length) (simp_all add: text_char_def)
  then show ?thesis by (auto simp: Transformer_kelvin kelvin_bytes)
qed

text \<open>
  When a character that gets shorter is followed by text, \<open>toLowerCase\<close> corrupts the
  string: the in-place conversion gives up after it has overwritten the character, and the
  other conversion starts from the remains. The Kelvin sign becomes \<open>k\<close> and two stray bytes.\<close>

theorem toLowerCase_corrupts_text:
  assumes "\<And>c. c \<in> set ds \<Longrightarrow> text_char c" and "ds \<noteq> []"
  shows "\<exists>r. String_toLowerCase (String_of (encode (0x212A # ds) @ [0])) = Inr r \<and>
    text_of r = [0x6B, 0x84, 0xAA] @ encode (map (Transformer lowerMappings) ds) \<and>
    encode (map (Transformer lowerMappings) (0x212A # ds)) =
      [0x6B] @ encode (map (Transformer lowerMappings) ds)"
proof -
  let ?r = "[0x6B, 0x84, 0xAA] @ encode (map (Transformer lowerMappings) ds)"
  have nul: "0 \<notin> set (encode (0x212A # ds))"
    by (rule encode_no_nul) (use assms(1) in \<open>auto simp: text_char_def\<close>)
  have "0 \<notin> set (encode (map (Transformer lowerMappings) ds))"
    using assms(1) lower_text_char by (intro encode_no_nul) auto
  then have r: "cstr (?r @ [0]) = ?r" by (intro cstr_append_nul) simp
  have "String_toLowerCase (String_of (encode (0x212A # ds) @ [0])) = Inr (String_of (?r @ [0]))"
    using cstr_append_nul [OF nul, of "[]"] kelvin_in_place [OF assms] kelvin_again [OF assms(1)]
    by (simp add: String_toLowerCase_def String_of_def ByteBuf_of_def case_result_def
        del: encode_simps append.simps)
  moreover have "text_of (String_of (?r @ [0])) = ?r" using r by simp
  moreover have "encode (map (Transformer lowerMappings) (0x212A # ds)) =
      [0x6B] @ encode (map (Transformer lowerMappings) ds)"
    by (simp add: Transformer_kelvin kelvin_bytes)
  ultimately show ?thesis by blast
qed

theorem toLowerCase_corrupts_text_witness:
  "\<exists>r. String_toLowerCase (String_of ([0xE2, 0x84, 0xAA, 0x62] @ [0])) = Inr r \<and>
    text_of r = [0x6B, 0x84, 0xAA] @ encode [Transformer lowerMappings 0x62]"
proof -
  have "encode (0x212A # [0x62]) = [0xE2, 0x84, 0xAA, 0x62]"
    by (simp add: kelvin_bytes) (simp add: UCS4toUTF8_def)
  moreover have "\<exists>r. String_toLowerCase (String_of (encode (0x212A # [0x62]) @ [0])) = Inr r \<and>
    text_of r = [0x6B, 0x84, 0xAA] @ encode (map (Transformer lowerMappings) [0x62]) \<and>
    encode (map (Transformer lowerMappings) (0x212A # [0x62])) =
      [0x6B] @ encode (map (Transformer lowerMappings) [0x62])"
    by (rule toLowerCase_corrupts_text) (simp_all add: text_char_def)
  ultimately show ?thesis by auto
qed

text \<open>
  The search backwards finds the last occurrence that ends at or before the given
  position, in strings shorter than \<open>2 ^ 31\<close>.\<close>

theorem lastIndexOf_last:
  assumes "str_ok s" and "slength s < 2 ^ 31" and "0 \<notin> set a" and "a \<noteq> []" and "length a < 2 ^ 31"
    and "from < slength s"
  shows "(lastIndexOf s (a @ [0]) from = npos \<and> (\<forall>i. \<not> occurs (text_of s) (Suc from) a i)) \<or>
    (occurs (text_of s) (Suc from) a (lastIndexOf s (a @ [0]) from) \<and>
     (\<forall>i > lastIndexOf s (a @ [0]) from. \<not> occurs (text_of s) (Suc from) a i))"
  using lastIndexOf_spec [OF assms(1-5), of "from"] assms(2,6) by (simp add: npos_def)

theorem lastIndexOf_last_witness:
  "lastIndexOf (String_of ([1, 2, 1, 2, 1] @ [0])) ([1, 2] @ [0]) 4 = 2"
proof -
  let ?s = "String_of ([1, 2, 1, 2, 1] @ [0])" and ?r = "lastIndexOf (String_of ([1, 2, 1, 2, 1] @ [0])) ([1, 2] @ [0]) 4"
  have t: "str_ok ?s" "text_of ?s = [1, 2, 1, 2, 1]" "slength ?s = 5"
    using digits_string [of "[1, 2, 1, 2, 1]"] by simp_all
  have "(?r = npos \<and> (\<forall>i. \<not> occurs [1, 2, 1, 2, 1] 5 [1, 2] i)) \<or>
    (occurs [1, 2, 1, 2, 1] 5 [1, 2] ?r \<and> (\<forall>i > ?r. \<not> occurs [1, 2, 1, 2, 1] 5 [1, 2] i))"
    using lastIndexOf_last [OF t(1), of "[1, 2]" 4] t(2,3) by simp
  moreover have two: "occurs [1, 2, 1, 2, 1] 5 [1, 2] 2" by (simp add: occurs_def)
  ultimately have r: "occurs [1, 2, 1, 2, 1] 5 [1, 2] ?r" "\<not> ?r < 2" by blast+
  then have "?r \<le> 3" by (simp add: occurs_def)
  moreover have "?r \<noteq> 3" using r(1) by (auto simp: occurs_def)
  ultimately show ?thesis using r(2) by linarith
qed

text \<open>
  The hash uses 28 bits only.\<close>

theorem hashCode_28_bits: "and (hashCode s) 0xf0000000 = 0"
  by (rule hashCode_bits)

end
