(* ===== verification/Strings_Numbers.thy ===== *)
theory Strings_Numbers
  imports Strings_Props UTF8_Compare_Props
begin

text \<open>
  Conversions of a \<open>String\<close> to integers and to a truth value: \<open>strtoll\<close> and
  \<open>strtoull\<close> of \<open>String.cpp\<close>, the range check around them, and the printing of
  integers. \<open>long\<close> and \<open>long long\<close> have 64 bits, as on the 64-bit targets of the library;
  \<open>strtol\<close> and \<open>strtoul\<close> of the C library are the same functions there.
\<close>

section \<open>Reading digits\<close>

definition isdigit :: "u8 \<Rightarrow> bool" where "isdigit c \<longleftrightarrow> 0x30 \<le> c \<and> c \<le> 0x39"
definition isupper :: "u8 \<Rightarrow> bool" where "isupper c \<longleftrightarrow> 0x41 \<le> c \<and> c \<le> 0x5A"
definition isalpha :: "u8 \<Rightarrow> bool" where "isalpha c \<longleftrightarrow> isupper c \<or> (0x61 \<le> c \<and> c \<le> 0x7A)"

definition digit_value :: "u8 \<Rightarrow> nat option" where
  "digit_value c =
     (if isdigit c then Some (unat c - 0x30)
      else if isalpha c then Some (unat c - (if isupper c then 0x41 - 10 else 0x61 - 10))
      else None)"

text \<open>
  The common prefix of both functions: white space, a sign, and the base. The result is the
  sign, the base and the rest of the text.
\<close>

definition strto_prefix :: "bytes \<Rightarrow> nat \<Rightarrow> bool \<times> nat \<times> bytes" where
  "strto_prefix nptr base =
     (let s = dropWhile isspace nptr;
          (neg, s1) = (case s of c # r \<Rightarrow>
             if c = 0x2D then (True, r) else if c = 0x2B then (False, r) else (False, s) | [] \<Rightarrow> (False, s));
          hex = ((base = 0 \<or> base = 16) \<and> length s1 > 1 \<and> s1 ! 0 = 0x30 \<and> (s1 ! 1 = 0x78 \<or> s1 ! 1 = 0x58));
          s2 = (if hex then drop 2 s1 else s1);
          base1 = (if hex then 16 else base);
          base2 = (if base1 = 0 then if s2 \<noteq> [] \<and> hd s2 = 0x30 then 8 else 10 else base1)
      in (neg, base2, s2))"

definition ULLONG_MAX :: nat where "ULLONG_MAX = 2 ^ 64 - 1"
definition LLONG_MAX :: int where "LLONG_MAX = 2 ^ 63 - 1"
definition LLONG_MIN :: int where "LLONG_MIN = - (2 ^ 63)"

text \<open>\<open>any\<close> is 0 before the first digit, -1 after an overflow, 1 otherwise.\<close>

fun ull_loop :: "nat \<Rightarrow> bytes \<Rightarrow> nat \<Rightarrow> int \<Rightarrow> nat \<times> int \<times> bytes" where
  "ull_loop base [] acc any = (acc, any, [])"
| "ull_loop base (c # s) acc any = (case digit_value c of
     None \<Rightarrow> (acc, any, c # s)
   | Some d \<Rightarrow>
       if d \<ge> base then (acc, any, c # s)
       else if any < 0 then ull_loop base s acc any
       else if acc > ULLONG_MAX div base \<or> (acc = ULLONG_MAX div base \<and> d > ULLONG_MAX mod base)
         then ull_loop base s ULLONG_MAX (-1)
       else ull_loop base s ((acc * base + d) mod 2 ^ 64) 1)"

text \<open>The value, what the end pointer points to, and whether \<open>errno\<close> is \<open>ERANGE\<close>.\<close>

definition strtoull :: "bytes \<Rightarrow> nat \<Rightarrow> nat \<times> bytes \<times> bool" where
  "strtoull nptr base =
     (let (neg, base2, s) = strto_prefix nptr base; (acc, any, rest) = ull_loop base2 s 0 0 in
      (if neg \<and> any > 0 then (2 ^ 64 - acc) mod 2 ^ 64 else acc,
       if any \<noteq> 0 then rest else nptr, any < 0))"

text \<open>The cutoff of \<open>strtoll\<close>, with the division of C, which truncates towards zero.\<close>

definition ll_cutoff :: "bool \<Rightarrow> int \<Rightarrow> int \<times> int" where
  "ll_cutoff neg base =
     (if neg then
        let cutlim = - ((- LLONG_MIN) mod base); cutoff = - ((- LLONG_MIN) div base) in
        if cutlim > 0 then (cutoff + 1, - (cutlim - base)) else (cutoff, - cutlim)
      else (LLONG_MAX div base, LLONG_MAX mod base))"

fun ll_loop :: "bool \<Rightarrow> int \<Rightarrow> bytes \<Rightarrow> int \<Rightarrow> int \<Rightarrow> int \<times> int \<times> bytes" where
  "ll_loop neg base [] acc any = (acc, any, [])"
| "ll_loop neg base (c # s) acc any = (case digit_value c of
     None \<Rightarrow> (acc, any, c # s)
   | Some d \<Rightarrow>
       (let (cutoff, cutlim) = ll_cutoff neg base in
        if int d \<ge> base then (acc, any, c # s)
        else if any < 0 then ll_loop neg base s acc any
        else if neg then
          if acc < cutoff \<or> (acc = cutoff \<and> int d > cutlim) then ll_loop neg base s LLONG_MIN (-1)
          else ll_loop neg base s (acc * base - int d) 1
        else
          if acc > cutoff \<or> (acc = cutoff \<and> int d > cutlim) then ll_loop neg base s LLONG_MAX (-1)
          else ll_loop neg base s (acc * base + int d) 1))"

definition strtoll :: "bytes \<Rightarrow> nat \<Rightarrow> int \<times> bytes \<times> bool" where
  "strtoll nptr base =
     (let (neg, base2, s) = strto_prefix nptr base; (acc, any, rest) = ll_loop neg (int base2) s 0 0 in
      (acc, if any \<noteq> 0 then rest else nptr, any < 0))"

section \<open>Conversions of a string\<close>

text \<open>
  \<open>doConvertToIntType\<close>: the conversion must use the whole text, not overflow, and not
  change when it is cast to the \<open>w\<close>-bit result and back.
\<close>

definition convertToUIntType :: "nat \<Rightarrow> String \<Rightarrow> bytes \<Rightarrow> nat \<Rightarrow> string_error + nat" where
  "convertToUIntType w m_buf type base =
     (if m_buf \<noteq> None \<and> slength m_buf > 0 then
        (let (v, endptr, erange) = strtoull (c_str m_buf) base; rv = v mod 2 ^ w in
         if (endptr \<noteq> [] \<and> hd endptr \<noteq> 0) \<or> erange \<or> rv \<noteq> v
         then Inl (StringConversionException (text_of m_buf) type) else Inr rv)
      else Inl (StringConversionException [] type))"

definition signed_wrap :: "nat \<Rightarrow> int \<Rightarrow> int" where
  "signed_wrap w v = signed_take_bit (w - 1) v"

definition convertToIntType :: "nat \<Rightarrow> String \<Rightarrow> bytes \<Rightarrow> nat \<Rightarrow> string_error + int" where
  "convertToIntType w m_buf type base =
     (if m_buf \<noteq> None \<and> slength m_buf > 0 then
        (let (v, endptr, erange) = strtoll (c_str m_buf) base; rv = signed_wrap w v in
         if (endptr \<noteq> [] \<and> hd endptr \<noteq> 0) \<or> erange \<or> rv \<noteq> v
         then Inl (StringConversionException (text_of m_buf) type) else Inr rv)
      else Inl (StringConversionException [] type))"

definition toUInt8 where "toUInt8 s base = convertToUIntType 8 s [0x55, 0x49, 0x6E, 0x74, 0x38] base"
definition toUInt16 where "toUInt16 s base = convertToUIntType 16 s [0x55, 0x49, 0x6E, 0x74, 0x31, 0x36] base"
definition toUInt32 where "toUInt32 s base = convertToUIntType 32 s [0x55, 0x49, 0x6E, 0x74, 0x33, 0x32] base"
definition toUInt64 where "toUInt64 s base = convertToUIntType 64 s [0x55, 0x49, 0x6E, 0x74, 0x36, 0x34] base"
definition toInt8 where "toInt8 s base = convertToIntType 8 s [0x49, 0x6E, 0x74, 0x38] base"
definition toInt16 where "toInt16 s base = convertToIntType 16 s [0x49, 0x6E, 0x74, 0x31, 0x36] base"
definition toInt32 where "toInt32 s base = convertToIntType 32 s [0x49, 0x6E, 0x74, 0x33, 0x32] base"
definition toInt64 where "toInt64 s base = convertToIntType 64 s [0x49, 0x6E, 0x74, 0x36, 0x34] base"

definition equalsIgnoreCase :: "String \<Rightarrow> bytes \<Rightarrow> (utf8_error + bool) option" where
  "equalsIgnoreCase s arg = map_option (\<lambda>r. rbind r (\<lambda>n. Inr (n = 0))) (compareToIgnoreCase (c_str s) arg)"

definition true_text :: bytes where "true_text = [0x74, 0x72, 0x75, 0x65]"
definition false_text :: bytes where "false_text = [0x66, 0x61, 0x6C, 0x73, 0x65]"
definition bool_text :: bytes where "bool_text = [0x62, 0x6F, 0x6F, 0x6C]"

definition toBool :: "String \<Rightarrow> (string_error + bool) option" where
  "toBool s = (case equalsIgnoreCase s (true_text @ [0]) of
       None \<Rightarrow> None | Some (Inl e) \<Rightarrow> Some (Inl (CaseError e)) | Some (Inr True) \<Rightarrow> Some (Inr True)
     | Some (Inr False) \<Rightarrow> (case equalsIgnoreCase s (false_text @ [0]) of
         None \<Rightarrow> None | Some (Inl e) \<Rightarrow> Some (Inl (CaseError e)) | Some (Inr True) \<Rightarrow> Some (Inr False)
       | Some (Inr False) \<Rightarrow> Some (Inl (StringConversionException (cstr (c_str s)) bool_text))))"

section \<open>Printing\<close>

text \<open>What \<open>snprintf\<close> writes for \<open>%u\<close> and \<open>%d\<close>.\<close>

fun print_nat :: "nat \<Rightarrow> bytes" where
  "print_nat n = (if n < 10 then [of_nat (0x30 + n)] else print_nat (n div 10) @ [of_nat (0x30 + n mod 10)])"

declare print_nat.simps [simp del]

definition print_int :: "int \<Rightarrow> bytes" where
  "print_int i = (if i < 0 then 0x2D # print_nat (nat (- i)) else print_nat (nat i))"

definition String_of_UInt32 :: "u32 \<Rightarrow> String" where
  "String_of_UInt32 val = Some \<lparr>m_len = length (print_nat (unat val)), m_data = print_nat (unat val) @ [0]\<rparr>"

definition String_of_Int32 :: "i32 \<Rightarrow> String" where
  "String_of_Int32 val = Some \<lparr>m_len = length (print_int (sint val)), m_data = print_int (sint val) @ [0]\<rparr>"

definition String_of_UInt64 :: "u64 \<Rightarrow> String" where
  "String_of_UInt64 val = String_of (print_nat (unat val) @ [0])"

definition String_of_Int64 :: "u64 \<Rightarrow> String" where
  "String_of_Int64 val = String_of (print_int (sint val) @ [0])"

section \<open>The value of a numeral\<close>

text \<open>The reference: a nonempty list of digits below the base, and its value.\<close>

definition numeral_ok :: "nat \<Rightarrow> bytes \<Rightarrow> bool" where
  "numeral_ok base t \<longleftrightarrow> t \<noteq> [] \<and> list_all (\<lambda>c. case digit_value c of Some d \<Rightarrow> d < base | None \<Rightarrow> False) t"

definition numeral_value :: "nat \<Rightarrow> bytes \<Rightarrow> nat" where
  "numeral_value base t = foldl (\<lambda>a c. a * base + the (digit_value c)) 0 t"

abbreviation digit_at :: "nat \<Rightarrow> u8 \<Rightarrow> bool" where
  "digit_at base c \<equiv> (case digit_value c of Some d \<Rightarrow> d < base | None \<Rightarrow> False)"

definition value_from :: "nat \<Rightarrow> nat \<Rightarrow> bytes \<Rightarrow> nat" where
  "value_from base a t = foldl (\<lambda>a c. a * base + the (digit_value c)) a t"

lemma value_from_simps [simp]:
  "value_from base a [] = a"
  "value_from base a (c # t) = value_from base (a * base + the (digit_value c)) t"
  by (simp_all add: value_from_def)

lemma value_from_ge: "0 < base \<Longrightarrow> a \<le> value_from base a t"
proof (induction t arbitrary: a)
  case (Cons c t)
  have "a \<le> a * base + the (digit_value c)" using Cons.prems by (simp add: trans_le_add1)
  also have "\<dots> \<le> value_from base (a * base + the (digit_value c)) t" by (rule Cons.IH [OF Cons.prems])
  finally show ?case by simp
qed simp

lemma cutoff_nat:
  fixes a b d M :: nat
  assumes "d < b"
  shows "(a > M div b \<or> (a = M div b \<and> d > M mod b)) \<longleftrightarrow> a * b + d > M"
proof -
  have M: "M = (M div b) * b + M mod b" by simp
  consider "a < M div b" | "a = M div b" | "a > M div b" by linarith
  then show ?thesis
  proof cases
    case 1
    then have "(a + 1) * b \<le> (M div b) * b" by (intro mult_le_mono1) simp
    also have "\<dots> \<le> M" by (rule div_times_less_eq_dividend)
    finally show ?thesis using 1 assms by simp
  next
    case 2
    with M show ?thesis by (metis add_less_cancel_left less_irrefl)
  next
    case 3
    then have "(M div b + 1) * b \<le> a * b" by (intro mult_le_mono1) simp
    moreover have "M < b + (M div b) * b" using assms by (intro dividend_less_div_times) simp
    ultimately show ?thesis using 3 by simp
  qed
qed

lemma digit_value_nul [simp]: "digit_value 0 = None"
  by (simp add: digit_value_def isdigit_def isalpha_def isupper_def)

lemma ull_loop_overflowed: "list_all (digit_at base) t \<Longrightarrow> ull_loop base (t @ [0]) acc (-1) = (acc, -1, [0])"
  by (induction t) (auto split: option.splits)

lemma ull_step:
  assumes "digit_value c = Some d" and "d < base" and "0 \<le> any"
  shows "ull_loop base (c # s) acc any =
    (if acc * base + d > ULLONG_MAX then ull_loop base s ULLONG_MAX (-1)
     else ull_loop base s (acc * base + d) 1)"
proof -
  have "ull_loop base (c # s) acc any =
    (if acc * base + d > ULLONG_MAX then ull_loop base s ULLONG_MAX (-1)
     else ull_loop base s ((acc * base + d) mod 2 ^ 64) 1)"
    unfolding cutoff_nat [OF assms(2), where a = acc and M = ULLONG_MAX, symmetric] using assms by simp
  moreover have "(acc * base + d) mod 2 ^ 64 = acc * base + d" if "\<not> acc * base + d > ULLONG_MAX"
    using that by (intro mod_less) (simp add: ULLONG_MAX_def)
  ultimately show ?thesis by simp
qed

lemma ull_loop_value:
  assumes "list_all (digit_at base) t" and "acc < 2 ^ 64" and "0 \<le> any" and "0 < base"
  shows "ull_loop base (t @ [0]) acc any =
    (if value_from base acc t < 2 ^ 64 then (value_from base acc t, if t = [] then any else 1, [0])
     else (ULLONG_MAX, -1, [0]))"
  using assms
proof (induction t arbitrary: acc any)
  case (Cons c t)
  then obtain d where d: "digit_value c = Some d" "d < base" by (auto split: option.splits)
  show ?case
  proof (cases "acc * base + d > ULLONG_MAX")
    case True
    with value_from_ge [of base "acc * base + d" t] Cons.prems(4)
    have "\<not> value_from base (acc * base + d) t < 2 ^ 64" by (simp add: ULLONG_MAX_def)
    then show ?thesis
      using True d Cons.prems by (simp add: ull_step [OF d] ull_loop_overflowed del: ull_loop.simps)
  next
    case False
    then have "acc * base + d < 2 ^ 64" by (simp add: ULLONG_MAX_def)
    then show ?thesis
      using False d Cons.prems Cons.IH [of "acc * base + d" 1]
      by (simp add: ull_step [OF d] del: ull_loop.simps)
  qed
qed simp

text \<open>The sign of the accumulated value is that of the number.\<close>

lemma ll_loop_overflowed:
  "list_all (digit_at base) t \<Longrightarrow> ll_loop neg (int base) (t @ [0]) acc (-1) = (acc, -1, [0])"
  by (induction t) (auto split: option.splits prod.splits)

definition ll_limit :: "bool \<Rightarrow> nat" where
  "ll_limit neg = (if neg then 2 ^ 63 else 2 ^ 63 - 1)"

definition signed_value :: "bool \<Rightarrow> nat \<Rightarrow> int" where
  "signed_value neg a = (if neg then - int a else int a)"

lemma ll_cut:
  assumes "d < base"
  shows "(if neg then signed_value neg a < fst (ll_cutoff neg (int base)) else signed_value neg a > fst (ll_cutoff neg (int base))) \<or>
      (signed_value neg a = fst (ll_cutoff neg (int base)) \<and> int d > snd (ll_cutoff neg (int base))) \<longleftrightarrow>
    a * base + d > ll_limit neg"
proof -
  have "0 \<le> 2 ^ 63 mod int base" using assms by (intro pos_mod_sign) simp
  then have cut: "ll_cutoff neg (int base) = (signed_value neg (ll_limit neg div base), int (ll_limit neg mod base))"
    by (simp add: ll_cutoff_def LLONG_MIN_def LLONG_MAX_def signed_value_def ll_limit_def Let_def zdiv_int zmod_int
        of_nat_diff)
  show ?thesis
    unfolding cut cutoff_nat [OF assms, symmetric] by (auto simp: signed_value_def)
qed

lemma ll_step:
  assumes "digit_value c = Some d" and "d < base" and "0 \<le> any"
  shows "ll_loop neg (int base) (c # s) (signed_value neg a) any =
    (if a * base + d > ll_limit neg then ll_loop neg (int base) s (signed_value neg (ll_limit neg)) (-1)
     else ll_loop neg (int base) s (signed_value neg (a * base + d)) 1)"
proof -
  have "signed_value True (ll_limit True) = LLONG_MIN" "signed_value False (ll_limit False) = LLONG_MAX"
    by (simp_all add: signed_value_def ll_limit_def LLONG_MIN_def LLONG_MAX_def)
  then show ?thesis
    using ll_cut [OF assms(2), of neg a] assms
    by (cases neg) (auto simp: case_prod_beta Let_def signed_value_def)
qed

lemma ll_loop_value:
  assumes "list_all (digit_at base) t" and "0 \<le> any" and "0 < base"
    and "a \<le> ll_limit neg"
  shows "ll_loop neg (int base) (t @ [0]) (signed_value neg a) any =
    (if value_from base a t \<le> ll_limit neg then (signed_value neg (value_from base a t), if t = [] then any else 1, [0])
     else (signed_value neg (ll_limit neg), -1, [0]))"
  using assms
proof (induction t arbitrary: a any)
  case (Cons c t)
  then obtain d where d: "digit_value c = Some d" "d < base" by (auto split: option.splits)
  show ?case
  proof (cases "a * base + d > ll_limit neg")
    case True
    with value_from_ge [of base "a * base + d" t] Cons.prems(3)
    have "\<not> value_from base (a * base + d) t \<le> ll_limit neg" by simp
    then show ?thesis
      using True d Cons.prems by (simp add: ll_step [OF d] ll_loop_overflowed del: ll_loop.simps)
  next
    case False
    then show ?thesis
      using d Cons.prems Cons.IH [of 1 "a * base + d"] by (simp add: ll_step [OF d] del: ll_loop.simps)
  qed
qed simp

section \<open>The conversions on numerals\<close>

text \<open>A character that is a digit is no space, sign or terminator.\<close>

lemma digit_not_special:
  assumes "digit_value c = Some d"
  shows "\<not> isspace c" "c \<noteq> 0x2D" "c \<noteq> 0x2B" "c \<noteq> 0"
proof -
  have "isdigit c \<or> isalpha c" using assms by (auto simp: digit_value_def split: if_splits)
  then have "0x30 \<le> c" by (auto simp: isdigit_def isalpha_def isupper_def word_le_nat_alt)
  then show "\<not> isspace c" "c \<noteq> 0x2D" "c \<noteq> 0x2B" "c \<noteq> 0"
    by (auto simp: isspace_def word_le_nat_alt)
qed

lemma x_not_hex: "digit_value c = Some d \<Longrightarrow> d < 16 \<Longrightarrow> c \<noteq> 0x78 \<and> c \<noteq> 0x58"
  by (auto simp: digit_value_def isdigit_def isalpha_def isupper_def split: if_splits)

definition sign_text :: "bool \<Rightarrow> bytes" where
  "sign_text neg = (if neg then [0x2D] else [])"

lemma strto_prefix_numeral:
  assumes "numeral_ok base t" and "base \<noteq> 0"
  shows "strto_prefix (sign_text neg @ t @ [0]) base = (neg, base, t @ [0])"
proof -
  obtain c r where t: "t = c # r" using assms(1) by (cases t) (auto simp: numeral_ok_def)
  then obtain d where d: "digit_value c = Some d"
    using assms(1) by (auto simp: numeral_ok_def split: option.splits)
  note c = digit_not_special [OF d]
  have "(r @ [0]) ! 0 \<noteq> 0x78 \<and> (r @ [0]) ! 0 \<noteq> 0x58" if "base = 16"
    using assms(1) that t x_not_hex
    by (cases r) (auto simp: numeral_ok_def split: option.splits)
  moreover have "\<not> isspace 0x2D" by (simp add: isspace_def)
  ultimately show ?thesis
    using c assms(2) by (auto simp: strto_prefix_def sign_text_def t Let_def)
qed

lemma numeral_string:
  fixes neg :: bool
  assumes "numeral_ok base t"
  defines "s \<equiv> String_of (sign_text neg @ t @ [0])"
  shows "c_str s = sign_text neg @ t @ [0]" "slength s > 0" "s \<noteq> None"
    "text_of s = sign_text neg @ t"
proof -
  have "0 \<notin> set t"
    using assms(1) by (auto simp: numeral_ok_def list_all_iff split: option.splits)
  then have "0 \<notin> set (sign_text neg @ t)" by (simp add: sign_text_def)
  from cstr_append_nul [OF this, of "[]"] show "c_str s = sign_text neg @ t @ [0]" "slength s > 0"
    "s \<noteq> None" "text_of s = sign_text neg @ t"
    using assms(1) by (simp_all add: s_def String_of_def ByteBuf_of_def c_str_def slength_def
        strlen_def text_of_def numeral_ok_def)
qed

lemma numeral_value_from: "numeral_value base t = value_from base 0 t"
  by (simp add: numeral_value_def value_from_def)

lemma convertToUIntType_numeral:
  assumes "numeral_ok base t" and "base \<noteq> 0" and "w \<le> 64"
  defines "v \<equiv> numeral_value base t"
  shows "convertToUIntType w (String_of (t @ [0])) type base =
    (if v < 2 ^ w then Inr v else Inl (StringConversionException t type))"
proof -
  note s = numeral_string [OF assms(1), of False, unfolded sign_text_def, simplified]
  note p = strto_prefix_numeral [OF assms(1,2), of False, unfolded sign_text_def, simplified]
  have "t \<noteq> []" "list_all (digit_at base) t" using assms(1) by (simp_all add: numeral_ok_def)
  then have l: "ull_loop base (t @ [0]) 0 0 =
      (if v < 2 ^ 64 then (v, 1, [0]) else (ULLONG_MAX, -1, [0]))"
    using ull_loop_value [of base t 0 0] assms(2) by (simp add: v_def numeral_value_from)
  have w: "(2 :: nat) ^ w \<le> 2 ^ 64" using assms(3) by (intro power_increasing) auto
  have "v mod 2 ^ w = v \<longleftrightarrow> v < 2 ^ w"
    by (metis mod_less mod_less_divisor zero_less_numeral zero_less_power)
  then show ?thesis
    using s w by (auto simp: convertToUIntType_def strtoull_def p l)
qed

lemma convertToUIntType_negative:
  assumes "numeral_ok base t" and "base \<noteq> 0" and "w \<le> 64"
    and "0 < numeral_value base t" and "numeral_value base t < 2 ^ 64"
  shows "convertToUIntType w (String_of (0x2D # t @ [0])) type base =
    (if 2 ^ 64 - numeral_value base t < 2 ^ w then Inr (2 ^ 64 - numeral_value base t)
     else Inl (StringConversionException (0x2D # t) type))"
proof -
  let ?v = "numeral_value base t"
  note s = numeral_string [OF assms(1), of True, unfolded sign_text_def, simplified]
  note p = strto_prefix_numeral [OF assms(1,2), of True, unfolded sign_text_def, simplified]
  have "t \<noteq> []" "list_all (digit_at base) t" using assms(1) by (simp_all add: numeral_ok_def)
  then have l: "ull_loop base (t @ [0]) 0 0 = (?v, 1, [0])"
    using ull_loop_value [of base t 0 0] assms(2,5) by (simp add: numeral_value_from)
  have "(2 ^ 64 - ?v) mod 2 ^ w = 2 ^ 64 - ?v \<longleftrightarrow> 2 ^ 64 - ?v < 2 ^ w"
    by (metis mod_less mod_less_divisor zero_less_numeral zero_less_power)
  moreover have "(2 ^ 64 - ?v) mod 2 ^ 64 = 2 ^ 64 - ?v" using assms(4) by simp
  ultimately show ?thesis
    using s by (auto simp: convertToUIntType_def strtoull_def p l)
qed

lemma signed_wrap_id: "0 < w \<Longrightarrow> signed_wrap w v = v \<longleftrightarrow> - (2 ^ (w - 1)) \<le> v \<and> v < 2 ^ (w - 1)"
  unfolding signed_wrap_def by (metis signed_take_bit_int_eq_self_iff)

lemma convertToIntType_numeral:
  fixes neg :: bool
  assumes "numeral_ok base t" and "base \<noteq> 0" and "0 < w" and "w \<le> 64"
  defines "v \<equiv> signed_value neg (numeral_value base t)"
  shows "convertToIntType w (String_of (sign_text neg @ t @ [0])) type base =
    (if - (2 ^ (w - 1)) \<le> v \<and> v < 2 ^ (w - 1) then Inr v
     else Inl (StringConversionException (sign_text neg @ t) type))"
proof -
  note s = numeral_string [OF assms(1), of neg]
  note p = strto_prefix_numeral [OF assms(1,2), of neg]
  let ?n = "numeral_value base t"
  have "t \<noteq> []" "list_all (digit_at base) t" using assms(1) by (simp_all add: numeral_ok_def)
  moreover have zero: "signed_value neg 0 = 0" by (simp add: signed_value_def)
  ultimately have l: "ll_loop neg (int base) (t @ [0]) 0 0 =
      (if ?n \<le> ll_limit neg then (v, 1, [0]) else (signed_value neg (ll_limit neg), -1, [0]))"
    using ll_loop_value [of base t 0 0 neg] assms(2) by (simp add: v_def numeral_value_from zero)
  have w: "(2 :: nat) ^ (w - 1) \<le> 2 ^ 63" using assms(4) by (intro power_increasing) auto
  have "?n \<le> ll_limit neg" if "- (2 ^ (w - 1)) \<le> v" "v < 2 ^ (w - 1)"
    using that w by (auto simp: v_def signed_value_def ll_limit_def split: if_splits)
  then show ?thesis
    using s signed_wrap_id [OF assms(3), of v] by (auto simp: convertToIntType_def strtoll_def p l)
qed

section \<open>Printed numbers\<close>

lemma digit_of: "k < 10 \<Longrightarrow> digit_value (of_nat (0x30 + k)) = Some k"
proof -
  assume k: "k < 10"
  then have u: "unat (of_nat (0x30 + k) :: u8) = 0x30 + k" by (simp only: unat_of_nat) simp
  then show ?thesis
    using k by (simp add: digit_value_def isdigit_def word_le_nat_alt)
qed

lemma print_nat_numeral: "numeral_ok 10 (print_nat n) \<and> numeral_value 10 (print_nat n) = n"
proof (induction n rule: print_nat.induct)
  case (1 n)
  show ?case
  proof (cases "n < 10")
    case True
    then show ?thesis
      using digit_of [of n] by (simp add: print_nat.simps [of n] numeral_ok_def numeral_value_def)
  next
    case False
    with 1 digit_of [of "n mod 10"] show ?thesis
      by (simp add: print_nat.simps [of n] numeral_ok_def numeral_value_def)
  qed
qed

lemma String_of_numeral:
  assumes "numeral_ok base t"
  shows "Some \<lparr>m_len = length (sign_text neg @ t), m_data = (sign_text neg @ t) @ [0]\<rparr> =
    String_of (sign_text neg @ t @ [0])"
proof -
  have "0 \<notin> set t"
    using assms by (auto simp: numeral_ok_def list_all_iff split: option.splits)
  then have "0 \<notin> set (sign_text neg @ t)" by (simp add: sign_text_def)
  from cstr_append_nul [OF this, of "[]"] show ?thesis
    by (simp add: String_of_def ByteBuf_of_def strlen_def)
qed

lemma print_int_signed:
  "print_int i = sign_text (i < 0) @ print_nat (nat \<bar>i\<bar>)"
  "signed_value (i < 0) (nat \<bar>i\<bar>) = i"
  by (auto simp: print_int_def sign_text_def signed_value_def)

section \<open>Properties\<close>

text \<open>
  The unsigned conversions of a numeral in any base: its value when it fits into the
  type, the exception otherwise, also when it does not fit into 64 bits.\<close>

theorem toUInt_of_numeral:
  assumes "numeral_ok base t" and "2 \<le> base"
  shows "is_ok (toUInt8 (String_of (t @ [0])) base) = (numeral_value base t < 2 ^ 8) \<and>
    (\<exists>e. toUInt32 (String_of (t @ [0])) base =
      (if numeral_value base t < 2 ^ 32 then Inr (numeral_value base t) else Inl e)) \<and>
    (\<exists>e. toUInt64 (String_of (t @ [0])) base =
      (if numeral_value base t < 2 ^ 64 then Inr (numeral_value base t) else Inl e))"
  using assms by (auto simp: toUInt8_def toUInt32_def toUInt64_def convertToUIntType_numeral)

theorem toUInt_of_numeral_witness:
  "\<not> is_ok (toUInt8 (String_of ([0x31, 0x30, 0x30] @ [0])) 16) \<and>
   toUInt32 (String_of ([0x31, 0x30, 0x30] @ [0])) 16 = Inr 256"
proof -
  have "numeral_ok 16 [0x31, 0x30, 0x30]" "numeral_value 16 [0x31, 0x30, 0x30] = 256"
    by (simp_all add: numeral_ok_def numeral_value_def digit_value_def isdigit_def)
  with toUInt_of_numeral [of 16 "[0x31, 0x30, 0x30]"] show ?thesis by auto
qed

text \<open>
  The signed conversions of a numeral with or without a minus sign: its value when it
  lies in the range of the type, the exception otherwise.\<close>

theorem toInt_of_numeral:
  assumes "numeral_ok base t" and "2 \<le> base"
  shows "is_ok (toInt8 (String_of (sign_text neg @ t @ [0])) base) =
      (- 128 \<le> signed_value neg (numeral_value base t) \<and> signed_value neg (numeral_value base t) < 128) \<and>
    (\<exists>e. toInt32 (String_of (sign_text neg @ t @ [0])) base =
      (if - (2 ^ 31) \<le> signed_value neg (numeral_value base t) \<and> signed_value neg (numeral_value base t) < 2 ^ 31
       then Inr (signed_value neg (numeral_value base t)) else Inl e)) \<and>
    (\<exists>e. toInt64 (String_of (sign_text neg @ t @ [0])) base =
      (if - (2 ^ 63) \<le> signed_value neg (numeral_value base t) \<and> signed_value neg (numeral_value base t) < 2 ^ 63
       then Inr (signed_value neg (numeral_value base t)) else Inl e))"
  using assms by (auto simp: toInt8_def toInt32_def toInt64_def convertToIntType_numeral)

theorem toInt_of_numeral_witness:
  "\<not> is_ok (toInt8 (String_of ([0x31, 0x32, 0x38] @ [0])) 10) \<and>
   is_ok (toInt8 (String_of ([0x2D, 0x31, 0x32, 0x38] @ [0])) 10)"
proof -
  have "numeral_ok 10 [0x31, 0x32, 0x38]" "numeral_value 10 [0x31, 0x32, 0x38] = 128"
    by (simp_all add: numeral_ok_def numeral_value_def digit_value_def isdigit_def)
  with toInt_of_numeral [of 10 "[0x31, 0x32, 0x38]" False] toInt_of_numeral [of 10 "[0x31, 0x32, 0x38]" True]
  show ?thesis by (simp add: sign_text_def signed_value_def)
qed

text \<open>
  The unsigned conversions accept negative numerals: the text of \<open>-v\<close> is read as
  \<open>2 ^ 64 - v\<close>, by each conversion whose type holds that number.\<close>

theorem toUInt_accepts_negative:
  assumes "numeral_ok base t" and "2 \<le> base" and "0 < numeral_value base t" and "numeral_value base t < 2 ^ 64"
  shows "toUInt64 (String_of (0x2D # t @ [0])) base = Inr (2 ^ 64 - numeral_value base t) \<and>
    is_ok (toUInt8 (String_of (0x2D # t @ [0])) base) = (2 ^ 64 - numeral_value base t < 2 ^ 8)"
  using assms by (auto simp: toUInt8_def toUInt64_def convertToUIntType_negative)

theorem toUInt_accepts_negative_witness:
  "toUInt64 (String_of (0x2D # [0x31] @ [0])) 10 = Inr (2 ^ 64 - 1) \<and>
   \<not> is_ok (toUInt8 (String_of (0x2D # [0x31] @ [0])) 10)"
proof -
  have "numeral_ok 10 [0x31]" "numeral_value 10 [0x31] = 1"
    by (simp_all add: numeral_ok_def numeral_value_def digit_value_def isdigit_def)
  with toUInt_accepts_negative [of 10 "[0x31]"] show ?thesis by simp
qed

text \<open>
  C33. Printing and reading back: the decimal text of any 32- or 64-bit integer converts to
  that integer.\<close>

theorem integer_text_roundtrip:
  "toUInt32 (String_of_UInt32 u) 10 = Inr (unat u) \<and> toInt32 (String_of_Int32 i) 10 = Inr (sint i) \<and>
   toUInt64 (String_of_UInt64 v) 10 = Inr (unat v) \<and> toInt64 (String_of_Int64 j) 10 = Inr (sint j)"
proof (intro conjI)
  note p = print_nat_numeral
  have u: "Some \<lparr>m_len = length (print_nat (unat u)), m_data = print_nat (unat u) @ [0]\<rparr> =
      String_of (print_nat (unat u) @ [0])"
    using String_of_numeral [of 10 "print_nat (unat u)" False] p by (simp add: sign_text_def)
  show "toUInt32 (String_of_UInt32 u) 10 = Inr (unat u)"
    unfolding String_of_UInt32_def u toUInt32_def
    using p unsigned_less [of u] by (simp add: convertToUIntType_numeral)
  show "toUInt64 (String_of_UInt64 v) 10 = Inr (unat v)"
    unfolding String_of_UInt64_def toUInt64_def
    using p unsigned_less [of v] by (simp add: convertToUIntType_numeral)
  have i: "String_of_Int32 i = String_of (sign_text (sint i < 0) @ print_nat (nat \<bar>sint i\<bar>) @ [0])"
    unfolding String_of_Int32_def print_int_signed using p by (intro String_of_numeral) blast
  show "toInt32 (String_of_Int32 i) 10 = Inr (sint i)"
    unfolding i toInt32_def using p sint_range_size [of i]
    by (simp add: convertToIntType_numeral print_int_signed(2) word_size)
  show "toInt64 (String_of_Int64 j) 10 = Inr (sint j)"
    unfolding String_of_Int64_def print_int_signed toInt64_def using p sint_range_size [of j]
    by (simp add: convertToIntType_numeral print_int_signed(2) word_size)
qed

lemma equalsIgnoreCase_ascii:
  assumes "\<forall>x \<in> set t. 0 < unat x \<and> unat x < 0x80" and "\<forall>y \<in> set a. 0 < unat y \<and> unat y < 0x80"
  shows "equalsIgnoreCase (String_of (t @ [0])) (a @ [0]) =
    Some (Inr (map (\<lambda>x. ascii_lower (unat x)) t = map (\<lambda>y. ascii_lower (unat y)) a))"
proof -
  have "0 \<notin> set t" using assms(1) by force
  then have "c_str (String_of (t @ [0])) = t @ [0]"
    by (simp add: c_str_def String_of_def ByteBuf_of_def cstr_append_nul)
  then show ?thesis
    using compare_ascii [OF assms] by (simp add: equalsIgnoreCase_def)
qed

text \<open>
  \<open>toBool\<close> of an ASCII text returns, and accepts exactly the texts that are
  \<open>true\<close> or \<open>false\<close> up to case.\<close>

theorem toBool_ascii:
  assumes "\<forall>x \<in> set t. 0 < unat x \<and> unat x < 0x80"
  shows "toBool (String_of (t @ [0])) =
    (if map (\<lambda>x. ascii_lower (unat x)) t = map unat true_text then Some (Inr True)
     else if map (\<lambda>x. ascii_lower (unat x)) t = map unat false_text then Some (Inr False)
     else Some (Inl (StringConversionException t bool_text)))"
proof -
  have a: "\<forall>y \<in> set true_text. 0 < unat y \<and> unat y < 0x80" "\<forall>y \<in> set false_text. 0 < unat y \<and> unat y < 0x80"
    "map (\<lambda>y. ascii_lower (unat y)) true_text = map unat true_text"
    "map (\<lambda>y. ascii_lower (unat y)) false_text = map unat false_text"
    by (simp_all add: true_text_def false_text_def ascii_lower_def)
  have "0 \<notin> set t" using assms by force
  then have "cstr (c_str (String_of (t @ [0]))) = t"
    by (simp add: c_str_def String_of_def ByteBuf_of_def cstr_append_nul)
  then show ?thesis
    using equalsIgnoreCase_ascii [OF assms a(1)] equalsIgnoreCase_ascii [OF assms a(2)] a(3,4)
    by (auto simp: toBool_def)
qed

theorem toBool_ascii_witness:
  "toBool (String_of ([0x54, 0x72, 0x55, 0x45] @ [0])) = Some (Inr True)"
  using toBool_ascii [of "[0x54, 0x72, 0x55, 0x45]"] by (simp add: true_text_def ascii_lower_def)

end
