(* ===== verification/Serialization.thy ===== *)
theory Serialization
  imports Strings_Props
begin

text \<open>
  Binary serialization (\<open>BinarySerialization.cpp\<close>, \<open>BinarySerialization.hpp\<close>) over the
  memory streams of \<open>DataStreams.cpp\<close>, and the objects that are written with it:
  \<open>Bool\<close>, \<open>Char16\<close>, \<open>String\<close> and arrays of strings. The machine is
  little-endian, so \<open>hton\<close> reverses the bytes (\<open>ByteSwap.hpp\<close>).
\<close>

section \<open>Memory streams\<close>

text \<open>\<open>DataOStreamBuf\<close> is its vector of bytes; \<open>DataIStreamBuf\<close> a buffer and the
  position of its get pointer.\<close>

type_synonym ostrm = bytes

record istrm =
  buf :: bytes
  gpos :: nat

datatype ser_error =
    IOException
  | LengthTooLarge nat
  | BadSignatureException u8 u8
  | HeapOverflow      \<comment> \<open>a write behind an allocated buffer: undefined behaviour of the code\<close>

definition xsputn :: "ostrm \<Rightarrow> bytes \<Rightarrow> ostrm \<times> nat" where
  "xsputn m_bfr s = (m_bfr @ s, length s)"

definition overflow :: "ostrm \<Rightarrow> u8 \<Rightarrow> ostrm \<times> int" where
  "overflow m_bfr c = (m_bfr @ [c], 0)"

definition underflow :: "istrm \<Rightarrow> u8 option" where
  "underflow s = (if gpos s < length (buf s) then Some (buf s ! gpos s) else None)"

text \<open>\<open>sgetn\<close> copies what is left of the get area, \<open>n\<close> bytes at most.\<close>

definition sgetn :: "istrm \<Rightarrow> nat \<Rightarrow> bytes \<times> istrm" where
  "sgetn s n = (let d = take n (drop (gpos s) (buf s)) in (d, s\<lparr>gpos := gpos s + length d\<rparr>))"

datatype seekdir = beg_dir | cur_dir | end_dir

definition seekoff :: "istrm \<Rightarrow> int \<Rightarrow> seekdir \<Rightarrow> istrm \<times> int" where
  "seekoff s off way =
     (let newOff = (case way of beg_dir \<Rightarrow> 0 | cur_dir \<Rightarrow> int (gpos s) | end_dir \<Rightarrow> int (length (buf s))) in
      if newOff + off \<ge> 0 \<and> int (length (buf s)) \<ge> newOff + off
      then (s\<lparr>gpos := nat (newOff + off)\<rparr>, newOff) else (s, -1))"

section \<open>Byte order\<close>

text \<open>The bytes of an integer in the memory of a little-endian machine.\<close>

definition mem16 :: "u16 \<Rightarrow> bytes" where
  "mem16 v = [ucast v, ucast (drop_bit 8 v)]"

definition mem32 :: "u32 \<Rightarrow> bytes" where
  "mem32 v = [ucast v, ucast (drop_bit 8 v), ucast (drop_bit 16 v), ucast (drop_bit 24 v)]"

definition of_mem16 :: "bytes \<Rightarrow> u16" where
  "of_mem16 b = or (ucast (b ! 0)) (push_bit 8 (ucast (b ! 1)))"

definition of_mem32 :: "bytes \<Rightarrow> u32" where
  "of_mem32 b = or (ucast (b ! 0)) (or (push_bit 8 (ucast (b ! 1)))
     (or (push_bit 16 (ucast (b ! 2))) (push_bit 24 (ucast (b ! 3)))))"

definition hton16 :: "u16 \<Rightarrow> u16" where
  "hton16 v = (let p = mem16 v in of_mem16 [p ! 1, p ! 0])"

definition hton32 :: "u32 \<Rightarrow> u32" where
  "hton32 v = (let p = mem32 v in of_mem32 [p ! 3, p ! 2, p ! 1, p ! 0])"

section \<open>Primitive reads and writes\<close>

text \<open>A reader returns its result or an exception, and the stream in either case.\<close>

type_synonym 'a reader = "istrm \<Rightarrow> (ser_error + 'a) \<times> istrm"

definition and_then :: "'a reader \<Rightarrow> ('a \<Rightarrow> 'b reader) \<Rightarrow> 'b reader" where
  "and_then m f s = (case m s of (Inl e, s') \<Rightarrow> (Inl e, s') | (Inr a, s') \<Rightarrow> f a s')"

definition yields :: "'a \<Rightarrow> 'a reader" where "yields a s = (Inr a, s)"
definition throws :: "ser_error \<Rightarrow> 'a reader" where "throws e s = (Inl e, s)"

definition write_data :: "ostrm \<Rightarrow> bytes \<Rightarrow> ser_error + ostrm" where
  "write_data ostrm dataOut = (let (o', cnt) = xsputn ostrm dataOut in
     if cnt \<noteq> length dataOut then Inl IOException else Inr o')"

definition read_data :: "nat \<Rightarrow> bytes reader" where
  "read_data n istrm = (let (d, s) = sgetn istrm n in
     if length d \<noteq> n then (Inl IOException, s) else (Inr d, s))"

definition write_u8 :: "ostrm \<Rightarrow> u8 \<Rightarrow> ser_error + ostrm" where
  "write_u8 ostrm val = write_data ostrm [val]"

definition write_u16 :: "ostrm \<Rightarrow> u16 \<Rightarrow> ser_error + ostrm" where
  "write_u16 ostrm val = write_data ostrm (mem16 (hton16 val))"

definition write_u32 :: "ostrm \<Rightarrow> u32 \<Rightarrow> ser_error + ostrm" where
  "write_u32 ostrm val = write_data ostrm (mem32 (hton32 val))"

definition read_u8 :: "u8 reader" where
  "read_u8 = and_then (read_data 1) (\<lambda>d. yields (d ! 0))"

definition read_u16 :: "u16 reader" where
  "read_u16 = and_then (read_data 2) (\<lambda>d. yields (hton16 (of_mem16 d)))"

definition read_u32 :: "u32 reader" where
  "read_u32 = and_then (read_data 4) (\<lambda>d. yields (hton32 (of_mem32 d)))"

definition verifySignature :: "u8 \<Rightarrow> unit reader" where
  "verifySignature validSig = and_then read_u8 (\<lambda>val.
     if val \<noteq> validSig then throws (BadSignatureException val validSig) else yields ())"

section \<open>Lengths\<close>

text \<open>The loop that fills \<open>netlen\<close> from its end; the result is the part that is written.\<close>

fun netlen_loop :: "nat \<Rightarrow> u32 \<Rightarrow> bytes \<Rightarrow> bytes" where
  "netlen_loop 0 len netlen = netlen"
| "netlen_loop (Suc j) len netlen = netlen_loop j (drop_bit 8 len) (ucast (and len 0xff) # netlen)"

definition writeLen :: "ostrm \<Rightarrow> u32 \<Rightarrow> ser_error + ostrm" where
  "writeLen ostrm len =
     (if len < 128 then write_data ostrm [ucast len]
      else let lenlen = (if len < push_bit 8 1 then 1 else if len < push_bit 16 1 then 2
                         else if len < push_bit 24 1 then 3 else 4 :: nat) in
        rbind (write_data ostrm [or (of_nat lenlen) 0x80]) (\<lambda>o'.
          write_data o' (netlen_loop lenlen len [])))"

definition readLen :: "u32 reader" where
  "readLen = and_then read_u8 (\<lambda>lc.
     if and lc 0x80 \<noteq> 0 then
       (let noctets = unat (and lc 0x7f) in
        if noctets > 4 then throws (LengthTooLarge noctets)
        else and_then (read_data noctets) (\<lambda>netlen.
          yields (foldl (\<lambda>len b. or (push_bit 8 len) (ucast b)) 0 netlen)))
     else yields (ucast lc))"

section \<open>Objects\<close>

definition BINSIG_BOOL :: u8 where "BINSIG_BOOL = 104"
definition BINSIG_STR :: u8 where "BINSIG_STR = 106"
definition BINSIG_STRARRAY :: u8 where "BINSIG_STRARRAY = 107"

definition Bool_writeObject :: "ostrm \<Rightarrow> bool \<Rightarrow> ser_error + ostrm" where
  "Bool_writeObject ostrm b = write_u8 ostrm (if b then 1 else 0)"

definition Bool_readObject :: "bool reader" where
  "Bool_readObject = and_then read_u8 (\<lambda>v. yields (v \<noteq> 0))"

definition Char16_writeObject :: "ostrm \<Rightarrow> u16 \<Rightarrow> ser_error + ostrm" where
  "Char16_writeObject ostrm c = write_u16 ostrm c"

definition Char16_readObject :: "u16 reader" where
  "Char16_readObject = read_u16"

definition String_writeObject :: "ostrm \<Rightarrow> String \<Rightarrow> ser_error + ostrm" where
  "String_writeObject ostrm s =
     (let len = (of_nat (slength s) :: u32) in
      rbind (writeLen ostrm len) (\<lambda>o'.
        if len \<noteq> 0 then write_data o' (take (unat len) (c_str s)) else Inr o'))"

text \<open>
  The buffer has \<open>len + 1\<close> bytes, computed in 32 bits. What \<open>sgetn\<close> copies and the
  terminator must fit into it.
\<close>

definition String_readObject :: "String reader" where
  "String_readObject = and_then readLen (\<lambda>len s.
     let size = unat (len + 1); (d, s') = sgetn s (unat len) in
     if length d > size then (Inl HeapOverflow, s')
     else if length d \<noteq> unat len then (Inl IOException, s')
     else if unat len \<ge> size then (Inl HeapOverflow, s')
     else (Inr (Some \<lparr>m_len = unat len, m_data = d @ [0]\<rparr>), s'))"

fun write_all :: "(ostrm \<Rightarrow> 'a \<Rightarrow> ser_error + ostrm) \<Rightarrow> ostrm \<Rightarrow> 'a list \<Rightarrow> ser_error + ostrm" where
  "write_all w ostrm [] = Inr ostrm"
| "write_all w ostrm (x # xs) = rbind (w ostrm x) (\<lambda>o'. write_all w o' xs)"

definition writeArray :: "(ostrm \<Rightarrow> 'a \<Rightarrow> ser_error + ostrm) \<Rightarrow> ostrm \<Rightarrow> 'a list \<Rightarrow> ser_error + ostrm" where
  "writeArray w ostrm a = (let len = (of_nat (length a) :: u32) in
     rbind (writeLen ostrm len) (\<lambda>o'. write_all w o' (take (unat len) a)))"

fun read_all :: "'a reader \<Rightarrow> nat \<Rightarrow> 'a list reader" where
  "read_all r 0 = yields []"
| "read_all r (Suc n) = and_then r (\<lambda>x. and_then (read_all r n) (\<lambda>xs. yields (x # xs)))"

definition readArray :: "'a reader \<Rightarrow> 'a list reader" where
  "readArray r = and_then readLen (\<lambda>len. read_all r (unat len))"

definition writeBool :: "ostrm \<Rightarrow> bool \<Rightarrow> ser_error + ostrm" where
  "writeBool ostrm b = rbind (write_u8 ostrm BINSIG_BOOL) (\<lambda>o'. Bool_writeObject o' b)"

definition readBool :: "bool reader" where
  "readBool = and_then (verifySignature BINSIG_BOOL) (\<lambda>_. Bool_readObject)"

definition writeString :: "ostrm \<Rightarrow> String \<Rightarrow> ser_error + ostrm" where
  "writeString ostrm s = rbind (write_u8 ostrm BINSIG_STR) (\<lambda>o'. String_writeObject o' s)"

definition readString :: "String reader" where
  "readString = and_then (verifySignature BINSIG_STR) (\<lambda>_. String_readObject)"

definition writeStringArray :: "ostrm \<Rightarrow> String list \<Rightarrow> ser_error + ostrm" where
  "writeStringArray ostrm stra = rbind (write_u8 ostrm BINSIG_STRARRAY) (\<lambda>o'. writeArray String_writeObject o' stra)"

definition writeStringArray_ptr :: "ostrm \<Rightarrow> String list option \<Rightarrow> ser_error + ostrm" where
  "writeStringArray_ptr ostrm propertyList =
     rbind (writeBool ostrm (propertyList = None)) (\<lambda>o'.
       case propertyList of None \<Rightarrow> Inr o' | Some stra \<Rightarrow> writeStringArray o' stra)"

definition readStringArray :: "String list reader" where
  "readStringArray = and_then (verifySignature BINSIG_STRARRAY) (\<lambda>_. readArray String_readObject)"

section \<open>The interface of a serializable class\<close>

text \<open>
  What a container needs of its elements: writing appends some bytes, and reading returns an
  object equivalent to the one that was written and leaves the rest of the stream. \<open>ok\<close>
  are the objects for which it holds.
\<close>

locale serializable =
  fixes w :: "ostrm \<Rightarrow> 'a \<Rightarrow> ser_error + ostrm"
    and r :: "'a reader"
    and ok :: "'a \<Rightarrow> bool"
    and eqv :: "'a \<Rightarrow> 'a \<Rightarrow> bool"
  assumes written: "ok x \<Longrightarrow> \<exists>d y. eqv x y \<and> (\<forall>ostrm. w ostrm x = Inr (ostrm @ d)) \<and>
    (\<forall>pre rest. r \<lparr>buf = pre @ d @ rest, gpos = length pre\<rparr> =
      (Inr y, \<lparr>buf = pre @ d @ rest, gpos = length pre + length d\<rparr>))"
begin

lemma written_all:
  assumes "\<forall>x \<in> set xs. ok x"
  shows "\<exists>d ys. list_all2 eqv xs ys \<and> (\<forall>ostrm. write_all w ostrm xs = Inr (ostrm @ d)) \<and>
    (\<forall>pre rest. read_all r (length xs) \<lparr>buf = pre @ d @ rest, gpos = length pre\<rparr> =
      (Inr ys, \<lparr>buf = pre @ d @ rest, gpos = length pre + length d\<rparr>))"
  using assms
proof (induction xs)
  case Nil
  show ?case by (rule exI [of _ "[]"]) (simp add: yields_def)
next
  case (Cons x xs)
  obtain d1 y where d1: "eqv x y" "\<And>ostrm. w ostrm x = Inr (ostrm @ d1)"
    "\<And>pre rest. r \<lparr>buf = pre @ d1 @ rest, gpos = length pre\<rparr> =
      (Inr y, \<lparr>buf = pre @ d1 @ rest, gpos = length pre + length d1\<rparr>)"
    using written [of x] Cons.prems by auto
  obtain d2 ys where d2: "list_all2 eqv xs ys" "\<And>ostrm. write_all w ostrm xs = Inr (ostrm @ d2)"
    "\<And>pre rest. read_all r (length xs) \<lparr>buf = pre @ d2 @ rest, gpos = length pre\<rparr> =
      (Inr ys, \<lparr>buf = pre @ d2 @ rest, gpos = length pre + length d2\<rparr>)"
    using Cons by auto
  have "read_all r (length (x # xs)) \<lparr>buf = pre @ (d1 @ d2) @ rest, gpos = length pre\<rparr> =
      (Inr (y # ys), \<lparr>buf = pre @ (d1 @ d2) @ rest, gpos = length pre + length (d1 @ d2)\<rparr>)" for pre rest
    using d1(3) [of pre "d2 @ rest"] d2(3) [of "pre @ d1" rest]
    by (simp add: and_then_def yields_def)
  with d1(1,2) d2(1,2) show ?case
    by (intro exI [of _ "d1 @ d2"] exI [of _ "y # ys"]) simp
qed

end


section \<open>Byte order and lengths\<close>

lemma no_high_bit: "8 \<le> n \<Longrightarrow> \<not> bit (w :: u8) n"
  using bit_imp_le_length [of w n] by auto

lemma mem32_of_mem32:
  "mem32 (of_mem32 [a, b, c, d]) = [a, b, c, d]"
  unfolding mem32_def of_mem32_def
  by (auto intro!: bit_word_eqI simp: bit_simps no_high_bit)

lemma of_mem32_mem32: "of_mem32 (mem32 v) = v"
proof (rule bit_word_eqI)
  fix n assume "n < LENGTH(32)"
  then consider "n < 8" | "8 \<le> n" "n < 16" | "16 \<le> n" "n < 24" | "24 \<le> n" "n < 32" by force
  then show "bit (of_mem32 (mem32 v)) n = bit v n"
    by cases (auto simp: mem32_def of_mem32_def bit_simps)
qed

lemma mem32_four: "\<exists>a b c d. mem32 v = [a, b, c, d]" by (simp add: mem32_def)

lemma mem_hton32: "mem32 (hton32 v) = rev (mem32 v)"
  using mem32_four [of v] by (auto simp: hton32_def Let_def mem32_of_mem32)

lemma hton32_involution: "hton32 (hton32 v) = v"
  using mem32_four [of v] of_mem32_mem32 [of v]
  by (auto simp: hton32_def [of "hton32 v"] mem_hton32 Let_def)

lemma mem16_of_mem16: "mem16 (of_mem16 [a, b]) = [a, b]"
  unfolding mem16_def of_mem16_def
  by (auto intro!: bit_word_eqI simp: bit_simps no_high_bit)

lemma of_mem16_mem16: "of_mem16 (mem16 v) = v"
  unfolding mem16_def of_mem16_def
  by (rule bit_word_eqI) (auto simp: bit_simps)

lemma mem_hton16: "mem16 (hton16 v) = rev (mem16 v)"
  by (simp add: hton16_def Let_def mem16_of_mem16 mem16_def [of v])

lemma hton16_involution: "hton16 (hton16 v) = v"
  using of_mem16_mem16 [of v]
  by (simp add: hton16_def [of "hton16 v"] mem_hton16 Let_def mem16_def [of v])

lemma read_data_appended:
  "read_data (length d) \<lparr>buf = pre @ d @ rest, gpos = length pre\<rparr> =
   (Inr d, \<lparr>buf = pre @ d @ rest, gpos = length pre + length d\<rparr>)"
  by (simp add: read_data_def sgetn_def Let_def)

lemma write_data_appends: "write_data ostrm d = Inr (ostrm @ d)"
  by (simp add: write_data_def xsputn_def Let_def)


lemma netlen_loop_acc: "netlen_loop j len acc = netlen_loop j len [] @ acc"
proof (induction j arbitrary: len acc)
  case (Suc j)
  show ?case
    using Suc [of "drop_bit 8 len" "ucast (and len 0xff) # acc"] Suc [of "drop_bit 8 len" "[ucast (and len 0xff)]"]
    by simp
qed simp

lemma netlen_loop_length: "length (netlen_loop j len acc) = j + length acc"
  by (induction j len acc rule: netlen_loop.induct) simp_all

abbreviation octets_value :: "bytes \<Rightarrow> u32" where
  "octets_value \<equiv> foldl (\<lambda>len b. or (push_bit 8 len) (ucast b)) 0"

lemma ff_mask: "(0xff :: u32) = mask 8" by (simp add: mask_eq_exp_minus_1)

lemma octets_value_netlen: "octets_value (netlen_loop j len []) = take_bit (8 * j) len"
proof (induction j arbitrary: len)
  case (Suc j)
  have "octets_value (netlen_loop (Suc j) len []) =
      or (push_bit 8 (take_bit (8 * j) (drop_bit 8 len))) (ucast (ucast (and len 0xff) :: u8))"
    by (simp add: netlen_loop_acc [of j _ "[_]"] Suc.IH)
  also have "\<dots> = take_bit (8 * Suc j) len"
    by (rule bit_word_eqI) (auto simp: bit_simps ff_mask)
  finally show ?case .
qed simp

definition len_bytes :: "u32 \<Rightarrow> bytes" where
  "len_bytes len = (if len < 128 then [ucast len]
     else let lenlen = (if len < push_bit 8 1 then 1 else if len < push_bit 16 1 then 2
                        else if len < push_bit 24 1 then 3 else 4 :: nat) in
       or (of_nat lenlen) 0x80 # netlen_loop lenlen len [])"

lemma writeLen_appends: "writeLen ostrm len = Inr (ostrm @ len_bytes len)"
  by (simp add: writeLen_def len_bytes_def write_data_appends Let_def)

lemma take_bit_below: "unat len < 2 ^ k \<Longrightarrow> take_bit k len = (len :: u32)"
  by (metis take_bit_nat_eq_self_iff unsigned_take_bit_eq word_unat_eq_iff)

lemma readLen_written:
  "readLen \<lparr>buf = pre @ len_bytes len @ rest, gpos = length pre\<rparr> =
   (Inr len, \<lparr>buf = pre @ len_bytes len @ rest, gpos = length pre + length (len_bytes len)\<rparr>)"
proof (cases "len < 128")
  case True
  then have u: "unat len < 128" by (simp add: word_less_nat_alt)
  then have t: "take_bit 7 len = len" by (simp add: take_bit_below)
  have "\<not> bit (ucast len :: u8) 7"
    by (subst t [symmetric]) (simp add: bit_simps)
  then have "and (ucast len :: u8) 0x80 = 0"
    using and_exp_eq_0_iff_not_bit [of "ucast len :: u8" 7] by simp
  moreover have "ucast (ucast len :: u8) = len"
    by (subst (1 2) t [symmetric]) (rule bit_word_eqI, auto simp: bit_simps)
  moreover have "len_bytes len = [ucast len]" using True by (simp add: len_bytes_def)
  ultimately show ?thesis
    using read_data_appended [of "[ucast len]" pre rest]
    by (simp add: readLen_def read_u8_def and_then_def yields_def)
next
  case False
  define k :: nat where "k = (if len < push_bit 8 1 then 1 else if len < push_bit 16 1 then 2
                        else if len < push_bit 24 1 then 3 else 4)"
  let ?h = "or (of_nat k) 0x80 :: u8" and ?d = "netlen_loop k len []"
  have bytes: "len_bytes len = ?h # ?d" using False by (simp add: len_bytes_def k_def Let_def)
  have k: "k = 1 \<or> k = 2 \<or> k = 3 \<or> k = 4" by (simp add: k_def)
  then have k4: "k \<le> 4" by auto
  from k have h: "and ?h 0x80 \<noteq> 0" "unat (and ?h 0x7f) = k" by auto
  have "take_bit (8 * k) len = len"
    unfolding k_def using take_bit_below [of len 8] take_bit_below [of len 16] take_bit_below [of len 24]
    by (auto simp: take_bit_word_eq_self word_less_nat_alt)
  then have v: "octets_value ?d = len" by (simp add: octets_value_netlen)
  have l: "length ?d = k" by (simp add: netlen_loop_length)
  show ?thesis
    using read_data_appended [of "[?h]" pre "?d @ rest"] read_data_appended [of ?d "pre @ [?h]" rest] h k4 v l
    by (simp add: bytes readLen_def read_u8_def and_then_def yields_def Let_def)
qed


section \<open>The objects are serializable\<close>

definition same_text :: "String \<Rightarrow> String \<Rightarrow> bool" where
  "same_text s t \<longleftrightarrow> str_ok t \<and> text_of s = text_of t \<and> slength s = slength t"

definition short :: "String \<Rightarrow> bool" where
  "short s \<longleftrightarrow> str_ok s \<and> slength s < 2 ^ 32 - 1"

interpretation bool_ser: serializable Bool_writeObject Bool_readObject "\<lambda>_. True" "(=)"
proof
  fix x :: bool
  let ?v = "if x then 1 else 0 :: u8"
  have "Bool_writeObject ostrm x = Inr (ostrm @ [?v])" for ostrm
    by (simp add: Bool_writeObject_def write_u8_def write_data_appends)
  moreover have "Bool_readObject \<lparr>buf = pre @ [?v] @ rest, gpos = length pre\<rparr> =
      (Inr x, \<lparr>buf = pre @ [?v] @ rest, gpos = length pre + length [?v]\<rparr>)" for pre rest
    using read_data_appended [of "[?v]" pre rest]
    by (simp add: Bool_readObject_def read_u8_def and_then_def yields_def)
  ultimately show "\<exists>d y. x = y \<and> (\<forall>ostrm. Bool_writeObject ostrm x = Inr (ostrm @ d)) \<and>
    (\<forall>pre rest. Bool_readObject \<lparr>buf = pre @ d @ rest, gpos = length pre\<rparr> =
      (Inr y, \<lparr>buf = pre @ d @ rest, gpos = length pre + length d\<rparr>))" by blast
qed

interpretation char16_ser: serializable Char16_writeObject Char16_readObject "\<lambda>_. True" "(=)"
proof
  fix x :: u16
  let ?d = "mem16 (hton16 x)"
  have "Char16_writeObject ostrm x = Inr (ostrm @ ?d)" for ostrm
    by (simp add: Char16_writeObject_def write_u16_def write_data_appends)
  moreover have "length ?d = 2" by (simp add: mem16_def)
  then have "Char16_readObject \<lparr>buf = pre @ ?d @ rest, gpos = length pre\<rparr> =
      (Inr x, \<lparr>buf = pre @ ?d @ rest, gpos = length pre + length ?d\<rparr>)" for pre rest
    using read_data_appended [of ?d pre rest]
    by (simp add: Char16_readObject_def read_u16_def and_then_def yields_def of_mem16_mem16 hton16_involution)
  ultimately show "\<exists>d y. x = y \<and> (\<forall>ostrm. Char16_writeObject ostrm x = Inr (ostrm @ d)) \<and>
    (\<forall>pre rest. Char16_readObject \<lparr>buf = pre @ d @ rest, gpos = length pre\<rparr> =
      (Inr y, \<lparr>buf = pre @ d @ rest, gpos = length pre + length d\<rparr>))" by blast
qed

lemma unat_u32: "n < 2 ^ 32 \<Longrightarrow> unat (of_nat n :: u32) = n"
  by (simp only: unsigned_of_nat of_nat_id) (rule take_bit_nat_eq_self, simp)

context serializable
begin

lemma array_written:
  assumes "\<forall>x \<in> set xs. ok x" "length xs < 2 ^ 32"
  shows "\<exists>d ys. list_all2 eqv xs ys \<and> (\<forall>ostrm. writeArray w ostrm xs = Inr (ostrm @ d)) \<and>
    (\<forall>pre rest. readArray r \<lparr>buf = pre @ d @ rest, gpos = length pre\<rparr> =
      (Inr ys, \<lparr>buf = pre @ d @ rest, gpos = length pre + length d\<rparr>))"
proof -
  let ?l = "len_bytes (of_nat (length xs))"
  obtain d ys where d: "list_all2 eqv xs ys" "\<And>ostrm. write_all w ostrm xs = Inr (ostrm @ d)"
    "\<And>pre rest. read_all r (length xs) \<lparr>buf = pre @ d @ rest, gpos = length pre\<rparr> =
      (Inr ys, \<lparr>buf = pre @ d @ rest, gpos = length pre + length d\<rparr>)"
    using written_all [OF assms(1)] by blast
  have u: "unat (of_nat (length xs) :: u32) = length xs" using assms(2) by (rule unat_u32)
  have "writeArray w ostrm xs = Inr (ostrm @ ?l @ d)" for ostrm
    using d(2) [of "ostrm @ ?l"] by (simp add: writeArray_def writeLen_appends Let_def u)
  moreover have "readArray r \<lparr>buf = pre @ (?l @ d) @ rest, gpos = length pre\<rparr> =
      (Inr ys, \<lparr>buf = pre @ (?l @ d) @ rest, gpos = length pre + length (?l @ d)\<rparr>)" for pre rest
    using readLen_written [of pre "of_nat (length xs)" "d @ rest"] d(3) [of "pre @ ?l" rest]
    by (simp add: readArray_def and_then_def u)
  ultimately show ?thesis
    using d(1) by (intro exI [of _ "?l @ d"] exI [of _ ys]) simp
qed

end

lemma ok_text:
  assumes "str_ok s"
  shows "0 \<notin> set (text_of s)" "length (text_of s) = slength s" "take (slength s) (c_str s) = text_of s"
  using assms cstr_append_nul [of "[]" "[]"]
  by (cases s; force simp: str_ok_def text_of_def c_str_def slength_def cstr_append_nul)+

lemma String_write:
  assumes "str_ok s" "slength s < 2 ^ 32"
  shows "String_writeObject ostrm s = Inr (ostrm @ len_bytes (of_nat (slength s)) @ text_of s)"
proof -
  have "take (slength s) (c_str s) = text_of s" "slength s = length (text_of s)"
    using ok_text [OF assms(1)] by auto
  moreover have "unat (of_nat (slength s) :: u32) = slength s"
    using assms(2) by (rule unat_u32)
  moreover have "(of_nat (slength s) :: u32) = 0 \<longleftrightarrow> slength s = 0"
    using calculation(3) unat_eq_zero by metis
  ultimately show ?thesis
    by (auto simp: String_writeObject_def writeLen_appends write_data_appends Let_def)
qed

lemma String_read:
  assumes "0 \<notin> set t" "length t < 2 ^ 32 - 1"
  shows "String_readObject \<lparr>buf = pre @ (len_bytes (of_nat (length t)) @ t) @ rest, gpos = length pre\<rparr> =
    (Inr (Some \<lparr>m_len = length t, m_data = t @ [0]\<rparr>),
     \<lparr>buf = pre @ (len_bytes (of_nat (length t)) @ t) @ rest,
      gpos = length pre + length (len_bytes (of_nat (length t)) @ t)\<rparr>)"
proof -
  let ?len = "of_nat (length t) :: u32"
  have u: "unat ?len = length t" using assms(2) by (simp add: unat_u32)
  have "unat (?len + 1) = length t + 1"
    using unat_u32 [of "length t + 1"] assms(2) by (simp add: algebra_simps)
  then show ?thesis
    using readLen_written [of pre ?len "t @ rest"] u
    by (simp add: String_readObject_def and_then_def sgetn_def Let_def)
qed


interpretation string_ser: serializable String_writeObject String_readObject short same_text
proof
  fix s assume s: "short s"
  let ?d = "len_bytes (of_nat (slength s)) @ text_of s"
    and ?y = "Some \<lparr>m_len = slength s, m_data = text_of s @ [0]\<rparr>"
  have l: "length (text_of s) = slength s" and z: "0 \<notin> set (text_of s)"
    and b: "slength s < 2 ^ 32 - 1" and ok: "str_ok s"
    using s ok_text [of s] by (auto simp: short_def)
  have w: "String_writeObject ostrm s = Inr (ostrm @ ?d)" for ostrm
    using String_write [OF ok] b by simp
  have r: "String_readObject \<lparr>buf = pre @ ?d @ rest, gpos = length pre\<rparr> =
      (Inr ?y, \<lparr>buf = pre @ ?d @ rest, gpos = length pre + length ?d\<rparr>)" for pre rest
    using String_read [OF z, of pre rest] b by (simp only: l)
  have "same_text s ?y"
    using l z by (auto simp: same_text_def str_ok_def text_of_def c_str_def slength_def cstr_append_nul)
  with w r show "\<exists>d y. same_text s y \<and> (\<forall>ostrm. String_writeObject ostrm s = Inr (ostrm @ d)) \<and>
    (\<forall>pre rest. String_readObject \<lparr>buf = pre @ d @ rest, gpos = length pre\<rparr> =
      (Inr y, \<lparr>buf = pre @ d @ rest, gpos = length pre + length d\<rparr>))" by blast
qed


section \<open>Properties\<close>

text \<open>
  Every 32-bit length survives \<open>writeLen\<close> followed by \<open>readLen\<close>, whatever the stream
  holds before and behind it; the get pointer ends behind the length.
\<close>

theorem length_roundtrip:
  "\<exists>d. writeLen ostrm len = Inr (ostrm @ d) \<and> length d \<le> 5 \<and>
     readLen \<lparr>buf = pre @ d @ rest, gpos = length pre\<rparr> =
       (Inr len, \<lparr>buf = pre @ d @ rest, gpos = length pre + length d\<rparr>)"
  by (rule exI [of _ "len_bytes len"])
    (simp add: writeLen_appends readLen_written, simp add: len_bytes_def Let_def netlen_loop_length)

text \<open>
  C27. An array of fewer than 2^32 strings, each of fewer than 2^32 - 1 bytes, that is written
  with \<open>writeStringArray\<close> is read back by \<open>readStringArray\<close> with the same number of strings
  and the same texts, and the rest of the stream is left to the next reader. (The code writes
  lengths in 32 bits and allocates the length plus one.)
\<close>

theorem string_array_roundtrip:
  assumes "\<forall>s \<in> set stra. short s" "length stra < 2 ^ 32"
  shows "\<exists>d ys. writeStringArray ostrm stra = Inr (ostrm @ d) \<and> list_all2 same_text stra ys \<and>
    readStringArray \<lparr>buf = pre @ d @ rest, gpos = length pre\<rparr> =
      (Inr ys, \<lparr>buf = pre @ d @ rest, gpos = length pre + length d\<rparr>)"
proof -
  obtain d ys where d: "list_all2 same_text stra ys"
    "\<And>ostrm. writeArray String_writeObject ostrm stra = Inr (ostrm @ d)"
    "\<And>pre rest. readArray String_readObject \<lparr>buf = pre @ d @ rest, gpos = length pre\<rparr> =
      (Inr ys, \<lparr>buf = pre @ d @ rest, gpos = length pre + length d\<rparr>)"
    using string_ser.array_written [OF assms] by blast
  let ?d = "BINSIG_STRARRAY # d"
  have "writeStringArray ostrm stra = Inr (ostrm @ ?d)"
    by (simp add: writeStringArray_def write_u8_def write_data_appends d(2))
  moreover have "readStringArray \<lparr>buf = pre @ ?d @ rest, gpos = length pre\<rparr> =
      (Inr ys, \<lparr>buf = pre @ ?d @ rest, gpos = length pre + length ?d\<rparr>)"
    using read_data_appended [of "[BINSIG_STRARRAY]" pre "d @ rest"] d(3) [of "pre @ [BINSIG_STRARRAY]" rest]
    by (simp add: readStringArray_def verifySignature_def read_u8_def and_then_def yields_def)
  ultimately show ?thesis using d(1) by blast
qed

theorem string_array_roundtrip_witness:
  "\<exists>d ys. writeStringArray [] [String_of [104, 105, 0], None] = Inr ([] @ d) \<and>
    list_all2 same_text [String_of [104, 105, 0], None] ys \<and>
    readStringArray \<lparr>buf = [] @ d @ [7], gpos = length ([] :: bytes)\<rparr> =
      (Inr ys, \<lparr>buf = [] @ d @ [7], gpos = length ([] :: bytes) + length d\<rparr>)"
  by (rule string_array_roundtrip)
    (auto simp: short_def str_ok_def slength_def String_of_def ByteBuf_of_def strlen_def cstr_def)

text \<open>
  \<open>String::readObject\<close> allocates \<open>len + 1\<close> bytes with \<open>len\<close> taken from the stream; for
  the length \<open>2 ^ 32 - 1\<close> the sum wraps to 0, and whatever follows in the stream is copied
  behind the empty allocation.
\<close>

theorem readObject_overflows_heap:
  assumes "rest \<noteq> []"
  shows "fst (String_readObject \<lparr>buf = pre @ [0x84, 0xff, 0xff, 0xff, 0xff] @ rest, gpos = length pre\<rparr>) =
    Inl HeapOverflow"
proof -
  have "len_bytes 0xffffffff = [0x84, 0xff, 0xff, 0xff, 0xff]"
    by code_simp
  then show ?thesis
    using readLen_written [of pre "0xffffffff" rest] assms
    by (simp add: String_readObject_def and_then_def sgetn_def Let_def)
qed

theorem readObject_overflows_heap_witness:
  "fst (String_readObject \<lparr>buf = [1] @ [0x84, 0xff, 0xff, 0xff, 0xff] @ [65], gpos = length [1 :: u8]\<rparr>) =
    Inl HeapOverflow"
  by (rule readObject_overflows_heap) simp

lemma read_data_short:
  "length d < n \<Longrightarrow> fst (read_data n \<lparr>buf = pre @ d, gpos = length pre\<rparr>) = Inl IOException"
  by (simp add: read_data_def sgetn_def Let_def)

lemma and_then_Inl: "fst (m s) = Inl e \<Longrightarrow> fst (and_then m f s) = Inl e"
  by (cases "m s") (auto simp: and_then_def)

lemma len_bytes_long:
  assumes "\<not> len < 128"
  shows "\<exists>k \<in> {1, 2, 3, 4}. len_bytes len = or (of_nat k) 0x80 # netlen_loop k len []"
proof -
  define k :: nat where "k = (if len < push_bit 8 1 then 1 else if len < push_bit 16 1 then 2
                        else if len < push_bit 24 1 then 3 else 4)"
  have "len_bytes len = or (of_nat k) 0x80 # netlen_loop k len []"
    using assms by (simp only: len_bytes_def k_def Let_def if_False)
  moreover have "k \<in> {1, 2, 3, 4}" by (simp add: k_def)
  ultimately show ?thesis by blast
qed

lemma readLen_truncated:
  assumes "len_bytes len = a @ b" "b \<noteq> []"
  shows "fst (readLen \<lparr>buf = pre @ a, gpos = length pre\<rparr>) = Inl IOException"
proof (cases a)
  case Nil
  then show ?thesis
    using read_data_short [of "[]" 1 pre] by (simp add: readLen_def read_u8_def and_then_Inl)
next
  case (Cons h d)
  then have "\<not> len < 128" using assms by (auto simp: len_bytes_def)
  then obtain k where "k \<in> {1, 2, 3, 4}" "len_bytes len = or (of_nat k) 0x80 # netlen_loop k len []"
    using len_bytes_long [of len] by blast
  then have k: "h = or (of_nat k) 0x80" "d @ b = netlen_loop k len []" "k \<in> {1, 2, 3, 4}"
    using assms(1) Cons by (simp_all only: append_Cons list.inject)
  have "length d + length b = k"
    unfolding length_append [symmetric] k(2) by (simp only: netlen_loop_length list.size add_0_right)
  then have "length d < k" using assms(2) by (cases b) simp_all
  moreover from k(1,3) have "and h 0x80 \<noteq> 0" "unat (and h 0x7f) = k" "k \<le> 4" by auto
  ultimately show ?thesis
    using read_data_appended [of "[h]" pre d] read_data_short [of d k "pre @ [h]"] Cons
    by (simp add: readLen_def read_u8_def and_then_def [of _ _ "\<lparr>buf = pre @ h # d, gpos = length pre\<rparr>"]
        yields_def Let_def and_then_Inl)
qed

text \<open>
  A string that is cut off anywhere in the stream is reported as an \<open>IOException\<close>; no
  partial string is returned.
\<close>

theorem truncated_string_is_reported:
  assumes "short s" "writeString [] s = Inr (p @ q)" "q \<noteq> []"
  shows "fst (readString \<lparr>buf = pre @ p, gpos = length pre\<rparr>) = Inl IOException"
proof (cases p)
  case Nil
  then show ?thesis
    using read_data_short [of "[]" 1 pre]
    by (simp add: readString_def verifySignature_def read_u8_def and_then_Inl)
next
  case (Cons sig p')
  let ?l = "of_nat (slength s) :: u32" and ?t = "text_of s"
  have b: "slength s < 2 ^ 32 - 1" and ok: "str_ok s" using assms(1) by (auto simp: short_def)
  have split: "sig = BINSIG_STR" "len_bytes ?l @ ?t = p' @ q"
    using assms(2) Cons String_write [OF ok] b
    by (auto simp: writeString_def write_u8_def write_data_appends)
  let ?s = "\<lparr>buf = (pre @ [sig]) @ p', gpos = length (pre @ [sig])\<rparr>"
  have "fst (String_readObject ?s) = Inl IOException"
  proof (cases "\<exists>b. len_bytes ?l = p' @ b \<and> b \<noteq> []")
    case True
    then show ?thesis
      using readLen_truncated [of ?l p' _ "pre @ [sig]"] by (auto simp: String_readObject_def and_then_Inl)
  next
    case False
    then obtain t1 where t1: "p' = len_bytes ?l @ t1" "?t = t1 @ q"
      using split(2) by (auto simp: append_eq_append_conv2)
    have "length t1 < slength s" using t1(2) ok_text(2) [OF ok] assms(3) by (cases q) auto
    moreover have "unat ?l = slength s" "unat (?l + 1) = slength s + 1"
      using b unat_u32 [of "slength s"] unat_u32 [of "slength s + 1"] by (simp_all add: algebra_simps)
    ultimately show ?thesis
      using readLen_written [of "pre @ [sig]" ?l t1] t1(1)
      by (simp add: String_readObject_def and_then_def sgetn_def Let_def)
  qed
  then show ?thesis
    using read_data_appended [of "[sig]" pre p'] Cons split(1)
    by (simp add: readString_def verifySignature_def read_u8_def and_then_def yields_def)
qed

theorem truncated_string_is_reported_witness:
  "fst (readString \<lparr>buf = [9] @ [106, 2, 104], gpos = length [9 :: u8]\<rparr>) = Inl IOException"
  by (rule truncated_string_is_reported [of "String_of [104, 105, 0]" _ "[105]"], simp_all)
    (simp add: short_def str_ok_def slength_def String_of_def ByteBuf_of_def strlen_def cstr_def, code_simp)

text \<open>
  A reader that expects another object throws \<open>BadSignatureException\<close> with both
  signatures, and has consumed the signature only.
\<close>

theorem wrong_object_is_reported:
  assumes "sig \<noteq> BINSIG_STR"
  shows "readString \<lparr>buf = pre @ sig # rest, gpos = length pre\<rparr> =
    (Inl (BadSignatureException sig BINSIG_STR), \<lparr>buf = pre @ sig # rest, gpos = length pre + 1\<rparr>)"
  using read_data_appended [of "[sig]" pre rest] assms
  by (simp add: readString_def verifySignature_def read_u8_def and_then_def yields_def throws_def)

theorem wrong_object_is_reported_witness:
  "readString \<lparr>buf = [] @ 104 # [1], gpos = length ([] :: bytes)\<rparr> =
    (Inl (BadSignatureException 104 BINSIG_STR), \<lparr>buf = [] @ 104 # [1], gpos = length ([] :: bytes) + 1\<rparr>)"
  by (rule wrong_object_is_reported) (simp add: BINSIG_STR_def)

text \<open>
  A relative seek of the input stream moves the get pointer to \<open>base + off\<close> but returns
  \<open>base\<close>: the returned position is wrong for every offset but 0. A seek outside the buffer
  fails and moves nothing.
\<close>

theorem seek_reports_base_position:
  assumes "gpos s \<le> length (buf s)"
  shows "case seekoff s off way of (s', ret) \<Rightarrow>
    (ret = -1 \<and> s' = s) \<or> (ret + off = int (gpos s') \<and> gpos s' \<le> length (buf s'))"
  by (auto simp: seekoff_def Let_def split: seekdir.split)

theorem seek_reports_base_position_witness:
  "case seekoff \<lparr>buf = [1, 2, 3], gpos = 0\<rparr> 2 cur_dir of (s', ret) \<Rightarrow>
    (ret = -1 \<and> s' = \<lparr>buf = [1, 2, 3], gpos = 0\<rparr>) \<or> (ret + 2 = int (gpos s') \<and> gpos s' \<le> length (buf s'))"
  by (rule seek_reports_base_position) simp

end
