(* ===== verification/CmdLine.thy ===== *)
theory CmdLine
  imports Strings_Numbers SortedVector
begin

text \<open>
  The command line parser (\<open>CmdLineParser.cpp\<close>, \<open>CmdLineParser.hpp\<close>): the table of
  options and its checks, the parsing of an argument vector into a \<open>SortedVectorMap\<close> of
  values, and the usage text. A \<open>String\<close> is the list of its characters here; the lemmas at
  the end of the first section say that the operations on texts are those of \<open>Strings\<close>.
  What is logged is left out.
\<close>

section \<open>Texts\<close>

definition char_text :: "u8 \<Rightarrow> bytes" where "char_text c = (if c = 0 then [] else [c])"

text \<open>\<open>indexOf(char)\<close> from the start and \<open>lastIndexOf(char, from)\<close>.\<close>

definition t_index :: "bytes \<Rightarrow> u8 \<Rightarrow> nat option" where
  "t_index t c = (if t = [] then None else strchr (t @ [0]) c)"

definition t_last :: "bytes \<Rightarrow> u8 \<Rightarrow> nat \<Rightarrow> nat" where
  "t_last t c from = (if from < length t then last_char_loop t c from else npos)"

definition starts_with :: "bytes \<Rightarrow> bytes \<Rightarrow> bool" where
  "starts_with t p \<longleftrightarrow> take (length p) t = p"

definition starts_with_char :: "bytes \<Rightarrow> u8 \<Rightarrow> bool" where
  "starts_with_char t c \<longleftrightarrow> t \<noteq> [] \<and> hd t = c"

definition toupper :: "u8 \<Rightarrow> u8" where
  "toupper c = (if 0x61 \<le> c \<and> c \<le> 0x7A then c - 0x20 else c)"

text \<open>\<open>equalsIgnoreCase\<close>; for C strings it always returns.\<close>

definition equal_ignoring_case :: "bytes \<Rightarrow> bytes \<Rightarrow> bool" where
  "equal_ignoring_case a b = (compareToIgnoreCase (a @ [0]) (b @ [0]) = Some (Inr 0))"

lemma t_index_String:
  assumes "0 \<notin> set t" "length t < npos"
  shows "indexOf_char (String_of (t @ [0])) c 0 = (case t_index t c of Some i \<Rightarrow> i | None \<Rightarrow> npos)"
  using assms by (auto simp: indexOf_char_def t_index_def slength_def c_str_def String_of_def ByteBuf_of_def
      strlen_def cstr_append_nul split: option.split)

lemma starts_with_String:
  assumes "0 \<notin> set t" "0 \<notin> set p"
  shows "startsWith (String_of (t @ [0])) (p @ [0]) = starts_with t p"
    "startsWith_char (String_of (t @ [0])) c = starts_with_char t c"
  using assms by (auto simp: startsWith_def startsWith_char_def starts_with_def starts_with_char_def
      slength_def c_str_def String_of_def ByteBuf_of_def strlen_def cstr_append_nul nth_append hd_conv_nth
      dest: arg_cong [where f = length])

section \<open>Options\<close>

datatype ECaseSensitivityFlag = E_CASE_SENSITIVE | E_CASE_INSENSITIVE
datatype EArgumentTypeFlag = E_NO_ARG | E_REQUIRED_ARG | E_OPTIONAL_ARG | E_GROUPING
datatype EOptionVisibilityTypeFlag = E_OPTION_VISIBLE | E_OPTION_NOT_VISIBLE
datatype EErrorCodes = E_INVALID_OPTION | E_MISSING_ARGUMENT | E_INVALID_NON_OPTION_ARG | E_MISSING_OPTION
datatype EAllowNonOptionArgsFlag = E_NON_OPTION_ARGS_ALLOWED | E_NON_OPTION_ARGS_INVALID
datatype EUsageVisibilityFlag = E_USAGE_SHOW_VISIBLE | E_USAGE_SHOW_ALL

text \<open>\<open>CmdLineParserException\<close>: code and message.\<close>

type_synonym cmd_error = "EErrorCodes \<times> bytes"

record ParserOption =
  opt_id :: int
  shortopt :: u8
  longopt :: bytes
  argtype :: EArgumentTypeFlag
  haveDefaultValue :: bool
  defaultValue :: bytes
  description :: bytes
  visibility :: EOptionVisibilityTypeFlag

text \<open>The static table of the interface; a null pointer is \<open>None\<close>.\<close>

record Option =
  o_id :: int
  o_shortopt :: u8
  o_longopt :: "bytes option"
  o_argtype :: EArgumentTypeFlag
  o_defaultValue :: "bytes option"
  o_description :: "bytes option"

definition ParserOption_of :: "Option \<Rightarrow> ParserOption" where
  "ParserOption_of opt =
     \<lparr>opt_id = o_id opt, shortopt = o_shortopt opt, longopt = (case o_longopt opt of Some t \<Rightarrow> t | None \<Rightarrow> []),
      argtype = o_argtype opt,
      haveDefaultValue = (o_argtype opt = E_OPTIONAL_ARG \<and> o_defaultValue opt \<noteq> None),
      defaultValue = (case o_defaultValue opt of Some t \<Rightarrow> t | None \<Rightarrow> []),
      description = (case o_description opt of Some t \<Rightarrow> t | None \<Rightarrow> []),
      visibility = E_OPTION_VISIBLE\<rparr>"

definition longOptIs :: "bytes \<Rightarrow> ECaseSensitivityFlag \<Rightarrow> ParserOption \<Rightarrow> bool" where
  "longOptIs longOpt flag x = (case flag of
     E_CASE_SENSITIVE \<Rightarrow> longOpt = longopt x
   | E_CASE_INSENSITIVE \<Rightarrow> equal_ignoring_case longOpt (longopt x))"

definition shortOptIs :: "u8 \<Rightarrow> ECaseSensitivityFlag \<Rightarrow> ParserOption \<Rightarrow> bool" where
  "shortOptIs shortOpt flag x = (case flag of
     E_CASE_SENSITIVE \<Rightarrow> shortOpt = shortopt x
   | E_CASE_INSENSITIVE \<Rightarrow> toupper shortOpt = toupper (shortopt x))"

definition optIsID :: "int \<Rightarrow> ParserOption \<Rightarrow> bool" where
  "optIsID i x \<longleftrightarrow> i = opt_id x"

section \<open>The parser\<close>

type_synonym parsed_options = "(int \<times> bytes list) list"

record CmdLineParser =
  m_parsedOptions :: parsed_options
  m_nonOptionArgs :: "bytes list"
  m_options :: "ParserOption list"
  m_lowestInternalID :: int
  m_shortOptionPrefix :: u8
  m_longOptionPrefix :: bytes
  m_valueSeparator :: u8
  m_caseSensitivity :: ECaseSensitivityFlag

definition new_CmdLineParser :: "u8 \<Rightarrow> bytes \<Rightarrow> u8 \<Rightarrow> ECaseSensitivityFlag \<Rightarrow> CmdLineParser" where
  "new_CmdLineParser shortOptionPrefix longOptionPrefix valueSeparator caseSensitivity =
     \<lparr>m_parsedOptions = [], m_nonOptionArgs = [], m_options = [], m_lowestInternalID = -1,
      m_shortOptionPrefix = shortOptionPrefix, m_longOptionPrefix = longOptionPrefix,
      m_valueSeparator = valueSeparator, m_caseSensitivity = caseSensitivity\<rparr>"

definition ambiguityExists :: "CmdLineParser \<Rightarrow> bool" where
  "ambiguityExists p \<longleftrightarrow> m_longOptionPrefix p = [m_shortOptionPrefix p]"

abbreviation has_long :: "CmdLineParser \<Rightarrow> bytes \<Rightarrow> bool" where
  "has_long p t \<equiv> \<exists>x \<in> set (m_options p). longOptIs t (m_caseSensitivity p) x"

abbreviation has_short :: "CmdLineParser \<Rightarrow> u8 \<Rightarrow> bool" where
  "has_short p c \<equiv> \<exists>x \<in> set (m_options p). shortOptIs c (m_caseSensitivity p) x"

text \<open>The checks of \<open>verifyOptionValidity\<close> in their order, and the messages.\<close>

datatype fault = BothEmpty | GroupingNamed | LongInUse | LongIsShort | ShortInUse | ShortIsLong | OwnLong | NoDefault

definition option_fault :: "CmdLineParser \<Rightarrow> ParserOption \<Rightarrow> fault option" where
  "option_fault p opt =
     (let l = longopt opt; s = shortopt opt in
      if argtype opt \<noteq> E_GROUPING \<and> l = [] \<and> s = 0 then Some BothEmpty
      else if argtype opt = E_GROUPING \<and> (l \<noteq> [] \<or> s \<noteq> 0) then Some GroupingNamed
      else if l \<noteq> [] \<and> has_long p l then Some LongInUse
      else if l \<noteq> [] \<and> ambiguityExists p \<and> length l = 1 \<and> has_short p (hd l) then Some LongIsShort
      else if s \<noteq> 0 \<and> has_short p s then Some ShortInUse
      else if s \<noteq> 0 \<and> ambiguityExists p \<and> has_long p [s] then Some ShortIsLong
      else if s \<noteq> 0 \<and> ambiguityExists p \<and> l = [s] then Some OwnLong
      else if argtype opt = E_OPTIONAL_ARG \<and> \<not> haveDefaultValue opt then Some NoDefault
      else None)"

definition fault_text :: "CmdLineParser \<Rightarrow> ParserOption \<Rightarrow> fault \<Rightarrow> bytes" where
  "fault_text p opt f =
     (let l = m_longOptionPrefix p @ longopt opt; s = char_text (m_shortOptionPrefix p) @ char_text (shortopt opt) in
      case f of
        BothEmpty \<Rightarrow> lit ''Both long and short options cannot be empty''
      | GroupingNamed \<Rightarrow> lit ''Grouping options cannot have long or short option values''
      | LongInUse \<Rightarrow> lit ''Long option \"'' @ l @ lit ''\" is already in use''
      | LongIsShort \<Rightarrow> lit ''Long \"'' @ l @ lit ''\" conflicts with a short option''
      | ShortInUse \<Rightarrow> lit ''Short option \"'' @ s @ lit ''\" is already in use''
      | ShortIsLong \<Rightarrow> lit ''Short option \"'' @ s @ lit ''\" conflicts with a long option''
      | OwnLong \<Rightarrow> lit ''Short option \"'' @ s @ lit ''\" conflicts its own long option \"'' @
          m_longOptionPrefix p @ char_text (shortopt opt) @ lit ''\"''
      | NoDefault \<Rightarrow> lit ''Argument \"'' @ (if longopt opt = [] then s else l) @
          lit ''\" must have default value to be optional'')"

definition verifyOptionValidity :: "CmdLineParser \<Rightarrow> ParserOption \<Rightarrow> cmd_error + unit" where
  "verifyOptionValidity p opt = (case option_fault p opt of
     Some f \<Rightarrow> Inl (E_INVALID_OPTION, fault_text p opt f) | None \<Rightarrow> Inr ())"

definition append_option :: "CmdLineParser \<Rightarrow> ParserOption \<Rightarrow> cmd_error + CmdLineParser" where
  "append_option p opt = rbind (verifyOptionValidity p opt) (\<lambda>_. Inr (p\<lparr>m_options := m_options p @ [opt]\<rparr>))"

text \<open>\<open>addOptions\<close> reads the table up to its terminator. A failure leaves the options added
  before it; the result is the parser and the exception, if any.\<close>

fun addOptions :: "CmdLineParser \<Rightarrow> Option list \<Rightarrow> CmdLineParser \<times> cmd_error option" where
  "addOptions p [] = (p, None)"
| "addOptions p (opt # opts) =
     (if o_shortopt opt \<noteq> 0 \<or> o_longopt opt \<noteq> None then
        case append_option p (ParserOption_of opt) of
          Inl e \<Rightarrow> (p, Some e)
        | Inr p' \<Rightarrow> addOptions p' opts
      else (p, None))"

definition addOptionWithID ::
  "CmdLineParser \<Rightarrow> int \<Rightarrow> u8 \<Rightarrow> bytes \<Rightarrow> EArgumentTypeFlag \<Rightarrow> bytes \<Rightarrow> EOptionVisibilityTypeFlag
   \<Rightarrow> cmd_error + CmdLineParser" where
  "addOptionWithID p i s l argType desc vis =
     append_option p \<lparr>opt_id = i, shortopt = s, longopt = l, argtype = argType, haveDefaultValue = False,
       defaultValue = [], description = desc, visibility = vis\<rparr>"

definition addDefaultedWithID ::
  "CmdLineParser \<Rightarrow> int \<Rightarrow> u8 \<Rightarrow> bytes \<Rightarrow> bytes \<Rightarrow> bytes \<Rightarrow> EOptionVisibilityTypeFlag
   \<Rightarrow> cmd_error + CmdLineParser" where
  "addDefaultedWithID p i s l dflt desc vis =
     append_option p \<lparr>opt_id = i, shortopt = s, longopt = l, argtype = E_OPTIONAL_ARG, haveDefaultValue = True,
       defaultValue = dflt, description = desc, visibility = vis\<rparr>"

definition addOption ::
  "CmdLineParser \<Rightarrow> u8 \<Rightarrow> bytes \<Rightarrow> EArgumentTypeFlag \<Rightarrow> bytes \<Rightarrow> EOptionVisibilityTypeFlag
   \<Rightarrow> cmd_error + int \<times> CmdLineParser" where
  "addOption p s l argType desc vis =
     rbind (addOptionWithID p (m_lowestInternalID p - 1) s l argType desc vis) (\<lambda>p'.
       Inr (m_lowestInternalID p - 1, p'\<lparr>m_lowestInternalID := m_lowestInternalID p - 1\<rparr>))"

definition addDefaulted ::
  "CmdLineParser \<Rightarrow> u8 \<Rightarrow> bytes \<Rightarrow> bytes \<Rightarrow> bytes \<Rightarrow> EOptionVisibilityTypeFlag
   \<Rightarrow> cmd_error + int \<times> CmdLineParser" where
  "addDefaulted p s l dflt desc vis =
     rbind (addDefaultedWithID p (m_lowestInternalID p - 1) s l dflt desc vis) (\<lambda>p'.
       Inr (m_lowestInternalID p - 1, p'\<lparr>m_lowestInternalID := m_lowestInternalID p - 1\<rparr>))"

section \<open>Parsing\<close>

datatype EOptionType = E_OPTION_INVALID | E_OPTION_SHORT | E_OPTION_LONG

text \<open>The type of the argument, the option without prefix and value, the value, and whether
  a value was attached.\<close>

definition splitArgument :: "CmdLineParser \<Rightarrow> bytes \<Rightarrow> EOptionType \<times> bytes \<times> bytes \<times> bool" where
  "splitArgument p option =
     (let valueIndex = t_index option (m_valueSeparator p);
          (value, attached) = (case valueIndex of Some i \<Rightarrow> (drop (i + 1) option, True) | None \<Rightarrow> ([], False));
          without = (case valueIndex of Some i \<Rightarrow> take i option | None \<Rightarrow> option);
          (ty, base) =
            (if starts_with without (m_longOptionPrefix p) then
               if length without = 2 \<and> ambiguityExists p then (E_OPTION_SHORT, take 1 (drop 1 without))
               else (E_OPTION_LONG, drop (length (m_longOptionPrefix p)) without)
             else if starts_with_char without (m_shortOptionPrefix p) then (E_OPTION_SHORT, take 1 (drop 1 without))
             else (E_OPTION_INVALID, []))
      in if ty = E_OPTION_SHORT \<and> length option > 2 \<and> option ! 2 \<noteq> m_valueSeparator p
         then (ty, base, drop 2 option, True)
         else (ty, base, value, attached))"

definition option_text :: "CmdLineParser \<Rightarrow> EOptionType \<Rightarrow> bytes \<Rightarrow> bytes" where
  "option_text p ty base = (if ty = E_OPTION_SHORT then char_text (m_shortOptionPrefix p) @ take 1 base
     else m_longOptionPrefix p @ base)"

text \<open>The search for the option; the outer \<open>None\<close> is an argument that is no option.\<close>

definition find_option :: "CmdLineParser \<Rightarrow> EOptionType \<Rightarrow> bytes \<Rightarrow> ParserOption option option" where
  "find_option p ty base =
     (let flag = m_caseSensitivity p in
      if ty = E_OPTION_LONG \<and> base \<noteq> [] then Some (find (longOptIs base flag) (m_options p))
      else if ty = E_OPTION_SHORT \<and> base \<noteq> [] then
        Some (case find (shortOptIs (hd base) flag) (m_options p) of
            Some x \<Rightarrow> Some x
          | None \<Rightarrow> if ambiguityExists p then find (longOptIs base flag) (m_options p) else None)
      else None)"

text \<open>\<open>parsedOptions[id]\<close> and \<open>parsedOptions[id].push_back(value)\<close>.\<close>

definition touch :: "parsed_options \<Rightarrow> int \<Rightarrow> parsed_options" where
  "touch m i = snd (svm_index (<) [] m i)"

definition push_value :: "parsed_options \<Rightarrow> int \<Rightarrow> bytes \<Rightarrow> parsed_options" where
  "push_value m i v = (let (k, w) = svm_index (<) [] m i in w[k := (fst (w ! k), snd (w ! k) @ [v])])"

text \<open>Whether the argument behind an option is its value.\<close>

definition use_next :: "CmdLineParser \<Rightarrow> bytes \<Rightarrow> bool" where
  "use_next p nextArg \<longleftrightarrow> nextArg = char_text (m_shortOptionPrefix p) \<or>
     (\<not> starts_with nextArg (m_longOptionPrefix p) \<and> \<not> starts_with_char nextArg (m_shortOptionPrefix p))"

definition stray_text :: "bytes \<Rightarrow> bytes" where
  "stray_text arg = lit ''Invalid non-option argument \"'' @ arg @ lit ''\"''"

definition undefined_text :: "bytes \<Rightarrow> bytes" where
  "undefined_text t = lit ''Option \"'' @ t @ lit ''\" is not defined''"

definition no_value_text :: "bytes \<Rightarrow> bytes" where
  "no_value_text t = lit ''Option \"'' @ t @ lit ''\" does not take a value''"

text \<open>The loop over the arguments behind the program name. The members are changed as it
  goes, so they keep what was parsed before an exception.\<close>

fun parse_loop :: "CmdLineParser \<Rightarrow> EAllowNonOptionArgsFlag \<Rightarrow> bytes list \<Rightarrow> CmdLineParser \<times> cmd_error option" where
  "parse_loop p allow [] = (p, None)"
| "parse_loop p allow (arg # rest) =
     (let (ty, base, value, attached) = splitArgument p arg; text = option_text p ty base in
      case find_option p ty base of
        None \<Rightarrow>
          if allow = E_NON_OPTION_ARGS_INVALID
          then (p, Some (E_INVALID_NON_OPTION_ARG, stray_text arg))
          else parse_loop (p\<lparr>m_nonOptionArgs := m_nonOptionArgs p @ [arg]\<rparr>) allow rest
      | Some None \<Rightarrow> (p, Some (E_INVALID_OPTION, undefined_text text))
      | Some (Some x) \<Rightarrow>
          if argtype x = E_NO_ARG then
            if attached then (p, Some (E_INVALID_OPTION, no_value_text text))
            else parse_loop (p\<lparr>m_parsedOptions := touch (m_parsedOptions p) (opt_id x)\<rparr>) allow rest
          else if attached then
            parse_loop (p\<lparr>m_parsedOptions := push_value (m_parsedOptions p) (opt_id x) value\<rparr>) allow rest
          else if rest \<noteq> [] \<and> use_next p (hd rest) then
            parse_loop (p\<lparr>m_parsedOptions := push_value (m_parsedOptions p) (opt_id x) (hd rest)\<rparr>) allow (tl rest)
          else if argtype x = E_OPTIONAL_ARG \<and> haveDefaultValue x then
            parse_loop (p\<lparr>m_parsedOptions := push_value (m_parsedOptions p) (opt_id x) (defaultValue x)\<rparr>) allow rest
          else (p, Some (E_MISSING_ARGUMENT, text)))"

declare parse_loop.simps(2) [simp del]

text \<open>\<open>parse\<close>; the argument vector has to hold the program name at least (the assertion is
  not checked in a release build).\<close>

definition parse :: "CmdLineParser \<Rightarrow> bytes list \<Rightarrow> EAllowNonOptionArgsFlag \<Rightarrow> CmdLineParser \<times> cmd_error option" where
  "parse p argv allow = parse_loop (p\<lparr>m_parsedOptions := [], m_nonOptionArgs := []\<rparr>) allow (tl argv)"

section \<open>Queries\<close>

definition getOptionID :: "CmdLineParser \<Rightarrow> bytes \<Rightarrow> cmd_error + int" where
  "getOptionID p option =
     (let flag = m_caseSensitivity p; lp = m_longOptionPrefix p; opts = m_options p in
      if option = [] then Inl (E_MISSING_OPTION, lit ''<empty option>'')
      else case
        (if starts_with option lp then
           if length option > length lp then
             case find (longOptIs (drop (length lp) option) flag) opts of
               Some x \<Rightarrow> Some x
             | None \<Rightarrow> if ambiguityExists p \<and> length option = 2 then find (shortOptIs (option ! 1) flag) opts
                 else None
           else None
         else if starts_with_char option (m_shortOptionPrefix p) then
           if length option = 2 then find (shortOptIs (option ! 1) flag) opts else None
         else if length option > 1 then find (longOptIs option flag) opts
         else find (shortOptIs (option ! 0) flag) opts) of
        None \<Rightarrow> Inl (E_INVALID_OPTION, lit ''Invalid option \"'' @ option @ lit ''\"'')
      | Some x \<Rightarrow> Inr (opt_id x))"

definition getOptionByID :: "CmdLineParser \<Rightarrow> int \<Rightarrow> EErrorCodes + ParserOption" where
  "getOptionByID p i = (case find (optIsID i) (m_options p) of
     None \<Rightarrow> Inl E_INVALID_OPTION | Some x \<Rightarrow> Inr x)"

definition getAllOptionIDs :: "CmdLineParser \<Rightarrow> int list" where
  "getAllOptionIDs p = map opt_id (m_options p)"

definition getShortOptionByID :: "CmdLineParser \<Rightarrow> int \<Rightarrow> EErrorCodes + bytes" where
  "getShortOptionByID p i = rbind (getOptionByID p i) (\<lambda>x. Inr (char_text (shortopt x)))"

definition getLongOptionByID :: "CmdLineParser \<Rightarrow> int \<Rightarrow> EErrorCodes + bytes" where
  "getLongOptionByID p i = rbind (getOptionByID p i) (\<lambda>x. Inr (longopt x))"

definition getDescriptionByID :: "CmdLineParser \<Rightarrow> int \<Rightarrow> EErrorCodes + bytes" where
  "getDescriptionByID p i = rbind (getOptionByID p i) (\<lambda>x. Inr (description x))"

definition values_at :: "parsed_options \<Rightarrow> int \<Rightarrow> bytes list option" where
  "values_at m i = map_option snd (sv_lookup (<) fst m i)"

definition getOptionValueList :: "CmdLineParser \<Rightarrow> int \<Rightarrow> bytes list" where
  "getOptionValueList p i = (case values_at (m_parsedOptions p) i of
     Some vs \<Rightarrow> if length vs > 0 then vs else [] | None \<Rightarrow> [])"

definition mustGetOptionValueList :: "CmdLineParser \<Rightarrow> int \<Rightarrow> bytes \<Rightarrow> cmd_error + bytes list" where
  "mustGetOptionValueList p i msg = (case values_at (m_parsedOptions p) i of
     Some vs \<Rightarrow> if length vs > 0 then Inr vs else Inl (E_MISSING_OPTION, msg) | None \<Rightarrow> Inl (E_MISSING_OPTION, msg))"

definition getOptionValue :: "CmdLineParser \<Rightarrow> int \<Rightarrow> bytes \<Rightarrow> bytes" where
  "getOptionValue p i dflt = (case values_at (m_parsedOptions p) i of
     Some vs \<Rightarrow> if length vs > 0 then vs ! (length vs - 1) else dflt | None \<Rightarrow> dflt)"

definition mustGetOptionValue :: "CmdLineParser \<Rightarrow> int \<Rightarrow> bytes \<Rightarrow> cmd_error + bytes" where
  "mustGetOptionValue p i msg = (case values_at (m_parsedOptions p) i of
     Some vs \<Rightarrow> if length vs > 0 then Inr (vs ! (length vs - 1)) else Inl (E_MISSING_OPTION, msg)
   | None \<Rightarrow> Inl (E_MISSING_OPTION, msg))"

definition isSet :: "CmdLineParser \<Rightarrow> int \<Rightarrow> bool" where
  "isSet p i \<longleftrightarrow> svm_count (<) (m_parsedOptions p) i > 0"

definition isSet_text :: "CmdLineParser \<Rightarrow> bytes \<Rightarrow> cmd_error + bool" where
  "isSet_text p option = rbind (getOptionID p option) (\<lambda>i. Inr (isSet p i))"

section \<open>The usage text\<close>

definition NUM_OPTION_COLUMNS :: nat where "NUM_OPTION_COLUMNS = 28"

definition optionSpaces :: bytes where "optionSpaces = replicate NUM_OPTION_COLUMNS 0x20"
definition initialIndent :: bytes where "initialIndent = [0x20, 0x20]"

text \<open>The line of an option before it is wrapped.\<close>

definition option_columns :: "CmdLineParser \<Rightarrow> ParserOption \<Rightarrow> bytes" where
  "option_columns p x =
     (let names = initialIndent @
            (if shortopt x \<noteq> 0 then m_shortOptionPrefix p # shortopt x # (if longopt x \<noteq> [] then lit '', '' else []) else []) @
            (if longopt x \<noteq> [] then m_longOptionPrefix p @ longopt x else []) @
            (case argtype x of E_REQUIRED_ARG \<Rightarrow> lit '' <arg>'' | E_OPTIONAL_ARG \<Rightarrow> lit '' [arg]'' | _ \<Rightarrow> []) in
      if argtype x \<noteq> E_GROUPING then
        names @ take (if length names \<ge> NUM_OPTION_COLUMNS - 1 then 1 else NUM_OPTION_COLUMNS - length names) optionSpaces
      else names)"

definition option_line :: "CmdLineParser \<Rightarrow> ParserOption \<Rightarrow> bytes" where
  "option_line p x = option_columns p x @ description x @
     (if haveDefaultValue x then
        (let quote = (if 0x20 \<in> set (defaultValue x) then lit ''\"'' else []) in
         lit '' (default is '' @ quote @ defaultValue x @ quote @ lit '')'')
      else [])"

definition t_index_or_npos :: "bytes \<Rightarrow> u8 \<Rightarrow> nat" where
  "t_index_or_npos t c = (case t_index t c of Some i \<Rightarrow> i | None \<Rightarrow> npos)"

text \<open>Where a line is cut, and where the next one begins.\<close>

definition wrap_cut :: "nat \<Rightarrow> bytes \<Rightarrow> nat \<times> nat" where
  "wrap_cut maxColumns curLineStr =
     (let newlineIdx = t_index_or_npos curLineStr 0x0A; lastSpaceIdx = t_last curLineStr 0x20 maxColumns in
      if newlineIdx \<le> maxColumns then (newlineIdx, newlineIdx + 1)
      else if lastSpaceIdx > NUM_OPTION_COLUMNS then (lastSpaceIdx, size_add lastSpaceIdx 1)
      else (maxColumns, maxColumns))"

partial_function (option) wrap_loop :: "nat \<Rightarrow> bool \<Rightarrow> bytes \<Rightarrow> bytes \<Rightarrow> (bytes \<times> bytes) option" where
  "wrap_loop maxColumns grouping usage curLine =
     (if length curLine > maxColumns \<or> t_index curLine 0x0A \<noteq> None then
        let (cutIdx, nextLineBeginIdx) = wrap_cut maxColumns curLine in
        wrap_loop maxColumns grouping (usage @ take cutIdx curLine @ [0x0A])
          ((if grouping then initialIndent else optionSpaces) @ drop nextLineBeginIdx curLine)
      else Some (usage, curLine))"

fun usage_loop :: "CmdLineParser \<Rightarrow> nat \<Rightarrow> EUsageVisibilityFlag \<Rightarrow> ParserOption list \<Rightarrow> bytes \<Rightarrow> bytes option" where
  "usage_loop p maxColumns vis [] usage = Some usage"
| "usage_loop p maxColumns vis (x # xs) usage =
     (let groupingNewline = (if argtype x = E_GROUPING then [0x0A] else []) in
      if visibility x = E_OPTION_NOT_VISIBLE \<and> vis \<noteq> E_USAGE_SHOW_ALL
      then usage_loop p maxColumns vis xs usage
      else case wrap_loop maxColumns (argtype x = E_GROUPING) (usage @ groupingNewline) (option_line p x) of
        None \<Rightarrow> None
      | Some (usage', curLine) \<Rightarrow>
          usage_loop p maxColumns vis xs (usage' @ curLine @ [0x0A] @ groupingNewline))"

definition getUsage :: "CmdLineParser \<Rightarrow> u32 \<Rightarrow> EUsageVisibilityFlag \<Rightarrow> bytes option" where
  "getUsage p maxColumns vis = usage_loop p (unat maxColumns) vis (m_options p) (lit ''Options:'' @ [0x0A])"

end
