(* ===== verification/CmdLine_Props.thy ===== *)
theory CmdLine_Props
  imports CmdLine
begin

text \<open>
  What the command line parser promises: the usage text and when it exists, the lookup of
  registered options, and the result of parsing.
\<close>

section \<open>Wrapping of lines\<close>

definition lines :: "bytes list \<Rightarrow> bytes" where
  "lines ls = concat (map (\<lambda>l. l @ [0x0A]) ls)"

lemma lines_simps [simp]:
  "lines [] = []" "lines (l # ls) = l @ 0x0A # lines ls" "lines (ls @ ms) = lines ls @ lines ms"
  by (simp_all add: lines_def)

definition black :: "bytes \<Rightarrow> bytes" where
  "black t = filter (\<lambda>c. c \<noteq> 0x20 \<and> c \<noteq> 0x0A) t"

lemma black_simps [simp]:
  "black [] = []" "black (s @ t) = black s @ black t"
  "black (c # t) = (if c = 0x20 \<or> c = 0x0A then black t else c # black t)"
  by (simp_all add: black_def)

lemma black_replicate [simp]: "black (replicate n 0x20) = []" by (simp add: black_def)

lemma black_take_drop: "black (take n t) @ black (drop n t) = black t"
  by (metis append_take_drop_id black_simps(2))

lemma black_cut:
  assumes "n < length t" "t ! n = 0x20 \<or> t ! n = 0x0A"
  shows "black (take n t) @ black (drop (Suc n) t) = black t"
proof -
  have "drop n t = t ! n # drop (Suc n) t" using assms(1) by (rule Cons_nth_drop_Suc [symmetric])
  then show ?thesis using black_take_drop [of n t] assms(2) by auto
qed

lemma strchr_Some:
  "strchr t c = Some i \<Longrightarrow> i < length t \<and> t ! i = c \<and> c \<notin> set (take i t)"
  by (induction t arbitrary: i) (auto simp: less_Suc_eq_0_disj nth_Cons' split: if_splits)

lemma t_index_Some:
  assumes "t_index t c = Some i" "c \<noteq> 0"
  shows "i < length t" "t ! i = c" "c \<notin> set (take i t)"
  using assms strchr_Some [of "t @ [0]" c i]
  by (auto simp: t_index_def nth_append split: if_splits)

lemma t_index_None:
  assumes "t_index t c = None" "0 \<notin> set t" "c \<noteq> 0"
  shows "c \<notin> set t"
  using assms strchr_nul [of t c "[]"] by (auto simp: t_index_def split: if_splits)

lemma last_char_loop_cases:
  "last_char_loop d c i = npos \<and> d ! 0 \<noteq> c \<or> last_char_loop d c i \<le> i \<and> d ! last_char_loop d c i = c"
proof (induction i)
  case 0
  show ?case by (auto simp: last_char_loop.simps [of d c 0])
next
  case (Suc i)
  then show ?case by (auto simp: last_char_loop.simps [of d c "Suc i"])
qed

lemma t_last_found:
  assumes "t \<noteq> []" "hd t = c" "from < length t"
  shows "t_last t c from \<le> from" "t ! t_last t c from = c"
  using assms last_char_loop_cases [of t c "from"] by (auto simp: t_last_def hd_conv_nth)

text \<open>One round of wrapping: the piece that is cut off fits and holds no newline, nothing but a
  space or a newline is lost, and what is left is shorter or has a newline less.\<close>

lemma wrap_cut_facts:
  assumes "wrap_cut w t = (len1, nxt)" "length t > w \<or> t_index t 0x0A \<noteq> None"
    and "t \<noteq> []" "hd t = 0x20" "28 < w" "w < npos"
  shows "length (take len1 t) \<le> w" "black (take len1 t) @ black (drop nxt t) = black t"
    "0 \<notin> set t \<Longrightarrow> 0x0A \<notin> set (take len1 t)"
    "count_list (drop nxt t) 0x0A < count_list t 0x0A \<or>
     count_list (drop nxt t) 0x0A \<le> count_list t 0x0A \<and> 28 < nxt \<and> nxt \<le> length t"
proof -
  have count: "count_list t 0x0A = count_list (take n t) 0x0A + count_list (drop n t) 0x0A" for n
    by (metis append_take_drop_id count_list_append)
  have "length (take len1 t) \<le> w \<and> black (take len1 t) @ black (drop nxt t) = black t \<and>
    (0 \<notin> set t \<longrightarrow> 0x0A \<notin> set (take len1 t)) \<and>
    (count_list (drop nxt t) 0x0A < count_list t 0x0A \<or>
     count_list (drop nxt t) 0x0A \<le> count_list t 0x0A \<and> 28 < nxt \<and> nxt \<le> length t)"
  proof (cases "t_index_or_npos t 0x0A \<le> w")
    case True
    then obtain i where i: "t_index t 0x0A = Some i" "i \<le> w"
      using assms(6) by (auto simp: t_index_or_npos_def split: option.splits)
    note at = t_index_Some [OF i(1)]
    have "len1 = i" "nxt = Suc i" using assms(1) True i by (auto simp: wrap_cut_def t_index_or_npos_def Let_def)
    moreover have "drop i t = 0x0A # drop (Suc i) t"
      using at Cons_nth_drop_Suc [of i t] by simp
    then have "count_list (drop (Suc i) t) 0x0A < count_list t 0x0A"
      using count [of i] by simp
    ultimately show ?thesis using at black_cut [of i t] i(2) by auto
  next
    case False
    have long: "w < length t" and nonl: "0 \<notin> set t \<longrightarrow> 0x0A \<notin> set (take w t)"
    proof -
      show "w < length t"
        using assms(2) False t_index_Some(1) [of t "0x0A"] by (fastforce simp: t_index_or_npos_def)
      show "0 \<notin> set t \<longrightarrow> 0x0A \<notin> set (take w t)"
      proof
        assume z: "0 \<notin> set t"
        show "0x0A \<notin> set (take w t)"
        proof (cases "t_index t 0x0A")
          case None
          then show ?thesis using t_index_None [OF None z] by (auto dest: in_set_takeD)
        next
          case (Some i)
          then have "w < i" using False by (simp add: t_index_or_npos_def)
          then show ?thesis
            using t_index_Some(3) [OF Some] set_take_subset_set_take [of w i t] by auto
        qed
      qed
    qed
    let ?s = "t_last t 0x20 w"
    have s: "?s \<le> w" "t ! ?s = 0x20" using t_last_found [OF assms(3,4) long] by auto
    show ?thesis
    proof (cases "28 < ?s")
      case True
      then have "len1 = ?s" "nxt = Suc ?s"
        using assms(1,6) False s(1)
        by (auto simp: wrap_cut_def NUM_OPTION_COLUMNS_def Let_def size_add_def npos_def)
      then show ?thesis
        using s True long nonl count [of "Suc ?s"] black_cut [of ?s t]
          set_take_subset_set_take [of ?s w t] by auto
    next
      case nospace: False
      then have "len1 = w" "nxt = w"
        using assms(1) False by (auto simp: wrap_cut_def NUM_OPTION_COLUMNS_def Let_def)
      then show ?thesis using long nonl count [of w] assms(5) by (auto simp: black_take_drop)
    qed
  qed
  then show "length (take len1 t) \<le> w" "black (take len1 t) @ black (drop nxt t) = black t"
    "0 \<notin> set t \<Longrightarrow> 0x0A \<notin> set (take len1 t)"
    "count_list (drop nxt t) 0x0A < count_list t 0x0A \<or>
     count_list (drop nxt t) 0x0A \<le> count_list t 0x0A \<and> 28 < nxt \<and> nxt \<le> length t"
    by blast+
qed

lemma wrap_loop_returns:
  assumes "28 < w" "w < npos" "t \<noteq> []" "hd t = 0x20" "0 \<notin> set t"
  shows "\<exists>ls l. wrap_loop w grp usage t = Some (usage @ lines ls, l) \<and>
    (\<forall>x \<in> set (ls @ [l]). length x \<le> w \<and> 0x0A \<notin> set x) \<and> black (lines (ls @ [l])) = black t"
  using assms(3-5)
proof (induction t arbitrary: usage rule: wf_induct_rule [OF wf_measures [of "[\<lambda>t. count_list t 0x0A, length]"]])
  case (1 t)
  show ?case
  proof (cases "length t > w \<or> t_index t 0x0A \<noteq> None")
    case False
    then show ?thesis using t_index_None [of t "0x0A"] 1
      by (subst wrap_loop.simps) (auto intro!: exI [of _ "[]"])
  next
    case True
    obtain len1 nxt where c: "wrap_cut w t = (len1, nxt)" by (cases "wrap_cut w t")
    note f = wrap_cut_facts [OF c True "1.prems"(1,2) assms(1,2)]
    let ?sp = "if grp then initialIndent else optionSpaces"
    let ?t = "?sp @ drop nxt t"
    have sp: "?sp \<noteq> []" "hd ?sp = 0x20" "0 \<notin> set ?sp" "black ?sp = []" "length ?sp \<le> 28" "count_list ?sp 0x0A = 0"
      by (auto simp: initialIndent_def optionSpaces_def NUM_OPTION_COLUMNS_def count_list_0_iff)
    have "(?t, t) \<in> measures [\<lambda>t. count_list t 0x0A, length]"
      using f(4) sp(5,6) by auto
    moreover have "?t \<noteq> []" "hd ?t = 0x20" "0 \<notin> set ?t"
      using sp "1.prems"(3) by (auto dest: in_set_dropD)
    ultimately obtain ls l where ls: "wrap_loop w grp ((usage @ take len1 t @ [0x0A])) ?t =
        Some ((usage @ take len1 t @ [0x0A]) @ lines ls, l)"
      "\<forall>x \<in> set (ls @ [l]). length x \<le> w \<and> 0x0A \<notin> set x" "black (lines (ls @ [l])) = black ?t"
      using "1.IH" [of ?t "usage @ take len1 t @ [0x0A]"] by blast
    have "wrap_loop w grp usage t = Some (usage @ lines (take len1 t # ls), l)"
      using True ls(1) by (subst wrap_loop.simps) (simp add: c)
    moreover have "\<forall>x \<in> set ((take len1 t # ls) @ [l]). length x \<le> w \<and> 0x0A \<notin> set x"
      using ls(2) f(1,3) "1.prems"(3) by simp
    moreover have "black (lines ((take len1 t # ls) @ [l])) = black t"
      using ls(3) f(2) sp(4) by simp
    ultimately show ?thesis by blast
  qed
qed

text \<open>With fewer columns than the description column, a line never gets short enough.\<close>

lemma wrap_loop_short:
  assumes "wrap_loop w grp usage t = Some r"
  shows "w < 28 \<longrightarrow> \<not> grp \<longrightarrow> \<not> 28 \<le> length t"
proof (rule wrap_loop.raw_induct [where P = "\<lambda>w grp usage t r. w < 28 \<longrightarrow> \<not> grp \<longrightarrow> \<not> 28 \<le> length t", OF _ assms])
  fix f w grp usage t r
  assume IH: "\<And>w grp usage t r. f w grp usage t = Some r \<Longrightarrow> w < 28 \<longrightarrow> \<not> grp \<longrightarrow> \<not> 28 \<le> length t"
    and run: "(if length t > w \<or> t_index t 0x0A \<noteq> None then
        let (cutIdx, nextLineBeginIdx) = wrap_cut w t in
        f w grp (usage @ take cutIdx t @ [0x0A])
          ((if grp then initialIndent else optionSpaces) @ drop nextLineBeginIdx t)
      else Some (usage, t)) = Some r"
  show "w < 28 \<longrightarrow> \<not> grp \<longrightarrow> \<not> 28 \<le> length t"
  proof (intro impI notI)
    assume "w < 28" "\<not> grp" "28 \<le> length t"
    with run obtain u s where "f w grp u (optionSpaces @ s) = Some r" by (auto split: prod.splits)
    from IH [OF this] \<open>w < 28\<close> \<open>\<not> grp\<close> show False by (simp add: optionSpaces_def NUM_OPTION_COLUMNS_def)
  qed
qed

lemma wrap_loop_diverges:
  assumes "w < 28" "28 \<le> length t"
  shows "wrap_loop w False usage t = None"
  using wrap_loop_short [of w False usage t] assms by (cases "wrap_loop w False usage t") auto


section \<open>Usage\<close>

definition texts_ok :: "CmdLineParser \<Rightarrow> ParserOption \<Rightarrow> bool" where
  "texts_ok p x \<longleftrightarrow> m_shortOptionPrefix p \<noteq> 0 \<and> 0 \<notin> set (m_longOptionPrefix p) \<and> 0 \<notin> set (longopt x) \<and>
     0 \<notin> set (description x) \<and> 0 \<notin> set (defaultValue x)"

definition visible_in :: "EUsageVisibilityFlag \<Rightarrow> ParserOption \<Rightarrow> bool" where
  "visible_in vis x \<longleftrightarrow> visibility x = E_OPTION_VISIBLE \<or> vis = E_USAGE_SHOW_ALL"

lemma option_line_start: "option_line p x \<noteq> []" "hd (option_line p x) = 0x20"
  by (simp_all add: option_line_def option_columns_def initialIndent_def Let_def)

lemma option_line_nul: "texts_ok p x \<Longrightarrow> 0 \<notin> set (option_line p x)"
  by (auto simp: option_line_def option_columns_def initialIndent_def optionSpaces_def texts_ok_def lit_def Let_def
      split: EArgumentTypeFlag.splits dest: in_set_takeD)

lemma option_line_length: "argtype x \<noteq> E_GROUPING \<Longrightarrow> 28 \<le> length (option_line p x)"
  by (simp add: option_line_def option_columns_def optionSpaces_def NUM_OPTION_COLUMNS_def Let_def)

lemma usage_loop_returns:
  assumes "28 < w" "w < npos" "\<forall>x \<in> set xs. texts_ok p x"
  shows "\<exists>ls. usage_loop p w vis xs usage = Some (usage @ lines ls) \<and> (\<forall>l \<in> set ls. length l \<le> w) \<and>
    black (lines ls) = concat (map (\<lambda>x. black (option_line p x)) (filter (visible_in vis) xs))"
  using assms(3)
proof (induction xs arbitrary: usage)
  case Nil
  show ?case by (rule exI [of _ "[]"]) simp
next
  case (Cons x xs)
  show ?case
  proof (cases "visible_in vis x")
    case False
    then show ?thesis using Cons by (cases "visibility x") (auto simp: visible_in_def Let_def)
  next
    case True
    let ?n = "if argtype x = E_GROUPING then [[]] else [] :: bytes list"
    have grp: "(if argtype x = E_GROUPING then [0x0A] else []) = lines ?n" by simp
    obtain ls l where ls: "wrap_loop w (argtype x = E_GROUPING) (usage @ lines ?n) (option_line p x) =
        Some ((usage @ lines ?n) @ lines ls, l)"
      "\<forall>x \<in> set (ls @ [l]). length x \<le> w \<and> 0x0A \<notin> set x" "black (lines (ls @ [l])) = black (option_line p x)"
      using wrap_loop_returns [OF assms(1,2) option_line_start option_line_nul] Cons.prems
      by (metis list.set_intros(1))
    let ?m = "?n @ ls @ [l] @ ?n"
    obtain ms where ms: "usage_loop p w vis xs (usage @ lines ?m) = Some ((usage @ lines ?m) @ lines ms)"
      "\<forall>l \<in> set ms. length l \<le> w"
      "black (lines ms) = concat (map (\<lambda>x. black (option_line p x)) (filter (visible_in vis) xs))"
      using Cons.IH [of "usage @ lines ?m"] Cons.prems by auto
    have "usage_loop p w vis (x # xs) usage = Some (usage @ lines (?m @ ms))"
      using True ls(1) ms(1) by (auto simp: visible_in_def grp Let_def)
    moreover have "\<forall>l \<in> set (?m @ ms). length l \<le> w" using ls(2) ms(2) by auto
    moreover have "black (lines ?m) = black (option_line p x)" using ls(3) by auto
    ultimately show ?thesis using True ms(3) by (intro exI [of _ "?m @ ms"]) auto
  qed
qed

lemma usage_loop_diverges:
  assumes "w < 28" "x \<in> set xs" "visible_in vis x" "argtype x \<noteq> E_GROUPING"
  shows "usage_loop p w vis xs usage = None"
  using assms(2)
proof (induction xs arbitrary: usage)
  case (Cons y xs)
  show ?case
  proof (cases "y = x")
    case True
    then show ?thesis
      using assms wrap_loop_diverges [OF assms(1) option_line_length [OF assms(4), of p]]
      by (auto simp: visible_in_def Let_def)
  next
    case False
    then show ?thesis using Cons by (auto simp: Let_def split: option.splits)
  qed
qed simp

text \<open>
  C35. With more than 28 columns the usage text is returned, no line of it is longer than
  asked for, and nothing but spaces and line ends of the options it shows is lost.
\<close>

theorem getUsage_fits:
  assumes "28 < unat maxColumns" "\<forall>x \<in> set (m_options p). texts_ok p x"
  shows "\<exists>ls. getUsage p maxColumns vis = Some (lines ls) \<and> (\<forall>l \<in> set ls. length l \<le> unat maxColumns) \<and>
    black (lines ls) = lit ''Options:'' @
      concat (map (\<lambda>x. black (option_line p x)) (filter (visible_in vis) (m_options p)))"
proof -
  have "unat maxColumns < 2 ^ LENGTH(32)" by (rule unsigned_less)
  then have "unat maxColumns < npos" by (simp add: npos_def)
  from usage_loop_returns [OF assms(1) this assms(2), of vis "lines [lit ''Options:'']"]
  obtain ls where ls: "getUsage p maxColumns vis = Some (lines (lit ''Options:'' # ls))"
    "\<forall>l \<in> set ls. length l \<le> unat maxColumns"
    "black (lines ls) = concat (map (\<lambda>x. black (option_line p x)) (filter (visible_in vis) (m_options p)))"
    by (auto simp: getUsage_def)
  moreover have "black (lit ''Options:'') = lit ''Options:''" "length (lit ''Options:'') = 8"
    by (simp_all add: lit_def)
  ultimately show ?thesis using assms(1) by (intro exI [of _ "lit ''Options:'' # ls"]) auto
qed

definition demo_option :: ParserOption where
  "demo_option = \<lparr>opt_id = 1, shortopt = 0x6F, longopt = lit ''output'', argtype = E_REQUIRED_ARG,
     haveDefaultValue = False, defaultValue = [], description = lit ''the file to write'',
     visibility = E_OPTION_VISIBLE\<rparr>"

definition demo_flag :: ParserOption where
  "demo_flag = \<lparr>opt_id = 2, shortopt = 0x76, longopt = lit ''verbose'', argtype = E_NO_ARG,
     haveDefaultValue = False, defaultValue = [], description = [], visibility = E_OPTION_VISIBLE\<rparr>"

definition demo_parser :: CmdLineParser where
  "demo_parser = (new_CmdLineParser 0x2D [0x2D, 0x2D] 0x3D E_CASE_SENSITIVE)\<lparr>m_options := [demo_option, demo_flag]\<rparr>"

theorem getUsage_fits_witness:
  "\<exists>ls. getUsage demo_parser 80 E_USAGE_SHOW_ALL = Some (lines ls) \<and> (\<forall>l \<in> set ls. length l \<le> 80)"
proof -
  have "\<forall>x \<in> set (m_options demo_parser). texts_ok demo_parser x"
    by (simp add: demo_parser_def new_CmdLineParser_def texts_ok_def demo_option_def demo_flag_def lit_def)
  from getUsage_fits [OF _ this, of 80 E_USAGE_SHOW_ALL] show ?thesis by auto
qed

text \<open>
  With less than 28 columns and an option to show, \<open>getUsage\<close> never returns: what is
  cut off a line is no more than the indentation of the next one.
\<close>

theorem getUsage_never_returns:
  assumes "unat maxColumns < 28" "x \<in> set (m_options p)" "visible_in vis x" "argtype x \<noteq> E_GROUPING"
  shows "getUsage p maxColumns vis = None"
  using assms by (simp add: getUsage_def usage_loop_diverges)

theorem getUsage_never_returns_witness: "getUsage demo_parser 20 E_USAGE_SHOW_VISIBLE = None"
  by (rule getUsage_never_returns [of _ demo_option])
    (simp_all add: demo_parser_def demo_option_def visible_in_def)


section \<open>The table of options\<close>

text \<open>A table in which every option passed the checks against those before it.\<close>

definition table_ok :: "CmdLineParser \<Rightarrow> bool" where
  "table_ok p \<longleftrightarrow> (\<forall>os x os'. m_options p = os @ x # os' \<longrightarrow> option_fault (p\<lparr>m_options := os\<rparr>) x = None)"

inductive api_step :: "CmdLineParser \<Rightarrow> CmdLineParser \<Rightarrow> bool" where
  "addOptions p os = (p', e) \<Longrightarrow> api_step p p'"
| "addOptionWithID p i s l t d v = Inr p' \<Longrightarrow> api_step p p'"
| "addDefaultedWithID p i s l a d v = Inr p' \<Longrightarrow> api_step p p'"
| "addOption p s l t d v = Inr (i, p') \<Longrightarrow> api_step p p'"
| "addDefaulted p s l a d v = Inr (i, p') \<Longrightarrow> api_step p p'"
| "parse p argv allow = (p', e) \<Longrightarrow> api_step p p'"

definition api_start :: "CmdLineParser \<Rightarrow> bool" where
  "api_start p \<longleftrightarrow> (\<exists>sp lp vs fl. p = new_CmdLineParser sp lp vs fl)"

definition same_table :: "CmdLineParser \<Rightarrow> CmdLineParser \<Rightarrow> bool" where
  "same_table p q \<longleftrightarrow> m_options q = m_options p \<and> m_longOptionPrefix q = m_longOptionPrefix p \<and>
     m_shortOptionPrefix q = m_shortOptionPrefix p \<and> m_caseSensitivity q = m_caseSensitivity p"

lemma same_table_verify:
  "same_table p q \<Longrightarrow> option_fault (q\<lparr>m_options := os\<rparr>) x = option_fault (p\<lparr>m_options := os\<rparr>) x"
  by (simp add: same_table_def option_fault_def ambiguityExists_def Let_def cong: if_cong)

lemma same_table_ok: "same_table p q \<Longrightarrow> table_ok p \<Longrightarrow> table_ok q"
  unfolding table_ok_def using same_table_verify [of p q] by (auto simp: same_table_def)

lemma append_option_ok:
  assumes "table_ok p" "append_option p x = Inr p'"
  shows "table_ok p'"
proof -
  have v: "option_fault p x = None" and p': "p' = p\<lparr>m_options := m_options p @ [x]\<rparr>"
    using assms(2) by (auto simp: append_option_def verifyOptionValidity_def rbind_eq_Inr_iff split: option.splits)
  show ?thesis
    unfolding table_ok_def
  proof (intro allI impI)
    fix os y os'
    assume "m_options p' = os @ y # os'"
    then have "os' = [] \<and> os = m_options p \<and> y = x \<or> (\<exists>r. m_options p = os @ y # r)"
      using p' by (cases os' rule: rev_cases) auto
    then show "option_fault (p'\<lparr>m_options := os\<rparr>) y = None"
      using v assms(1) p' by (auto simp: table_ok_def)
  qed
qed

lemma addOptions_ok: "table_ok p \<Longrightarrow> addOptions p os = (p', e) \<Longrightarrow> table_ok p'"
  by (induction p os rule: addOptions.induct)
    (auto split: if_splits sum.splits intro: append_option_ok)

lemma parse_loop_table: "same_table p q \<Longrightarrow> parse_loop q allow argv = (r, e) \<Longrightarrow> same_table p r"
proof (induction q allow argv rule: parse_loop.induct)
  case (2 q allow arg rest)
  obtain ty base val att where s: "splitArgument q arg = (ty, base, val, att)" by (cases "splitArgument q arg")
  note IH = "2.IH" [OF s [symmetric] refl refl refl refl]
  show ?case
    using "2.prems" IH
    by (auto simp: parse_loop.simps(2) s same_table_def Let_def split: option.splits if_splits)
qed simp

lemma added_ok:
  "table_ok p \<Longrightarrow> addOptionWithID p i s l t d v = Inr p' \<Longrightarrow> table_ok p'"
  "table_ok p \<Longrightarrow> addDefaultedWithID p i s l a d v = Inr p' \<Longrightarrow> table_ok p'"
  by (auto simp: addOptionWithID_def addDefaultedWithID_def intro: append_option_ok)

lemma table_ok_id: "table_ok p \<Longrightarrow> table_ok (p\<lparr>m_lowestInternalID := i\<rparr>)"
  by (erule same_table_ok [rotated]) (simp add: same_table_def)

lemma table_ok_step:
  assumes "table_ok p" "api_step p p'"
  shows "table_ok p'"
  using assms(2)
proof cases
  case (6 argv allow e)
  then have run: "parse_loop (p\<lparr>m_parsedOptions := [], m_nonOptionArgs := []\<rparr>) allow (tl argv) = (p', e)"
    by (simp add: parse_def)
  have "same_table p (p\<lparr>m_parsedOptions := [], m_nonOptionArgs := []\<rparr>)" by (simp add: same_table_def)
  then have "same_table p p'" using run by (rule parse_loop_table)
  then show ?thesis using assms(1) by (rule same_table_ok)
next
  case (4 s l t d v i)
  then obtain q where "addOptionWithID p (m_lowestInternalID p - 1) s l t d v = Inr q"
    and p': "p' = q\<lparr>m_lowestInternalID := m_lowestInternalID p - 1\<rparr>"
    by (auto simp: addOption_def rbind_eq_Inr_iff)
  from added_ok(1) [OF assms(1) this(1)] show ?thesis unfolding p' by (rule table_ok_id)
next
  case (5 s l a d v i)
  then obtain q where "addDefaultedWithID p (m_lowestInternalID p - 1) s l a d v = Inr q"
    and p': "p' = q\<lparr>m_lowestInternalID := m_lowestInternalID p - 1\<rparr>"
    by (auto simp: addDefaulted_def rbind_eq_Inr_iff)
  from added_ok(2) [OF assms(1) this(1)] show ?thesis unfolding p' by (rule table_ok_id)
next
  case 1
  with assms(1) show ?thesis by (rule addOptions_ok)
qed (use added_ok [OF assms(1)] in blast)+

lemma table_ok_init: "table_ok \<lparr>m_parsedOptions = a, m_nonOptionArgs = b, m_options = [], m_lowestInternalID = i,
    m_shortOptionPrefix = sp, m_longOptionPrefix = lp, m_valueSeparator = vs, m_caseSensitivity = fl\<rparr>"
  by (simp add: table_ok_def)

interpretation option_table: invariant_system api_start api_step table_ok
  by unfold_locales (auto simp: api_start_def new_CmdLineParser_def table_ok_init intro: table_ok_step)

lemma find_first:
  "P x \<Longrightarrow> \<forall>y \<in> set os. \<not> P y \<Longrightarrow> find P (os @ x # os') = Some x"
  by (induction os) auto

lemma verified:
  assumes "option_fault p x = None"
  shows "longopt x \<noteq> [] \<Longrightarrow> \<not> has_long p (longopt x)"
    "shortopt x \<noteq> 0 \<Longrightarrow> \<not> has_short p (shortopt x)"
    "shortopt x \<noteq> 0 \<Longrightarrow> ambiguityExists p \<Longrightarrow> \<not> has_long p [shortopt x] \<and> longopt x \<noteq> [shortopt x]"
    "longopt x \<noteq> [] \<Longrightarrow> ambiguityExists p \<Longrightarrow> length (longopt x) = 1 \<Longrightarrow> \<not> has_short p (hd (longopt x))"
  using assms unfolding option_fault_def Let_def by (auto split: if_splits)

lemma longOptIs_refl: "0 \<notin> set (longopt x) \<Longrightarrow> longOptIs (longopt x) fl x"
  using compareToIgnoreCase_refl [of "longopt x @ [0]"]
  by (auto simp: longOptIs_def equal_ignoring_case_def c_string_def split: ECaseSensitivityFlag.split)

lemma shortOptIs_refl: "shortOptIs (shortopt x) fl x"
  by (simp add: shortOptIs_def split: ECaseSensitivityFlag.split)

lemma table_lookup:
  assumes "table_ok p" "x \<in> set (m_options p)"
  shows "longopt x \<noteq> [] \<Longrightarrow> 0 \<notin> set (longopt x) \<Longrightarrow>
      find (longOptIs (longopt x) (m_caseSensitivity p)) (m_options p) = Some x"
    and "shortopt x \<noteq> 0 \<Longrightarrow> find (shortOptIs (shortopt x) (m_caseSensitivity p)) (m_options p) = Some x"
proof -
  obtain os os' where split: "m_options p = os @ x # os'" using assms(2) by (auto simp: in_set_conv_decomp)
  have v: "option_fault (p\<lparr>m_options := os\<rparr>) x = None" using assms(1) split by (simp add: table_ok_def)
  show "find (longOptIs (longopt x) (m_caseSensitivity p)) (m_options p) = Some x"
    if "longopt x \<noteq> []" "0 \<notin> set (longopt x)"
    unfolding split using verified(1) [OF v that(1)] longOptIs_refl [OF that(2)] by (intro find_first) auto
  show "find (shortOptIs (shortopt x) (m_caseSensitivity p)) (m_options p) = Some x" if "shortopt x \<noteq> 0"
    unfolding split using verified(2) [OF v that] shortOptIs_refl by (intro find_first) auto
qed

text \<open>In an ambiguous parser with case, a short option is no long option of one character.\<close>

lemma table_no_long:
  assumes "table_ok p" "x \<in> set (m_options p)" "shortopt x \<noteq> 0" "ambiguityExists p"
    and "m_caseSensitivity p = E_CASE_SENSITIVE"
  shows "find (longOptIs [shortopt x] E_CASE_SENSITIVE) (m_options p) = None"
proof -
  obtain os os' where split: "m_options p = os @ x # os'" using assms(2) by (auto simp: in_set_conv_decomp)
  have amb: "ambiguityExists (p\<lparr>m_options := ps\<rparr>)" for ps using assms(4) by (simp add: ambiguityExists_def)
  have v: "option_fault (p\<lparr>m_options := os\<rparr>) x = None" using assms(1) split by (simp add: table_ok_def)
  have "[shortopt x] \<noteq> longopt y" if "y \<in> set (m_options p)" for y
  proof
    assume "[shortopt x] = longopt y"
    then have l: "longopt y = [shortopt x]" by simp
    then have "y \<notin> set os" "y \<noteq> x"
      using verified(3) [OF v assms(3) amb] assms(5) by (auto simp: longOptIs_def)
    then have "y \<in> set os'" using that split by auto
    then obtain a b where s: "os' = a @ y # b" by (meson split_list)
    then have "m_options p = (os @ x # a) @ y # b" using split by simp
    then have "option_fault (p\<lparr>m_options := os @ x # a\<rparr>) y = None"
      using assms(1) unfolding table_ok_def by blast
    from verified(4) [OF this _ amb] l show False by (simp add: shortOptIs_refl)
  qed
  then show ?thesis by (auto simp: find_None_iff longOptIs_def)
qed

text \<open>
  Whatever calls built the parser: an option that was added is found under its long name
  with the prefix, and (when case matters) under its short name.
\<close>

theorem registered_options_are_found:
  assumes "reach api_start api_step p" "x \<in> set (m_options p)" "m_longOptionPrefix p \<noteq> []"
  shows "(longopt x \<noteq> [] \<and> 0 \<notin> set (longopt x) \<longrightarrow>
      getOptionID p (m_longOptionPrefix p @ longopt x) = Inr (opt_id x)) \<and>
    (shortopt x \<noteq> 0 \<and> m_caseSensitivity p = E_CASE_SENSITIVE \<and>
      m_longOptionPrefix p \<noteq> [m_shortOptionPrefix p, shortopt x] \<longrightarrow>
      getOptionID p [m_shortOptionPrefix p, shortopt x] = Inr (opt_id x))"
proof (intro conjI impI)
  have ok: "table_ok p" by (rule option_table.reachable_inv [OF assms(1)])
  note look = table_lookup [OF ok assms(2)]
  show "getOptionID p (m_longOptionPrefix p @ longopt x) = Inr (opt_id x)"
    if "longopt x \<noteq> [] \<and> 0 \<notin> set (longopt x)"
    using that assms(3) look(1) by (simp add: getOptionID_def starts_with_def Let_def)
  show "getOptionID p [m_shortOptionPrefix p, shortopt x] = Inr (opt_id x)"
    if that: "shortopt x \<noteq> 0 \<and> m_caseSensitivity p = E_CASE_SENSITIVE \<and>
      m_longOptionPrefix p \<noteq> [m_shortOptionPrefix p, shortopt x]"
  proof (cases "starts_with [m_shortOptionPrefix p, shortopt x] (m_longOptionPrefix p)")
    case True
    then have lp: "m_longOptionPrefix p = [m_shortOptionPrefix p]"
      using that assms(3)
      by (cases "m_longOptionPrefix p" rule: remdups_adj.cases) (auto simp: starts_with_def take_Cons' split: if_splits)
    then show ?thesis
      using that look(2) table_no_long [OF ok assms(2)] True
      by (simp add: getOptionID_def ambiguityExists_def Let_def)
  next
    case False
    then show ?thesis using that look(2) by (simp add: getOptionID_def starts_with_char_def Let_def)
  qed
qed


lemma demo_parser_reach: "reach api_start api_step demo_parser"
proof -
  let ?p = "new_CmdLineParser 0x2D [0x2D, 0x2D] 0x3D E_CASE_SENSITIVE"
  let ?o = "\<lparr>o_id = 1, o_shortopt = 0x6F, o_longopt = Some (lit ''output''), o_argtype = E_REQUIRED_ARG,
     o_defaultValue = None, o_description = Some (lit ''the file to write'')\<rparr>"
  let ?v = "\<lparr>o_id = 2, o_shortopt = 0x76, o_longopt = Some (lit ''verbose''), o_argtype = E_NO_ARG,
     o_defaultValue = None, o_description = None\<rparr>"
  have "addOptions ?p [?o, ?v] = (demo_parser, None)"
    by (simp add: append_option_def verifyOptionValidity_def option_fault_def ambiguityExists_def longOptIs_def
        shortOptIs_def demo_parser_def demo_option_def demo_flag_def new_CmdLineParser_def ParserOption_of_def
        lit_def Let_def)
  then show ?thesis
    by (blast intro: reach_init reach_step api_step.intros(1) api_start_def [THEN iffD2])
qed

theorem registered_options_are_found_witness:
  "getOptionID demo_parser (lit ''--output'') = Inr 1 \<and> getOptionID demo_parser (lit ''-v'') = Inr 2"
proof -
  note found = registered_options_are_found [OF demo_parser_reach]
  have "m_longOptionPrefix demo_parser = [0x2D, 0x2D]" "m_shortOptionPrefix demo_parser = 0x2D"
    "m_caseSensitivity demo_parser = E_CASE_SENSITIVE" "set (m_options demo_parser) = {demo_option, demo_flag}"
    by (simp_all add: demo_parser_def new_CmdLineParser_def)
  with found [of demo_option] found [of demo_flag] show ?thesis
    by (simp add: demo_option_def demo_flag_def lit_def)
qed

section \<open>The parsed options\<close>

lemma svm_index_facts:
  assumes "sv_inv (<) fst m"
  shows "sv_inv (<) fst (snd (svm_index (<) [] m i))"
    "sv_lookup (<) fst (snd (svm_index (<) [] m i)) j =
      (if sv_lookup (<) fst m i = None \<and> i = j then Some (i, []) else sv_lookup (<) fst m (j :: int))"
    "snd (svm_index (<) [] m i) ! fst (svm_index (<) [] m i) =
      (case sv_lookup (<) fst m i of Some d \<Rightarrow> d | None \<Rightarrow> (i, []))"
proof -
  have eq: "snd (svm_index (<) [] m i) = snd (sv_insert (<) fst m (i, []))"
    by (simp add: svm_index_def sv_insert_def Let_def)
  show "sv_inv (<) fst (snd (svm_index (<) [] m i))" unfolding eq by (rule less_order.ins_inv [OF assms])
  show "sv_lookup (<) fst (snd (svm_index (<) [] m i)) j =
      (if sv_lookup (<) fst m i = None \<and> i = j then Some (i, []) else sv_lookup (<) fst m j)"
    unfolding eq using less_order.ins_lookup [OF assms, of "(i, [])" j] by simp
  have "sv_lower_bound (<) fst m i \<le> length m" by (rule less_order.split_at_bound(3) [OF assms])
  then show "snd (svm_index (<) [] m i) ! fst (svm_index (<) [] m i) =
      (case sv_lookup (<) fst m i of Some d \<Rightarrow> d | None \<Rightarrow> (i, []))"
    by (auto simp: svm_index_def sv_lookup_def sv_find_def vector_insert_def sv_present_def nth_append Let_def)
qed

lemma lookup_key: "sv_inv (<) fst m \<Longrightarrow> sv_lookup (<) fst m i = Some d \<Longrightarrow> fst d = (i :: int)"
  using less_order.lookup_Some [of fst m i d] by simp

lemma touch_values:
  assumes "sv_inv (<) fst m"
  shows "sv_inv (<) fst (touch m i)"
    "values_at (touch m i) = (values_at m)(i \<mapsto> (case values_at m i of Some vs \<Rightarrow> vs | None \<Rightarrow> []))"
  using svm_index_facts [OF assms, of i] by (auto simp: touch_def values_at_def fun_eq_iff split: option.split)

lemma push_values:
  assumes "sv_inv (<) fst m"
  shows "sv_inv (<) fst (push_value m i v)"
    "values_at (push_value m i v) = (values_at m)(i \<mapsto> (case values_at m i of Some vs \<Rightarrow> vs | None \<Rightarrow> []) @ [v])"
proof -
  let ?old = "case values_at m i of Some vs \<Rightarrow> vs | None \<Rightarrow> []"
  have "push_value m i v = svm_assign (<) [] m i (?old @ [v])"
    using svm_index_facts(3) [OF assms, of i] lookup_key [OF assms]
    by (auto simp: push_value_def svm_assign_def values_at_def split: prod.split option.split)
  then show "sv_inv (<) fst (push_value m i v)"
    "values_at (push_value m i v) = (values_at m)(i \<mapsto> ?old @ [v])"
    using svm_assign_updates [OF assms, of "[]" i "?old @ [v]"]
    by (auto simp: values_at_def fun_eq_iff)
qed

text \<open>
  What the type of an option says about its values: none for a flag, at least one for an
  option with an argument, nothing under an id that is not in the table.
\<close>

definition well_typed :: "CmdLineParser \<Rightarrow> bool" where
  "well_typed p \<longleftrightarrow> sv_inv (<) fst (m_parsedOptions p) \<and>
     (\<forall>i vs. values_at (m_parsedOptions p) i = Some vs \<longrightarrow>
       (\<exists>x \<in> set (m_options p). opt_id x = i \<and> (if argtype x = E_NO_ARG then vs = [] else vs \<noteq> [])))"

definition unique_ids :: "CmdLineParser \<Rightarrow> bool" where
  "unique_ids p \<longleftrightarrow> inj_on opt_id (set (m_options p))"

lemma well_typed_touch:
  assumes "well_typed p" "unique_ids p" "x \<in> set (m_options p)" "argtype x = E_NO_ARG"
  shows "well_typed (p\<lparr>m_parsedOptions := touch (m_parsedOptions p) (opt_id x)\<rparr>)"
  using assms touch_values [of "m_parsedOptions p" "opt_id x"]
  by (fastforce simp: well_typed_def unique_ids_def inj_on_def split: option.splits if_splits)

lemma well_typed_push:
  assumes "well_typed p" "x \<in> set (m_options p)" "argtype x \<noteq> E_NO_ARG"
  shows "well_typed (p\<lparr>m_parsedOptions := push_value (m_parsedOptions p) (opt_id x) v\<rparr>)"
  using assms push_values [of "m_parsedOptions p" "opt_id x" v]
  by (auto simp: well_typed_def)

lemma values_at_Nil: "values_at [] i = None"
  using less_order.vec.lookup_empty [of fst i] by (simp add: values_at_def)

lemma other_fields:
  "well_typed (p\<lparr>m_nonOptionArgs := a\<rparr>) = well_typed p" "unique_ids (p\<lparr>m_nonOptionArgs := a\<rparr>) = unique_ids p"
  "unique_ids (p\<lparr>m_parsedOptions := m\<rparr>) = unique_ids p"
  by (simp_all add: well_typed_def unique_ids_def)

lemma find_option_in: "find_option p ty base = Some (Some x) \<Longrightarrow> x \<in> set (m_options p)"
  by (auto simp: find_option_def Let_def find_Some_iff split: if_splits option.splits)

lemma parse_loop_typed:
  "well_typed p \<Longrightarrow> unique_ids p \<Longrightarrow> parse_loop p allow argv = (p', e) \<Longrightarrow> well_typed p'"
proof (induction p allow argv rule: parse_loop.induct)
  case (2 p allow arg rest)
  obtain ty base val att where s: "splitArgument p arg = (ty, base, val, att)" by (cases "splitArgument p arg")
  note IH = "2.IH" [OF s [symmetric] refl refl refl refl]
  show ?case
  proof (cases "find_option p ty base")
    case None
    then show ?thesis using "2.prems" IH(1)
      by (auto simp: parse_loop.simps(2) s Let_def other_fields split: if_splits)
  next
    case (Some ox)
    show ?thesis
    proof (cases ox)
      case None
      then show ?thesis using Some "2.prems" by (simp add: parse_loop.simps(2) s Let_def)
    next
      case x: (Some x)
      then have f: "find_option p ty base = Some (Some x)" using Some by simp
      note wt = well_typed_touch [OF "2.prems"(1,2) find_option_in [OF f]]
        well_typed_push [OF "2.prems"(1) find_option_in [OF f]]
      show ?thesis
        using "2.prems" IH(2-5) [OF f refl] wt
        by (auto simp: parse_loop.simps(2) s f Let_def other_fields split: if_splits)
    qed
  qed
qed simp


text \<open>
  C34. The values of a parser have the types of its options, when their ids are unique:
  after any parse, successful or not, a flag has no value, an option with an argument that
  is set has at least one, and no other id is set.
\<close>

theorem parsed_options_are_typed:
  assumes "unique_ids p" "parse p argv allow = (p', e)"
  shows "well_typed p'"
proof -
  let ?q = "p\<lparr>m_parsedOptions := [], m_nonOptionArgs := []\<rparr>"
  have "well_typed ?q" by (simp add: well_typed_def sv_inv_def values_at_Nil)
  moreover have "unique_ids ?q" using assms(1) by (simp add: unique_ids_def)
  ultimately show ?thesis using assms(2) parse_loop_typed [of ?q allow "tl argv"] by (simp add: parse_def)
qed

theorem parsed_options_are_typed_witness:
  "well_typed (fst (parse demo_parser [lit ''prog'', lit ''-v'', lit ''--output''] E_NON_OPTION_ARGS_ALLOWED))"
proof (rule parsed_options_are_typed)
  show "unique_ids demo_parser"
    by (simp add: unique_ids_def demo_parser_def demo_option_def demo_flag_def)
  show "parse demo_parser [lit ''prog'', lit ''-v'', lit ''--output''] E_NON_OPTION_ARGS_ALLOWED =
    (fst (parse demo_parser [lit ''prog'', lit ''-v'', lit ''--output''] E_NON_OPTION_ARGS_ALLOWED),
     snd (parse demo_parser [lit ''prog'', lit ''-v'', lit ''--output''] E_NON_OPTION_ARGS_ALLOWED))" by simp
qed

section \<open>Command lines and what they mean\<close>

text \<open>
  The ways to write an option, for parsers like those of GNU programs: the long prefix is
  the short one twice.
\<close>

datatype cmd_item =
    LongFlag ParserOption           \<comment> \<open>\<open>--name\<close>\<close>
  | ShortFlag ParserOption          \<comment> \<open>\<open>-n\<close>\<close>
  | LongValue ParserOption bytes    \<comment> \<open>\<open>--name=value\<close>\<close>
  | ShortValue ParserOption bytes   \<comment> \<open>\<open>-nvalue\<close>\<close>
  | NextValue ParserOption bytes    \<comment> \<open>\<open>--name value\<close>\<close>
  | Defaulted ParserOption          \<comment> \<open>\<open>--name\<close> with the default value\<close>
  | Plain bytes                     \<comment> \<open>an argument that is no option\<close>

fun render :: "CmdLineParser \<Rightarrow> cmd_item \<Rightarrow> bytes list" where
  "render p (LongFlag x) = [m_longOptionPrefix p @ longopt x]"
| "render p (ShortFlag x) = [[m_shortOptionPrefix p, shortopt x]]"
| "render p (LongValue x v) = [m_longOptionPrefix p @ longopt x @ m_valueSeparator p # v]"
| "render p (ShortValue x v) = [m_shortOptionPrefix p # shortopt x # v]"
| "render p (NextValue x v) = [m_longOptionPrefix p @ longopt x, v]"
| "render p (Defaulted x) = [m_longOptionPrefix p @ longopt x]"
| "render p (Plain t) = [t]"

definition gnu_style :: "CmdLineParser \<Rightarrow> bool" where
  "gnu_style p \<longleftrightarrow> m_longOptionPrefix p = [m_shortOptionPrefix p, m_shortOptionPrefix p] \<and> m_shortOptionPrefix p \<noteq> 0 \<and>
     m_valueSeparator p \<noteq> 0 \<and> m_valueSeparator p \<noteq> m_shortOptionPrefix p"

definition long_ok :: "CmdLineParser \<Rightarrow> ParserOption \<Rightarrow> bool" where
  "long_ok p x \<longleftrightarrow> x \<in> set (m_options p) \<and> longopt x \<noteq> [] \<and> 0 \<notin> set (longopt x) \<and> m_valueSeparator p \<notin> set (longopt x)"

definition short_ok :: "CmdLineParser \<Rightarrow> ParserOption \<Rightarrow> bool" where
  "short_ok p x \<longleftrightarrow> x \<in> set (m_options p) \<and> shortopt x \<noteq> 0 \<and> shortopt x \<noteq> m_shortOptionPrefix p \<and>
     shortopt x \<noteq> m_valueSeparator p"

text \<open>The items, with the arguments that follow them.\<close>

fun item_ok :: "CmdLineParser \<Rightarrow> bytes list \<Rightarrow> cmd_item \<Rightarrow> bool" where
  "item_ok p rest (LongFlag x) = (long_ok p x \<and> argtype x = E_NO_ARG)"
| "item_ok p rest (ShortFlag x) = (short_ok p x \<and> argtype x = E_NO_ARG)"
| "item_ok p rest (LongValue x v) = (long_ok p x \<and> argtype x \<noteq> E_NO_ARG)"
| "item_ok p rest (ShortValue x v) = (short_ok p x \<and> argtype x \<noteq> E_NO_ARG \<and> v \<noteq> [] \<and> hd v \<noteq> m_valueSeparator p)"
| "item_ok p rest (NextValue x v) = (long_ok p x \<and> argtype x \<noteq> E_NO_ARG \<and> use_next p v)"
| "item_ok p rest (Defaulted x) = (long_ok p x \<and> argtype x = E_OPTIONAL_ARG \<and> haveDefaultValue x \<and>
     (rest = [] \<or> \<not> use_next p (hd rest)))"
| "item_ok p rest (Plain t) = (\<not> starts_with_char t (m_shortOptionPrefix p))"

fun items_ok :: "CmdLineParser \<Rightarrow> bytes list \<Rightarrow> cmd_item list \<Rightarrow> bool" where
  "items_ok p rest [] = True"
| "items_ok p rest (it # its) =
     (item_ok p (concat (map (render p) its) @ rest) it \<and> items_ok p rest its)"

fun effect :: "CmdLineParser \<Rightarrow> cmd_item \<Rightarrow> CmdLineParser" where
  "effect p (LongFlag x) = p\<lparr>m_parsedOptions := touch (m_parsedOptions p) (opt_id x)\<rparr>"
| "effect p (ShortFlag x) = p\<lparr>m_parsedOptions := touch (m_parsedOptions p) (opt_id x)\<rparr>"
| "effect p (LongValue x v) = p\<lparr>m_parsedOptions := push_value (m_parsedOptions p) (opt_id x) v\<rparr>"
| "effect p (ShortValue x v) = p\<lparr>m_parsedOptions := push_value (m_parsedOptions p) (opt_id x) v\<rparr>"
| "effect p (NextValue x v) = p\<lparr>m_parsedOptions := push_value (m_parsedOptions p) (opt_id x) v\<rparr>"
| "effect p (Defaulted x) = p\<lparr>m_parsedOptions := push_value (m_parsedOptions p) (opt_id x) (defaultValue x)\<rparr>"
| "effect p (Plain t) = p\<lparr>m_nonOptionArgs := m_nonOptionArgs p @ [t]\<rparr>"

lemma strchr_append:
  "c \<notin> set t \<Longrightarrow> 0 \<notin> set t \<Longrightarrow> strchr (t @ u) c = map_option (\<lambda>i. length t + i) (strchr u c)"
proof (induction t)
  case Nil
  show ?case by (cases "strchr u c") simp_all
next
  case (Cons a t)
  then show ?case by (cases "strchr u c") auto
qed

lemma t_index_append:
  "c \<notin> set t \<Longrightarrow> 0 \<notin> set t \<Longrightarrow> c \<noteq> 0 \<Longrightarrow> t_index (t @ c # u) c = Some (length t)"
  "c \<notin> set t \<Longrightarrow> 0 \<notin> set t \<Longrightarrow> c \<noteq> 0 \<Longrightarrow> t_index t c = None"
  using strchr_append [of c t "c # u @ [0]"] strchr_append [of c t "[0]"] by (auto simp: t_index_def)

lemma split_long:
  assumes "gnu_style p" "long_ok p x"
  shows "splitArgument p (m_longOptionPrefix p @ longopt x) = (E_OPTION_LONG, longopt x, [], False)"
    "splitArgument p (m_longOptionPrefix p @ longopt x @ m_valueSeparator p # v) = (E_OPTION_LONG, longopt x, v, True)"
proof -
  let ?t = "m_longOptionPrefix p @ longopt x" and ?c = "m_valueSeparator p"
  have t: "?c \<notin> set ?t" "0 \<notin> set ?t" "?c \<noteq> 0" using assms by (auto simp: gnu_style_def long_ok_def)
  have na: "\<not> ambiguityExists p" using assms(1) by (simp add: gnu_style_def ambiguityExists_def)
  show "splitArgument p ?t = (E_OPTION_LONG, longopt x, [], False)"
    using t_index_append(2) [OF t] na by (simp add: splitArgument_def starts_with_def Let_def)
  show "splitArgument p (m_longOptionPrefix p @ longopt x @ ?c # v) = (E_OPTION_LONG, longopt x, v, True)"
    using t_index_append(1) [OF t, of v] na by (simp add: splitArgument_def starts_with_def Let_def)
qed

lemma split_short:
  assumes "gnu_style p" "short_ok p x"
  shows "splitArgument p [m_shortOptionPrefix p, shortopt x] = (E_OPTION_SHORT, [shortopt x], [], False)"
    "v \<noteq> [] \<Longrightarrow> hd v \<noteq> m_valueSeparator p \<Longrightarrow>
      splitArgument p (m_shortOptionPrefix p # shortopt x # v) = (E_OPTION_SHORT, [shortopt x], v, True)"
proof -
  let ?s = "m_shortOptionPrefix p" and ?c = "m_valueSeparator p"
  have t: "?c \<notin> set [?s, shortopt x]" "0 \<notin> set [?s, shortopt x]" "?c \<noteq> 0"
    using assms by (auto simp: gnu_style_def short_ok_def)
  have lp: "\<not> starts_with (?s # shortopt x # u) (m_longOptionPrefix p)" for u
    using assms by (simp add: gnu_style_def short_ok_def starts_with_def)
  have na: "\<not> ambiguityExists p" using assms(1) by (simp add: gnu_style_def ambiguityExists_def)
  show "splitArgument p [?s, shortopt x] = (E_OPTION_SHORT, [shortopt x], [], False)"
    using t_index_append(2) [OF t] lp [of "[]"]
    by (simp add: splitArgument_def starts_with_char_def Let_def)
  assume v: "v \<noteq> []" "hd v \<noteq> ?c"
  have "t_index (?s # shortopt x # v) ?c = None \<or> (\<exists>i. t_index (?s # shortopt x # v) ?c = Some (Suc (Suc i)))"
    using t by (auto simp: t_index_def)
  then show "splitArgument p (?s # shortopt x # v) = (E_OPTION_SHORT, [shortopt x], v, True)"
    using lp v na by (auto simp: splitArgument_def starts_with_char_def hd_conv_nth Let_def)
qed

lemma split_plain:
  assumes "gnu_style p" "\<not> starts_with_char t (m_shortOptionPrefix p)"
  shows "\<exists>v a. splitArgument p t = (E_OPTION_INVALID, [], v, a)"
proof -
  have "\<not> starts_with_char (take i t) (m_shortOptionPrefix p)" "\<not> starts_with (take i t) (m_longOptionPrefix p)"
    "\<not> starts_with t (m_longOptionPrefix p)" for i
    using assms by (cases t; cases i; auto simp: starts_with_char_def gnu_style_def starts_with_def)+
  then show ?thesis using assms(2) by (auto simp: splitArgument_def Let_def split: option.split)
qed

lemma find_written:
  assumes "table_ok p"
  shows "long_ok p x \<Longrightarrow> find_option p E_OPTION_LONG (longopt x) = Some (Some x)"
    "short_ok p x \<Longrightarrow> find_option p E_OPTION_SHORT [shortopt x] = Some (Some x)"
  using table_lookup [OF assms, of x] by (auto simp: find_option_def long_ok_def short_ok_def Let_def)

definition same_setup :: "CmdLineParser \<Rightarrow> CmdLineParser \<Rightarrow> bool" where
  "same_setup p q \<longleftrightarrow> (\<exists>m a. q = p\<lparr>m_parsedOptions := m, m_nonOptionArgs := a\<rparr>)"

lemma same_setup_simps:
  assumes "same_setup p q"
  shows "table_ok q = table_ok p" "gnu_style q = gnu_style p" "render q = render p" "item_ok q = item_ok p"
    "same_setup p (effect q it)"
proof -
  obtain m a where q: "q = p\<lparr>m_parsedOptions := m, m_nonOptionArgs := a\<rparr>" using assms by (auto simp: same_setup_def)
  have "same_table p q" "same_table q p" by (simp_all add: q same_table_def)
  then show "table_ok q = table_ok p" by (blast intro: same_table_ok)
  show "gnu_style q = gnu_style p" by (simp add: q gnu_style_def)
  show "render q = render p"
  proof
    show "render q it = render p it" for it by (cases it) (simp_all add: q)
  qed
  show "item_ok q = item_ok p"
  proof (intro ext)
    show "item_ok q rest it = item_ok p rest it" for rest it
      by (cases it) (simp_all add: q long_ok_def short_ok_def use_next_def)
  qed
  show "same_setup p (effect q it)"
    by (cases p; cases it) (simp_all add: q same_setup_def)
qed

lemma parse_item:
  assumes "table_ok p" "gnu_style p" "item_ok p rest it" "allow = E_NON_OPTION_ARGS_ALLOWED"
  shows "parse_loop p allow (render p it @ rest) = parse_loop (effect p it) allow rest"
proof (cases it)
  case (Plain t)
  then obtain v a where "splitArgument p t = (E_OPTION_INVALID, [], v, a)"
    using assms(3) split_plain [OF assms(2), of t] by auto
  then show ?thesis using Plain assms(4) by (simp add: parse_loop.simps(2) find_option_def Let_def)
qed (use assms(3,4) find_written [OF assms(1)] split_long [OF assms(2)] split_short [OF assms(2)] in
    \<open>auto simp: parse_loop.simps(2) Let_def\<close>)

lemma parse_items:
  assumes "table_ok p" "gnu_style p" "allow = E_NON_OPTION_ARGS_ALLOWED"
  shows "items_ok p rest its \<Longrightarrow> same_setup p q \<Longrightarrow>
    parse_loop q allow (concat (map (render p) its) @ rest) = parse_loop (foldl effect q its) allow rest"
proof (induction its arbitrary: q)
  case (Cons it its)
  note same = same_setup_simps [OF Cons.prems(2)]
  have "parse_loop q allow (render q it @ (concat (map (render p) its) @ rest)) =
      parse_loop (effect q it) allow (concat (map (render p) its) @ rest)"
    using parse_item [of q "concat (map (render p) its) @ rest" it allow] same assms Cons.prems(1) by simp
  then show ?case using Cons.IH [of "effect q it"] Cons.prems(1) same(3,5) by simp
qed simp


text \<open>What a list of items says about an id, and its plain arguments.\<close>

fun item_id :: "cmd_item \<Rightarrow> int option" where
  "item_id (LongFlag x) = Some (opt_id x)"
| "item_id (ShortFlag x) = Some (opt_id x)"
| "item_id (LongValue x v) = Some (opt_id x)"
| "item_id (ShortValue x v) = Some (opt_id x)"
| "item_id (NextValue x v) = Some (opt_id x)"
| "item_id (Defaulted x) = Some (opt_id x)"
| "item_id (Plain t) = None"

fun item_values :: "cmd_item \<Rightarrow> bytes list" where
  "item_values (LongValue x v) = [v]"
| "item_values (ShortValue x v) = [v]"
| "item_values (NextValue x v) = [v]"
| "item_values (Defaulted x) = [defaultValue x]"
| "item_values _ = []"

definition given :: "cmd_item list \<Rightarrow> int \<Rightarrow> bytes list option" where
  "given its i = (let mine = filter (\<lambda>it. item_id it = Some i) its in
     if mine = [] then None else Some (concat (map item_values mine)))"

definition plain :: "cmd_item list \<Rightarrow> bytes list" where
  "plain its = concat (map (\<lambda>it. case it of Plain t \<Rightarrow> [t] | _ \<Rightarrow> []) its)"

lemma given_snoc:
  "given (its @ [it]) = (case item_id it of None \<Rightarrow> given its
     | Some i \<Rightarrow> (given its)(i \<mapsto> (case given its i of Some vs \<Rightarrow> vs | None \<Rightarrow> []) @ item_values it))"
  by (auto simp: given_def Let_def fun_eq_iff split: option.split)

lemma plain_snoc: "plain (its @ [it]) = plain its @ (case it of Plain t \<Rightarrow> [t] | _ \<Rightarrow> [])"
  by (simp add: plain_def)

lemma effect_fields:
  assumes "sv_inv (<) fst (m_parsedOptions p)"
  shows "sv_inv (<) fst (m_parsedOptions (effect p it))"
    "values_at (m_parsedOptions (effect p it)) = (case item_id it of None \<Rightarrow> values_at (m_parsedOptions p)
      | Some i \<Rightarrow> (values_at (m_parsedOptions p))(i \<mapsto>
          (case values_at (m_parsedOptions p) i of Some vs \<Rightarrow> vs | None \<Rightarrow> []) @ item_values it))"
    "m_nonOptionArgs (effect p it) = m_nonOptionArgs p @ (case it of Plain t \<Rightarrow> [t] | _ \<Rightarrow> [])"
  using touch_values [OF assms] push_values [OF assms] assms by (cases it; simp)+

lemma effects:
  assumes "m_parsedOptions p = []" "m_nonOptionArgs p = []"
  shows "sv_inv (<) fst (m_parsedOptions (foldl effect p its)) \<and>
    values_at (m_parsedOptions (foldl effect p its)) = given its \<and> m_nonOptionArgs (foldl effect p its) = plain its"
proof (induction its rule: rev_induct)
  case Nil
  show ?case
    using assms by (simp add: sv_inv_def values_at_Nil given_def plain_def fun_eq_iff)
next
  case (snoc it its)
  then show ?case
    using effect_fields [of "foldl effect p its" it] by (auto simp: given_snoc plain_snoc split: option.split)
qed

lemma parse_written:
  assumes "reach api_start api_step p" "gnu_style p" "items_ok p rest its"
  shows "\<exists>q. parse p (prog # concat (map (render p) its) @ rest) E_NON_OPTION_ARGS_ALLOWED =
      parse_loop q E_NON_OPTION_ARGS_ALLOWED rest \<and> same_setup p q \<and> sv_inv (<) fst (m_parsedOptions q) \<and>
    values_at (m_parsedOptions q) = given its \<and> m_nonOptionArgs q = plain its"
proof -
  let ?p = "p\<lparr>m_parsedOptions := [], m_nonOptionArgs := []\<rparr>"
  have ok: "table_ok p" by (rule option_table.reachable_inv [OF assms(1)])
  have start: "same_setup p ?p" by (auto simp: same_setup_def)
  have same: "same_setup p (foldl effect q its)" if "same_setup p q" for q its
    using that by (induction its arbitrary: q) (simp_all add: same_setup_simps(5))
  show ?thesis
    using parse_items [OF ok assms(2) refl assms(3) start] effects [of ?p its] same [OF start, of its]
    by (auto simp: parse_def)
qed

lemma isSet_given:
  assumes "sv_inv (<) fst (m_parsedOptions p)"
  shows "isSet p i \<longleftrightarrow> values_at (m_parsedOptions p) i \<noteq> None"
  using sv_queries_agree [OF assms, of i] by (auto simp: isSet_def values_at_def sv_lookup_def svm_find_def Let_def)

text \<open>
  C14. A command line that is written by the rules is parsed to what was written: every
  option has the values it was given, in their order, whatever way each of them was written,
  an option that was not given is not set, and the other arguments are kept in order.
\<close>

theorem parse_written_command_line:
  assumes "reach api_start api_step p" "gnu_style p" "items_ok p [] its"
  shows "\<exists>q. parse p (prog # concat (map (render p) its)) E_NON_OPTION_ARGS_ALLOWED = (q, None) \<and>
    (\<forall>i. isSet q i = (given its i \<noteq> None) \<and>
      getOptionValueList q i = (case given its i of Some vs \<Rightarrow> vs | None \<Rightarrow> [])) \<and>
    m_nonOptionArgs q = plain its"
proof -
  obtain q where q: "parse p (prog # concat (map (render p) its)) E_NON_OPTION_ARGS_ALLOWED = (q, None)"
    "sv_inv (<) fst (m_parsedOptions q)" "values_at (m_parsedOptions q) = given its" "m_nonOptionArgs q = plain its"
    using parse_written [OF assms, of prog] by auto
  then show ?thesis
    by (auto simp: isSet_given getOptionValueList_def split: option.split)
qed


theorem parse_written_command_line_witness:
  "\<exists>q. parse demo_parser (lit ''prog'' # [lit ''-v'', lit ''in.txt'', lit ''--output=a'', lit ''-ob''])
      E_NON_OPTION_ARGS_ALLOWED = (q, None) \<and>
    isSet q 2 \<and> getOptionValueList q 1 = [lit ''a'', lit ''b''] \<and> m_nonOptionArgs q = [lit ''in.txt'']"
proof -
  let ?its = "[ShortFlag demo_flag, Plain (lit ''in.txt''), LongValue demo_option (lit ''a''),
    ShortValue demo_option (lit ''b'')]"
  have "items_ok demo_parser [] ?its" "gnu_style demo_parser"
    by (simp_all add: long_ok_def short_ok_def gnu_style_def starts_with_char_def demo_parser_def demo_option_def
        demo_flag_def new_CmdLineParser_def lit_def)
  from parse_written_command_line [OF demo_parser_reach this(2,1), of "lit ''prog''"]
  obtain q where "parse demo_parser (lit ''prog'' # concat (map (render demo_parser) ?its)) E_NON_OPTION_ARGS_ALLOWED = (q, None)"
    "isSet q 2 = (given ?its 2 \<noteq> None)"
    "getOptionValueList q 1 = (case given ?its 1 of Some vs \<Rightarrow> vs | None \<Rightarrow> [])"
    "m_nonOptionArgs q = plain ?its" by blast
  then show ?thesis
    by (intro exI [of _ q])
      (simp add: given_def plain_def demo_parser_def demo_option_def demo_flag_def new_CmdLineParser_def lit_def)
qed

text \<open>
  A command line that ends with an option whose required argument is missing is
  rejected with the name of that option; what was written before it has been stored.
\<close>

theorem missing_argument_is_reported:
  assumes "reach api_start api_step p" "gnu_style p"
    and "items_ok p [m_longOptionPrefix p @ longopt x] its" "long_ok p x" "argtype x = E_REQUIRED_ARG"
  shows "\<exists>q. parse p (prog # concat (map (render p) its) @ [m_longOptionPrefix p @ longopt x]) E_NON_OPTION_ARGS_ALLOWED =
      (q, Some (E_MISSING_ARGUMENT, m_longOptionPrefix p @ longopt x)) \<and>
    (\<forall>i. getOptionValueList q i = (case given its i of Some vs \<Rightarrow> vs | None \<Rightarrow> []))"
proof -
  obtain q where q: "parse p (prog # concat (map (render p) its) @ [m_longOptionPrefix p @ longopt x])
      E_NON_OPTION_ARGS_ALLOWED = parse_loop q E_NON_OPTION_ARGS_ALLOWED [m_longOptionPrefix p @ longopt x]"
    "same_setup p q" "values_at (m_parsedOptions q) = given its"
    using parse_written [OF assms(1-3), of prog] by auto
  note same = same_setup_simps [OF q(2)]
  have fields: "m_longOptionPrefix q = m_longOptionPrefix p" "long_ok q x"
    using q(2) assms(4) by (auto simp: same_setup_def long_ok_def)
  have ok: "table_ok q" "gnu_style q"
    using same option_table.reachable_inv [OF assms(1)] assms(2) by simp_all
  have "parse_loop q E_NON_OPTION_ARGS_ALLOWED [m_longOptionPrefix q @ longopt x] =
      (q, Some (E_MISSING_ARGUMENT, m_longOptionPrefix q @ longopt x))"
    using find_written(1) [OF ok(1) fields(2)] split_long(1) [OF ok(2) fields(2)] assms(5)
    by (simp add: parse_loop.simps(2) option_text_def Let_def)
  then show ?thesis using q(1,3) fields(1)
    by (auto simp: getOptionValueList_def split: option.split)
qed

theorem missing_argument_is_reported_witness:
  "\<exists>q. parse demo_parser [lit ''prog'', lit ''-ob'', lit ''--output''] E_NON_OPTION_ARGS_ALLOWED =
      (q, Some (E_MISSING_ARGUMENT, lit ''--output'')) \<and> getOptionValueList q 1 = [lit ''b'']"
proof -
  let ?its = "[ShortValue demo_option (lit ''b'')]"
  have "items_ok demo_parser [m_longOptionPrefix demo_parser @ longopt demo_option] ?its" "gnu_style demo_parser"
    "long_ok demo_parser demo_option" "argtype demo_option = E_REQUIRED_ARG"
    by (simp_all add: long_ok_def short_ok_def gnu_style_def starts_with_char_def demo_parser_def demo_option_def
        demo_flag_def new_CmdLineParser_def lit_def)
  from missing_argument_is_reported [OF demo_parser_reach this(2,1,3,4), of "lit ''prog''"]
  show ?thesis
    by (simp add: given_def demo_parser_def demo_option_def demo_flag_def new_CmdLineParser_def lit_def) force
qed

end
