(* ===== verification/Monitor.thy ===== *)
theory Monitor
  imports Prelude
begin

text \<open>
  Monitors: operations that run under one mutex and wait in loops on conditions. The rules
  for the small synchronisation classes: \<open>Semaphore.hpp\<close>, \<open>ThreadCounter.cpp\<close> and the
  generic barrier of \<open>ThreadBarrier.cpp\<close>. An operation of a class is a function on its
  members; what is proved here is what follows from waking everybody who may go on.
\<close>

section \<open>Steps of a monitor\<close>

text \<open>
  \<open>op w s\<close> is one stretch of code between two waits: from the position \<open>w\<close> (a call or a
  wait) and the members \<open>s\<close> to the wait it ends in, or \<open>None\<close> when the call returns, the
  new members, and the positions that are notified.
\<close>

type_synonym ('w, 's) operation = "'w \<Rightarrow> 's \<Rightarrow> 'w option \<times> 's \<times> ('w \<Rightarrow> bool)"

text \<open>The threads: outside, or asleep at a position, notified or not.\<close>

record ('t, 'w, 's) monitor =
  members :: 's
  asleep :: "'t \<Rightarrow> ('w \<times> bool) option"

definition wake :: "('w \<Rightarrow> bool) \<Rightarrow> ('t \<Rightarrow> ('w \<times> bool) option) \<Rightarrow> 't \<Rightarrow> ('w \<times> bool) option" where
  "wake ws a t = (case a t of None \<Rightarrow> None | Some (w, n) \<Rightarrow> Some (w, n \<or> ws w))"

definition run_op :: "('w, 's) operation \<Rightarrow> 't \<Rightarrow> 'w \<Rightarrow> ('t, 'w, 's) monitor \<Rightarrow> ('t, 'w, 's) monitor" where
  "run_op op t w m = (case op w (members m) of (next_w, s, ws) \<Rightarrow>
     \<lparr>members = s, asleep = (wake ws (asleep m))(t := map_option (\<lambda>w. (w, False)) next_w)\<rparr>)"

text \<open>A call of a thread that is outside, the resumption of a sleeper (it need not have been
  notified), and the end of a wait by timeout.\<close>

inductive monitor_step :: "('w, 's) operation \<Rightarrow> ('w \<Rightarrow> bool) \<Rightarrow> ('w \<Rightarrow> bool) \<Rightarrow>
    ('t, 'w, 's) monitor \<Rightarrow> ('t, 'w, 's) monitor \<Rightarrow> bool"
  for op :: "('w, 's) operation" and entry :: "'w \<Rightarrow> bool" and timed :: "'w \<Rightarrow> bool" where
  call: "asleep m t = None \<Longrightarrow> entry w \<Longrightarrow> monitor_step op entry timed m (run_op op t w m)"
| resume: "asleep m t = Some (w, n) \<Longrightarrow> monitor_step op entry timed m (run_op op t w m)"
| timeout: "asleep m t = Some (w, n) \<Longrightarrow> timed w \<Longrightarrow>
    monitor_step op entry timed m (m\<lparr>asleep := (asleep m)(t := None)\<rparr>)"

inductive_cases monitor_stepE: "monitor_step op entry timed m m'"

definition fresh_monitor :: "'s \<Rightarrow> ('t, 'w, 's) monitor" where
  "fresh_monitor s = \<lparr>members = s, asleep = (\<lambda>_. None)\<rparr>"

section \<open>No wakeup is lost\<close>

definition blocked :: "('w, 's) operation \<Rightarrow> 'w \<Rightarrow> 's \<Rightarrow> bool" where
  "blocked op w s \<longleftrightarrow> fst (op w s) = Some w"

text \<open>
  The interface: a thread waits at a position only while it is blocked there, and an
  operation that does not notify a position does not unblock it. \<open>ok\<close> is the invariant of
  the members.
\<close>

locale fair_monitor =
  fixes op :: "('w, 's) operation" and ok :: "'s \<Rightarrow> bool" and entry timed :: "'w \<Rightarrow> bool"
  assumes ok_op: "ok s \<Longrightarrow> op w s = (nw, s', ws) \<Longrightarrow> ok s'"
    and sleeps_blocked: "ok s \<Longrightarrow> op w s = (Some w', s', ws) \<Longrightarrow> blocked op w' s'"
    and unnotified: "ok s \<Longrightarrow> op w s = (nw, s', ws) \<Longrightarrow> \<not> ws v \<Longrightarrow> blocked op v s \<Longrightarrow> blocked op v s'"
begin

definition awake :: "('t, 'w, 's) monitor \<Rightarrow> bool" where
  "awake m \<longleftrightarrow> ok (members m) \<and> (\<forall>t w. asleep m t = Some (w, False) \<longrightarrow> blocked op w (members m))"

lemma awake_run:
  assumes "awake m"
  shows "awake (run_op op t w m)"
proof -
  obtain nw s ws where o: "op w (members m) = (nw, s, ws)" by (cases "op w (members m)")
  have ok: "ok (members m)" using assms by (simp add: awake_def)
  have "blocked op v s" if "asleep (run_op op t w m) u = Some (v, False)" for u v
  proof (cases "u = t")
    case True
    then show ?thesis using that sleeps_blocked [OF ok, of w v s ws] o by (auto simp: run_op_def)
  next
    case False
    then have "asleep m u = Some (v, False)" "\<not> ws v"
      using that by (auto simp: run_op_def o wake_def split: option.splits)
    then show ?thesis using assms unnotified [OF ok o] by (auto simp: awake_def)
  qed
  then show ?thesis using ok_op [OF ok o] by (simp add: awake_def run_op_def o)
qed

lemma awake_step:
  assumes "awake m" "monitor_step op entry timed m m'"
  shows "awake m'"
  using assms(2)
proof cases
  case (timeout t w n)
  then show ?thesis using assms(1) by (auto simp: awake_def)
qed (simp_all only: awake_run [OF assms(1)])

lemma awake_reach:
  assumes "ok s0"
  shows "reach (\<lambda>m. m = fresh_monitor s0) (monitor_step op entry timed) m \<Longrightarrow> awake m"
  by (induction rule: reach.induct) (use assms awake_step in \<open>auto simp: awake_def fresh_monitor_def\<close>)

lemma wakeup_not_lost:
  assumes "reach (\<lambda>m. m = fresh_monitor s0) (monitor_step op entry timed) m" "ok s0"
    and "asleep m t = Some (w, n)" "\<not> blocked op w (members m)"
  shows n
  using awake_reach [OF assms(2,1)] assms(3,4) by (cases n) (auto simp: awake_def)

lemma members_ok:
  assumes "reach (\<lambda>m. m = fresh_monitor s0) (monitor_step op entry timed) m" "ok s0"
  shows "ok (members m)"
  using awake_reach [OF assms(2,1)] by (simp add: awake_def)

end

section \<open>Semaphore\<close>

datatype sem_pos = SemWait | SemTimedWait | SemSignal

text \<open>The member is \<open>m_curCount\<close>; its overflow at \<open>2 ^ 31\<close> signals is left out.\<close>

fun sem_op :: "(sem_pos, int) operation" where
  "sem_op SemWait m_curCount = (if m_curCount \<le> 0 then (Some SemWait, m_curCount, \<lambda>_. False)
     else (None, m_curCount - 1, \<lambda>_. False))"
| "sem_op SemTimedWait m_curCount = (if m_curCount \<le> 0 then (Some SemTimedWait, m_curCount, \<lambda>_. False)
     else (None, m_curCount - 1, \<lambda>_. False))"
| "sem_op SemSignal m_curCount = (None, m_curCount + 1, \<lambda>_. True)"

abbreviation sem_step :: "('t, sem_pos, int) monitor \<Rightarrow> ('t, sem_pos, int) monitor \<Rightarrow> bool" where
  "sem_step \<equiv> monitor_step sem_op (\<lambda>_. True) (\<lambda>w. w = SemTimedWait)"

lemma sem_op_result: "sem_op w s = (nw, s', ws) \<Longrightarrow>
  (nw = Some w \<and> s' = s \<and> s \<le> 0 \<and> \<not> ws v \<and> w \<noteq> SemSignal) \<or> (nw = None \<and> s' = s - 1 \<and> 0 < s \<and> \<not> ws v) \<or>
  (nw = None \<and> s' = s + 1 \<and> ws v \<and> w = SemSignal)"
  by (cases w) (auto split: if_splits)

interpretation semaphore: fair_monitor sem_op "\<lambda>s. 0 \<le> s" "\<lambda>_. True" "\<lambda>w. w = SemTimedWait"
proof
  fix s s' :: int and w v and nw ws
  assume s: "0 \<le> s" and o: "sem_op w s = (nw, s', ws)"
  show "0 \<le> s'" using sem_op_result [OF o, of v] s by auto
  show "blocked sem_op v s'" if "\<not> ws v" "blocked sem_op v s"
    using sem_op_result [OF o, of v] that by (cases v) (auto simp: blocked_def split: if_splits)
next
  fix s s' :: int and w w' ws
  assume "sem_op w s = (Some w', s', ws)"
  from sem_op_result [OF this] show "blocked sem_op w' s'"
    by (cases w) (auto simp: blocked_def)
qed

section \<open>ThreadCounter\<close>

record thread_counter =
  m_maxThreads :: int
  m_runCount :: int

datatype counter_pos = IncThreadCount | DecThreadCount | WaitForAll | SetMax int

fun counter_op :: "(counter_pos, thread_counter) operation" where
  "counter_op IncThreadCount s = (if m_runCount s \<ge> m_maxThreads s then (Some IncThreadCount, s, \<lambda>_. False)
     else (None, s\<lparr>m_runCount := m_runCount s + 1\<rparr>, \<lambda>_. False))"
| "counter_op DecThreadCount s = (None, s\<lparr>m_runCount := m_runCount s - 1\<rparr>, \<lambda>_. True)"
| "counter_op WaitForAll s = (if m_runCount s > 0 then (Some WaitForAll, s, \<lambda>_. False) else (None, s, \<lambda>_. False))"
| "counter_op (SetMax maxThreads) s = (None, s\<lparr>m_maxThreads := maxThreads\<rparr>, \<lambda>_. True)"

abbreviation counter_step :: "('t, counter_pos, thread_counter) monitor \<Rightarrow> ('t, counter_pos, thread_counter) monitor \<Rightarrow> bool" where
  "counter_step \<equiv> monitor_step counter_op (\<lambda>_. True) (\<lambda>w. w = IncThreadCount \<or> w = WaitForAll)"

lemma counter_op_result: "counter_op w s = (nw, s', ws) \<Longrightarrow>
  ws v \<or> (nw = Some w \<and> s' = s \<and> blocked counter_op w s) \<or>
  (nw = None \<and> (s' = s \<or> (s' = s\<lparr>m_runCount := m_runCount s + 1\<rparr> \<and> m_runCount s < m_maxThreads s)))"
  by (cases w) (auto simp: blocked_def split: if_splits)

interpretation counter: fair_monitor counter_op "\<lambda>_. True" "\<lambda>_. True" "\<lambda>w. w = IncThreadCount \<or> w = WaitForAll"
proof
  fix s s' :: thread_counter and w v nw ws
  assume o: "counter_op w s = (nw, s', ws)"
  show "blocked counter_op v s'" if "\<not> ws v" "blocked counter_op v s"
    using counter_op_result [OF o, of v] that by (cases v) (auto simp: blocked_def split: if_splits)
next
  fix s s' :: thread_counter and w w' ws
  assume "counter_op w s = (Some w', s', ws)"
  then show "blocked counter_op w' s'" by (cases w) (auto simp: blocked_def split: if_splits)
qed simp

section \<open>ThreadBarrier\<close>

text \<open>The generic implementation: two sub-barriers, of which \<open>m_curSubBarrier\<close> selects one
  (\<open>m_subBarrier0\<close> when it is not 0). A waiting thread is at its sub-barrier.\<close>

record barrier =
  m_threshold :: nat
  m_curSubBarrier :: nat
  m_waitingCount :: "nat \<Rightarrow> nat"     \<comment> \<open>of the two sub-barriers\<close>

datatype barrier_pos = BarrierWait | InSubBarrier nat

definition selected :: "barrier \<Rightarrow> nat" where
  "selected s = (if m_curSubBarrier s \<noteq> 0 then 0 else 1)"

fun barrier_op :: "(barrier_pos, barrier) operation" where
  "barrier_op BarrierWait s =
     (let b = selected s; n = m_waitingCount s b + 1 in
      if n = m_threshold s
      then (None, s\<lparr>m_waitingCount := (m_waitingCount s)(b := 0), m_curSubBarrier := 1 - m_curSubBarrier s\<rparr>,
            \<lambda>v. v = InSubBarrier b)
      else (Some (InSubBarrier b), s\<lparr>m_waitingCount := (m_waitingCount s)(b := n)\<rparr>, \<lambda>_. False))"
| "barrier_op (InSubBarrier b) s =
     (if m_waitingCount s b \<noteq> 0 then (Some (InSubBarrier b), s, \<lambda>_. False) else (None, s, \<lambda>_. False))"

definition new_barrier :: "nat \<Rightarrow> barrier" where
  "new_barrier threshold = \<lparr>m_threshold = threshold, m_curSubBarrier = 0, m_waitingCount = (\<lambda>_. 0)\<rparr>"

abbreviation barrier_step :: "('t, barrier_pos, barrier) monitor \<Rightarrow> ('t, barrier_pos, barrier) monitor \<Rightarrow> bool" where
  "barrier_step \<equiv> monitor_step barrier_op (\<lambda>w. w = BarrierWait) (\<lambda>_. False)"

interpretation barrier: fair_monitor barrier_op "\<lambda>_. True" "\<lambda>w. w = BarrierWait" "\<lambda>_. False"
proof
  fix s s' :: barrier and w v nw ws
  assume o: "barrier_op w s = (nw, s', ws)"
  show "blocked barrier_op v s'" if "\<not> ws v" "blocked barrier_op v s"
    using o that by (cases w; cases v) (auto simp: blocked_def Let_def split: if_splits)
next
  fix s s' :: barrier and w w' ws
  assume "barrier_op w s = (Some w', s', ws)"
  then show "blocked barrier_op w' s'" by (cases w) (auto simp: blocked_def Let_def split: if_splits)
qed simp


section \<open>Generations of the barrier\<close>

text \<open>The runs of a barrier for exactly as many threads as its threshold, with the number
  of calls of \<open>wait\<close> each thread has begun and the number that returned.\<close>

definition return_of :: "('t, 'w, 's) monitor \<Rightarrow> 't \<Rightarrow> ('t \<Rightarrow> nat) \<Rightarrow> 't \<Rightarrow> nat" where
  "return_of m t returned = (if asleep m t = None then returned(t := returned t + 1) else returned)"

inductive barrier_run :: "nat \<Rightarrow> ('t, barrier_pos, barrier) monitor \<Rightarrow> ('t \<Rightarrow> nat) \<Rightarrow> ('t \<Rightarrow> nat) \<Rightarrow> bool"
  for threshold :: nat where
  run_start: "barrier_run threshold (fresh_monitor (new_barrier threshold)) (\<lambda>_. 0) (\<lambda>_. 0)"
| run_call: "barrier_run threshold m called returned \<Longrightarrow> asleep m t = None \<Longrightarrow>
    m' = run_op barrier_op t BarrierWait m \<Longrightarrow>
    barrier_run threshold m' (called(t := called t + 1)) (return_of m' t returned)"
| run_resume: "barrier_run threshold m called returned \<Longrightarrow> asleep m t = Some (w, n) \<Longrightarrow>
    m' = run_op barrier_op t w m \<Longrightarrow>
    barrier_run threshold m' called (return_of m' t returned)"

text \<open>The invariant: \<open>g\<close> generations are complete; a thread is outside, or in the selected
  sub-barrier for the next generation, or has still to leave the last one.\<close>

definition inside :: "nat \<Rightarrow> ('t, barrier_pos, barrier) monitor \<Rightarrow> 't set" where
  "inside b m = {t. \<exists>n. asleep m t = Some (InSubBarrier b, n)}"

definition at_generation :: "nat \<Rightarrow> nat \<Rightarrow> (barrier_pos \<times> bool) option \<Rightarrow> nat \<Rightarrow> nat \<Rightarrow> bool" where
  "at_generation g b a c r \<longleftrightarrow> (case a of None \<Rightarrow> c = g \<and> r = g
     | Some (w, _) \<Rightarrow> (w = InSubBarrier b \<and> c = g + 1 \<and> r = g) \<or> (w = InSubBarrier (1 - b) \<and> c = g \<and> r + 1 = g))"

definition generations :: "nat \<Rightarrow> ('t :: finite, barrier_pos, barrier) monitor \<Rightarrow> ('t \<Rightarrow> nat) \<Rightarrow> ('t \<Rightarrow> nat) \<Rightarrow> bool" where
  "generations g m called returned \<longleftrightarrow>
     (let s = members m; b = selected s in
       m_threshold s = card (UNIV :: 't set) \<and> m_curSubBarrier s \<le> 1 \<and>
       m_waitingCount s (1 - b) = 0 \<and> m_waitingCount s b = card (inside b m) \<and>
       m_waitingCount s b < m_threshold s \<and>
       (\<forall>t. at_generation g b (asleep m t) (called t) (returned t)))"

lemma selected_range: "selected s = 0 \<or> selected s = 1"
  by (simp add: selected_def)

lemma at_generation_wake: "at_generation g b (wake ws a t) c r = at_generation g b (a t) c r"
  by (auto simp: at_generation_def wake_def split: option.splits)

lemma inside_wake: "inside b (m\<lparr>asleep := wake ws (asleep m)\<rparr>) = inside b m"
  by (auto simp: inside_def wake_def split: option.splits)

lemma generations_call:
  fixes m :: "('t :: finite, barrier_pos, barrier) monitor"
  assumes g: "generations g m called returned" and t: "asleep m t = None"
    and m': "m' = run_op barrier_op t BarrierWait m"
  shows "\<exists>g'. generations g' m' (called(t := called t + 1)) (return_of m' t returned)"
proof -
  let ?s = "members m" let ?b = "selected ?s" let ?n = "m_waitingCount ?s ?b + 1"
  note g' = g [unfolded generations_def Let_def]
  have tin: "t \<notin> inside ?b m" using t by (simp add: inside_def)
  show ?thesis
  proof (cases "?n = m_threshold ?s")
    case True
    then have "card (insert t (inside ?b m)) = card (UNIV :: 't set)" using g' tin by simp
    then have all: "insert t (inside ?b m) = UNIV" by (simp add: card_eq_UNIV_imp_eq_UNIV)
    have at: "at_generation (g + 1) (1 - ?b) (asleep m' u)
        ((called(t := called t + 1)) u) (return_of m' t returned u)" for u
    proof (cases "u = t")
      case True
      have "called t = g" "returned t = g"
        using g' t by (auto simp: at_generation_def dest!: spec [of _ t])
      then show ?thesis using True \<open>?n = m_threshold ?s\<close>
        by (simp add: m' run_op_def Let_def return_of_def at_generation_def)
    next
      case False
      then obtain n where n: "asleep m u = Some (InSubBarrier ?b, n)"
        using all by (auto simp: inside_def)
      have "called u = g + 1" "returned u = g"
        using g' n selected_range [of ?s] by (auto simp: at_generation_def dest!: spec [of _ u])
      then show ?thesis using n False \<open>?n = m_threshold ?s\<close> selected_range [of ?s]
        by (auto simp: m' run_op_def Let_def return_of_def at_generation_def wake_def)
    qed
    have "u \<notin> inside (1 - ?b) m'" for u
    proof (cases "u = t")
      case True
      then show ?thesis using \<open>?n = m_threshold ?s\<close> by (simp add: inside_def m' run_op_def Let_def)
    next
      case False
      then obtain n where "asleep m u = Some (InSubBarrier ?b, n)" using all by (auto simp: inside_def)
      then show ?thesis using False \<open>?n = m_threshold ?s\<close> selected_range [of ?s]
        by (auto simp: inside_def m' run_op_def Let_def wake_def)
    qed
    then have "inside (1 - ?b) m' = {}" by blast
    moreover have "selected (members m') = 1 - ?b" "m_curSubBarrier (members m') \<le> 1"
      using g' True by (auto simp: m' run_op_def Let_def selected_def)
    ultimately show ?thesis using at g' True selected_range [of ?s]
      by (intro exI [of _ "g + 1"])
        (auto simp: generations_def Let_def m' run_op_def)
  next
    case False
    have "inside ?b m' = insert t (inside ?b m)"
      using False by (auto simp: inside_def m' run_op_def Let_def wake_def split: option.splits)
    then have card: "card (inside ?b m') = ?n" using tin g' by simp
    have at: "at_generation g ?b (asleep m' u) ((called(t := called t + 1)) u) (return_of m' t returned u)" for u
      using g' t False by (auto simp: m' run_op_def Let_def return_of_def at_generation_wake)
        (auto simp: at_generation_def dest!: spec [of _ t])
    have "selected (members m') = ?b" "m_curSubBarrier (members m') \<le> 1"
      using g' False by (auto simp: m' run_op_def Let_def selected_def)
    then show ?thesis using at card g' False selected_range [of ?s]
      by (intro exI [of _ g]) (auto simp: generations_def Let_def m' run_op_def)
  qed
qed

lemma generations_resume:
  fixes m :: "('t :: finite, barrier_pos, barrier) monitor"
  assumes g: "generations g m called returned" and t: "asleep m t = Some (w, n)"
    and m': "m' = run_op barrier_op t w m"
  shows "generations g m' called (return_of m' t returned)"
proof -
  let ?s = "members m" let ?b = "selected ?s"
  note g' = g [unfolded generations_def Let_def]
  have at: "at_generation g ?b (asleep m u) (called u) (returned u)" for u using g' by blast
  have fin: "finite (inside ?b m)" by simp
  from at [of t] t consider
      (waits) "w = InSubBarrier ?b" "m_waitingCount ?s ?b \<noteq> 0"
    | (leaves) "w = InSubBarrier (1 - ?b)" "called t = g" "returned t + 1 = g" "m_waitingCount ?s (1 - ?b) = 0"
    using g' fin by (auto simp: at_generation_def inside_def)
  then show ?thesis
  proof cases
    case waits
    have "inside ?b m' = inside ?b m"
      using t waits by (auto simp: inside_def m' run_op_def wake_def split: option.splits)
    moreover have "at_generation g ?b (asleep m' u) (called u) (return_of m' t returned u)" for u
      using at [of u] t waits by (auto simp: m' run_op_def return_of_def at_generation_wake)
        (auto simp: at_generation_def)
    ultimately show ?thesis using g' waits by (simp add: generations_def Let_def m' run_op_def)
  next
    case leaves
    have "inside ?b m' = inside ?b m"
      using t leaves selected_range [of ?s] by (auto simp: inside_def m' run_op_def wake_def split: option.splits)
    moreover have "at_generation g ?b (asleep m' u) (called u) (return_of m' t returned u)" for u
      using at [of u] t leaves by (auto simp: m' run_op_def return_of_def at_generation_wake)
        (auto simp: at_generation_def)
    ultimately show ?thesis using g' leaves by (simp add: generations_def Let_def m' run_op_def)
  qed
qed

lemma barrier_run_generations:
  fixes m :: "('t :: finite, barrier_pos, barrier) monitor"
  assumes "barrier_run (card (UNIV :: 't set)) m called returned"
  shows "\<exists>g. generations g m called returned"
  using assms
proof (induction rule: barrier_run.induct)
  case run_start
  show ?case by (intro exI [of _ 0]) (simp add: generations_def Let_def fresh_monitor_def new_barrier_def
      inside_def at_generation_def)
next
  case (run_call m called returned t m')
  then show ?case using generations_call by blast
next
  case (run_resume m called returned t w n m')
  then show ?case using generations_resume by blast
qed


lemma barrier_run_reach: "barrier_run threshold m called returned \<Longrightarrow>
  reach (\<lambda>m. m = fresh_monitor (new_barrier threshold)) barrier_step m"
proof (induction rule: barrier_run.induct)
  case run_start
  show ?case by (rule reach_init) simp
next
  case (run_call m called returned t m')
  then show ?case by (auto intro: reach_step monitor_step.call)
next
  case (run_resume m called returned t w n m')
  then show ?case by (auto intro: reach_step monitor_step.resume)
qed

lemma generations_someone_goes_on:
  fixes m :: "('t :: finite, barrier_pos, barrier) monitor"
  assumes g: "generations g m called returned"
    and awake: "\<And>t w n. asleep m t = Some (w, n) \<Longrightarrow> \<not> blocked barrier_op w (members m) \<Longrightarrow> n"
  shows "\<exists>u. asleep m u = None \<or> (\<exists>w. asleep m u = Some (w, True))"
proof (rule ccontr)
  assume "\<not> ?thesis"
  then have all: "\<exists>w. asleep m u = Some (w, False)" for u
    by (metis (full_types) option.exhaust surj_pair)
  let ?s = "members m"
  note g' = g [unfolded generations_def Let_def]
  have "u \<in> inside (selected ?s) m" for u
  proof -
    obtain w where w: "asleep m u = Some (w, False)" using all by blast
    have "blocked barrier_op w ?s" using awake [OF w] by blast
    then have "w \<noteq> InSubBarrier (1 - selected ?s)" using g' by (auto simp: blocked_def)
    then show ?thesis using g' w by (auto simp: at_generation_def inside_def dest!: spec [of _ u])
  qed
  then have "inside (selected ?s) m = UNIV" by blast
  then have "m_waitingCount ?s (selected ?s) = m_threshold ?s" using g' by simp
  then show False using g' by simp
qed

section \<open>What the three classes guarantee\<close>

text \<open>
  C23. A barrier used by exactly as many threads as its threshold: no thread returns from
  its k-th call of wait() before every thread has begun its k-th call, and at no moment are
  all threads asleep with nobody to wake them: some thread is outside or has been notified.
\<close>

theorem barrier_synchronises:
  fixes m :: "('t :: finite, barrier_pos, barrier) monitor"
  assumes "barrier_run (card (UNIV :: 't set)) m called returned"
  shows "returned t \<le> called u \<and> called u \<le> returned t + 2 \<and>
    (\<exists>v. asleep m v = None \<or> (\<exists>w. asleep m v = Some (w, True)))"
proof -
  obtain g where g: "generations g m called returned" using barrier_run_generations [OF assms] by blast
  then have "at_generation g (selected (members m)) (asleep m v) (called v) (returned v)" for v
    by (simp add: generations_def Let_def)
  from this [of t] this [of u] have "returned t \<le> called u" "called u \<le> returned t + 2"
    by (auto simp: at_generation_def split: option.splits)
  then show ?thesis
    using generations_someone_goes_on [OF g] barrier.wakeup_not_lost [OF barrier_run_reach [OF assms]] by blast
qed

lemma two_threads_run:
  "\<exists>m. barrier_run (card (UNIV :: bool set)) m ((\<lambda>_. 0)(False := 1, True := 1)) ((\<lambda>_. 0)(True := 1)) \<and>
    asleep m False = Some (InSubBarrier 1, True)"
proof -
  let ?m0 = "fresh_monitor (new_barrier (card (UNIV :: bool set))) :: (bool, barrier_pos, barrier) monitor"
  let ?m1 = "run_op barrier_op False BarrierWait ?m0"
  let ?m2 = "run_op barrier_op True BarrierWait ?m1"
  note vals = fresh_monitor_def new_barrier_def run_op_def selected_def Let_def wake_def return_of_def card_UNIV_bool
  have "barrier_run (card (UNIV :: bool set)) ?m1 ((\<lambda>_. 0)(False := (\<lambda>_. 0) False + 1)) (return_of ?m1 False (\<lambda>_. 0))"
    by (rule run_call [OF run_start _ refl]) (simp add: vals)
  then have "barrier_run (card (UNIV :: bool set)) ?m2
      (((\<lambda>_. 0)(False := (\<lambda>_. 0) False + 1))(True := ((\<lambda>_. 0)(False := (\<lambda>_. 0) False + 1)) True + 1))
      (return_of ?m2 True (return_of ?m1 False (\<lambda>_. 0)))"
    by (rule run_call [OF _ _ refl]) (simp add: vals)
  then show ?thesis by (intro exI [of _ ?m2]) (simp add: vals)
qed

theorem barrier_synchronises_witness:
  "\<exists>m :: (bool, barrier_pos, barrier) monitor. asleep m False = Some (InSubBarrier 1, True) \<and> (1 :: nat) \<le> ((\<lambda>_. 0)(False := 1, True := 1)) False \<and>
    (\<exists>v. asleep m v = None \<or> (\<exists>w. asleep m v = Some (w, True)))"
proof -
  obtain m :: "(bool, barrier_pos, barrier) monitor" where m: "barrier_run (card (UNIV :: bool set)) m ((\<lambda>_. 0)(False := 1, True := 1)) ((\<lambda>_. 0)(True := 1))"
    and a: "asleep m False = Some (InSubBarrier 1, True)" using two_threads_run by blast
  from barrier_synchronises [OF m, of True False] a show ?thesis by (intro exI [of _ m]) auto
qed

text \<open>
  With three threads at a barrier for two, a thread that was released can be overtaken:
  thread 0 and thread 1 complete a generation, thread 0 is notified but has not run when
  thread 1 calls again, thread 2 completes the second generation and thread 1 calls a third
  time, which reuses the first sub-barrier; thread 0 then finds its count not 0 and sleeps
  again although the required number of threads has called wait().
\<close>

theorem barrier_overtaken:
  "\<exists>m1 m2 :: (nat, barrier_pos, barrier) monitor.
    reach (\<lambda>m. m = fresh_monitor (new_barrier 2)) barrier_step m1 \<and>
    asleep m1 0 = Some (InSubBarrier 1, True) \<and> \<not> blocked barrier_op (InSubBarrier 1) (members m1) \<and>
    barrier_step\<^sup>*\<^sup>* m1 m2 \<and> asleep m2 0 = Some (InSubBarrier 1, False) \<and>
    blocked barrier_op (InSubBarrier 1) (members m2)"
proof -
  define st :: "nat \<Rightarrow> nat \<Rightarrow> nat \<Rightarrow> (nat \<Rightarrow> (barrier_pos \<times> bool) option) \<Rightarrow> (nat, barrier_pos, barrier) monitor"
    where "st i x y f = \<lparr>members = \<lparr>m_threshold = 2, m_curSubBarrier = i,
      m_waitingCount = (\<lambda>_. 0)(0 := x, 1 := y)\<rparr>, asleep = f\<rparr>" for i x y f
  let ?in = "\<lambda>b n. Some (InSubBarrier b, n)"
  note vals = st_def run_op_def selected_def Let_def wake_def fun_eq_iff blocked_def
  have start: "st 0 0 0 (\<lambda>_. None) = fresh_monitor (new_barrier 2)"
    by (simp add: vals fresh_monitor_def new_barrier_def)
  have wait: "barrier_step (st i x y f) (st i' x' y' f')"
    if "f t = None" "run_op barrier_op t BarrierWait (st i x y f) = st i' x' y' f'" for i x y f i' x' y' f' t
    using monitor_step.call [of "st i x y f" t "\<lambda>w. w = BarrierWait" BarrierWait barrier_op] that(1)
    unfolding that(2) by (simp add: st_def)
  have go_on: "barrier_step (st i x y f) (st i' x' y' f')"
    if "f t = ?in b True" "run_op barrier_op t (InSubBarrier b) (st i x y f) = st i' x' y' f'" for i x y f i' x' y' f' t b
    using monitor_step.resume [of "st i x y f" t "InSubBarrier b" True barrier_op] that(1)
    unfolding that(2) by (simp add: st_def)
  have 1: "barrier_step (st 0 0 0 (\<lambda>_. None)) (st 0 0 1 [0 \<mapsto> (InSubBarrier 1, False)])"
    by (rule wait [of _ 0]) (simp_all add: vals)
  have 2: "barrier_step (st 0 0 1 [0 \<mapsto> (InSubBarrier 1, False)]) (st 1 0 0 [0 \<mapsto> (InSubBarrier 1, True)])"
    by (rule wait [of _ 1]) (simp_all add: vals)
  have 3: "barrier_step (st 1 0 0 [0 \<mapsto> (InSubBarrier 1, True)])
      (st 1 1 0 [0 \<mapsto> (InSubBarrier 1, True), 1 \<mapsto> (InSubBarrier 0, False)])"
    by (rule wait [of _ 1]) (simp_all add: vals)
  have 4: "barrier_step (st 1 1 0 [0 \<mapsto> (InSubBarrier 1, True), 1 \<mapsto> (InSubBarrier 0, False)])
      (st 0 0 0 [0 \<mapsto> (InSubBarrier 1, True), 1 \<mapsto> (InSubBarrier 0, True)])"
    by (rule wait [of _ 2]) (simp_all add: vals)
  have 5: "barrier_step (st 0 0 0 [0 \<mapsto> (InSubBarrier 1, True), 1 \<mapsto> (InSubBarrier 0, True)])
      (st 0 0 0 [0 \<mapsto> (InSubBarrier 1, True)])"
    by (rule go_on [of _ 1 0]) (simp_all add: vals)
  have 6: "barrier_step (st 0 0 0 [0 \<mapsto> (InSubBarrier 1, True)])
      (st 0 0 1 [0 \<mapsto> (InSubBarrier 1, True), 1 \<mapsto> (InSubBarrier 1, False)])"
    by (rule wait [of _ 1]) (simp_all add: vals)
  have 7: "barrier_step (st 0 0 1 [0 \<mapsto> (InSubBarrier 1, True), 1 \<mapsto> (InSubBarrier 1, False)])
      (st 0 0 1 [0 \<mapsto> (InSubBarrier 1, False), 1 \<mapsto> (InSubBarrier 1, False)])"
    by (rule go_on [of _ 0 1]) (simp_all add: vals)
  show ?thesis
  proof (intro exI conjI)
    show "reach (\<lambda>m. m = fresh_monitor (new_barrier 2)) barrier_step (st 1 0 0 [0 \<mapsto> (InSubBarrier 1, True)])"
      by (rule reach_step, rule reach_step, rule reach_init, rule start, rule 1, rule 2)
    show "barrier_step\<^sup>*\<^sup>* (st 1 0 0 [0 \<mapsto> (InSubBarrier 1, True)])
        (st 0 0 1 [0 \<mapsto> (InSubBarrier 1, False), 1 \<mapsto> (InSubBarrier 1, False)])"
      using 3 4 5 6 7 by (meson r_into_rtranclp rtranclp_trans)
  qed (simp_all add: st_def blocked_def)
qed

text \<open>
  Semaphore and ThreadCounter lose no wakeup: in every reachable state a thread asleep
  in wait() while the semaphore's count is positive, in incThreadCount() while there is room
  for a thread, or in waitForAll() while none runs, has been notified, whatever the order of
  calls, spurious resumptions and timeouts; and the semaphore's count is never negative.
\<close>

theorem waiters_are_notified:
  fixes sem :: "('t, sem_pos, int) monitor" and cnt :: "('u, counter_pos, thread_counter) monitor"
  assumes s: "reach (\<lambda>m. m = fresh_monitor initCount) sem_step sem" "0 \<le> initCount"
    and c: "reach (\<lambda>m. m = fresh_monitor \<lparr>m_maxThreads = maxThreads, m_runCount = 0\<rparr>) counter_step cnt"
  shows "0 \<le> members sem \<and> (0 < members sem \<longrightarrow> asleep sem t \<noteq> Some (w, False)) \<and>
    (m_runCount (members cnt) < m_maxThreads (members cnt) \<longrightarrow> asleep cnt u \<noteq> Some (IncThreadCount, False)) \<and>
    (m_runCount (members cnt) \<le> 0 \<longrightarrow> asleep cnt u \<noteq> Some (WaitForAll, False))"
proof -
  have "asleep sem t \<noteq> Some (w, False)" if "0 < members sem"
    using semaphore.wakeup_not_lost [OF s, of t w False] that by (cases w) (auto simp: blocked_def)
  moreover have "blocked counter_op v (members cnt)" if "asleep cnt u = Some (v, False)" for v
    using counter.wakeup_not_lost [OF c, of u v False] that by auto
  from this [of IncThreadCount] this [of WaitForAll]
  have "m_runCount (members cnt) < m_maxThreads (members cnt) \<longrightarrow> asleep cnt u \<noteq> Some (IncThreadCount, False)"
    "m_runCount (members cnt) \<le> 0 \<longrightarrow> asleep cnt u \<noteq> Some (WaitForAll, False)"
    by (auto simp: blocked_def split: if_splits)
  ultimately show ?thesis using semaphore.members_ok [OF s] by blast
qed

lemma sem_wakes: "\<exists>m :: (nat, sem_pos, int) monitor. reach (\<lambda>m. m = fresh_monitor 0) sem_step m \<and>
  members m = 1 \<and> asleep m 0 = Some (SemWait, True)"
proof -
  let ?m0 = "fresh_monitor 0 :: (nat, sem_pos, int) monitor"
  let ?m2 = "run_op sem_op 1 SemSignal (run_op sem_op 0 SemWait ?m0)"
  have "reach (\<lambda>m. m = ?m0) sem_step ?m2"
    by (rule reach_step [OF reach_step [OF reach_init]], rule refl; rule monitor_step.call;
        simp add: fresh_monitor_def run_op_def wake_def)
  then show ?thesis by (intro exI [of _ ?m2]) (simp add: fresh_monitor_def run_op_def wake_def)
qed

theorem waiters_are_notified_witness:
  "\<exists>m :: (nat, sem_pos, int) monitor. 0 < members m \<and> asleep m 0 = Some (SemWait, True) \<and> asleep m 0 \<noteq> Some (SemWait, False)"
proof -
  obtain m :: "(nat, sem_pos, int) monitor" where m: "reach (\<lambda>m. m = fresh_monitor 0) sem_step m"
    and one: "members m = 1" and a: "asleep m 0 = Some (SemWait, True)" using sem_wakes by blast
  have "reach (\<lambda>m. m = fresh_monitor \<lparr>m_maxThreads = 1, m_runCount = 0\<rparr>) counter_step
      (fresh_monitor \<lparr>m_maxThreads = 1, m_runCount = 0\<rparr> :: (nat, counter_pos, thread_counter) monitor)"
    by (rule reach_init) (rule refl)
  from waiters_are_notified [OF m _ this, of 0 SemWait] one a show ?thesis by (intro exI [of _ m]) simp
qed

end
