(* ===== verification/MTQueue.thy ===== *)
theory MTQueue
  imports Prelude
begin

text \<open>
  The bounded queue between threads: \<open>MTQueueBase\<close> of \<open>MTQueue.cpp\<close> and the template
  \<open>MTQueue\<close> of \<open>MTQueue.hpp\<close>. Producers and consumers wait on one condition, and a thread
  that goes through wakes one waiter, whichever it is.
\<close>

section \<open>Members and operations\<close>

record 'a mtqueue =
  m_maxQueueSize :: nat
  m_shutdown :: bool
  m_pushesBlocked :: nat
  m_popsBlocked :: nat
  m_deque :: "'a list"

definition new_mtqueue :: "nat \<Rightarrow> 'a mtqueue" where
  "new_mtqueue maxQueueSize = \<lparr>m_maxQueueSize = maxQueueSize, m_shutdown = False, m_pushesBlocked = 0,
     m_popsBlocked = 0, m_deque = []\<rparr>"

definition default_mtqueue :: "'a mtqueue" where
  "default_mtqueue = new_mtqueue (2 ^ 32 - 1)"

text \<open>A thread is in \<open>pushBack\<close> with the value to add, or in \<open>popFront\<close>; the calls return
  what follows, \<open>pushBack\<close> without saying which.\<close>

datatype 'a queue_pos = InPush 'a | InPop

datatype 'a queue_result = Pushed | NotPushed | E_TIMED_OUT | E_SHUT_DOWN | E_VALUE 'a

text \<open>From the test of the waiting loop to the next wait (\<open>None\<close>) or to the end of the call;
  the flag says whether \<open>notifyOne\<close> is called.\<close>

fun enterPushBack :: "'a \<Rightarrow> 'a mtqueue \<Rightarrow> 'a queue_result option \<times> 'a mtqueue \<times> bool" where
  "enterPushBack val q =
     (if \<not> m_shutdown q \<and> m_maxQueueSize q \<le> length (m_deque q)
      then (None, q\<lparr>m_pushesBlocked := m_pushesBlocked q + 1\<rparr>, False)
      else if m_shutdown q then (Some NotPushed, q, 0 < m_popsBlocked q)
      else (Some Pushed, q\<lparr>m_deque := m_deque q @ [val]\<rparr>, 0 < m_popsBlocked q))"

fun enterPopFront :: "'a mtqueue \<Rightarrow> 'a queue_result option \<times> 'a mtqueue \<times> bool" where
  "enterPopFront q =
     (if \<not> m_shutdown q \<and> m_deque q = []
      then (None, q\<lparr>m_popsBlocked := m_popsBlocked q + 1\<rparr>, False)
      else if m_shutdown q then (Some E_SHUT_DOWN, q, 0 < m_pushesBlocked q)
      else (Some (E_VALUE (hd (m_deque q))), q\<lparr>m_deque := tl (m_deque q)\<rparr>, 0 < m_pushesBlocked q))"

fun enter :: "'a queue_pos \<Rightarrow> 'a mtqueue \<Rightarrow> 'a queue_result option \<times> 'a mtqueue \<times> bool" where
  "enter (InPush val) q = enterPushBack val q"
| "enter InPop q = enterPopFront q"

text \<open>What a thread does first when its wait ends.\<close>

fun unblock :: "'a queue_pos \<Rightarrow> 'a mtqueue \<Rightarrow> 'a mtqueue" where
  "unblock (InPush val) q = q\<lparr>m_pushesBlocked := m_pushesBlocked q - 1\<rparr>"
| "unblock InPop q = q\<lparr>m_popsBlocked := m_popsBlocked q - 1\<rparr>"

section \<open>The threads\<close>

text \<open>The waiters of the condition, with a flag for those that were notified and have not
  run yet, and the values added and taken so far.\<close>

record ('t, 'a) mtsystem =
  queue :: "'a mtqueue"
  waiting :: "'t \<Rightarrow> ('a queue_pos \<times> bool) option"
  pushed :: "'a list"
  popped :: "'a list"

definition notifyOne :: "('t \<Rightarrow> ('p \<times> bool) option) \<Rightarrow> ('t \<Rightarrow> ('p \<times> bool) option) \<Rightarrow> bool" where
  "notifyOne f f' \<longleftrightarrow> (\<exists>t p. f t = Some (p, False) \<and> f' = f(t \<mapsto> (p, True))) \<or>
     (\<forall>t p. f t \<noteq> Some (p, False)) \<and> f' = f"

definition notifyAll :: "('t \<Rightarrow> ('p \<times> bool) option) \<Rightarrow> 't \<Rightarrow> ('p \<times> bool) option" where
  "notifyAll f t = map_option (\<lambda>(p, _). (p, True)) (f t)"

fun record_result :: "'a queue_pos \<Rightarrow> 'a queue_result option \<Rightarrow> 'a list \<times> 'a list \<Rightarrow> 'a list \<times> 'a list" where
  "record_result (InPush x) (Some Pushed) (pu, po) = (pu @ [x], po)"
| "record_result w (Some (E_VALUE x)) (pu, po) = (pu, po @ [x])"
| "record_result w r h = h"

text \<open>Thread \<open>t\<close>, which does not wait, tests the loop condition of \<open>w\<close> and goes on.\<close>

definition attempt :: "'t \<Rightarrow> 'a queue_pos \<Rightarrow> ('t, 'a) mtsystem \<Rightarrow> ('t, 'a) mtsystem \<Rightarrow> bool" where
  "attempt t w s s' \<longleftrightarrow> (\<exists>r q n f. enter w (queue s) = (r, q, n) \<and>
     (if n then notifyOne (waiting s) f else f = waiting s) \<and>
     s' = \<lparr>queue = q, waiting = f(t := if r = None then Some (w, False) else None),
           pushed = fst (record_result w r (pushed s, popped s)),
           popped = snd (record_result w r (pushed s, popped s))\<rparr>)"

text \<open>A call; the end of a wait, notified or spurious; the timeout of a waiting
  \<open>popFront\<close> that was not notified; \<open>shutdown\<close>.\<close>

inductive mt_step :: "('t, 'a) mtsystem \<Rightarrow> ('t, 'a) mtsystem \<Rightarrow> bool" where
  call: "waiting s t = None \<Longrightarrow> attempt t w s s' \<Longrightarrow> mt_step s s'"
| resume: "waiting s t = Some (w, n) \<Longrightarrow>
    attempt t w (s\<lparr>queue := unblock w (queue s), waiting := (waiting s)(t := None)\<rparr>) s' \<Longrightarrow> mt_step s s'"
| timeout: "waiting s t = Some (InPop, False) \<Longrightarrow>
    mt_step s (s\<lparr>queue := unblock InPop (queue s), waiting := (waiting s)(t := None)\<rparr>)"
| shutdown: "mt_step s (s\<lparr>queue := (queue s)\<lparr>m_shutdown := True\<rparr>, waiting := notifyAll (waiting s)\<rparr>)"

definition mt_start :: "nat \<Rightarrow> ('t, 'a) mtsystem \<Rightarrow> bool" where
  "mt_start maxQueueSize s \<longleftrightarrow>
     s = \<lparr>queue = new_mtqueue maxQueueSize, waiting = (\<lambda>_. None), pushed = [], popped = []\<rparr>"

section \<open>Counting the waiters\<close>

definition waiters :: "('p \<times> bool \<Rightarrow> bool) \<Rightarrow> ('t \<Rightarrow> ('p \<times> bool) option) \<Rightarrow> nat" where
  "waiters P f = card {t. \<exists>e. f t = Some e \<and> P e}"

named_theorems waiter_simps \<open>counting the waiters after an update\<close>

lemma waiters_finite: "finite (dom f) \<Longrightarrow> finite {t. \<exists>e. f t = Some e \<and> P e}"
  by (rule finite_subset [of _ "dom f"]) auto

lemma waiters_add [waiter_simps]:
  assumes "finite (dom f)" "f t = None"
  shows "waiters P (f(t \<mapsto> e)) = waiters P f + of_bool (P e)"
proof -
  have "{u. \<exists>e'. (f(t \<mapsto> e)) u = Some e' \<and> P e'} =
      (if P e then insert t {u. \<exists>e. f u = Some e \<and> P e} else {u. \<exists>e. f u = Some e \<and> P e})"
    using assms(2) by (cases e) auto
  then show ?thesis using assms(2) waiters_finite [OF assms(1), of P] by (simp add: waiters_def)
qed

lemma waiters_remove:
  assumes "finite (dom f)" "f t = Some e"
  shows "waiters P f = waiters P (f(t := None)) + of_bool (P e)"
proof -
  have "f = (f(t := None))(t \<mapsto> e)" using assms(2) by (simp add: fun_upd_idem)
  moreover have "finite (dom (f(t := None)))" using assms(1) by simp
  ultimately show ?thesis using waiters_add [of "f(t := None)" t P e] by simp
qed

lemma waiters_notify:
  assumes "finite (dom f)" "f t = Some (p, False)"
  shows "waiters P (f(t \<mapsto> (p, True))) + of_bool (P (p, False)) = waiters P f + of_bool (P (p, True))"
proof -
  have "finite (dom (f(t := None)))" using assms(1) by simp
  from waiters_add [OF this, of t P "(p, True)"] show ?thesis
    using waiters_remove [OF assms, of P] by simp
qed

lemma notifyOne_dom: "notifyOne f f' \<Longrightarrow> dom f' = dom f"
  by (auto simp: notifyOne_def split: if_splits)

lemma notifyOne_fst: "notifyOne f f' \<Longrightarrow> map_option fst (f' t) = map_option fst (f t)"
  by (auto simp: notifyOne_def)

lemma notifyOne_positions:
  assumes "notifyOne f f'" "finite (dom f)" "\<And>p. P (p, True) = P (p, False)"
  shows "waiters P f' = waiters P f"
  using assms(1) waiters_notify [OF assms(2), of _ _ P] assms(3) by (auto simp: notifyOne_def)


section \<open>The invariant of the queue\<close>

fun pushes :: "'a queue_pos \<times> bool \<Rightarrow> bool" where
  "pushes (InPush x, n) = True"
| "pushes (InPop, n) = False"

fun pops :: "'a queue_pos \<times> bool \<Rightarrow> bool" where
  "pops (InPush x, n) = False"
| "pops (InPop, n) = True"

lemma positions_only: "pushes (p, True) = pushes (p, False)" "pops (p, True) = pops (p, False)"
  by (cases p; simp)+

definition mt_inv :: "nat \<Rightarrow> ('t, 'a) mtsystem \<Rightarrow> bool" where
  "mt_inv maxQueueSize s \<longleftrightarrow>
     m_maxQueueSize (queue s) = maxQueueSize \<and> pushed s = popped s @ m_deque (queue s) \<and>
     length (m_deque (queue s)) \<le> maxQueueSize \<and> finite (dom (waiting s)) \<and>
     m_pushesBlocked (queue s) = waiters pushes (waiting s) \<and>
     m_popsBlocked (queue s) = waiters pops (waiting s) \<and>
     (m_shutdown (queue s) \<longrightarrow> (\<forall>t p. waiting s t \<noteq> Some (p, False)))"

lemma mt_inv_unblock:
  assumes "mt_inv M s" "waiting s t = Some (w, n)"
  shows "mt_inv M (s\<lparr>queue := unblock w (queue s), waiting := (waiting s)(t := None)\<rparr>)"
proof -
  have "finite (dom (waiting s))" using assms(1) by (simp add: mt_inv_def)
  from waiters_remove [OF this assms(2), of pushes] waiters_remove [OF this assms(2), of pops]
  show ?thesis using assms(1) by (cases w) (auto simp: mt_inv_def)
qed

lemma mt_inv_attempt:
  assumes inv: "mt_inv M s" and t: "waiting s t = None" and a: "attempt t w s s'"
  shows "mt_inv M s'"
proof -
  obtain r q n f where e: "enter w (queue s) = (r, q, n)"
    and f: "if n then notifyOne (waiting s) f else f = waiting s"
    and s': "s' = \<lparr>queue = q, waiting = f(t := if r = None then Some (w, False) else None),
           pushed = fst (record_result w r (pushed s, popped s)),
           popped = snd (record_result w r (pushed s, popped s))\<rparr>"
    using a by (auto simp: attempt_def)
  note inv' = inv [unfolded mt_inv_def]
  have fin: "finite (dom (waiting s))" using inv' by blast
  have same: "dom f = dom (waiting s)" "waiters pushes f = waiters pushes (waiting s)"
      "waiters pops f = waiters pops (waiting s)"
    using f notifyOne_dom [of "waiting s" f] notifyOne_positions [of "waiting s" f pushes, OF _ fin]
      notifyOne_positions [of "waiting s" f pops, OF _ fin] by (simp_all add: positions_only split: if_splits)
  have ft: "f t = None" using same(1) t by auto
  have "\<forall>t p. f t \<noteq> Some (p, False)" if "\<forall>t p. waiting s t \<noteq> Some (p, False)"
    using f that by (auto simp: notifyOne_def split: if_splits)
  then show ?thesis
    using e inv' same ft waiters_add [of f t] fin
    by (cases w) (auto simp: mt_inv_def s' fun_upd_idem split: if_splits)
qed

lemma waiters_notifyAll:
  assumes "\<And>p. P (p, True) = P (p, False)"
  shows "waiters P (notifyAll f) = waiters P f"
proof -
  have P: "P (p, b) = P (p, True)" for p b using assms by (cases b) auto
  have "(\<exists>e. notifyAll f t = Some e \<and> P e) \<longleftrightarrow> (\<exists>e. f t = Some e \<and> P e)" for t
  proof (cases "f t")
    case (Some e)
    then show ?thesis using P [of "fst e" "snd e"] by (cases e) (simp add: notifyAll_def)
  qed (simp add: notifyAll_def)
  then show ?thesis by (simp add: waiters_def)
qed

lemma notifyAll_dom: "dom (notifyAll f) = dom f"
  by (auto simp: notifyAll_def)

interpretation mtqueue: invariant_system "mt_start M" mt_step "mt_inv M"
proof
  fix s :: "('a, 'b) mtsystem"
  assume "mt_start M s"
  then show "mt_inv M s" by (simp add: mt_start_def mt_inv_def new_mtqueue_def waiters_def)
next
  fix s s' :: "('a, 'b) mtsystem"
  assume inv: "mt_inv M s" and st: "mt_step s s'"
  from st show "mt_inv M s'"
  proof cases
    case (call t w)
    then show ?thesis by (rule mt_inv_attempt [OF inv])
  next
    case (resume t w n)
    then show ?thesis by (intro mt_inv_attempt [OF mt_inv_unblock [OF inv resume(1)]]) simp_all
  next
    case (timeout t)
    then show ?thesis using mt_inv_unblock [OF inv timeout(2)] by simp
  next
    case shutdown
    then show ?thesis using inv by (auto simp: mt_inv_def notifyAll_dom waiters_notifyAll positions_only)
      (auto simp: notifyAll_def)
  qed
qed


section \<open>Consumers alone\<close>

text \<open>The steps of runs in which no producer has to wait.\<close>

definition mt_step_roomy :: "('t, 'a) mtsystem \<Rightarrow> ('t, 'a) mtsystem \<Rightarrow> bool" where
  "mt_step_roomy s s' \<longleftrightarrow> mt_step s s' \<and> m_pushesBlocked (queue s') = 0"

text \<open>While some consumer sleeps unnotified, the notified ones are as many as the values.\<close>

definition served :: "('t, 'a) mtsystem \<Rightarrow> bool" where
  "served s \<longleftrightarrow> ((\<exists>t p. waiting s t = Some (p, False)) \<longrightarrow>
     length (m_deque (queue s)) \<le> waiters snd (waiting s))"

definition roomy_inv :: "nat \<Rightarrow> ('t, 'a) mtsystem \<Rightarrow> bool" where
  "roomy_inv M s \<longleftrightarrow> mt_inv M s \<and> m_pushesBlocked (queue s) = 0 \<and> served s"

lemma no_pushes:
  assumes "mt_inv M s" "m_pushesBlocked (queue s) = 0" "waiting s t = Some (p, n)"
  shows "p = InPop"
proof (rule ccontr)
  assume "p \<noteq> InPop"
  then have "t \<in> {t. \<exists>e. waiting s t = Some e \<and> pushes e}" using assms(3) by (cases p) auto
  moreover have "waiters pushes (waiting s) = 0" "finite (dom (waiting s))"
    using assms(1,2) by (simp_all add: mt_inv_def)
  ultimately show False using waiters_finite [of "waiting s" pushes] by (auto simp: waiters_def)
qed


lemma served_push:
  assumes s: "mt_inv M s" "m_pushesBlocked (queue s) = 0" "served s"
    and t: "waiting s t = None" and a: "attempt t (InPush x) s s'"
    and s': "m_pushesBlocked (queue s') = 0" "\<not> m_shutdown (queue s')"
  shows "served s'"
proof -
  let ?f = "waiting s'"
  have *: "m_deque (queue s') = m_deque (queue s) @ [x]"
      "if 0 < m_popsBlocked (queue s) then notifyOne (waiting s) ?f else ?f = waiting s"
    using a s' t notifyOne_dom [of "waiting s"] unfolding attempt_def
    by (auto simp: fun_upd_idem domIff split: if_splits)
  have fin: "finite (dom (waiting s))" and pops: "m_popsBlocked (queue s) = waiters pops (waiting s)"
    using s(1) by (simp_all add: mt_inv_def)
  show ?thesis
  proof (cases "\<exists>u p. ?f u = Some (p, False)")
    case True
    then obtain u p where u: "?f u = Some (p, False)" by blast
    then have w: "waiting s u = Some (p, False)" using *(2) by (auto simp: notifyOne_def split: if_splits)
    have "u \<in> {u. \<exists>e. waiting s u = Some e \<and> pops e}" using w no_pushes [OF s(1,2) w] by auto
    then have "{u. \<exists>e. waiting s u = Some e \<and> pops e} \<noteq> {}" by blast
    then have "0 < m_popsBlocked (queue s)"
      using waiters_finite [OF fin, of pops] by (simp only: pops waiters_def card_gt_0_iff simp_thms)
    then obtain v q where "waiting s v = Some (q, False)" "?f = (waiting s)(v \<mapsto> (q, True))"
      using *(2) w by (auto simp: notifyOne_def)
    then have "waiters snd ?f = waiters snd (waiting s) + 1" using waiters_notify [OF fin, of v q snd] by simp
    then show ?thesis using s(3) w *(1) by (auto simp: served_def)
  qed (auto simp: served_def)
qed

lemma served_pop:
  assumes "m_pushesBlocked (queue s) = 0" "waiting s t = None" "attempt t InPop s s'"
    and "\<And>u p. waiting s u = Some (p, False) \<Longrightarrow> length (m_deque (queue s)) \<le> waiters snd (waiting s) + 1"
    and "\<not> m_shutdown (queue s')"
  shows "served s'"
proof (cases "m_deque (queue s) = []")
  case True
  then have "m_deque (queue s') = []" using assms(3) by (auto simp: attempt_def split: if_splits)
  then show ?thesis by (simp add: served_def)
next
  case False
  then have "m_deque (queue s') = tl (m_deque (queue s))" "waiting s' = waiting s"
    using assms by (auto simp: attempt_def fun_upd_idem split: if_splits)
  then show ?thesis by (auto simp: served_def dest!: assms(4))
qed

lemma roomy_step:
  assumes inv: "roomy_inv M s" and st: "mt_step_roomy s s'"
  shows "roomy_inv M s'"
proof -
  have i: "mt_inv M s" "m_pushesBlocked (queue s) = 0" "served s" using inv by (simp_all add: roomy_inv_def)
  have step: "mt_step s s'" and z: "m_pushesBlocked (queue s') = 0" using st by (simp_all add: mt_step_roomy_def)
  have i': "mt_inv M s'" by (rule mtqueue.inv_step [OF i(1) step])
  have fin: "finite (dom (waiting s))" using i(1) by (simp add: mt_inv_def)
  have "served s'"
  proof (cases "m_shutdown (queue s')")
    case True
    then show ?thesis using i' by (simp add: mt_inv_def served_def)
  next
    case False
    from step show ?thesis
    proof cases
      case (call t w)
      show ?thesis
      proof (cases w)
        case (InPush x)
        then show ?thesis using served_push [OF i] call z False by blast
      next
        case InPop
        then show ?thesis using i call False by (intro served_pop [of s t s']) (auto simp: served_def)
      qed
    next
      case (resume t w n)
      have w: "w = InPop" by (rule no_pushes [OF i(1,2) resume(1)])
      have "length (m_deque (queue s)) \<le> waiters snd ((waiting s)(t := None)) + 1"
        if "((waiting s)(t := None)) u = Some (p, False)" for u p
      proof -
        have "waiting s u = Some (p, False)" using that by (simp split: if_splits)
        then have "length (m_deque (queue s)) \<le> waiters snd (waiting s)" using i(3) by (auto simp: served_def)
        then show ?thesis using waiters_remove [OF fin resume(1), of snd] by (cases n) simp_all
      qed
      then show ?thesis using resume(2) w i(2) False
        by (intro served_pop [OF _ _ resume(2) [unfolded w]]) auto
    next
      case (timeout t)
      then show ?thesis using i(3) waiters_remove [OF fin timeout(2), of snd]
        by (auto simp: served_def split: if_splits)
    next
      case shutdown
      then show ?thesis using False by simp
    qed
  qed
  then show ?thesis using i' z by (simp add: roomy_inv_def)
qed

interpretation roomy: invariant_system "mt_start M" mt_step_roomy "roomy_inv M"
proof
  fix s :: "('a, 'b) mtsystem"
  assume i: "mt_start M s"
  then show "roomy_inv M s" using mtqueue.inv_init [OF i]
    by (simp add: roomy_inv_def mt_start_def served_def new_mtqueue_def)
qed (rule roomy_step)


section \<open>What the queue guarantees\<close>

text \<open>
  C22. In every reachable state, whatever the order of calls, wakeups, timeouts and
  shutdown, the values added are the values taken followed by the content of the queue, in
  order; the content never exceeds the maximum size; the counters of blocked calls are the
  numbers of threads asleep in pushBack() and popFront(); and after shutdown() every sleeping
  thread has been notified.
\<close>

theorem mtqueue_is_fifo:
  assumes "reach (mt_start maxQueueSize) mt_step s"
  shows "pushed s = popped s @ m_deque (queue s) \<and> length (m_deque (queue s)) \<le> maxQueueSize \<and>
    m_pushesBlocked (queue s) = card {t. \<exists>x n. waiting s t = Some (InPush x, n)} \<and>
    m_popsBlocked (queue s) = card {t. \<exists>n. waiting s t = Some (InPop, n)} \<and>
    (m_shutdown (queue s) \<longrightarrow> (\<forall>t p. waiting s t \<noteq> Some (p, False)))"
proof -
  have "{t. \<exists>e. waiting s t = Some e \<and> pushes e} = {t. \<exists>x n. waiting s t = Some (InPush x, n)}"
    "{t. \<exists>e. waiting s t = Some e \<and> pops e} = {t. \<exists>n. waiting s t = Some (InPop, n)}"
    by (auto elim: pushes.elims pops.elims)
  then show ?thesis using mtqueue.reachable_inv [OF assms] by (simp add: mt_inv_def waiters_def)
qed

text \<open>
  As long as no producer has to wait, no consumer is forgotten: while a consumer sleeps
  without having been notified, at least as many consumers have been notified, and are about
  to run, as there are values in the queue.
\<close>

theorem consumers_are_served:
  assumes "reach (mt_start maxQueueSize) mt_step_roomy s" "waiting s t = Some (p, False)"
  shows "length (m_deque (queue s)) \<le> card {u. \<exists>q. waiting s u = Some (q, True)}"
proof -
  have "{u. \<exists>e. waiting s u = Some e \<and> snd e} = {u. \<exists>q. waiting s u = Some (q, True)}" by auto
  then show ?thesis using roomy.reachable_inv [OF assms(1)] assms(2)
    by (auto simp: roomy_inv_def served_def waiters_def)
qed

abbreviation mts :: "nat \<Rightarrow> nat \<Rightarrow> nat \<Rightarrow> int list \<Rightarrow> (nat \<Rightarrow> (int queue_pos \<times> bool) option) \<Rightarrow> int list \<Rightarrow> int list \<Rightarrow>
    (nat, int) mtsystem" where
  "mts M pu po xs f ins outs \<equiv> \<lparr>queue = \<lparr>m_maxQueueSize = M, m_shutdown = False, m_pushesBlocked = pu,
     m_popsBlocked = po, m_deque = xs\<rparr>, waiting = f, pushed = ins, popped = outs\<rparr>"

lemma attempt_quiet:
  assumes "enter w (queue s) = (r, q, False)"
  shows "attempt t w s \<lparr>queue = q, waiting = (waiting s)(t := if r = None then Some (w, False) else None),
    pushed = fst (record_result w r (pushed s, popped s)), popped = snd (record_result w r (pushed s, popped s))\<rparr>"
  using assms by (auto simp: attempt_def)

lemma attempt_notifies:
  assumes "enter w (queue s) = (r, q, True)" "waiting s u = Some (p, False)"
  shows "attempt t w s \<lparr>queue = q, waiting = ((waiting s)(u \<mapsto> (p, True)))(t := if r = None then Some (w, False) else None),
    pushed = fst (record_result w r (pushed s, popped s)), popped = snd (record_result w r (pushed s, popped s))\<rparr>"
proof -
  have "notifyOne (waiting s) ((waiting s)(u \<mapsto> (p, True)))" using assms(2) by (auto simp: notifyOne_def)
  then show ?thesis using assms(1) by (auto simp: attempt_def)
qed

lemma sleeping_consumers:
  "mt_step (mts 1 0 0 [] (\<lambda>_. None) [] []) (mts 1 0 1 [] [1 \<mapsto> (InPop, False)] [] [])"
  "mt_step (mts 1 0 1 [] [1 \<mapsto> (InPop, False)] [] [])
     (mts 1 0 2 [] [1 \<mapsto> (InPop, False), 2 \<mapsto> (InPop, False)] [] [])"
  "mt_step (mts 1 0 2 [] [1 \<mapsto> (InPop, False), 2 \<mapsto> (InPop, False)] [] [])
     (mts 1 0 2 [7] [1 \<mapsto> (InPop, True), 2 \<mapsto> (InPop, False)] [7] [])"
proof -
  show "mt_step (mts 1 0 0 [] (\<lambda>_. None) [] []) (mts 1 0 1 [] [1 \<mapsto> (InPop, False)] [] [])"
    by (rule mt_step.call [of _ 1 InPop], simp) (use attempt_quiet [of InPop "mts 1 0 0 [] (\<lambda>_. None) [] []" None] in simp)
  show "mt_step (mts 1 0 1 [] [1 \<mapsto> (InPop, False)] [] [])
     (mts 1 0 2 [] [1 \<mapsto> (InPop, False), 2 \<mapsto> (InPop, False)] [] [])"
    by (rule mt_step.call [of _ 2 InPop], simp)
      (use attempt_quiet [of InPop "mts 1 0 1 [] [1 \<mapsto> (InPop, False)] [] []" None _ 2] in \<open>simp add: numeral_2_eq_2\<close>)
  show "mt_step (mts 1 0 2 [] [1 \<mapsto> (InPop, False), 2 \<mapsto> (InPop, False)] [] [])
     (mts 1 0 2 [7] [1 \<mapsto> (InPop, True), 2 \<mapsto> (InPop, False)] [7] [])"
    by (rule mt_step.call [of _ 3 "InPush 7"], simp)
      (use attempt_notifies [of "InPush 7" "mts 1 0 2 [] [1 \<mapsto> (InPop, False), 2 \<mapsto> (InPop, False)] [] []"
        "Some Pushed" _ 1 InPop 3] in \<open>simp add: fun_upd_twist fun_upd_idem\<close>)
qed


lemma blocked_producer:
  "mt_step (mts 1 0 2 [7] [1 \<mapsto> (InPop, True), 2 \<mapsto> (InPop, False)] [7] [])
     (mts 1 1 2 [7] [1 \<mapsto> (InPop, True), 2 \<mapsto> (InPop, False), 4 \<mapsto> (InPush 8, False)] [7] [])"
  "mt_step (mts 1 1 2 [7] [1 \<mapsto> (InPop, True), 2 \<mapsto> (InPop, False), 4 \<mapsto> (InPush 8, False)] [7] [])
     (mts 1 1 1 [] [2 \<mapsto> (InPop, True), 4 \<mapsto> (InPush 8, False)] [7] [7])"
  "mt_step (mts 1 1 1 [] [2 \<mapsto> (InPop, True), 4 \<mapsto> (InPush 8, False)] [7] [7])
     (mts 1 1 1 [] [2 \<mapsto> (InPop, False), 4 \<mapsto> (InPush 8, False)] [7] [7])"
proof -
  let ?s = "mts 1 1 1 [7] [2 \<mapsto> (InPop, False), 4 \<mapsto> (InPush 8, False)] [7] []"
  show "mt_step (mts 1 0 2 [7] [1 \<mapsto> (InPop, True), 2 \<mapsto> (InPop, False)] [7] [])
     (mts 1 1 2 [7] [1 \<mapsto> (InPop, True), 2 \<mapsto> (InPop, False), 4 \<mapsto> (InPush 8, False)] [7] [])"
    by (rule mt_step.call [of _ 4 "InPush 8"], simp)
      (use attempt_quiet [of "InPush 8" "mts 1 0 2 [7] [1 \<mapsto> (InPop, True), 2 \<mapsto> (InPop, False)] [7] []" None _ 4] in simp)
  have upd: "([2 \<mapsto> (InPop, True), 4 \<mapsto> (InPush 8, False)] :: nat \<Rightarrow> (int queue_pos \<times> bool) option)(Suc 0 := None)
      = [2 \<mapsto> (InPop, True), 4 \<mapsto> (InPush 8, False)]" by auto
  have "attempt 1 InPop ?s (mts 1 1 1 [] [2 \<mapsto> (InPop, True), 4 \<mapsto> (InPush 8, False)] [7] [7])"
    using attempt_notifies [of InPop ?s "Some (E_VALUE 7)" _ 2 InPop 1] upd by (simp add: fun_upd_twist)
  then show "mt_step (mts 1 1 2 [7] [1 \<mapsto> (InPop, True), 2 \<mapsto> (InPop, False), 4 \<mapsto> (InPush 8, False)] [7] [])
     (mts 1 1 1 [] [2 \<mapsto> (InPop, True), 4 \<mapsto> (InPush 8, False)] [7] [7])"
    by (intro mt_step.resume [of _ 1 InPop True]) (simp_all add: fun_upd_twist fun_upd_idem)
  have "attempt 2 InPop (mts 1 1 0 [] [4 \<mapsto> (InPush 8, False)] [7] [7])
     (mts 1 1 1 [] [2 \<mapsto> (InPop, False), 4 \<mapsto> (InPush 8, False)] [7] [7])"
    using attempt_quiet [of InPop "mts 1 1 0 [] [4 \<mapsto> (InPush 8, False)] [7] [7]" None _ 2] by (simp add: fun_upd_twist)
  then show "mt_step (mts 1 1 1 [] [2 \<mapsto> (InPop, True), 4 \<mapsto> (InPush 8, False)] [7] [7])
     (mts 1 1 1 [] [2 \<mapsto> (InPop, False), 4 \<mapsto> (InPush 8, False)] [7] [7])"
    by (intro mt_step.resume [of _ 2 InPop True]) (simp_all add: fun_upd_twist fun_upd_idem)
qed

text \<open>
  A wakeup can be lost when producers and consumers wait at once: with a queue of size
  1, two consumers asleep, one value added and a producer waiting for room, the consumer that
  takes the value wakes the other consumer instead of the producer. The state reached has an
  empty queue, a producer asleep in pushBack() and a consumer asleep in popFront(), and
  nobody notified.
\<close>

theorem mtqueue_lost_wakeup:
  "\<exists>s :: (nat, int) mtsystem. reach (mt_start 1) mt_step s \<and> \<not> m_shutdown (queue s) \<and> m_deque (queue s) = [] \<and>
    waiting s 4 = Some (InPush 8, False) \<and> waiting s 2 = Some (InPop, False) \<and>
    (\<forall>t p. waiting s t \<noteq> Some (p, True))"
proof (intro exI conjI)
  have "mt_start 1 (mts 1 0 0 [] (\<lambda>_. None) [] [])" by (simp add: mt_start_def new_mtqueue_def)
  then show "reach (mt_start 1) mt_step (mts 1 1 1 [] [2 \<mapsto> (InPop, False), 4 \<mapsto> (InPush 8, False)] [7] [7])"
    by (rule reach_init [THEN reach_step, THEN reach_step, THEN reach_step, THEN reach_step, THEN reach_step, THEN reach_step])
      (rule sleeping_consumers blocked_producer)+
qed auto

lemma sleeping_consumer_reachable: "reach (mt_start 1) mt_step (mts 1 0 1 [] [1 \<mapsto> (InPop, False)] [] [])"
proof -
  have "mt_start 1 (mts 1 0 0 [] (\<lambda>_. None) [] [])" by (simp add: mt_start_def new_mtqueue_def)
  then show ?thesis by (rule reach_init [THEN reach_step]) (rule sleeping_consumers)
qed

theorem mtqueue_is_fifo_witness:
  "m_popsBlocked (queue (mts 1 0 1 [] [1 \<mapsto> (InPop, False)] [] [])) =
     card {t. \<exists>n. waiting (mts 1 0 1 [] [1 \<mapsto> (InPop, False)] [] []) t = Some (InPop, n)}"
  using mtqueue_is_fifo [OF sleeping_consumer_reachable] by blast

theorem consumers_are_served_witness:
  "length (m_deque (queue (mts 1 0 1 [] [1 \<mapsto> (InPop, False)] [] []))) \<le>
     card {u. \<exists>q. waiting (mts 1 0 1 [] [1 \<mapsto> (InPop, False)] [] []) u = Some (q, True)}"
proof (rule consumers_are_served [where t = 1 and p = InPop])
  have "mt_start 1 (mts 1 0 0 [] (\<lambda>_. None) [] [])" by (simp add: mt_start_def new_mtqueue_def)
  moreover have "mt_step_roomy (mts 1 0 0 [] (\<lambda>_. None) [] []) (mts 1 0 1 [] [1 \<mapsto> (InPop, False)] [] [])"
    using sleeping_consumers(1) by (simp add: mt_step_roomy_def)
  ultimately show "reach (mt_start 1) mt_step_roomy (mts 1 0 1 [] [1 \<mapsto> (InPop, False)] [] [])"
    by (rule reach_step [OF reach_init])
qed simp

end
