(* ===== verification/MD5.thy ===== *)
theory MD5
  imports Strings
begin

text \<open>
  The message digest of \<open>MD5.cpp\<close>: the transformation of a block with the rows of the
  source, the update of the context with its buffer and bit counters, the final padding, and
  the class \<open>MD5\<close> around them, which is also an output stream.
\<close>

unbundle bit_operations_syntax

section \<open>The basic functions\<close>

definition F_md5 :: "u32 \<Rightarrow> u32 \<Rightarrow> u32 \<Rightarrow> u32" where "F_md5 x y z = (x AND y) OR (NOT x AND z)"
definition G_md5 :: "u32 \<Rightarrow> u32 \<Rightarrow> u32 \<Rightarrow> u32" where "G_md5 x y z = (x AND z) OR (y AND NOT z)"
definition H_md5 :: "u32 \<Rightarrow> u32 \<Rightarrow> u32 \<Rightarrow> u32" where "H_md5 x y z = (x XOR y) XOR z"
definition I_md5 :: "u32 \<Rightarrow> u32 \<Rightarrow> u32 \<Rightarrow> u32" where "I_md5 x y z = y XOR (x OR NOT z)"

definition ROTATE_LEFT :: "u32 \<Rightarrow> nat \<Rightarrow> u32" where
  "ROTATE_LEFT x n = push_bit n x OR drop_bit (32 - n) x"

text \<open>A row \<open>FF (a, b, c, d, x[k], s, ac)\<close> and the like: the round's function, the
  registers the letters stand for, the word of the block, the shift and the constant.\<close>

datatype md5_round = FF | GG | HH | II

type_synonym md5_row = "md5_round \<times> nat \<times> nat \<times> nat \<times> nat \<times> nat \<times> nat \<times> u32"

fun round_function :: "md5_round \<Rightarrow> u32 \<Rightarrow> u32 \<Rightarrow> u32 \<Rightarrow> u32" where
  "round_function FF = F_md5"
| "round_function GG = G_md5"
| "round_function HH = H_md5"
| "round_function II = I_md5"

fun apply_row :: "u32 list \<Rightarrow> md5_row \<Rightarrow> u32 list \<Rightarrow> u32 list" where
  "apply_row x (r, a, b, c, d, k, s, ac) regs =
     regs[a := ROTATE_LEFT (regs ! a + (round_function r (regs ! b) (regs ! c) (regs ! d) + x ! k + ac)) s + regs ! b]"

text \<open>The shift amounts.\<close>

abbreviation "S11 \<equiv> 7 :: nat"
abbreviation "S12 \<equiv> 12 :: nat"
abbreviation "S13 \<equiv> 17 :: nat"
abbreviation "S14 \<equiv> 22 :: nat"
abbreviation "S21 \<equiv> 5 :: nat"
abbreviation "S22 \<equiv> 9 :: nat"
abbreviation "S23 \<equiv> 14 :: nat"
abbreviation "S24 \<equiv> 20 :: nat"
abbreviation "S31 \<equiv> 4 :: nat"
abbreviation "S32 \<equiv> 11 :: nat"
abbreviation "S33 \<equiv> 16 :: nat"
abbreviation "S34 \<equiv> 23 :: nat"
abbreviation "S41 \<equiv> 6 :: nat"
abbreviation "S42 \<equiv> 10 :: nat"
abbreviation "S43 \<equiv> 15 :: nat"
abbreviation "S44 \<equiv> 21 :: nat"

text \<open>The rows in the order of the source; the registers \<open>a, b, c, d\<close> are 0 to 3.\<close>

definition md5_rows :: "md5_row list" where
  "md5_rows = [
     (FF, 0, 1, 2, 3, 0, S11, 0xd76aa478), (FF, 3, 0, 1, 2, 1, S12, 0xe8c7b756),
     (FF, 2, 3, 0, 1, 2, S13, 0x242070db), (FF, 1, 2, 3, 0, 3, S14, 0xc1bdceee),
     (FF, 0, 1, 2, 3, 4, S11, 0xf57c0faf), (FF, 3, 0, 1, 2, 5, S12, 0x4787c62a),
     (FF, 2, 3, 0, 1, 6, S13, 0xa8304613), (FF, 1, 2, 3, 0, 7, S14, 0xfd469501),
     (FF, 0, 1, 2, 3, 8, S11, 0x698098d8), (FF, 3, 0, 1, 2, 9, S12, 0x8b44f7af),
     (FF, 2, 3, 0, 1, 10, S13, 0xffff5bb1), (FF, 1, 2, 3, 0, 11, S14, 0x895cd7be),
     (FF, 0, 1, 2, 3, 12, S11, 0x6b901122), (FF, 3, 0, 1, 2, 13, S12, 0xfd987193),
     (FF, 2, 3, 0, 1, 14, S13, 0xa679438e), (FF, 1, 2, 3, 0, 15, S14, 0x49b40821),
     (GG, 0, 1, 2, 3, 1, S21, 0xf61e2562), (GG, 3, 0, 1, 2, 6, S22, 0xc040b340),
     (GG, 2, 3, 0, 1, 11, S23, 0x265e5a51), (GG, 1, 2, 3, 0, 0, S24, 0xe9b6c7aa),
     (GG, 0, 1, 2, 3, 5, S21, 0xd62f105d), (GG, 3, 0, 1, 2, 10, S22, 0x2441453),
     (GG, 2, 3, 0, 1, 15, S23, 0xd8a1e681), (GG, 1, 2, 3, 0, 4, S24, 0xe7d3fbc8),
     (GG, 0, 1, 2, 3, 9, S21, 0x21e1cde6), (GG, 3, 0, 1, 2, 14, S22, 0xc33707d6),
     (GG, 2, 3, 0, 1, 3, S23, 0xf4d50d87), (GG, 1, 2, 3, 0, 8, S24, 0x455a14ed),
     (GG, 0, 1, 2, 3, 13, S21, 0xa9e3e905), (GG, 3, 0, 1, 2, 2, S22, 0xfcefa3f8),
     (GG, 2, 3, 0, 1, 7, S23, 0x676f02d9), (GG, 1, 2, 3, 0, 12, S24, 0x8d2a4c8a),
     (HH, 0, 1, 2, 3, 5, S31, 0xfffa3942), (HH, 3, 0, 1, 2, 8, S32, 0x8771f681),
     (HH, 2, 3, 0, 1, 11, S33, 0x6d9d6122), (HH, 1, 2, 3, 0, 14, S34, 0xfde5380c),
     (HH, 0, 1, 2, 3, 1, S31, 0xa4beea44), (HH, 3, 0, 1, 2, 4, S32, 0x4bdecfa9),
     (HH, 2, 3, 0, 1, 7, S33, 0xf6bb4b60), (HH, 1, 2, 3, 0, 10, S34, 0xbebfbc70),
     (HH, 0, 1, 2, 3, 13, S31, 0x289b7ec6), (HH, 3, 0, 1, 2, 0, S32, 0xeaa127fa),
     (HH, 2, 3, 0, 1, 3, S33, 0xd4ef3085), (HH, 1, 2, 3, 0, 6, S34, 0x4881d05),
     (HH, 0, 1, 2, 3, 9, S31, 0xd9d4d039), (HH, 3, 0, 1, 2, 12, S32, 0xe6db99e5),
     (HH, 2, 3, 0, 1, 15, S33, 0x1fa27cf8), (HH, 1, 2, 3, 0, 2, S34, 0xc4ac5665),
     (II, 0, 1, 2, 3, 0, S41, 0xf4292244), (II, 3, 0, 1, 2, 7, S42, 0x432aff97),
     (II, 2, 3, 0, 1, 14, S43, 0xab9423a7), (II, 1, 2, 3, 0, 5, S44, 0xfc93a039),
     (II, 0, 1, 2, 3, 12, S41, 0x655b59c3), (II, 3, 0, 1, 2, 3, S42, 0x8f0ccc92),
     (II, 2, 3, 0, 1, 10, S43, 0xffeff47d), (II, 1, 2, 3, 0, 1, S44, 0x85845dd1),
     (II, 0, 1, 2, 3, 8, S41, 0x6fa87e4f), (II, 3, 0, 1, 2, 15, S42, 0xfe2ce6e0),
     (II, 2, 3, 0, 1, 6, S43, 0xa3014314), (II, 1, 2, 3, 0, 13, S44, 0x4e0811a1),
     (II, 0, 1, 2, 3, 4, S41, 0xf7537e82), (II, 3, 0, 1, 2, 11, S42, 0xbd3af235),
     (II, 2, 3, 0, 1, 2, S43, 0x2ad7d2bb), (II, 1, 2, 3, 0, 9, S44, 0xeb86d391)]"

section \<open>Blocks\<close>

text \<open>\<open>Encode\<close> and \<open>Decode\<close>: four bytes per word, the least significant first.\<close>

definition Encode :: "u32 list \<Rightarrow> bytes" where
  "Encode input = concat (map (\<lambda>w. [ucast (w AND 0xff), ucast (drop_bit 8 w AND 0xff),
     ucast (drop_bit 16 w AND 0xff), ucast (drop_bit 24 w AND 0xff)]) input)"

fun Decode :: "bytes \<Rightarrow> u32 list" where
  "Decode (b0 # b1 # b2 # b3 # rest) =
     (ucast b0 OR push_bit 8 (ucast b1) OR push_bit 16 (ucast b2) OR push_bit 24 (ucast b3)) # Decode rest"
| "Decode _ = []"

definition MD5Transform :: "u32 list \<Rightarrow> bytes \<Rightarrow> u32 list" where
  "MD5Transform state block = map2 (+) state (fold (apply_row (Decode block)) md5_rows state)"

section \<open>The context\<close>

record MD5_CTX =
  ctx_state :: "u32 list"
  ctx_count0 :: u32
  ctx_count1 :: u32
  ctx_buffer :: bytes

text \<open>\<open>MD5Init\<close> leaves the buffer as it is.\<close>

definition MD5Init :: "MD5_CTX \<Rightarrow> MD5_CTX" where
  "MD5Init context = context\<lparr>ctx_count0 := 0, ctx_count1 := 0,
     ctx_state := [0x67452301, 0xefcdab89, 0x98badcfe, 0x10325476]\<rparr>"

text \<open>\<open>memcpy\<close> into the context's buffer; \<open>None\<close> when it reads or writes outside.\<close>

definition copy_to_buffer :: "bytes \<Rightarrow> nat \<Rightarrow> bytes \<Rightarrow> nat \<Rightarrow> nat \<Rightarrow> bytes option" where
  "copy_to_buffer buffer index input i n =
     (if index + n \<le> length buffer \<and> i + n \<le> length input
      then Some (take index buffer @ take n (drop i input) @ drop (index + n) buffer) else None)"

text \<open>The loop over the whole blocks; \<open>i + 63\<close> and \<open>i += 64\<close> are 32-bit sums. \<open>None\<close> when it
  reads outside the input or does not end.\<close>

partial_function (option) md5_blocks :: "u32 list \<Rightarrow> bytes \<Rightarrow> u32 \<Rightarrow> u32 \<Rightarrow> (u32 list \<times> u32) option" where
  "md5_blocks state input inputLen i =
     (if i + 63 < inputLen
      then if unat i + 64 \<le> length input
        then md5_blocks (MD5Transform state (take 64 (drop (unat i) input))) input inputLen (i + 64)
        else None
      else Some (state, i))"

declare md5_blocks.simps [code]

definition add_count :: "MD5_CTX \<Rightarrow> u32 \<Rightarrow> MD5_CTX" where
  "add_count context inputLen =
     (let c0 = ctx_count0 context + push_bit 3 inputLen in
      context\<lparr>ctx_count0 := c0, ctx_count1 := ctx_count1 context +
        (if c0 < push_bit 3 inputLen then 1 else 0) + drop_bit 29 inputLen\<rparr>)"

definition buffer_index :: "MD5_CTX \<Rightarrow> u32" where
  "buffer_index context = drop_bit 3 (ctx_count0 context) AND 0x3F"

definition MD5Update :: "MD5_CTX \<Rightarrow> bytes \<Rightarrow> u32 \<Rightarrow> MD5_CTX option" where
  "MD5Update context input inputLen =
     (let index = buffer_index context; ctx = add_count context inputLen; partLen = 64 - index in
      if inputLen \<ge> partLen then
        Option.bind (copy_to_buffer (ctx_buffer ctx) (unat index) input 0 (unat partLen)) (\<lambda>buffer.
        Option.bind (md5_blocks (MD5Transform (ctx_state ctx) buffer) input inputLen partLen) (\<lambda>(state, i).
        Option.bind (copy_to_buffer buffer 0 input (unat i) (unat (inputLen - i))) (\<lambda>buffer'.
        Some (ctx\<lparr>ctx_state := state, ctx_buffer := buffer'\<rparr>))))
      else
        Option.bind (copy_to_buffer (ctx_buffer ctx) (unat index) input 0 (unat inputLen)) (\<lambda>buffer.
        Some (ctx\<lparr>ctx_buffer := buffer\<rparr>)))"

definition PADDING :: bytes where "PADDING = 0x80 # replicate 63 0"

text \<open>\<open>MD5Final\<close>: the digest, and the context with all its bytes zero.\<close>

definition zero_ctx :: MD5_CTX where
  "zero_ctx = \<lparr>ctx_state = replicate 4 0, ctx_count0 = 0, ctx_count1 = 0, ctx_buffer = replicate 64 0\<rparr>"

definition MD5Final :: "MD5_CTX \<Rightarrow> (bytes \<times> MD5_CTX) option" where
  "MD5Final context =
     (let bits = Encode [ctx_count0 context, ctx_count1 context]; index = buffer_index context;
          padLen = (if index < 56 then 56 - index else 120 - index) in
      Option.bind (MD5Update context PADDING padLen) (\<lambda>ctx.
      Option.bind (MD5Update ctx bits 8) (\<lambda>ctx.
      Some (Encode (ctx_state ctx), zero_ctx))))"

section \<open>The class\<close>

record MD5_object =
  m_ctx :: MD5_CTX
  m_digest :: bytes
  m_finished :: bool

datatype md5_error = MD5Exception | MD5Undefined

abbreviation or_undefined :: "'a option \<Rightarrow> md5_error + 'a" where
  "or_undefined r \<equiv> (case r of None \<Rightarrow> Inl MD5Undefined | Some a \<Rightarrow> Inr a)"

text \<open>The constructor; \<open>m_ctx()\<close> clears the context and the digest is not initialised.\<close>

definition new_MD5 :: "bytes \<Rightarrow> MD5_object" where
  "new_MD5 uninitialised = \<lparr>m_ctx = MD5Init zero_ctx, m_digest = uninitialised, m_finished = False\<rparr>"

definition md5_update :: "MD5_object \<Rightarrow> bytes \<Rightarrow> md5_error + MD5_object" where
  "md5_update md5 input =
     (if m_finished md5 then Inl MD5Exception
      else rbind (or_undefined (MD5Update (m_ctx md5) input (of_nat (length input)))) (\<lambda>ctx.
        Inr (md5\<lparr>m_ctx := ctx\<rparr>)))"

definition new_MD5_of :: "bytes \<Rightarrow> bytes \<Rightarrow> md5_error + MD5_object" where
  "new_MD5_of uninitialised input = md5_update (new_MD5 uninitialised) input"

definition md5_init :: "MD5_object \<Rightarrow> bytes \<Rightarrow> md5_error + MD5_object" where
  "md5_init md5 input = md5_update (md5\<lparr>m_finished := False, m_ctx := MD5Init (m_ctx md5)\<rparr>) input"

definition getDigest :: "MD5_object \<Rightarrow> md5_error + bytes \<times> MD5_object" where
  "getDigest md5 =
     (if m_finished md5 then Inr (m_digest md5, md5)
      else rbind (or_undefined (MD5Final (m_ctx md5))) (\<lambda>(digest, ctx).
        Inr (digest, md5\<lparr>m_digest := digest, m_ctx := ctx, m_finished := True\<rparr>)))"

definition hex_char :: "u8 \<Rightarrow> u8" where
  "hex_char j = (if j \<le> 9 then j + 0x30 else j + 0x61 - 10)"

definition convertBinToHex :: "bytes \<Rightarrow> bytes" where
  "convertBinToHex sBin = concat (map (\<lambda>b. [hex_char (drop_bit 4 b AND 0xf), hex_char (b AND 0xf)]) (take 16 sBin))"

definition md5_toString :: "MD5_object \<Rightarrow> md5_error + bytes \<times> MD5_object" where
  "md5_toString md5 = rbind (getDigest md5) (\<lambda>(digest, md5'). Inr (convertBinToHex digest, md5'))"

text \<open>What the stream is given: \<open>MD5StreamBuffer::xsputn\<close> and \<open>overflow\<close>, which do not look
  at \<open>m_finished\<close>.\<close>

definition stream_xsputn :: "MD5_object \<Rightarrow> bytes \<Rightarrow> md5_error + MD5_object" where
  "stream_xsputn md5 s =
     rbind (or_undefined (MD5Update (m_ctx md5) s (of_nat (length s)))) (\<lambda>ctx. Inr (md5\<lparr>m_ctx := ctx\<rparr>))"

definition stream_overflow :: "MD5_object \<Rightarrow> u32 \<Rightarrow> md5_error + MD5_object" where
  "stream_overflow md5 c = stream_xsputn md5 [ucast c]"

end
