(* ===== verification/MD5_Props.thy ===== *)
theory MD5_Props
  imports MD5
begin

text \<open>
  The digest against a reference in the manner of RFC 1321: pad the message to whole blocks,
  fold the transformation over them, encode the state.
\<close>

section \<open>Reference\<close>

function blocks64 :: "bytes \<Rightarrow> bytes list" where
  "blocks64 xs = (if length xs < 64 then [] else take 64 xs # blocks64 (drop 64 xs))"
  by pat_completeness auto
termination by (relation "measure length") auto

declare blocks64.simps [simp del]

definition initial_state :: "u32 list" where
  "initial_state = [0x67452301, 0xefcdab89, 0x98badcfe, 0x10325476]"

definition length_field :: "nat \<Rightarrow> bytes" where
  "length_field n = (let bits = of_nat (8 * n) :: u64 in Encode [ucast bits, ucast (drop_bit 32 bits)])"

definition pad_message :: "bytes \<Rightarrow> bytes" where
  "pad_message m = m @ 0x80 # replicate ((119 - length m mod 64) mod 64) 0 @ length_field (length m)"

definition md5_reference :: "bytes \<Rightarrow> bytes" where
  "md5_reference m = Encode (foldl MD5Transform initial_state (blocks64 (pad_message m)))"

section \<open>Blocks of a message\<close>

lemma blocks64_append: "length a mod 64 = 0 \<Longrightarrow> blocks64 (a @ b) = blocks64 a @ blocks64 b"
proof (induction a rule: blocks64.induct)
  case (1 a)
  show ?case
  proof (cases "length a < 64")
    case True
    then have "a = []" using "1.prems" by simp
    then show ?thesis by (simp add: blocks64.simps [of "[]"])
  next
    case False
    then have "(length a - 64) mod 64 = 0" using "1.prems" by (simp add: le_mod_geq)
    then show ?thesis using "1.IH" [OF False] False
      by (subst (1 2) blocks64.simps) simp
  qed
qed

lemma blocks64_rest: "length r < 64 \<Longrightarrow> length a mod 64 = 0 \<Longrightarrow> blocks64 (a @ r) = blocks64 a"
  by (simp add: blocks64_append blocks64.simps [of r])

lemma blocks64_single: "length b = 64 \<Longrightarrow> blocks64 b = [b]"
  by (subst blocks64.simps, simp) (simp add: blocks64.simps)

definition whole :: "nat \<Rightarrow> nat" where "whole n = 64 * (n div 64)"

lemma whole_bounds: "whole n \<le> n" "n - whole n = n mod 64" "whole n mod 64 = 0"
  by (simp_all add: whole_def minus_mult_div_eq_mod)

lemma blocks64_whole: "blocks64 m = blocks64 (take (whole (length m)) m)"
proof -
  have "m = take (whole (length m)) m @ drop (whole (length m)) m" by simp
  moreover have "length (drop (whole (length m)) m) < 64" using whole_bounds(2) by simp
  ultimately show ?thesis using blocks64_rest whole_bounds by (metis length_take min.absorb2)
qed

section \<open>The context of a message\<close>

definition holds :: "u32 list \<Rightarrow> bytes \<Rightarrow> MD5_CTX \<Rightarrow> bool" where
  "holds iv m c \<longleftrightarrow> ctx_state c = foldl MD5Transform iv (blocks64 m) \<and>
     length (ctx_buffer c) = 64 \<and> take (length m mod 64) (ctx_buffer c) = drop (whole (length m)) m \<and>
     unat (ctx_count1 c) * 2 ^ 32 + unat (ctx_count0 c) = 8 * length m mod 2 ^ 64"

lemma unat_drop_bit: "unat (drop_bit n w) = unat w div 2 ^ n"
  unfolding unat_drop_bit_eq by (rule drop_bit_eq_div)

lemma unat_mask6: "unat (w AND 0x3F :: u32) = unat w mod 64"
proof -
  have "w AND 0x3F = take_bit 6 w" by (simp add: take_bit_eq_mask mask_eq_exp_minus_1)
  then show ?thesis by (simp only: unsigned_take_bit_eq) (simp add: take_bit_eq_mod)
qed

lemma unat_of_u32: "unat (w :: u32) < 2 ^ 32"
  using unsigned_less [of w, where ?'a = nat] by simp

lemma count_low:
  assumes "h * 2 ^ 32 + unat (l :: u32) = 8 * n mod 2 ^ 64"
  shows "unat l = 8 * n mod 2 ^ 32"
proof -
  have "unat l = (h * 2 ^ 32 + unat l) mod 2 ^ 32" using unat_of_u32 [of l] by simp
  also have "\<dots> = 8 * n mod 2 ^ 32" unfolding assms by (simp add: mod_mod_cancel)
  finally show ?thesis .
qed

lemma index_holds:
  assumes "holds iv m c"
  shows "unat (buffer_index c) = length m mod 64"
proof -
  have "unat (ctx_count0 c) = 8 * length m mod (8 * 2 ^ 29)" using assms count_low by (fastforce simp: holds_def)
  also have "\<dots> = 8 * (length m mod 2 ^ 29)" by (rule mult_mod_right [symmetric])
  finally have "unat (buffer_index c) = length m mod 2 ^ 29 mod 64"
    by (simp only: buffer_index_def unat_mask6 unat_drop_bit) simp
  then show ?thesis by (simp add: mod_mod_cancel)
qed

lemma unat_push_3: "unat (push_bit 3 w :: u32) = 8 * unat w mod 2 ^ 32"
  by (simp add: push_bit_eq_mult unat_word_ariths mult.commute)

text \<open>Adding with a carry between two digits to the base \<open>B\<close>.\<close>

lemma carry_add:
  fixes B h l x :: nat
  assumes "0 < B"
  shows "(h + (l + x mod B) div B + x div B) mod B * B + (l + x mod B) mod B = (h * B + l + x) mod (B * B)"
proof -
  let ?q = "h + (l + x mod B) div B + x div B" and ?r = "(l + x mod B) mod B"
  have "?q * B + ?r = h * B + ((l + x mod B) div B * B + ?r) + x div B * B"
    by (simp add: algebra_simps)
  also have "\<dots> = h * B + l + (x div B * B + x mod B)" by simp
  also have "\<dots> = h * B + l + x" by simp
  finally have e: "h * B + l + x = B * ?q + ?r" by (simp add: mult.commute)
  have "(B * ?q + ?r) mod (B * B) = B * ((B * ?q + ?r) div B mod B) + (B * ?q + ?r) mod B"
    by (rule mod_mult2_eq)
  then show ?thesis unfolding e using assms by (simp add: mult.commute)
qed

lemma carry_digit:
  fixes B l x :: nat
  assumes "l < B" "x < B"
  shows "(l + x) div B = (if (l + x) mod B < x then 1 else 0)"
proof (cases "l + x < B")
  case False
  then show ?thesis using assms by (simp add: le_div_geq le_mod_geq)
qed simp

lemma add_count_holds:
  fixes n :: u32
  assumes "unat (ctx_count1 c) * 2 ^ 32 + unat (ctx_count0 c) = k mod 2 ^ 64"
  shows "unat (ctx_count1 (add_count c n)) * 2 ^ 32 + unat (ctx_count0 (add_count c n)) = (k + 8 * unat n) mod 2 ^ 64"
proof -
  let ?l = "unat (ctx_count0 c)" let ?h = "unat (ctx_count1 c)" let ?n = "unat n" let ?B = "2 ^ 32 :: nat"
  let ?x = "8 * ?n"
  have l: "?l < ?B" by (rule unat_of_u32)
  have sum: "unat (ctx_count0 c + push_bit 3 n) = (?l + ?x mod ?B) mod ?B"
    by (simp add: unat_word_ariths unat_push_3)
  then have c0: "unat (ctx_count0 (add_count c n)) = (?l + ?x mod ?B) mod ?B"
    by (simp add: add_count_def Let_def)
  have "(?l + ?x mod ?B) div ?B = (if (?l + ?x mod ?B) mod ?B < ?x mod ?B then 1 else 0)"
    by (rule carry_digit [OF l]) simp
  then have carry: "unat (if ctx_count0 c + push_bit 3 n < push_bit 3 n then 1 else 0 :: u32) =
      (?l + ?x mod ?B) div ?B"
    by (simp only: word_less_nat_alt sum unat_push_3 if_distrib [of unat] unat_1 unat_0)
  have "8 * ?n div (8 * 2 ^ 29) = ?n div 2 ^ 29" by (rule div_mult_mult1) simp
  then have top: "?n div 2 ^ 29 = ?x div ?B" by simp
  define e :: u32 where "e = (if ctx_count0 c + push_bit 3 n < push_bit 3 n then 1 else 0)"
  have "ctx_count1 (add_count c n) = ctx_count1 c + e + drop_bit 29 n"
    by (simp add: add_count_def Let_def e_def)
  then have "unat (ctx_count1 (add_count c n)) = (?h + unat e + ?n div 2 ^ 29) mod ?B"
    by (simp add: unat_word_ariths unat_drop_bit mod_simps)
  then have c1: "unat (ctx_count1 (add_count c n)) = (?h + (?l + ?x mod ?B) div ?B + ?x div ?B) mod ?B"
    by (simp only: e_def carry top)
  have "(k + ?x) mod 2 ^ 64 = (?h * ?B + ?l + ?x) mod (?B * ?B)"
    unfolding assms by (simp add: mod_simps)
  moreover have "0 < ?B" by simp
  ultimately show ?thesis unfolding c0 c1 by (simp only: carry_add)
qed


section \<open>The update\<close>

lemma copy_to_buffer_eq: "index + n \<le> length buffer \<Longrightarrow> i + n \<le> length input \<Longrightarrow>
  copy_to_buffer buffer index input i n =
    Some (take index buffer @ take n (drop i input) @ drop (index + n) buffer)"
  by (simp add: copy_to_buffer_def)

lemma copy_to_start: "q \<le> length b \<Longrightarrow> i + q \<le> length input \<Longrightarrow>
  copy_to_buffer b 0 input i q = Some (take q (drop i input) @ drop q b)"
  by (simp add: copy_to_buffer_def)

lemma no_wrap_63: "unat (i :: u32) \<le> unat (n :: u32) \<Longrightarrow> unat n \<le> 2 ^ 32 - 64 \<Longrightarrow> unat (i + 63) = unat i + 63"
  by (simp add: unat_word_ariths)

lemma no_wrap_64: "unat i + 64 \<le> unat (n :: u32) \<Longrightarrow> unat (i + 64 :: u32) = unat i + 64"
  using unat_of_u32 [of n] by (simp add: unat_word_ariths)

lemma md5_blocks_spec:
  fixes inputLen i :: u32
  assumes "unat inputLen \<le> length input" "unat inputLen \<le> 2 ^ 32 - 64" "unat i \<le> unat inputLen"
  shows "\<exists>i'. md5_blocks state input inputLen i =
      Some (foldl MD5Transform state (blocks64 (drop (unat i) (take (unat inputLen) input))), i') \<and>
    unat i' = unat i + whole (unat inputLen - unat i)"
  using assms(3)
proof (induction "unat inputLen - unat i" arbitrary: i state rule: less_induct)
  case less
  let ?n = "unat inputLen" let ?rest = "drop (unat i) (take ?n input)"
  have len: "length ?rest = ?n - unat i" using assms(1) by simp
  have test: "i + 63 < inputLen \<longleftrightarrow> unat i + 64 \<le> ?n"
    using no_wrap_63 [OF less.prems assms(2)] unfolding word_less_nat_alt by linarith
  show ?case
  proof (cases "unat i + 64 \<le> ?n")
    case True
    have i64: "unat (i + 64) = unat i + 64" using no_wrap_64 True by blast
    have "?n - unat (i + 64) < ?n - unat i" "unat (i + 64) \<le> ?n" using True i64 by simp_all
    from less.hyps [OF this, of "MD5Transform state (take 64 (drop (unat i) input))"]
    obtain i' where i': "md5_blocks (MD5Transform state (take 64 (drop (unat i) input))) input inputLen (i + 64) =
        Some (foldl MD5Transform (MD5Transform state (take 64 (drop (unat i) input)))
          (blocks64 (drop (unat i + 64) (take ?n input))), i')"
      "unat i' = unat i + 64 + whole (?n - (unat i + 64))" unfolding i64 by blast
    have w: "64 + whole (?n - (unat i + 64)) = whole (?n - unat i)"
      using True by (simp add: whole_def le_div_geq diff_diff_left)
    have "take 64 ?rest = take 64 (drop (unat i) input)" using True by (simp add: drop_take min_absorb1)
    then have "blocks64 ?rest = take 64 (drop (unat i) input) # blocks64 (drop (unat i + 64) (take ?n input))"
      using True len by (subst blocks64.simps) (simp add: add.commute)
    then show ?thesis using i' w True test assms(1)
      by (subst md5_blocks.simps) (auto simp: add.assoc)
  next
    case False
    then have "blocks64 ?rest = []" "whole (?n - unat i) = 0"
      using len by (simp_all add: blocks64.simps [of ?rest] whole_def)
    then show ?thesis using False test by (subst md5_blocks.simps) simp
  qed
qed

lemma mod_add_small: "a mod 64 + n < 64 \<Longrightarrow> (a + n) mod 64 = a mod 64 + n \<and> whole (a + n) = whole a"
  using mod_add_left_eq [of a 64 n] div_add1_eq [of a n 64] by (simp add: whole_def)

lemma index_after: "i = p + whole (n - p) \<Longrightarrow> p \<le> n \<Longrightarrow> i \<le> n \<and> n - i = (n - p) mod 64"
  using whole_bounds(1) [of "n - p"] whole_bounds(2) [of "n - p"] by linarith

lemma whole_mult: "whole (64 * q + j) = 64 * q + whole j"
  by (simp add: whole_def)

lemma whole_append:
  assumes "length m mod 64 + k = 64"
  shows "whole (length m + k) = length m + k" "whole (length m + k + j) = length m + k + whole j"
proof -
  have "length m = 64 * (length m div 64) + length m mod 64" by simp
  then have "length m + k = 64 * (length m div 64 + 1)" using assms by (simp only: distrib_left mult_1_right)
  then obtain q where q: "length m + k = 64 * q" by blast
  show "whole (length m + k) = length m + k" unfolding q by (simp add: whole_def)
  show "whole (length m + k + j) = length m + k + whole j" unfolding q by (rule whole_mult)
qed

lemma buffer_after: "q < 64 \<Longrightarrow> length b = 64 \<Longrightarrow> length r = q \<Longrightarrow>
    length (r @ drop q b) = 64 \<and> take q (r @ drop q b) = r"
  by simp

lemma holdsI:
  assumes "length m mod 64 = q" "drop (whole (length m)) m = r"
    and "st = foldl MD5Transform iv (blocks64 m)" "length b = 64" "take q b = r"
    and "unat (ctx_count1 c) * 2 ^ 32 + unat (ctx_count0 c) = 8 * length m mod 2 ^ 64"
  shows "holds iv m (c\<lparr>ctx_state := st, ctx_buffer := b\<rparr>)"
  using assms by (simp add: holds_def)

lemma MD5Update_holds:
  fixes n :: u32
  assumes c: "holds iv m c" and n: "unat n \<le> length input" "unat n \<le> 2 ^ 32 - 64"
  shows "\<exists>c'. MD5Update c input n = Some c' \<and> holds iv (m @ take (unat n) input) c'"
proof -
  let ?k = "length m mod 64" let ?n = "unat n" let ?p = "64 - length m mod 64" let ?c = "add_count c n"
  have c': "ctx_state c = foldl MD5Transform iv (blocks64 m)" "length (ctx_buffer c) = 64"
      "take ?k (ctx_buffer c) = drop (whole (length m)) m" using c by (simp_all add: holds_def)
  have k: "unat (buffer_index c) = ?k" by (rule index_holds [OF c])
  have k64: "?k < 64" by simp
  have p: "unat (64 - buffer_index c) = ?p" using k k64 by (subst unat_sub) (simp_all add: word_le_nat_alt)
  have same: "ctx_state ?c = ctx_state c" "ctx_buffer ?c = ctx_buffer c" by (simp_all add: add_count_def Let_def)
  have count: "unat (ctx_count1 ?c) * 2 ^ 32 + unat (ctx_count0 ?c) = 8 * length (m @ take ?n input) mod 2 ^ 64"
    using c n(1) add_count_holds [of c "8 * length m" n] by (simp add: holds_def algebra_simps)
  show ?thesis
  proof (cases "?p \<le> ?n")
    case False
    let ?b = "take ?k (ctx_buffer c) @ take ?n input @ drop (?k + ?n) (ctx_buffer c)"
    have "MD5Update c input n = Some (?c\<lparr>ctx_buffer := ?b\<rparr>)"
      using False c'(2) k64 n(1)
      by (simp add: MD5Update_def Let_def word_le_nat_alt p same k copy_to_buffer_eq del: take_append)
    moreover have "(length m + ?n) mod 64 = ?k + ?n" "whole (length m + ?n) = whole (length m)"
      using mod_add_small [of "length m" ?n] False by simp_all
    moreover have "blocks64 (m @ take ?n input) = blocks64 m"
      using calculation(3) blocks64_whole [of m] blocks64_whole [of "m @ take ?n input"] n(1) whole_bounds(1) [of "length m"]
      by simp
    moreover have "length ?b = 64" using c'(2) n(1) False by simp
    moreover have "take (?k + ?n) ?b = drop (whole (length m)) m @ take ?n input"
      using c'(2,3) n(1) k64 by (simp add: whole_bounds(2))
    moreover have "drop (whole (length m)) (m @ take ?n input) = drop (whole (length m)) m @ take ?n input"
      using whole_bounds(1) [of "length m"] by simp
    ultimately show ?thesis using c'(1) n(1) count
      by (intro exI [of _ "?c\<lparr>ctx_buffer := ?b\<rparr>"]) (simp add: holds_def same del: take_append drop_append)
  next
    case True
    let ?b = "take ?k (ctx_buffer c) @ take ?p input" let ?full = "m @ take ?p input"
    let ?tail = "drop ?p (take ?n input)"
    have full: "length ?full mod 64 = 0" "whole (length ?full) = length ?full" "length ?full = length m + ?p"
      using True n(1) k64 whole_append [of m ?p] whole_bounds(3) [of "length m + ?p"] by simp_all
    have whole_m: "m = take (whole (length m)) m @ take ?k (ctx_buffer c)" using c'(3) by simp
    have "blocks64 ?full = blocks64 (take (whole (length m)) m @ ?b)" by (subst whole_m) simp
    also have "\<dots> = blocks64 m @ [?b]"
      using blocks64_append [of "take (whole (length m)) m" ?b] blocks64_whole [of m] blocks64_single [of ?b]
        whole_bounds [of "length m"] c'(2) True n(1) k64 by simp
    finally have bl: "blocks64 ?full = blocks64 m @ [?b]" .
    have first: "copy_to_buffer (ctx_buffer c) ?k input 0 ?p = Some ?b"
      using c'(2) True n(1) k64 by (simp add: copy_to_buffer_eq)
    obtain i where i: "md5_blocks (MD5Transform (ctx_state c) ?b) input n (64 - buffer_index c) =
        Some (foldl MD5Transform (MD5Transform (ctx_state c) ?b) (blocks64 ?tail), i)"
      "unat i = ?p + whole (?n - ?p)"
      using md5_blocks_spec [OF n, of "64 - buffer_index c"] True unfolding p by blast
    have il: "unat i \<le> ?n" "?n - unat i = (?n - ?p) mod 64"
      using index_after [OF i(2) True] by simp_all
    then have ni: "unat (n - i) = (?n - ?p) mod 64" by (subst unat_sub) (simp_all add: word_le_nat_alt)
    let ?b2 = "take ((?n - ?p) mod 64) (drop (unat i) input) @ drop ((?n - ?p) mod 64) ?b"
    have len_b: "length ?b = 64" using c'(2) True n(1) k64 by simp
    have second: "copy_to_buffer ?b 0 input (unat i) (unat (n - i)) = Some ?b2"
    proof (unfold ni, rule copy_to_start)
      show "(?n - ?p) mod 64 \<le> length ?b" unfolding len_b by simp
      show "unat i + (?n - ?p) mod 64 \<le> length input"
        using ord_eq_le_trans [OF le_add_diff_inverse [OF il(1)] n(1)] unfolding il(2) .
    qed
    have eq: "m @ take ?n input = ?full @ ?tail" 
      using append_take_drop_id [of ?p "take ?n input"] unfolding take_take min.absorb1 [OF True]
      by (simp only: append.assoc)
    have upd: "MD5Update c input n = Some (?c\<lparr>ctx_state := foldl MD5Transform (MD5Transform (ctx_state c) ?b) (blocks64 ?tail),
        ctx_buffer := ?b2\<rparr>)"
      using True first i(1) second by (simp add: MD5Update_def Let_def word_le_nat_alt p same k)
    have fold_eq: "foldl MD5Transform (MD5Transform (ctx_state c) ?b) (blocks64 ?tail) =
        foldl MD5Transform iv (blocks64 (m @ take ?n input))"
      unfolding eq blocks64_append [OF full(1)] bl using c'(1) by simp
    have last12: "(length m + ?n) mod 64 = (?n - ?p) mod 64" "whole (length m + ?n) = length m + unat i"
    proof -
      have kp: "?k + ?p = 64" using k64 by simp
      have "whole (length m + ?n) = whole (length m + ?p + (?n - ?p))"
        using True by (simp only: add.assoc le_add_diff_inverse)
      also have "\<dots> = length m + ?p + whole (?n - ?p)" by (rule whole_append(2) [OF kp])
      also have "\<dots> = length m + unat i" by (simp only: i(2) add.assoc)
      finally show w: "whole (length m + ?n) = length m + unat i" .
      have "(length m + ?n) mod 64 = length m + ?n - (length m + unat i)"
        by (simp only: whole_bounds(2) [of "length m + ?n", symmetric] w)
      then show "(length m + ?n) mod 64 = (?n - ?p) mod 64" by (simp only: diff_cancel il(2))
    qed
    have last3: "take ((?n - ?p) mod 64) (drop (unat i) input) = drop (unat i) (take ?n input)"
      unfolding il(2) [symmetric] drop_take ..
    have state: "MD5Update c input n = Some (?c\<lparr>ctx_state := foldl MD5Transform iv
          (blocks64 (m @ take ?n input)), ctx_buffer := ?b2\<rparr>)"
      using upd unfolding fold_eq .
    note last = last12 last3
    define q where "q = (?n - ?p) mod 64"
    have "q < 64" "length ?b = 64" using c'(2) True n(1) k64 by (simp_all add: q_def)
    moreover have "length (drop (unat i) (take ?n input)) = q" using il n(1) by (simp add: q_def)
    ultimately have buf: "length ?b2 = 64" "take q ?b2 = drop (unat i) (take ?n input)"
      unfolding last(3) unfolding q_def [symmetric] using buffer_after by blast+
    have "drop (whole (length (m @ take ?n input))) (m @ take ?n input) = drop (unat i) (take ?n input)"
      using n(1) last(2) by (simp add: min_absorb2)
    moreover have "length (m @ take ?n input) mod 64 = q" using n(1) last(1) by (simp add: min_absorb2 q_def)
    ultimately have "holds iv (m @ take ?n input) (?c\<lparr>ctx_state := foldl MD5Transform iv
          (blocks64 (m @ take ?n input)), ctx_buffer := ?b2\<rparr>)"
      using holdsI [OF _ _ refl buf count] by blast
    then show ?thesis using state by blast
  qed
qed


section \<open>The final block\<close>

lemma length_Encode: "length (Encode ws) = 4 * length ws"
  by (induction ws) (simp_all add: Encode_def)

lemma length_field_holds:
  assumes "holds iv m c"
  shows "Encode [ctx_count0 c, ctx_count1 c] = length_field (length m)"
proof -
  let ?w = "of_nat (8 * length m) :: u64"
  have c: "unat (ctx_count1 c) * 2 ^ 32 + unat (ctx_count0 c) = unat ?w"
    unfolding unat_of_nat using assms by (simp add: holds_def)
  have "unat (ucast ?w :: u32) = unat ?w mod 2 ^ 32" by (simp add: unsigned_ucast_eq take_bit_eq_mod)
  also have "\<dots> = unat (ctx_count0 c)" unfolding c [symmetric] using unat_of_u32 [of "ctx_count0 c"] by simp
  finally have low: "ucast ?w = ctx_count0 c" by (rule unsigned_word_eqI)
  have "unat (ucast (drop_bit 32 ?w) :: u32) = unat ?w div 2 ^ 32 mod 2 ^ 32"
    by (simp only: unsigned_ucast_eq take_bit_eq_mod unat_drop_bit) simp
  also have "\<dots> = unat (ctx_count1 c)"
    unfolding c [symmetric] using unat_of_u32 [of "ctx_count0 c"] unat_of_u32 [of "ctx_count1 c"] by simp
  finally have "ucast (drop_bit 32 ?w) = ctx_count1 c" by (rule unsigned_word_eqI)
  then show ?thesis using low by (simp only: length_field_def Let_def)
qed

lemma take_PADDING: "n \<le> 63 \<Longrightarrow> take (Suc n) PADDING = 0x80 # replicate n 0"
  by (simp add: PADDING_def min_absorb1)

lemma padLen_unat:
  assumes "unat (index :: u32) < 64"
  shows "unat (if index < 56 then 56 - index else 120 - index) = Suc ((119 - unat index) mod 64)"
proof (cases "unat index < 56")
  case True
  then have "unat (56 - index) = 56 - unat index" by (subst unat_sub) (simp_all add: word_le_nat_alt)
  moreover have "Suc ((119 - unat index) mod 64) = 56 - unat index"
    using True le_mod_geq [of 64 "119 - unat index"] by simp
  ultimately show ?thesis using True by (simp add: word_less_nat_alt)
next
  case False
  then have "unat (120 - index) = 120 - unat index" using assms by (subst unat_sub) (simp_all add: word_le_nat_alt)
  moreover have "(119 - unat index) mod 64 = 119 - unat index" by (rule mod_less) (use False in arith)
  then have "Suc ((119 - unat index) mod 64) = 120 - unat index" using assms by simp
  ultimately show ?thesis using False by (simp add: word_less_nat_alt)
qed

lemma MD5Final_holds:
  assumes "holds initial_state m c"
  shows "MD5Final c = Some (md5_reference m, zero_ctx)"
proof -
  let ?i = "buffer_index c" let ?p = "if ?i < 56 then 56 - ?i else 120 - ?i" let ?z = "(119 - length m mod 64) mod 64"
  have i: "unat ?i = length m mod 64" by (rule index_holds [OF assms])
  then have p: "unat ?p = Suc ?z" using padLen_unat [of ?i] by simp
  have pad: "take (unat ?p) PADDING = 0x80 # replicate ?z 0" unfolding p by (rule take_PADDING) simp
  have "?z \<le> 63" by simp
  then have "unat ?p \<le> length PADDING" "unat ?p \<le> 2 ^ 32 - 64" unfolding p by (simp_all add: PADDING_def)
  from MD5Update_holds [OF assms this] obtain c1
    where c1: "MD5Update c PADDING ?p = Some c1" "holds initial_state (m @ 0x80 # replicate ?z 0) c1" unfolding pad by blast
  have "length (length_field (length m)) = 8" by (simp add: length_field_def Let_def length_Encode)
  then obtain c2 where c2: "MD5Update c1 (length_field (length m)) 8 = Some c2"
      "holds initial_state ((m @ 0x80 # replicate ?z 0) @ length_field (length m)) c2"
    using MD5Update_holds [OF c1(2), of 8 "length_field (length m)"] by auto
  then have "ctx_state c2 = foldl MD5Transform initial_state (blocks64 (pad_message m))"
    by (simp add: holds_def pad_message_def)
  then show ?thesis using c1(1) c2(1) length_field_holds [OF assms]
    by (simp add: MD5Final_def Let_def md5_reference_def)
qed

section \<open>The object\<close>

text \<open>The calls that add data: \<open>update\<close> and writes to the stream.\<close>

datatype md5_call = Update bytes | Write bytes | PutChar u32

fun call_bytes :: "md5_call \<Rightarrow> bytes" where
  "call_bytes (Update s) = s"
| "call_bytes (Write s) = s"
| "call_bytes (PutChar c) = [ucast c]"

fun do_call :: "md5_call \<Rightarrow> MD5_object \<Rightarrow> md5_error + MD5_object" where
  "do_call (Update s) md5 = md5_update md5 s"
| "do_call (Write s) md5 = stream_xsputn md5 s"
| "do_call (PutChar c) md5 = stream_overflow md5 c"

fun md5_calls :: "md5_call list \<Rightarrow> MD5_object \<Rightarrow> md5_error + MD5_object" where
  "md5_calls [] md5 = Inr md5"
| "md5_calls (x # xs) md5 = rbind (do_call x md5) (md5_calls xs)"

text \<open>An object that is not finished and holds a message.\<close>

definition collects :: "bytes \<Rightarrow> MD5_object \<Rightarrow> bool" where
  "collects m md5 \<longleftrightarrow> \<not> m_finished md5 \<and> holds initial_state m (m_ctx md5)"

lemma fresh_collects: "length (ctx_buffer (m_ctx md5)) = 64 \<Longrightarrow>
  collects [] (md5\<lparr>m_finished := False, m_ctx := MD5Init (m_ctx md5)\<rparr>)"
  by (simp add: collects_def holds_def MD5Init_def initial_state_def blocks64.simps whole_def)

lemma new_collects: "collects [] (new_MD5 junk)"
  by (simp add: collects_def holds_def MD5Init_def initial_state_def blocks64.simps whole_def new_MD5_def zero_ctx_def)

lemma unat_length: "length s < 2 ^ 32 \<Longrightarrow> unat (of_nat (length s) :: u32) = length s"
  by (simp add: unat_of_nat)

lemma call_collects:
  assumes m: "collects m md5" and l: "length (call_bytes c) \<le> 2 ^ 32 - 64"
  shows "\<exists>md5'. do_call c md5 = Inr md5' \<and> collects (m @ call_bytes c) md5'"
proof -
  have h: "holds initial_state m (m_ctx md5)" "\<not> m_finished md5" using m by (simp_all add: collects_def)
  have u: "unat (of_nat (length (call_bytes c)) :: u32) = length (call_bytes c)"
    by (rule unat_length) (use l in simp)
  obtain ctx where "MD5Update (m_ctx md5) (call_bytes c) (of_nat (length (call_bytes c))) = Some ctx"
      "holds initial_state (m @ call_bytes c) ctx"
    using MD5Update_holds [OF h(1), of "of_nat (length (call_bytes c))" "call_bytes c"] u l by auto
  then show ?thesis using h(2)
    by (cases c) (simp_all add: md5_update_def stream_xsputn_def stream_overflow_def collects_def)
qed

lemma calls_collect:
  assumes "collects m md5" "\<forall>c \<in> set cs. length (call_bytes c) \<le> 2 ^ 32 - 64"
  shows "\<exists>md5'. md5_calls cs md5 = Inr md5' \<and> collects (m @ concat (map call_bytes cs)) md5'"
  using assms
proof (induction cs arbitrary: m md5)
  case (Cons c cs)
  from call_collects [OF Cons.prems(1), of c] Cons.prems(2)
  obtain md5' where c: "do_call c md5 = Inr md5'" "collects (m @ call_bytes c) md5'" by auto
  show ?case using Cons.IH [OF c(2)] Cons.prems(2) c(1) by simp
qed simp

lemma toString_collects:
  assumes "collects m md5"
  shows "\<exists>md5'. md5_toString md5 = Inr (convertBinToHex (md5_reference m), md5') \<and>
    m_finished md5' \<and> m_digest md5' = md5_reference m \<and> m_ctx md5' = zero_ctx"
  using assms MD5Final_holds [of m "m_ctx md5"] by (simp add: collects_def md5_toString_def getDigest_def)

section \<open>What the digest is\<close>

text \<open>
  C12. However a message is handed over, as the argument of init() and then in any mixture of
  update() calls, stream writes and single characters, toString() is the hexadecimal form of
  the reference digest of all the bytes in order, and it is the same when called again: the
  buffer of 64 bytes, the bit counter in two words and the padding in up to two blocks do what
  RFC 1321 says, for pieces of at most 2^32 - 64 bytes.
\<close>

theorem digest_of_pieces:
  assumes "length (ctx_buffer (m_ctx md5)) = 64" "length first \<le> 2 ^ 32 - 64"
    and "\<forall>c \<in> set cs. length (call_bytes c) \<le> 2 ^ 32 - 64"
  shows "\<exists>md5' hex. rbind (rbind (md5_init md5 first) (md5_calls cs)) md5_toString = Inr (hex, md5') \<and>
    hex = convertBinToHex (md5_reference (first @ concat (map call_bytes cs))) \<and>
    md5_toString md5' = Inr (hex, md5')"
proof -
  obtain md1 where 1: "md5_init md5 first = Inr md1" "collects first md1"
    using call_collects [OF fresh_collects [OF assms(1)], of "Update first"] assms(2)
    by (auto simp: md5_init_def)
  obtain md2 where 2: "md5_calls cs md1 = Inr md2" "collects (first @ concat (map call_bytes cs)) md2"
    using calls_collect [OF 1(2) assms(3)] by blast
  obtain md3 where 3: "md5_toString md2 = Inr (convertBinToHex (md5_reference (first @ concat (map call_bytes cs))), md3)"
      "m_finished md3" "m_digest md3 = md5_reference (first @ concat (map call_bytes cs))"
    using toString_collects [OF 2(2)] by blast
  have "md5_toString md3 = Inr (convertBinToHex (m_digest md3), md3)"
    using 3(2) by (simp add: md5_toString_def getDigest_def)
  then show ?thesis using 1(1) 2(1) 3 by simp
qed

theorem digest_of_pieces_witness:
  "\<exists>md5' hex. rbind (rbind (md5_init (new_MD5 []) [0x61]) (md5_calls [Update [0x62], PutChar 0x63])) md5_toString = Inr (hex, md5') \<and>
    hex = [0x39,0x30,0x30,0x31,0x35,0x30,0x39,0x38,0x33,0x63,0x64,0x32,0x34,0x66,0x62,0x30,
      0x64,0x36,0x39,0x36,0x33,0x66,0x37,0x64,0x32,0x38,0x65,0x31,0x37,0x66,0x37,0x32] \<and>
    md5_toString md5' = Inr (hex, md5')"
proof -
  have "convertBinToHex (md5_reference [0x61, 0x62, 0x63]) =
     [0x39,0x30,0x30,0x31,0x35,0x30,0x39,0x38,0x33,0x63,0x64,0x32,0x34,0x66,0x62,0x30,
      0x64,0x36,0x39,0x36,0x33,0x66,0x37,0x64,0x32,0x38,0x65,0x31,0x37,0x66,0x37,0x32]"
    by code_simp
  moreover have "length (ctx_buffer (m_ctx (new_MD5 []))) = 64" by (simp add: new_MD5_def zero_ctx_def MD5Init_def)
  ultimately show ?thesis using digest_of_pieces [of "new_MD5 []" "[0x61]" "[Update [0x62], PutChar 0x63]"] by simp
qed


section \<open>What it is not\<close>

lemma stream_write_holds:
  assumes "holds iv m (m_ctx md5)" "length (call_bytes c) \<le> 2 ^ 32 - 64" "\<forall>s. c \<noteq> Update s"
  shows "\<exists>ctx. do_call c md5 = Inr (md5\<lparr>m_ctx := ctx\<rparr>) \<and> holds iv (m @ call_bytes c) ctx"
proof -
  have u: "unat (of_nat (length (call_bytes c)) :: u32) = length (call_bytes c)"
    by (rule unat_length) (use assms(2) in simp)
  obtain ctx where "MD5Update (m_ctx md5) (call_bytes c) (of_nat (length (call_bytes c))) = Some ctx"
      "holds iv (m @ call_bytes c) ctx"
    using MD5Update_holds [OF assms(1), of "of_nat (length (call_bytes c))" "call_bytes c"] u assms(2) by auto
  then show ?thesis using assms(3)
    by (intro exI [of _ ctx]) (cases c, simp_all add: stream_xsputn_def stream_overflow_def)
qed

lemma stream_writes_hold:
  assumes "holds iv m (m_ctx md5)" "\<forall>c \<in> set cs. length (call_bytes c) \<le> 2 ^ 32 - 64 \<and> (\<forall>s. c \<noteq> Update s)"
  shows "\<exists>ctx. md5_calls cs md5 = Inr (md5\<lparr>m_ctx := ctx\<rparr>)"
  using assms
proof (induction cs arbitrary: m md5)
  case Nil
  show ?case by (intro exI [of _ "m_ctx md5"]) simp
next
  case (Cons c cs)
  from stream_write_holds [OF Cons.prems(1), of c] Cons.prems(2)
  obtain ctx where c: "do_call c md5 = Inr (md5\<lparr>m_ctx := ctx\<rparr>)" "holds iv (m @ call_bytes c) ctx" by auto
  have "holds iv (m @ call_bytes c) (m_ctx (md5\<lparr>m_ctx := ctx\<rparr>))" using c(2) by simp
  from Cons.IH [OF this] Cons.prems(2) c(1) show ?case by auto
qed

text \<open>
  After toString() an update() throws, but what is written to the object as a stream is
  accepted without an error and lost: any sequence of stream writes and characters succeeds
  and the digest stays the one already computed.
\<close>

theorem stream_writes_after_digest_are_lost:
  assumes "collects m md5" "md5_toString md5 = Inr (hex, md5')"
    and "\<forall>c \<in> set cs. length (call_bytes c) \<le> 2 ^ 32 - 64 \<and> (\<forall>s. c \<noteq> Update s)"
  shows "md5_update md5' s = Inl MD5Exception \<and>
    (\<exists>md5''. md5_calls cs md5' = Inr md5'' \<and> md5_toString md5'' = Inr (hex, md5''))"
proof -
  have f: "m_finished md5'" "hex = convertBinToHex (m_digest md5')" "m_ctx md5' = zero_ctx"
    using toString_collects [OF assms(1)] assms(2) by auto
  have "holds (replicate 4 0) [] (m_ctx md5')"
    unfolding f(3) by (simp add: holds_def zero_ctx_def blocks64.simps whole_def)
  from stream_writes_hold [OF this assms(3)] obtain ctx where "md5_calls cs md5' = Inr (md5'\<lparr>m_ctx := ctx\<rparr>)" by blast
  then show ?thesis using f(1,2) by (simp add: md5_update_def md5_toString_def getDigest_def)
qed

theorem stream_writes_after_digest_are_lost_witness:
  "\<exists>hex md5'. md5_toString (new_MD5 []) = Inr (hex, md5') \<and> md5_update md5' [0x61] = Inl MD5Exception \<and>
    (\<exists>md5''. md5_calls [Write [0x61, 0x62], PutChar 0x63] md5' = Inr md5'' \<and> md5_toString md5'' = Inr (hex, md5''))"
proof -
  obtain hex md5' where h: "md5_toString (new_MD5 []) = Inr (hex, md5')" using toString_collects [OF new_collects] by blast
  from stream_writes_after_digest_are_lost [OF new_collects h, of "[Write [0x61, 0x62], PutChar 0x63]" "[0x61]"] h
  show ?thesis by auto
qed

text \<open>
  The length is cut to 32 bits: an MD5 object made from a string of 4 GiB or more digests
  only its first (length mod 2^32) bytes, so that strings that agree there have the same
  digest.
\<close>

theorem long_input_is_cut:
  assumes "length s mod 2 ^ 32 \<le> 2 ^ 32 - 64"
  shows "\<exists>md5'. rbind (new_MD5_of junk s) md5_toString =
    Inr (convertBinToHex (md5_reference (take (length s mod 2 ^ 32) s)), md5')"
proof -
  have u: "unat (of_nat (length s) :: u32) = length s mod 2 ^ 32" by (simp add: unat_of_nat)
  have h: "holds initial_state [] (m_ctx (new_MD5 junk))" "\<not> m_finished (new_MD5 junk)"
    using new_collects [of junk] by (simp_all add: collects_def)
  obtain ctx where c: "MD5Update (m_ctx (new_MD5 junk)) s (of_nat (length s)) = Some ctx"
      "holds initial_state (take (length s mod 2 ^ 32) s) ctx"
    using MD5Update_holds [OF h(1), of "of_nat (length s)" s] unfolding u using assms
    by (auto simp del: power_numeral)
  then have "collects (take (length s mod 2 ^ 32) s) ((new_MD5 junk)\<lparr>m_ctx := ctx\<rparr>)"
    using h(2) by (simp add: collects_def del: power_numeral)
  from toString_collects [OF this] show ?thesis
    using c(1) h(2) by (auto simp: new_MD5_of_def md5_update_def simp del: power_numeral)
qed

theorem long_input_is_cut_witness:
  "\<exists>md5'. rbind (new_MD5_of [] (replicate (2 ^ 32 + 1) 0x61)) md5_toString =
    Inr (convertBinToHex (md5_reference [0x61]), md5')"
proof -
  let ?s = "replicate (2 ^ 32 + 1) 0x61 :: bytes"
  have "length ?s mod 2 ^ 32 = 1" unfolding length_replicate by simp
  moreover have "take 1 ?s = [0x61]" by (simp only: take_replicate) simp
  moreover have "(1 :: nat) \<le> 2 ^ 32 - 64" by simp
  ultimately show ?thesis using long_input_is_cut [of ?s "[]"] by (simp del: power_numeral)
qed

text \<open>The loop over the blocks when the input ends less than 64 bytes below \<open>2 ^ 32\<close> and the
  blocks do not start at a multiple of 64: \<open>i + 63\<close> wraps and the loop goes on.\<close>

lemma md5_blocks_runs_over:
  fixes inputLen i :: u32
  assumes "0 < k" "k < 64" "2 ^ 32 - k \<le> unat inputLen" "unat inputLen = length input"
    and "unat i + 64 * j = 2 ^ 32 - k"
  shows "md5_blocks state input inputLen i = None"
  using assms(5)
proof (induction j arbitrary: i state)
  case 0
  have "unat (i + 63) = (2 ^ 32 - k + 63) mod 2 ^ 32" using 0 by (simp add: unat_word_ariths)
  also have "2 ^ 32 - k + 63 = 2 ^ 32 + (63 - k)" using assms(1,2) by simp
  also have "\<dots> mod 2 ^ 32 = 63 - k" by simp
  finally have "unat (i + 63) = 63 - k" .
  then have "i + 63 < inputLen" using assms(2,3) by (simp add: word_less_nat_alt)
  moreover have "\<not> unat i + 64 \<le> length input" using 0 assms(2,4) unat_of_u32 [of inputLen] by simp
  ultimately show ?case by (subst md5_blocks.simps) simp
next
  case (Suc j)
  have b: "unat i + 64 \<le> 2 ^ 32 - k" using Suc.prems by simp
  have "unat (i + 63) = unat i + 63" "unat (i + 64) = unat i + 64"
    using b assms(1) by (simp_all add: unat_word_ariths)
  moreover from this have "i + 63 < inputLen" using b assms(3) by (simp add: word_less_nat_alt)
  moreover have "unat i + 64 \<le> length input" using b assms(3,4) by simp
  moreover have "unat (i + 64) + 64 * j = 2 ^ 32 - k" using Suc.prems calculation(2) by simp
  ultimately show ?case using Suc.IH by (subst md5_blocks.simps) simp
qed

text \<open>
  An update whose length is within 64 bytes of 2^32, after a number of bytes that leaves
  more than the gap in the buffer, is not processed: the counter i + 63 of the block loop
  wraps around, the loop condition stays true and the loop reads past the end of the input.
\<close>

theorem huge_update_is_undefined:
  assumes "collects m md5" "length m mod 64 \<noteq> 0" "2 ^ 32 - length m mod 64 \<le> length s" "length s < 2 ^ 32"
  shows "md5_update md5 s = Inl MD5Undefined"
proof -
  let ?c = "m_ctx md5" let ?n = "of_nat (length s) :: u32" let ?k = "length m mod 64"
  have k: "unat (buffer_index ?c) = ?k" using assms(1) index_holds by (auto simp: collects_def)
  have k64: "?k < 64" by simp
  have p: "unat (64 - buffer_index ?c) = 64 - ?k" using k k64 by (subst unat_sub) (simp_all add: word_le_nat_alt)
  have n: "unat ?n = length s" by (rule unat_length [OF assms(4)])
  have gap: "64 - ?k + 64 * (2 ^ 26 - 1) = 2 ^ 32 - ?k" using k64 by simp
  have "md5_blocks st s ?n (64 - buffer_index ?c) = None" for st
    by (rule md5_blocks_runs_over [of ?k _ _ _ "2 ^ 26 - 1"]) (use assms(2,3) k64 n p gap in simp_all)
  moreover have "64 - ?k \<le> length s"
    by (rule order_trans [OF _ assms(3)]) simp
  ultimately have "MD5Update ?c s ?n = None"
    using n p by (simp add: MD5Update_def Let_def word_le_nat_alt bind_eq_None_conv)
  then show ?thesis using assms(1) by (simp add: md5_update_def collects_def)
qed

theorem huge_update_is_undefined_witness:
  "\<exists>md5. new_MD5_of [] [0x61] = Inr md5 \<and> md5_update md5 (replicate (2 ^ 32 - 1) 0) = Inl MD5Undefined"
proof -
  obtain md5 where m: "new_MD5_of [] [0x61] = Inr md5" "collects [0x61] md5"
    using call_collects [OF new_collects, of "Update [0x61]"] by (auto simp: new_MD5_of_def)
  let ?s = "replicate (2 ^ 32 - 1) 0 :: bytes"
  have "length ?s = 2 ^ 32 - 1" by (rule length_replicate)
  then have "2 ^ 32 - length [0x61 :: u8] mod 64 \<le> length ?s" "length ?s < 2 ^ 32" by simp_all
  from huge_update_is_undefined [OF m(2) _ this] m(1) show ?thesis by simp
qed

end
