(* ===== verification/TmUtils.thy ===== *)
theory TmUtils
  imports Prelude "HOL-Library.Signed_Division"
begin

text \<open>
  Broken-down times: the division of \<open>DivRem.hpp\<close>, and \<open>normTm\<close> and \<open>timeGm\<close> of
  \<open>TmUtils.cpp\<close>. The fields are C integers, as integers here: the functions require that the
  normalisation does not overflow.
\<close>

section \<open>Division\<close>

text \<open>\<open>/\<close> and \<open>%\<close> of C are \<open>sdiv\<close> and \<open>smod\<close>: they round towards zero.\<close>

definition DivRounds_down :: bool where "DivRounds_down \<longleftrightarrow> (-4 :: int) sdiv 3 = -2"
definition DivRounds_tozero :: bool where "DivRounds_tozero \<longleftrightarrow> (-4 :: int) sdiv 3 = -1"

definition divTrunc :: "int \<Rightarrow> int \<Rightarrow> int" where
  "divTrunc x y = (if DivRounds_tozero \<or> 0 \<le> x then x sdiv y else - ((- x) sdiv y))"

definition remTrunc :: "int \<Rightarrow> int \<Rightarrow> int" where
  "remTrunc x y = (if DivRounds_tozero \<or> 0 \<le> x then x smod y else - ((- x) smod y))"

definition divFloor :: "int \<Rightarrow> int \<Rightarrow> int" where
  "divFloor x y = (if DivRounds_down \<or> 0 \<le> x then x sdiv y else (x + 1) sdiv y - 1)"

definition remFloor :: "int \<Rightarrow> int \<Rightarrow> int" where
  "remFloor x y = (if DivRounds_down \<or> 0 \<le> x then x smod y else (x + 1) smod y + y - 1)"

lemma sdiv_pos: "0 \<le> x \<Longrightarrow> 0 < y \<Longrightarrow> (x :: int) sdiv y = x div y"
  by (simp add: signed_divide_int_def sgn_if)

lemma sdiv_neg: "x < 0 \<Longrightarrow> 0 < y \<Longrightarrow> (x :: int) sdiv y = - ((- x) div y)"
  by (simp add: signed_divide_int_def)

lemma sdiv_upto0: "x \<le> 0 \<Longrightarrow> 0 < y \<Longrightarrow> (x :: int) sdiv y = - ((- x) div y)"
  by (cases "x = 0") (simp_all add: sdiv_neg signed_divide_int_def)

lemma smod_pos: "0 \<le> x \<Longrightarrow> 0 < y \<Longrightarrow> (x :: int) smod y = x mod y"
  by (simp add: signed_modulo_int_def sgn_if)

lemma smod_upto0: "x \<le> 0 \<Longrightarrow> 0 < y \<Longrightarrow> (x :: int) smod y = - ((- x) mod y)"
  by (cases "x = 0") (simp_all add: signed_modulo_int_def)

lemma neg_div_mod:
  assumes "0 < (y :: int)"
  shows "x div y = - ((- (x + 1)) div y) - 1" "x mod y = - ((- (x + 1)) mod y) + y - 1"
proof -
  let ?q = "(- (x + 1)) div y" and ?r = "(- (x + 1)) mod y"
  have r: "0 \<le> ?r" "?r < y" using assms by simp_all
  have "- (x + 1) = y * ?q + ?r" by simp
  then have x: "x = y * (- ?q - 1) + (y - 1 - ?r)" by (simp add: algebra_simps)
  show "x div y = - ?q - 1" by (rule int_div_pos_eq [OF x]) (use r in simp_all)
  show "x mod y = - ?r + y - 1" using int_mod_pos_eq [OF x] r by simp
qed

lemma divFloor_div: "0 < y \<Longrightarrow> divFloor x y = x div y"
  using neg_div_mod(1) [of y x]
  by (cases "0 \<le> x") (simp_all add: divFloor_def DivRounds_down_def sdiv_pos sdiv_upto0)

lemma remFloor_mod: "0 < y \<Longrightarrow> remFloor x y = x mod y"
  using neg_div_mod(2) [of y x]
  by (cases "0 \<le> x") (simp_all add: remFloor_def DivRounds_down_def smod_pos smod_upto0)

section \<open>Broken-down time\<close>

text \<open>\<open>struct tm\<close>: the month counts from 0, the year from 1900.\<close>

record tm =
  tm_sec :: int
  tm_min :: int
  tm_hour :: int
  tm_mday :: int
  tm_mon :: int
  tm_year :: int
  tm_wday :: int
  tm_isdst :: int

definition epochYear :: int where "epochYear = 1970"
definition tmYearBase :: int where "tmYearBase = 1900"

definition daysInMonthArr :: "int list" where
  "daysInMonthArr = [31, 28, 31, 30, 31, 30, 31, 31, 30, 31, 30, 31]"

text \<open>The calendar.\<close>

definition leap :: "int \<Rightarrow> bool" where
  "leap y \<longleftrightarrow> y mod 4 = 0 \<and> (y mod 100 \<noteq> 0 \<or> y mod 400 = 0)"

definition year_length :: "int \<Rightarrow> int" where "year_length y = (if leap y then 366 else 365)"

definition month_length :: "int \<Rightarrow> nat \<Rightarrow> int" where
  "month_length y m = daysInMonthArr ! m + (if m = 1 \<and> leap y then 1 else 0)"

definition daysToMonthStartArr :: "(int \<times> int) list" where
  "daysToMonthStartArr = [(0, 0), (31, 31), (59, 60), (90, 91), (120, 121), (151, 152), (181, 182),
     (212, 213), (243, 244), (273, 274), (304, 305), (334, 335)]"

definition tm_full_year :: "tm \<Rightarrow> int" where "tm_full_year tm = tm_year tm + tmYearBase"

definition isLeapYear :: "tm \<Rightarrow> bool" where
  "isLeapYear tm = (let y = tm_full_year tm in
     remFloor y 4 = 0 \<and> (remFloor y 100 \<noteq> 0 \<or> remFloor y 400 = 0))"

definition daysToMonthStart :: "tm \<Rightarrow> int" where
  "daysToMonthStart tm = (let p = daysToMonthStartArr ! nat (tm_mon tm) in if isLeapYear tm then snd p else fst p)"

definition leapDaysFromEpochToYear :: "int \<Rightarrow> int" where
  "leapDaysFromEpochToYear year =
     (let year1 = year - 1; ep1 = epochYear - 1;
          leapDaysBeforeEpoch = ep1 sdiv 4 - ep1 sdiv 100 + ep1 sdiv 400;
          leapDaysBeforeYear = year1 sdiv 4 - year1 sdiv 100 + year1 sdiv 400 in
      leapDaysBeforeYear - leapDaysBeforeEpoch)"

definition daysInMonth :: "tm \<Rightarrow> int" where
  "daysInMonth tm = daysInMonthArr ! nat (tm_mon tm) + (if tm_mon tm = 1 \<and> isLeapYear tm then 1 else 0)"

definition normMonth :: "tm \<Rightarrow> tm" where
  "normMonth tm = tm\<lparr>tm_mon := remFloor (tm_mon tm) 12, tm_year := tm_year tm + divFloor (tm_mon tm) 12\<rparr>"

definition month_ok :: "tm \<Rightarrow> bool" where
  "month_ok tm \<longleftrightarrow> 0 \<le> tm_mon tm \<and> tm_mon tm < 12"

lemma table_index:
  assumes "month_ok tm"
  shows "nat (tm_mon tm) < 12"
  using assms by (simp add: month_ok_def nat_less_iff)

lemma less_12_cases: "n < (12 :: nat) \<Longrightarrow>
  n = 0 \<or> n = 1 \<or> n = 2 \<or> n = 3 \<or> n = 4 \<or> n = 5 \<or> n = 6 \<or> n = 7 \<or> n = 8 \<or> n = 9 \<or> n = 10 \<or> n = 11"
  by arith

lemma isLeapYear_leap: "isLeapYear tm \<longleftrightarrow> leap (tm_full_year tm)"
  by (simp add: isLeapYear_def leap_def Let_def remFloor_mod)

lemma daysInMonth_calendar: "daysInMonth tm = month_length (tm_full_year tm) (nat (tm_mon tm))"
  by (simp add: daysInMonth_def month_length_def isLeapYear_leap nat_eq_iff)

lemma month_length_range: "m < 12 \<Longrightarrow> 28 \<le> month_length y m \<and> month_length y m \<le> 31"
  by (drule less_12_cases, elim disjE) (simp_all add: month_length_def daysInMonthArr_def)

lemma daysInMonth_range: "month_ok tm \<Longrightarrow> 28 \<le> daysInMonth tm \<and> daysInMonth tm \<le> 31"
  unfolding daysInMonth_calendar by (rule month_length_range [OF table_index])

lemma normMonth_ok: "month_ok (normMonth tm)"
  by (simp add: normMonth_def month_ok_def remFloor_mod)

text \<open>The two loops of \<open>normTm\<close>. The month is normal whenever the table is read.\<close>

function normTm_down :: "tm \<Rightarrow> tm" where
  "normTm_down tm =
     (if month_ok tm \<and> tm_mday tm > daysInMonth tm
      then normTm_down (normMonth (tm\<lparr>tm_mday := tm_mday tm - daysInMonth tm, tm_mon := tm_mon tm + 1\<rparr>))
      else tm)"
  by pat_completeness auto
termination
proof (relation "measure (\<lambda>tm. nat (tm_mday tm))")
  fix tm :: tm
  assume "month_ok tm \<and> tm_mday tm > daysInMonth tm"
  then show "(normMonth (tm\<lparr>tm_mday := tm_mday tm - daysInMonth tm, tm_mon := tm_mon tm + 1\<rparr>), tm)
      \<in> measure (\<lambda>tm. nat (tm_mday tm))"
    using daysInMonth_range [of tm] by (simp add: normMonth_def)
qed simp

declare normTm_down.simps [simp del]

function normTm_up :: "tm \<Rightarrow> tm" where
  "normTm_up tm =
     (if tm_mday tm < 1
      then let tm' = normMonth (tm\<lparr>tm_mon := tm_mon tm - 1\<rparr>) in
        normTm_up (tm'\<lparr>tm_mday := tm_mday tm' + daysInMonth tm'\<rparr>)
      else tm)"
  by pat_completeness auto
termination
proof (relation "measure (\<lambda>tm. nat (1 - tm_mday tm))")
  fix tm x :: tm
  assume "tm_mday tm < 1" "x = normMonth (tm\<lparr>tm_mon := tm_mon tm - 1\<rparr>)"
  then show "(x\<lparr>tm_mday := tm_mday x + daysInMonth x\<rparr>, tm) \<in> measure (\<lambda>tm. nat (1 - tm_mday tm))"
    using daysInMonth_range [OF normMonth_ok, of "tm\<lparr>tm_mon := tm_mon tm - 1\<rparr>"] by (simp add: normMonth_def)
qed simp

declare normTm_up.simps [simp del]

definition norm_clock :: "tm \<Rightarrow> tm" where
  "norm_clock tm =
     (let minute = tm_min tm + divFloor (tm_sec tm) 60;
          hour = tm_hour tm + divFloor minute 60 in
      tm\<lparr>tm_sec := remFloor (tm_sec tm) 60, tm_min := remFloor minute 60, tm_hour := remFloor hour 24,
         tm_mday := tm_mday tm + divFloor hour 24\<rparr>)"

definition normTm :: "tm \<Rightarrow> tm" where
  "normTm tm = normTm_up (normTm_down (normMonth (norm_clock tm)))"

section \<open>Seconds since the epoch\<close>

text \<open>What \<open>configure\<close> finds out about the platform.\<close>

record time_limits =
  MINIMUM_YEAR :: int
  MAXIMUM_YEAR :: int
  MINIMUM_TIME :: int
  MAXIMUM_TIME :: int

datatype date_error = DateTimeException | DateConversionException

definition timeGm :: "'a time_limits_scheme \<Rightarrow> tm \<Rightarrow> date_error + int" where
  "timeGm lim tm0 =
     (let tm = normTm tm0; y = tm_full_year tm in
      if y < MINIMUM_YEAR lim \<or> y > MAXIMUM_YEAR lim then Inl DateTimeException
      else let days = (y - epochYear) * 365 + leapDaysFromEpochToYear y + daysToMonthStart tm + (tm_mday tm - 1) in
        Inr (days * 86400 + tm_hour tm * 3600 + tm_min tm * 60 + tm_sec tm))"

text \<open>\<open>gmtime_r\<close> of the C library: the year is found in its cycle of 400 years, then the month.\<close>

function gm_year :: "int \<Rightarrow> int \<Rightarrow> int \<times> int" where
  "gm_year y d = (if d < year_length y then (y, d) else gm_year (y + 1) (d - year_length y))"
  by pat_completeness auto
termination
  by (relation "measure (\<lambda>(y, d). nat d)") (auto simp: year_length_def split: if_splits)

declare gm_year.simps [simp del]

function gm_month :: "int \<Rightarrow> nat \<Rightarrow> int \<Rightarrow> nat \<times> int" where
  "gm_month y m d = (if 11 \<le> m \<or> d < month_length y m then (m, d) else gm_month y (m + 1) (d - month_length y m))"
  by pat_completeness auto
termination
  by (relation "measure (\<lambda>(y, m, d). 11 - m)") auto

declare gm_month.simps [simp del]

definition gmtime_r :: "int \<Rightarrow> tm" where
  "gmtime_r t =
     (let day = t div 86400; s = t mod 86400;
          (y, d) = gm_year (1970 + 400 * (day div 146097)) (day mod 146097);
          (m, d') = gm_month y 0 d in
      \<lparr>tm_sec = s mod 60, tm_min = s div 60 mod 60, tm_hour = s div 3600, tm_mday = d' + 1,
       tm_mon = int m, tm_year = y - 1900, tm_wday = (day + 4) mod 7, tm_isdst = 0\<rparr>)"

end
