(* ===== verification/DateTime.thy ===== *)
theory DateTime
  imports TmUtils
begin

text \<open>
  The classes \<open>DateTime\<close> (\<open>DateTime.cpp\<close>) and \<open>TimeDuration\<close> (\<open>TimeDuration.cpp\<close>):
  seconds and microseconds since the epoch with the special values infinity and
  not-a-datetime, the fields of a time in UTC or local time, and the arithmetic of times and
  durations. What reads the clock, formats with \<open>strftime\<close> or takes a floating point number
  is left out.
\<close>

section \<open>Representation\<close>

text \<open>\<open>time_t\<close>, \<open>long\<close> and \<open>Int64\<close> have 64 bits and \<open>Int32\<close> 32; where the sums may leave
  them, they wrap.\<close>

definition wrap64 :: "int \<Rightarrow> int" where "wrap64 x = signed_take_bit 63 x"
definition wrap32 :: "int \<Rightarrow> int" where "wrap32 x = signed_take_bit 31 x"

definition MICROSECONDS_PER_SECOND :: int where "MICROSECONDS_PER_SECOND = 1000000"
definition POS_INF_SEC :: int where "POS_INF_SEC = 2 ^ 63 - 1"
definition POS_INF_USEC :: int where "POS_INF_USEC = 2 ^ 31 - 1"
definition NEG_INF_SEC :: int where "NEG_INF_SEC = - (2 ^ 63)"
definition NEG_INF_USEC :: int where "NEG_INF_USEC = - (2 ^ 31)"
definition NADT_SEC :: int where "NADT_SEC = 0"
definition NADT_USEC :: int where "NADT_USEC = MICROSECONDS_PER_SECOND"

record DateTime =
  m_seconds :: int
  m_microseconds :: int

datatype ESpecialTime = E_TIME_NEG_INFINITY | E_TIME_NOT_SPECIAL | E_TIME_POS_INFINITY | E_TIME_NADT

fun special_number :: "ESpecialTime \<Rightarrow> nat" where
  "special_number E_TIME_NEG_INFINITY = 0"
| "special_number E_TIME_NOT_SPECIAL = 1"
| "special_number E_TIME_POS_INFINITY = 2"
| "special_number E_TIME_NADT = 3"

datatype ETimeOffset = E_LOCAL_TIME | E_UTC_TIME

text \<open>The limits of the platform and its local time: \<open>localtime_r\<close>, and \<open>mktime\<close>, which
  fails with \<open>None\<close>.\<close>

record platform = time_limits +
  localtime_r :: "int \<Rightarrow> tm"
  mktime :: "tm \<Rightarrow> int option"

definition isNADT :: "int \<Rightarrow> bool" where "isNADT microsecond \<longleftrightarrow> microsecond = NADT_USEC"
definition isPosInf :: "int \<Rightarrow> bool" where "isPosInf microsecond \<longleftrightarrow> microsecond = POS_INF_USEC"
definition isNegInf :: "int \<Rightarrow> bool" where "isNegInf microsecond \<longleftrightarrow> microsecond = NEG_INF_USEC"
definition isInf :: "int \<Rightarrow> bool" where "isInf microsecond \<longleftrightarrow> isPosInf microsecond \<or> isNegInf microsecond"

definition haveSpecialValue :: "int \<Rightarrow> bool" where
  "haveSpecialValue microsecond \<longleftrightarrow> microsecond < 0 \<or> microsecond \<ge> MICROSECONDS_PER_SECOND"

definition checkNormalTime :: "int \<Rightarrow> date_error + unit" where
  "checkNormalTime microsecond = (if haveSpecialValue microsecond then Inl DateTimeException else Inr ())"

definition getSpecialTimeFlagImpl :: "int \<Rightarrow> ESpecialTime" where
  "getSpecialTimeFlagImpl microsecond =
     (if microsecond < 0 then E_TIME_NEG_INFINITY
      else if microsecond < MICROSECONDS_PER_SECOND then E_TIME_NOT_SPECIAL
      else if microsecond > MICROSECONDS_PER_SECOND then E_TIME_POS_INFINITY
      else E_TIME_NADT)"

definition normalizeTime :: "'a time_limits_scheme \<Rightarrow> int \<Rightarrow> int \<Rightarrow> date_error + int \<times> int" where
  "normalizeTime lim seconds microseconds =
     (let t1 = wrap64 (seconds + divFloor microseconds MICROSECONDS_PER_SECOND);
          m1 = remFloor microseconds MICROSECONDS_PER_SECOND in
      if t1 < MINIMUM_TIME lim \<or> t1 > MAXIMUM_TIME lim then Inl DateTimeException
      else Inr (t1, m1))"

section \<open>Construction and special values\<close>

definition new_DateTime :: DateTime where "new_DateTime = \<lparr>m_seconds = 0, m_microseconds = 0\<rparr>"

fun DateTime_of_special :: "ESpecialTime \<Rightarrow> DateTime" where
  "DateTime_of_special E_TIME_NOT_SPECIAL = \<lparr>m_seconds = 0, m_microseconds = 0\<rparr>"
| "DateTime_of_special E_TIME_POS_INFINITY = \<lparr>m_seconds = POS_INF_SEC, m_microseconds = POS_INF_USEC\<rparr>"
| "DateTime_of_special E_TIME_NEG_INFINITY = \<lparr>m_seconds = NEG_INF_SEC, m_microseconds = NEG_INF_USEC\<rparr>"
| "DateTime_of_special E_TIME_NADT = \<lparr>m_seconds = NADT_SEC, m_microseconds = NADT_USEC\<rparr>"

definition getSpecialTimeFlag :: "DateTime \<Rightarrow> ESpecialTime" where
  "getSpecialTimeFlag dt = getSpecialTimeFlagImpl (m_microseconds dt)"

definition getPosInfinity :: DateTime where "getPosInfinity = DateTime_of_special E_TIME_POS_INFINITY"
definition getNegInfinity :: DateTime where "getNegInfinity = DateTime_of_special E_TIME_NEG_INFINITY"
definition getNADT :: DateTime where "getNADT = DateTime_of_special E_TIME_NADT"

definition DateTime_of_time :: "'a time_limits_scheme \<Rightarrow> int \<Rightarrow> int \<Rightarrow> date_error + DateTime" where
  "DateTime_of_time lim t microseconds =
     rbind (normalizeTime lim t microseconds) (\<lambda>(s, us). Inr \<lparr>m_seconds = s, m_microseconds = us\<rparr>)"

definition getMinimumTime :: "'a time_limits_scheme \<Rightarrow> date_error + DateTime" where
  "getMinimumTime lim = DateTime_of_time lim (MINIMUM_TIME lim) 0"

definition getMaximumTime :: "'a time_limits_scheme \<Rightarrow> date_error + DateTime" where
  "getMaximumTime lim = DateTime_of_time lim (MAXIMUM_TIME lim) (MICROSECONDS_PER_SECOND - 1)"

definition set_time :: "'a time_limits_scheme \<Rightarrow> DateTime \<Rightarrow> int \<Rightarrow> int \<Rightarrow> date_error + DateTime" where
  "set_time lim dt t microseconds =
     rbind (normalizeTime lim t microseconds) (\<lambda>(s, us). Inr (dt\<lparr>m_seconds := s, m_microseconds := us\<rparr>))"

definition isInvalid :: "DateTime \<Rightarrow> bool" where "isInvalid dt = isNADT (m_microseconds dt)"
definition isPosInfinity :: "DateTime \<Rightarrow> bool" where "isPosInfinity dt = isPosInf (m_microseconds dt)"
definition isNegInfinity :: "DateTime \<Rightarrow> bool" where "isNegInfinity dt = isNegInf (m_microseconds dt)"
definition isInfinite :: "DateTime \<Rightarrow> bool" where "isInfinite dt = isInf (m_microseconds dt)"
definition isSpecial :: "DateTime \<Rightarrow> bool" where "isSpecial dt = haveSpecialValue (m_microseconds dt)"

section \<open>Fields\<close>

definition getTm :: "platform \<Rightarrow> DateTime \<Rightarrow> ETimeOffset \<Rightarrow> date_error + tm" where
  "getTm pf dt timeOffset =
     rbind (checkNormalTime (m_microseconds dt)) (\<lambda>_.
       Inr (if timeOffset = E_LOCAL_TIME then localtime_r pf (m_seconds dt) else gmtime_r (m_seconds dt)))"

definition setTime_tm :: "platform \<Rightarrow> DateTime \<Rightarrow> tm \<Rightarrow> ETimeOffset \<Rightarrow> date_error + DateTime" where
  "setTime_tm pf dt tmarg timeOffset =
     (if timeOffset = E_LOCAL_TIME then
        case mktime pf tmarg of
          None \<Rightarrow> Inl DateTimeException
        | Some t \<Rightarrow> if t < MINIMUM_TIME pf \<or> t > MAXIMUM_TIME pf then Inl DateTimeException
            else Inr (dt\<lparr>m_seconds := t\<rparr>)
      else rbind (timeGm pf tmarg) (\<lambda>t. Inr (dt\<lparr>m_seconds := t\<rparr>)))"

definition get_field :: "(tm \<Rightarrow> int) \<Rightarrow> platform \<Rightarrow> DateTime \<Rightarrow> ETimeOffset \<Rightarrow> date_error + int" where
  "get_field f pf dt timeOffset = rbind (getTm pf dt timeOffset) (\<lambda>tm. Inr (f tm))"

definition getHour where "getHour = get_field tm_hour"
definition getMinute where "getMinute = get_field tm_min"
definition getSecond where "getSecond = get_field tm_sec"
definition getDay where "getDay = get_field tm_mday"
definition getDow where "getDow = get_field tm_wday"
definition getMonth where "getMonth = get_field (\<lambda>tm. tm_mon tm + 1)"
definition getYear where "getYear = get_field (\<lambda>tm. tm_year tm + 1900)"

definition change_tm :: "(tm \<Rightarrow> tm) \<Rightarrow> platform \<Rightarrow> DateTime \<Rightarrow> ETimeOffset \<Rightarrow> date_error + DateTime" where
  "change_tm f pf dt timeOffset = rbind (getTm pf dt timeOffset) (\<lambda>theTime. setTime_tm pf dt (f theTime) timeOffset)"

definition setHour where "setHour pf dt hour = change_tm (\<lambda>tm. tm\<lparr>tm_hour := hour\<rparr>) pf dt"
definition setMinute where "setMinute pf dt minute = change_tm (\<lambda>tm. tm\<lparr>tm_min := minute\<rparr>) pf dt"
definition setSecond where "setSecond pf dt second = change_tm (\<lambda>tm. tm\<lparr>tm_sec := second\<rparr>) pf dt"
definition setTime where
  "setTime pf dt hour minute second = change_tm (\<lambda>tm. tm\<lparr>tm_hour := hour, tm_min := minute, tm_sec := second\<rparr>) pf dt"
definition setDay where "setDay pf dt day = change_tm (\<lambda>tm. tm\<lparr>tm_mday := day\<rparr>) pf dt"

definition setMonth where
  "setMonth pf dt month timeOffset =
     (if month = 0 then Inl DateTimeException
      else change_tm (\<lambda>tm. tm\<lparr>tm_mon := month - 1\<rparr>) pf dt timeOffset)"

definition setYear where
  "setYear pf dt year timeOffset =
     (if year < MINIMUM_YEAR pf \<or> year > MAXIMUM_YEAR pf then Inl DateTimeException
      else change_tm (\<lambda>tm. tm\<lparr>tm_year := year - 1900\<rparr>) pf dt timeOffset)"

definition setMicrosecond :: "DateTime \<Rightarrow> int \<Rightarrow> date_error + DateTime" where
  "setMicrosecond dt microseconds =
     rbind (checkNormalTime (m_microseconds dt)) (\<lambda>_.
       if microseconds < 0 \<or> microseconds \<ge> MICROSECONDS_PER_SECOND then Inl DateTimeException
       else Inr (dt\<lparr>m_microseconds := microseconds\<rparr>))"

text \<open>\<open>set\<close>: \<open>microseconds\<close> is a \<open>UInt32\<close>; the second is adjusted by it, and \<open>usec\<close>, the
  remainder, is computed and not used.\<close>

definition set_fields :: "platform \<Rightarrow> DateTime \<Rightarrow> int \<Rightarrow> int \<Rightarrow> int \<Rightarrow> int \<Rightarrow> int \<Rightarrow> int \<Rightarrow> u32 \<Rightarrow> ETimeOffset \<Rightarrow>
    date_error + DateTime" where
  "set_fields pf dt year month day hour minute second microseconds timeOffset =
     (let usec = uint microseconds mod MICROSECONDS_PER_SECOND;
          second = second + uint microseconds div MICROSECONDS_PER_SECOND;
          tmarg = \<lparr>tm_sec = second, tm_min = minute, tm_hour = hour, tm_mday = day, tm_mon = month - 1,
            tm_year = year - 1900, tm_wday = 0, tm_isdst = (if timeOffset = E_UTC_TIME then 0 else -1)\<rparr> in
      rbind (setTime_tm pf dt tmarg timeOffset) (\<lambda>dt.
        Inr (dt\<lparr>m_microseconds := sint microseconds\<rparr>)))"

definition DateTime_of_fields where
  "DateTime_of_fields pf year month day hour minute second microseconds timeOffset =
     set_fields pf new_DateTime year month day hour minute second microseconds timeOffset"

section \<open>Adding\<close>

definition add_tm :: "(tm \<Rightarrow> date_error + tm) \<Rightarrow> platform \<Rightarrow> DateTime \<Rightarrow> date_error + DateTime" where
  "add_tm f pf dt =
     (if haveSpecialValue (m_microseconds dt) then Inr dt
      else rbind (getTm pf dt E_UTC_TIME) (\<lambda>theTime. rbind (f theTime) (\<lambda>tm. setTime_tm pf dt tm E_UTC_TIME)))"

definition addDays where "addDays pf dt days = add_tm (\<lambda>tm. Inr (tm\<lparr>tm_mday := tm_mday tm + days\<rparr>)) pf dt"
definition addWeeks where "addWeeks pf dt weeks = addDays pf dt (weeks * 7)"
definition addMonths where "addMonths pf dt months = add_tm (\<lambda>tm. Inr (tm\<lparr>tm_mon := tm_mon tm + months\<rparr>)) pf dt"

text \<open>The range check of \<open>addYears\<close> looks at \<open>tm_year\<close>, which counts from 1900.\<close>

definition addYears where
  "addYears pf dt years = add_tm (\<lambda>tm.
     let y = tm_year tm + years in
     if y < MINIMUM_YEAR pf \<or> y > MAXIMUM_YEAR pf then Inl DateTimeException
     else Inr (tm\<lparr>tm_year := y\<rparr>)) pf dt"

definition addSeconds :: "DateTime \<Rightarrow> int \<Rightarrow> DateTime" where
  "addSeconds dt seconds =
     (if haveSpecialValue (m_microseconds dt) then dt else dt\<lparr>m_seconds := wrap64 (m_seconds dt + seconds)\<rparr>)"

definition addMinutes :: "DateTime \<Rightarrow> int \<Rightarrow> DateTime" where
  "addMinutes dt minutes =
     (if haveSpecialValue (m_microseconds dt) then dt
      else dt\<lparr>m_seconds := wrap64 (m_seconds dt + wrap64 (minutes * 60))\<rparr>)"

definition addHours :: "DateTime \<Rightarrow> int \<Rightarrow> DateTime" where
  "addHours dt hours =
     (if haveSpecialValue (m_microseconds dt) then dt
      else dt\<lparr>m_seconds := wrap64 (m_seconds dt + wrap64 (hours * 60 * 60))\<rparr>)"

text \<open>The object after the call and whether it threw; the sum is cut to 32 bits, and stored
  before it is normalised.\<close>

definition addMicroseconds :: "'a time_limits_scheme \<Rightarrow> DateTime \<Rightarrow> int \<Rightarrow> date_error option \<times> DateTime" where
  "addMicroseconds lim dt microseconds =
     (if haveSpecialValue (m_microseconds dt) then (None, dt)
      else let us = wrap32 (m_microseconds dt + microseconds) in
        case normalizeTime lim (m_seconds dt) us of
          Inl e \<Rightarrow> (Some e, dt\<lparr>m_microseconds := us\<rparr>)
        | Inr (s, us') \<Rightarrow> (None, dt\<lparr>m_seconds := s, m_microseconds := us'\<rparr>))"

section \<open>Comparison\<close>

definition dt_eq :: "DateTime \<Rightarrow> DateTime \<Rightarrow> bool" where
  "dt_eq a b \<longleftrightarrow> m_seconds a = m_seconds b \<and> m_microseconds a = m_microseconds b"

definition dt_less :: "DateTime \<Rightarrow> DateTime \<Rightarrow> bool" where
  "dt_less a b =
     (if isInvalid a \<or> isInvalid b then False
      else if m_seconds a = m_seconds b then m_microseconds a < m_microseconds b
      else m_seconds a < m_seconds b)"

definition dt_le :: "DateTime \<Rightarrow> DateTime \<Rightarrow> bool" where "dt_le a b \<longleftrightarrow> dt_eq a b \<or> dt_less a b"
definition dt_greater :: "DateTime \<Rightarrow> DateTime \<Rightarrow> bool" where "dt_greater a b = dt_less b a"
definition dt_ge :: "DateTime \<Rightarrow> DateTime \<Rightarrow> bool" where "dt_ge a b \<longleftrightarrow> dt_eq a b \<or> dt_less b a"

section \<open>Durations\<close>

record TimeDuration =
  td_microseconds :: int
  td_special :: ESpecialTime

definition duration :: "int \<Rightarrow> TimeDuration" where
  "duration us = \<lparr>td_microseconds = us, td_special = E_TIME_NOT_SPECIAL\<rparr>"

definition special_duration :: "ESpecialTime \<Rightarrow> TimeDuration" where
  "special_duration flag = \<lparr>td_microseconds = 0, td_special = flag\<rparr>"

definition completeSeconds :: "TimeDuration \<Rightarrow> int" where "completeSeconds td = td_microseconds td sdiv 1000000"
definition completeMinutes :: "TimeDuration \<Rightarrow> int" where "completeMinutes td = completeSeconds td sdiv 60"
definition completeHours :: "TimeDuration \<Rightarrow> int" where "completeHours td = completeMinutes td sdiv 60"
definition completeDays :: "TimeDuration \<Rightarrow> int" where "completeDays td = completeHours td sdiv 24"

definition relativeDays :: "TimeDuration \<Rightarrow> int" where
  "relativeDays td = (if td_microseconds td < 0 then completeDays td - 1 else completeDays td)"

definition hourInDay :: "TimeDuration \<Rightarrow> int" where
  "hourInDay td = (if td_microseconds td < 0 then 24 - ((- completeHours td) smod 24 + 1) else completeHours td smod 24)"

definition minuteInHour :: "TimeDuration \<Rightarrow> int" where
  "minuteInHour td = (if td_microseconds td < 0 then 60 - ((- completeMinutes td) smod 60 + 1) else completeMinutes td smod 60)"

definition secondInMinute :: "TimeDuration \<Rightarrow> int" where
  "secondInMinute td = (if td_microseconds td < 0 then 60 - ((- completeSeconds td) smod 60 + 1) else completeSeconds td smod 60)"

definition microsecondInSecond :: "TimeDuration \<Rightarrow> int" where
  "microsecondInSecond td =
     (if td_microseconds td < 0 then MICROSECONDS_PER_SECOND - ((- td_microseconds td) smod MICROSECONDS_PER_SECOND)
      else td_microseconds td smod 1000000)"

definition td_less :: "TimeDuration \<Rightarrow> TimeDuration \<Rightarrow> bool" where
  "td_less a b =
     (if td_special a = E_TIME_NADT \<or> td_special b = E_TIME_NADT then False
      else if td_special a = td_special b then td_microseconds a < td_microseconds b
      else special_number (td_special a) < special_number (td_special b))"

definition td_greater :: "TimeDuration \<Rightarrow> TimeDuration \<Rightarrow> bool" where
  "td_greater a b =
     (if td_special a = E_TIME_NADT \<or> td_special b = E_TIME_NADT then False
      else if td_special a = td_special b then td_microseconds a > td_microseconds b
      else special_number (td_special a) > special_number (td_special b))"

definition td_eq :: "TimeDuration \<Rightarrow> TimeDuration \<Rightarrow> bool" where
  "td_eq a b \<longleftrightarrow> td_special a = td_special b \<and> td_microseconds a = td_microseconds b"

definition td_times :: "TimeDuration \<Rightarrow> int \<Rightarrow> TimeDuration" where
  "td_times td factor = (if td_special td \<noteq> E_TIME_NOT_SPECIAL then td else duration (wrap64 (td_microseconds td * factor)))"

fun td_uminus :: "TimeDuration \<Rightarrow> TimeDuration" where
  "td_uminus td = (case td_special td of
     E_TIME_NOT_SPECIAL \<Rightarrow> duration (wrap64 (- td_microseconds td))
   | E_TIME_NEG_INFINITY \<Rightarrow> special_duration E_TIME_POS_INFINITY
   | E_TIME_POS_INFINITY \<Rightarrow> special_duration E_TIME_NEG_INFINITY
   | E_TIME_NADT \<Rightarrow> td)"

definition td_plus :: "TimeDuration \<Rightarrow> TimeDuration \<Rightarrow> TimeDuration" where
  "td_plus td1 td2 =
     (let flag1 = td_special td1; flag2 = td_special td2 in
      if flag1 = E_TIME_NADT \<or> flag2 = E_TIME_NADT then special_duration E_TIME_NADT
      else if (flag1 = E_TIME_POS_INFINITY \<and> flag2 = E_TIME_NEG_INFINITY) \<or>
          (flag1 = E_TIME_NEG_INFINITY \<and> flag2 = E_TIME_POS_INFINITY) then duration 0
      else if flag1 \<noteq> E_TIME_NOT_SPECIAL then td1
      else if flag2 \<noteq> E_TIME_NOT_SPECIAL then td2
      else duration (wrap64 (td_microseconds td1 + td_microseconds td2)))"

definition td_minus :: "TimeDuration \<Rightarrow> TimeDuration \<Rightarrow> TimeDuration" where
  "td_minus td1 td2 = td_plus td1 (td_uminus td2)"

definition MICROSECONDS_PER_MINUTE :: int where "MICROSECONDS_PER_MINUTE = 60 * MICROSECONDS_PER_SECOND"
definition MICROSECONDS_PER_HOUR :: int where "MICROSECONDS_PER_HOUR = 60 * MICROSECONDS_PER_MINUTE"
definition MICROSECONDS_PER_DAY :: int where "MICROSECONDS_PER_DAY = 24 * MICROSECONDS_PER_HOUR"

definition td_days :: "int \<Rightarrow> TimeDuration" where "td_days count = duration (wrap64 (count * MICROSECONDS_PER_DAY))"
definition td_hours :: "int \<Rightarrow> TimeDuration" where "td_hours count = duration (wrap64 (count * MICROSECONDS_PER_HOUR))"
definition td_minutes :: "int \<Rightarrow> TimeDuration" where "td_minutes count = duration (wrap64 (count * MICROSECONDS_PER_MINUTE))"
definition td_seconds :: "int \<Rightarrow> TimeDuration" where "td_seconds count = duration (wrap64 (count * MICROSECONDS_PER_SECOND))"

section \<open>Arithmetic of times and durations\<close>

definition dt_uminus :: "'a time_limits_scheme \<Rightarrow> DateTime \<Rightarrow> date_error + DateTime" where
  "dt_uminus lim x = (case getSpecialTimeFlag x of
     E_TIME_NOT_SPECIAL \<Rightarrow>
       if m_microseconds x > 0
       then DateTime_of_time lim (- m_seconds x - 1) (MICROSECONDS_PER_SECOND - m_microseconds x)
       else DateTime_of_time lim (- m_seconds x) 0
   | E_TIME_NADT \<Rightarrow> Inr x
   | E_TIME_POS_INFINITY \<Rightarrow> Inr getNegInfinity
   | E_TIME_NEG_INFINITY \<Rightarrow> Inr getPosInfinity)"

definition dt_minus :: "DateTime \<Rightarrow> DateTime \<Rightarrow> TimeDuration" where
  "dt_minus x y =
     (let flag1 = getSpecialTimeFlag x; flag2 = getSpecialTimeFlag y in
      if flag1 \<noteq> E_TIME_NOT_SPECIAL \<or> flag2 \<noteq> E_TIME_NOT_SPECIAL then
        if flag1 = E_TIME_NADT \<or> flag2 = E_TIME_NADT then special_duration E_TIME_NADT
        else if flag1 = flag2 then special_duration E_TIME_NADT
        else if flag2 = E_TIME_NEG_INFINITY then special_duration E_TIME_POS_INFINITY
        else if flag2 = E_TIME_POS_INFINITY then special_duration E_TIME_NEG_INFINITY
        else special_duration flag1
      else duration (wrap64 (wrap64 (m_seconds x - m_seconds y) * MICROSECONDS_PER_SECOND +
        (m_microseconds x - m_microseconds y))))"

definition timeBetween :: "DateTime \<Rightarrow> DateTime \<Rightarrow> TimeDuration" where "timeBetween dt1 dt2 = dt_minus dt2 dt1"

definition dt_plus :: "'a time_limits_scheme \<Rightarrow> DateTime \<Rightarrow> TimeDuration \<Rightarrow> date_error + DateTime" where
  "dt_plus lim dt td =
     (let flag1 = getSpecialTimeFlag dt; flag2 = td_special td in
      if flag1 = E_TIME_NADT \<or> flag2 = E_TIME_NADT then Inr getNADT
      else if (flag1 = E_TIME_POS_INFINITY \<and> flag2 = E_TIME_NEG_INFINITY) \<or>
          (flag1 = E_TIME_NEG_INFINITY \<and> flag2 = E_TIME_POS_INFINITY) then Inr getNADT
      else if flag1 \<noteq> E_TIME_NOT_SPECIAL then Inr dt
      else case flag2 of
        E_TIME_NOT_SPECIAL \<Rightarrow>
          let us = microsecondInSecond td;
              secs = (td_microseconds td - us) sdiv MICROSECONDS_PER_SECOND in
          DateTime_of_time lim (wrap64 (m_seconds dt + secs)) (m_microseconds dt + us)
      | E_TIME_NEG_INFINITY \<Rightarrow> Inr getNegInfinity
      | E_TIME_POS_INFINITY \<Rightarrow> Inr getPosInfinity
      | E_TIME_NADT \<Rightarrow> Inr getNADT)"

definition dt_minus_duration :: "'a time_limits_scheme \<Rightarrow> DateTime \<Rightarrow> TimeDuration \<Rightarrow> date_error + DateTime" where
  "dt_minus_duration lim dt td = dt_plus lim dt (td_uminus td)"

definition localTimeAndOffset :: "platform \<Rightarrow> int \<Rightarrow> tm \<times> int" where
  "localTimeAndOffset pf t =
     (let t_utc = gmtime_r t; t_loc = localtime_r pf t;
          min_diff = (tm_min t_loc - tm_min t_utc) + 60 * (tm_hour t_loc - tm_hour t_utc);
          day_diff = tm_mday t_loc - tm_mday t_utc; one_day = 24 * 60 in
      (t_loc, if day_diff = 0 then min_diff
         else if day_diff = 1 \<or> day_diff < -1 then min_diff + one_day
         else min_diff - one_day))"

definition toLocal :: "platform \<Rightarrow> DateTime \<Rightarrow> date_error + tm \<times> int" where
  "toLocal pf dt = rbind (checkNormalTime (m_microseconds dt)) (\<lambda>_. Inr (localTimeAndOffset pf (m_seconds dt)))"

end
