(* ===== verification/DateTime_Parse.thy ===== *)
theory DateTime_Parse
  imports DateTime Strings_Numbers
begin

text \<open>
  Reading a time from text: the constructor \<open>DateTime(const String&)\<close> with its two formats,
  the fixed columns of a CIM datetime and free-form text made of tokens, and the helper
  functions in front of it in \<open>DateTime.cpp\<close>.
\<close>

section \<open>Ranges, names and time zones\<close>

datatype parse_error = DateFault date_error | StringFault string_error

definition dt_lift :: "date_error + 'a \<Rightarrow> parse_error + 'a" where
  "dt_lift r = (case r of Inl e \<Rightarrow> Inl (DateFault e) | Inr a \<Rightarrow> Inr a)"

definition s_lift :: "string_error + 'a \<Rightarrow> parse_error + 'a" where
  "s_lift r = (case r of Inl e \<Rightarrow> Inl (StringFault e) | Inr a \<Rightarrow> Inr a)"

definition badDateTime :: "parse_error + 'a" where "badDateTime = Inl (DateFault DateTimeException)"

definition is_conversion_fault :: "parse_error \<Rightarrow> bool" where
  "is_conversion_fault e = (case e of StringFault (StringConversionException _ _) \<Rightarrow> True | _ \<Rightarrow> False)"

definition in_range :: "int \<Rightarrow> int \<Rightarrow> int \<Rightarrow> bool" where
  "in_range v min_value max_value \<longleftrightarrow> \<not> (v < min_value \<or> v > max_value)"

definition VALIDATE_RANGES :: "platform \<Rightarrow> int \<Rightarrow> int \<Rightarrow> int \<Rightarrow> int \<Rightarrow> int \<Rightarrow> int \<Rightarrow> int \<Rightarrow> parse_error + unit" where
  "VALIDATE_RANGES pf year month day hour minute second microseconds =
     (if in_range year (MINIMUM_YEAR pf) (MAXIMUM_YEAR pf) \<and> in_range month 1 12 \<and> in_range day 1 31 \<and>
         in_range hour 0 23 \<and> in_range minute 0 59 \<and> in_range second 0 60 \<and>
         in_range microseconds 0 (MICROSECONDS_PER_SECOND - 1)
      then Inr () else badDateTime)"

abbreviation ch :: "bytes \<Rightarrow> nat \<Rightarrow> char \<Rightarrow> bool" where "ch str i c \<equiv> str ! i = of_char c"

definition isDOWValid :: "bytes \<Rightarrow> bool" where
  "isDOWValid str =
     (if ch str 0 CHR ''S'' then
        if ch str 1 CHR ''u'' then ch str 2 CHR ''n'' else if ch str 1 CHR ''a'' then ch str 2 CHR ''t'' else False
      else if ch str 0 CHR ''M'' then if ch str 1 CHR ''o'' then ch str 2 CHR ''n'' else False
      else if ch str 0 CHR ''T'' then
        if ch str 1 CHR ''u'' then ch str 2 CHR ''e'' else if ch str 1 CHR ''h'' then ch str 2 CHR ''u'' else False
      else if ch str 0 CHR ''W'' then if ch str 1 CHR ''e'' then ch str 2 CHR ''d'' else False
      else if ch str 0 CHR ''F'' then if ch str 1 CHR ''r'' then ch str 2 CHR ''i'' else False
      else False)"

definition is_text :: "String \<Rightarrow> string \<Rightarrow> bool" where "is_text s t \<longleftrightarrow> equals s (lit t @ [0])"

definition isLongDOWValid :: "String \<Rightarrow> bool" where
  "isLongDOWValid s \<longleftrightarrow> list_ex (is_text s)
     [''Sunday'', ''Monday'', ''Tuesday'', ''Wednesday'', ''Thursday'', ''Friday'', ''Saturday'']"

definition decodeShortMonth :: "bytes \<Rightarrow> int" where
  "decodeShortMonth str =
     (if ch str 0 CHR ''J'' then
        if ch str 1 CHR ''a'' then if ch str 2 CHR ''n'' then 1 else -1
        else if ch str 1 CHR ''u'' then if ch str 2 CHR ''n'' then 6 else if ch str 2 CHR ''l'' then 7 else -1
        else -1
      else if ch str 0 CHR ''F'' then if ch str 1 CHR ''e'' \<and> ch str 2 CHR ''b'' then 2 else -1
      else if ch str 0 CHR ''M'' then
        if ch str 1 CHR ''a'' then if ch str 2 CHR ''r'' then 3 else if ch str 2 CHR ''y'' then 5 else -1 else -1
      else if ch str 0 CHR ''A'' then
        if ch str 1 CHR ''p'' then if ch str 2 CHR ''r'' then 4 else -1
        else if ch str 1 CHR ''u'' then if ch str 2 CHR ''g'' then 8 else -1
        else -1
      else if ch str 0 CHR ''S'' then if ch str 1 CHR ''e'' \<and> ch str 2 CHR ''p'' then 9 else -1
      else if ch str 0 CHR ''O'' then if ch str 1 CHR ''c'' \<and> ch str 2 CHR ''t'' then 10 else -1
      else if ch str 0 CHR ''N'' then if ch str 1 CHR ''o'' \<and> ch str 2 CHR ''v'' then 11 else -1
      else if ch str 0 CHR ''D'' then if ch str 1 CHR ''e'' \<and> ch str 2 CHR ''c'' then 12 else -1
      else -1)"

text \<open>The first entry of a table whose key matches.\<close>

fun first_match :: "('k \<Rightarrow> bool) \<Rightarrow> ('k \<times> 'v) list \<Rightarrow> 'v option" where
  "first_match P [] = None"
| "first_match P ((k, v) # t) = (if P k then Some v else first_match P t)"

definition decodeLongMonth :: "String \<Rightarrow> int" where
  "decodeLongMonth str = (case first_match (is_text str)
     [(''January'', 1), (''February'', 2), (''March'', 3), (''April'', 4), (''May'', 5), (''June'', 6), (''July'', 7),
      (''August'', 8), (''September'', 9), (''October'', 10), (''November'', 11), (''December'', 12)] of
     Some m \<Rightarrow> m | None \<Rightarrow> -1)"

definition LOCAL_TIME_OFFSET :: int where "LOCAL_TIME_OFFSET = -24"

definition zone_letters :: "(char \<times> int) list" where
  "zone_letters = [
     (CHR ''Y'', -12), (CHR ''X'', -11), (CHR ''W'', -10), (CHR ''V'', -9), (CHR ''U'', -8), (CHR ''T'', -7),
     (CHR ''S'', -6), (CHR ''R'', -5), (CHR ''Q'', -4), (CHR ''P'', -3), (CHR ''O'', -2), (CHR ''N'', -1),
     (CHR ''Z'', 0), (CHR ''A'', 1), (CHR ''B'', 2), (CHR ''C'', 3), (CHR ''D'', 4), (CHR ''E'', 5),
     (CHR ''F'', 6), (CHR ''G'', 7), (CHR ''H'', 8), (CHR ''I'', 9), (CHR ''K'', 10), (CHR ''L'', 11),
     (CHR ''M'', 12), (CHR ''J'', LOCAL_TIME_OFFSET)]"

definition zone_names :: "(string \<times> int) list" where
  "zone_names = [
     (''UTC'', 0), (''GMT'', 0), (''BST'', 1), (''IST'', 1), (''WET'', 0), (''WEST'', 1), (''CET'', 1),
     (''CEST'', 2), (''EET'', 2), (''EEST'', 3), (''MSK'', 3), (''MSD'', 4), (''AST'', -4), (''ADT'', -3),
     (''EST'', -5), (''EDT'', -4), (''ET'', -5), (''CST'', -6), (''CDT'', -5), (''CT'', -6), (''MST'', -7),
     (''MDT'', -6), (''MT'', -7), (''PST'', -8), (''PDT'', -7), (''PT'', -8), (''HST'', -10), (''AKST'', -9),
     (''AKDT'', -8), (''WST'', 8)]"

definition getTimeZoneOffset :: "String \<Rightarrow> int option" where
  "getTimeZoneOffset timezone =
     (let temp_offset = (case (if slength timezone = 1
            then first_match (\<lambda>c. at timezone 0 = of_char c) zone_letters
            else first_match (is_text timezone) zone_names) of
          Some t \<Rightarrow> t | None \<Rightarrow> LOCAL_TIME_OFFSET - 1) in
      if temp_offset \<ge> LOCAL_TIME_OFFSET then Some temp_offset else None)"

definition getDaysPerMonth :: "int \<Rightarrow> int \<Rightarrow> int" where
  "getDaysPerMonth year month =
     (let normal_days_per_month = [31, 28, 31, 30, 31, 30, 31, 31, 30, 31, 30, 31] in
      if 1 \<le> month \<and> month \<le> 12 then
        if month \<noteq> 2 then normal_days_per_month ! nat (month - 1)
        else let leap_year_adjust =
            (if year smod 4 = 0 then
               if year smod 100 = 0 then if year smod 400 = 0 then 1 else 0 else 1
             else 0) in
          normal_days_per_month ! nat (month - 1) + leap_year_adjust
      else 0)"

definition adjustTimeForTimeZone :: "int \<Rightarrow> int \<Rightarrow> int \<Rightarrow> int \<Rightarrow> int \<Rightarrow> int \<times> int \<times> int \<times> int" where
  "adjustTimeForTimeZone timezone_offset year month day hour =
     (if timezone_offset < 0 then
        let hour = hour - timezone_offset;
            (day, hour) = (if hour > 23 then (day + 1, hour - 24) else (day, hour));
            (month, day) = (if day > getDaysPerMonth year month then (month + 1, 1) else (month, day));
            (month, year) = (if month > 12 then (month - 12, year + 1) else (month, year)) in
        (year, month, day, hour)
      else if timezone_offset > 0 then
        let hour = hour - timezone_offset;
            (day, hour) = (if hour < 0 then (day - 1, hour + 24) else (day, hour));
            (month, day) = (if day < 1 then (month - 1, day + getDaysPerMonth year (month - 1)) else (month, day));
            (month, year) = (if month < 1 then (month + 12, year - 1) else (month, year)) in
        (year, month, day, hour)
      else (year, month, day, hour))"

section \<open>The CIM format\<close>

text \<open>Asterisks become zeros.\<close>

definition noAsterisks :: "String \<Rightarrow> String" where
  "noAsterisks str = map_option (\<lambda>b. b\<lparr>m_data :=
     map (\<lambda>c. if c = 0x2A then 0x30 else c) (take (m_len b) (m_data b)) @ drop (m_len b) (m_data b)\<rparr>) str"

definition column :: "String \<Rightarrow> nat \<Rightarrow> nat \<Rightarrow> parse_error + int" where
  "column s beginIndex len = s_lift (rbind (substring s beginIndex len) (\<lambda>t. toInt32 t 10))"

definition parse_cim :: "platform \<Rightarrow> String \<Rightarrow> parse_error + DateTime" where
  "parse_cim pf str =
     (let s = noAsterisks str in
      rbind (column s 0 4) (\<lambda>year.
      rbind (column s 4 2) (\<lambda>month.
      rbind (column s 6 2) (\<lambda>day.
      rbind (column s 8 2) (\<lambda>hour.
      rbind (column s 10 2) (\<lambda>minute.
      rbind (column s 12 2) (\<lambda>second.
      rbind (column s 15 6) (\<lambda>microseconds.
      rbind (VALIDATE_RANGES pf year month day hour minute second microseconds) (\<lambda>_.
      rbind (column s 22 3) (\<lambda>utc.
      dt_lift (set_fields pf new_DateTime year month day hour
        (minute + (if at str 21 = 0x2B then 0 - utc else utc)) second (word_of_int microseconds) E_UTC_TIME)))))))))))"

section \<open>Free-form text\<close>

record date_tokens =
  tok_weekday :: String
  tok_day :: String
  tok_time :: String
  tok_timezone_number :: int
  tok_month_number :: int
  tok_year :: String

definition no_tokens :: date_tokens where
  "no_tokens = \<lparr>tok_weekday = None, tok_day = None, tok_time = None, tok_timezone_number = LOCAL_TIME_OFFSET - 1,
     tok_month_number = -1, tok_year = None\<rparr>"

definition default_delims :: bytes where "default_delims = [0x20, 0x0A, 0x0D, 0x09, 0x0B, 0]"

definition sempty :: "String \<Rightarrow> bool" where "sempty s \<longleftrightarrow> slength s = 0"

definition date_token :: "String \<Rightarrow> date_tokens \<Rightarrow> parse_error + date_tokens" where
  "date_token t d =
     (if isDOWValid (c_str t) then
        if sempty (tok_weekday d) then
          if slength t > 3 then
            if isLongDOWValid t then Inr (d\<lparr>tok_weekday := t\<rparr>) else badDateTime
          else Inr (d\<lparr>tok_weekday := t\<rparr>)
        else badDateTime
      else if tok_month_number d = -1 \<and> decodeShortMonth (c_str t) \<noteq> -1 then
        if slength t > 3 then
          if decodeLongMonth t = -1 then badDateTime else Inr (d\<lparr>tok_month_number := decodeLongMonth t\<rparr>)
        else Inr (d\<lparr>tok_month_number := decodeShortMonth (c_str t)\<rparr>)
      else if sempty (tok_time d) \<and> indexOf t [0x3A, 0] 0 \<noteq> npos then Inr (d\<lparr>tok_time := t\<rparr>)
      else if sempty (tok_day d) \<and> isdigit (at t 0) then Inr (d\<lparr>tok_day := t\<rparr>)
      else if sempty (tok_year d) \<and> isdigit (at t 0) then Inr (d\<lparr>tok_year := t\<rparr>)
      else if tok_timezone_number d \<le> LOCAL_TIME_OFFSET \<and> slength t \<ge> 1 \<and> slength t \<le> 4 \<and> getTimeZoneOffset t \<noteq> None
        then Inr (d\<lparr>tok_timezone_number := the (getTimeZoneOffset t)\<rparr>)
      else badDateTime)"

fun date_tokens_loop :: "String list \<Rightarrow> date_tokens \<Rightarrow> parse_error + date_tokens" where
  "date_tokens_loop [] d = Inr d"
| "date_tokens_loop (t # ts) d = rbind (date_token t d) (date_tokens_loop ts)"

definition to_int :: "String \<Rightarrow> parse_error + int" where "to_int s = s_lift (toInt32 s 10)"

definition date_of_tokens :: "platform \<Rightarrow> date_tokens \<Rightarrow> String list \<Rightarrow> parse_error + DateTime" where
  "date_of_tokens pf d time_fields =
     rbind (to_int (tok_year d)) (\<lambda>year.
     rbind (to_int (tok_day d)) (\<lambda>day.
     rbind (to_int (time_fields ! 0)) (\<lambda>hour.
     rbind (to_int (time_fields ! 1)) (\<lambda>minute.
     rbind (if length time_fields = 3 then to_int (time_fields ! 2) else Inr 0) (\<lambda>second.
     rbind (VALIDATE_RANGES pf year (tok_month_number d) day hour minute second 0) (\<lambda>_.
     if tok_timezone_number d \<le> LOCAL_TIME_OFFSET then
       dt_lift (set_fields pf new_DateTime year (tok_month_number d) day hour minute second 0 E_LOCAL_TIME)
     else
       let (year, month, day, hour) =
         adjustTimeForTimeZone (tok_timezone_number d) year (tok_month_number d) day hour in
       rbind (VALIDATE_RANGES pf year month day hour minute second 0) (\<lambda>_.
       dt_lift (set_fields pf new_DateTime year month day hour minute second 0 E_UTC_TIME))))))))"

definition parse_free_form :: "platform \<Rightarrow> String \<Rightarrow> parse_error + DateTime" where
  "parse_free_form pf str =
     (if sempty str then badDateTime
      else rbind (date_tokens_loop (tokenize str (Some default_delims) False False) no_tokens) (\<lambda>d.
        if tok_month_number d \<ge> 1 \<and> \<not> sempty (tok_day d) \<and> \<not> sempty (tok_time d) \<and> \<not> sempty (tok_year d) then
          let time_fields = tokenize (tok_time d) (Some [0x3A, 0]) False False in
          if length time_fields < 2 \<or> length time_fields > 3 then badDateTime
          else (case date_of_tokens pf d time_fields of
              Inl e \<Rightarrow> if is_conversion_fault e then badDateTime else Inl e
            | Inr dt \<Rightarrow> Inr dt)
        else badDateTime))"

text \<open>A text with the punctuation of the CIM format that fails to convert is tried again as
  free-form text.\<close>

definition DateTime_of_String :: "platform \<Rightarrow> String \<Rightarrow> parse_error + DateTime" where
  "DateTime_of_String pf str =
     (if slength str = 25 \<and> \<not> (at str 14 \<noteq> 0x2E \<or> (at str 21 \<noteq> 0x2B \<and> at str 21 \<noteq> 0x2D)) then
        (case parse_cim pf str of
           Inl e \<Rightarrow> if is_conversion_fault e then parse_free_form pf str else Inl e
         | Inr dt \<Rightarrow> Inr dt)
      else parse_free_form pf str)"

end
