(* ===== verification/TmUtils_Props.thy ===== *)
theory TmUtils_Props
  imports TmUtils
begin

text \<open>
  The broken-down times against the calendar: the number of days before a year and before a
  month are sums of lengths, and a time, normal or not, stands for a second since the epoch.
\<close>

section \<open>Days before a year and a month\<close>

definition year_start :: "int \<Rightarrow> int" where
  "year_start y = (if 1970 \<le> y then \<Sum>k\<in>{1970..<y}. year_length k else - (\<Sum>k\<in>{y..<1970}. year_length k))"

definition month_start :: "int \<Rightarrow> nat \<Rightarrow> int" where
  "month_start y m = (\<Sum>i<m. month_length y i)"

lemma year_start_next: "year_start (y + 1) = year_start y + year_length y"
proof (cases "1970 \<le> y")
  case True
  then have "{1970..<y + 1} = insert y {1970..<y}" by auto
  then show ?thesis using True by (simp add: year_start_def)
next
  case False
  then have "{y..<1970} = insert y {y + 1..<1970}" by auto
  then show ?thesis using False by (cases "y = 1969") (simp_all add: year_start_def)
qed

lemma div_next: "0 < n \<Longrightarrow> (y :: int) div n = (y - 1) div n + of_bool (y mod n = 0)"
proof -
  assume n: "0 < n"
  show ?thesis
  proof (cases "y mod n = 0")
    case True
    then obtain q where q: "y = n * q" by blast
    then have "y - 1 = n * (q - 1) + (n - 1)" by (simp add: algebra_simps)
    then have "(y - 1) div n = q - 1" by (rule int_div_pos_eq) (use n in simp_all)
    then show ?thesis using q n by simp
  next
    case False
    have "y - 1 = n * (y div n) + (y mod n - 1)" by simp
    moreover have "0 \<le> y mod n - 1" "y mod n - 1 < n"
      using False n pos_mod_sign [of n y] pos_mod_bound [of n y] by linarith+
    ultimately have "(y - 1) div n = y div n" by (rule int_div_pos_eq)
    then show ?thesis using False by simp
  qed
qed

lemma leap_count: "(C \<longrightarrow> B) \<Longrightarrow> (B \<longrightarrow> A) \<Longrightarrow>
    (if A \<and> (\<not> B \<or> C) then 366 else 365 :: int) = 365 + of_bool A - of_bool B + of_bool C"
  by (cases A; cases B; cases C) simp_all

lemma year_length_sum: "year_length y = 365 + of_bool (y mod 4 = 0) - of_bool (y mod 100 = 0) + of_bool (y mod 400 = 0)"
proof -
  have "y mod 100 mod 4 = y mod 4" "y mod 400 mod 100 = y mod 100" by (simp_all add: mod_mod_cancel)
  then have "y mod 100 = 0 \<Longrightarrow> y mod 4 = 0" "y mod 400 = 0 \<Longrightarrow> y mod 100 = 0" by (metis mod_0)+
  then show ?thesis unfolding year_length_def leap_def by (intro leap_count) blast+
qed

definition year_start_formula :: "int \<Rightarrow> int" where
  "year_start_formula y = 365 * (y - 1970) + ((y - 1) div 4 - (y - 1) div 100 + (y - 1) div 400) - 477"

lemma year_start_formula_next: "year_start_formula (y + 1) = year_start_formula y + year_length y"
  unfolding year_start_formula_def year_length_sum add_diff_cancel_right'
    div_next [of 4 y, OF zero_less_numeral] div_next [of 100 y, OF zero_less_numeral] div_next [of 400 y, OF zero_less_numeral]
  by simp

lemma year_start_closed: "year_start y = year_start_formula y"
proof (induction y rule: int_induct [of _ 1970])
  case base
  show ?case by (simp add: year_start_def year_start_formula_def)
next
  case (step1 i)
  then show ?case by (simp add: year_start_next year_start_formula_next)
next
  case (step2 i)
  then show ?case using year_start_next [of "i - 1"] year_start_formula_next [of "i - 1"] by simp
qed

lemma month_start_next: "month_start y (Suc m) = month_start y m + month_length y m"
  by (simp add: month_start_def)

lemma month_start_0: "month_start y 0 = 0"
  by (simp add: month_start_def)

lemmas month_start_table = month_start_next month_start_0 month_length_def daysInMonthArr_def

lemma month_start_12: "month_start y 12 = year_length y"
  by (simp add: eval_nat_numeral month_start_table year_length_def)

lemma daysToMonthStart_calendar:
  assumes "month_ok tm"
  shows "daysToMonthStart tm = month_start (tm_full_year tm) (nat (tm_mon tm))"
  using less_12_cases [OF table_index [OF assms]] unfolding daysToMonthStart_def isLeapYear_leap
  by (elim disjE) (simp_all add: daysToMonthStartArr_def eval_nat_numeral month_start_table Let_def)

section \<open>The second a time stands for\<close>

definition civil_days :: "int \<Rightarrow> int \<Rightarrow> int \<Rightarrow> int" where
  "civil_days y mon mday = year_start (y + mon div 12) + month_start (y + mon div 12) (nat (mon mod 12)) + mday - 1"

definition instant :: "tm \<Rightarrow> int" where
  "instant tm = 86400 * civil_days (tm_full_year tm) (tm_mon tm) (tm_mday tm) +
     3600 * tm_hour tm + 60 * tm_min tm + tm_sec tm"

definition clock_ok :: "tm \<Rightarrow> bool" where
  "clock_ok tm \<longleftrightarrow> 0 \<le> tm_sec tm \<and> tm_sec tm < 60 \<and> 0 \<le> tm_min tm \<and> tm_min tm < 60 \<and>
     0 \<le> tm_hour tm \<and> tm_hour tm < 24"

definition normal :: "tm \<Rightarrow> bool" where
  "normal tm \<longleftrightarrow> clock_ok tm \<and> month_ok tm \<and> 1 \<le> tm_mday tm \<and> tm_mday tm \<le> daysInMonth tm"

lemma civil_days_mday: "civil_days y mon (mday + k) = civil_days y mon mday + k"
  by (simp add: civil_days_def)

lemma mod_next_12: "(mon + 1) mod 12 = (if mon mod 12 = 11 then 0 else mon mod 12 + 1)"
    "(mon + 1) div 12 = (if mon mod 12 = 11 then mon div 12 + 1 else mon div 12)" for mon :: int
proof -
  have r: "0 \<le> mon mod 12" "mon mod 12 < 12" by simp_all
  have "(mon + 1) mod 12 = (mon mod 12 + 1) mod 12" by (simp add: mod_simps)
  also have "\<dots> = (if mon mod 12 = 11 then 0 else mon mod 12 + 1)"
    using r by (simp add: mod_pos_pos_trivial)
  finally show m: "(mon + 1) mod 12 = (if mon mod 12 = 11 then 0 else mon mod 12 + 1)" .
  show "(mon + 1) div 12 = (if mon mod 12 = 11 then mon div 12 + 1 else mon div 12)"
    using div_next [of 12 "mon + 1"] r(1) unfolding m by (simp split: if_splits)
qed

lemma civil_days_next_month:
  "civil_days y (mon + 1) mday = civil_days y mon mday + month_length (y + mon div 12) (nat (mon mod 12))"
proof (cases "mon mod 12 = 11")
  case True
  then have "month_start (y + mon div 12) (nat (mon mod 12)) + month_length (y + mon div 12) (nat (mon mod 12)) =
      year_length (y + mon div 12)"
    using month_start_12 [of "y + mon div 12"] month_start_next [of "y + mon div 12" 11] by simp
  moreover have "year_start (y + (mon div 12 + 1)) = year_start (y + mon div 12) + year_length (y + mon div 12)"
    using year_start_next [of "y + mon div 12"] by (simp add: add.assoc)
  ultimately show ?thesis using True by (simp add: civil_days_def mod_next_12 month_start_0)
next
  case False
  have "nat (mon mod 12 + 1) = Suc (nat (mon mod 12))" by simp
  then show ?thesis using False by (simp add: civil_days_def mod_next_12 month_start_next)
qed

lemma normMonth_days:
  "civil_days (tm_full_year (normMonth tm)) (tm_mon (normMonth tm)) mday = civil_days (tm_full_year tm) (tm_mon tm) mday"
  by (simp add: civil_days_def normMonth_def tm_full_year_def remFloor_mod divFloor_div ac_simps)

lemma normMonth_keeps: "tm_sec (normMonth tm) = tm_sec tm" "tm_min (normMonth tm) = tm_min tm"
  "tm_hour (normMonth tm) = tm_hour tm" "tm_mday (normMonth tm) = tm_mday tm"
  by (simp_all add: normMonth_def)

lemma normMonth_instant: "instant (normMonth tm) = instant tm" "clock_ok (normMonth tm) = clock_ok tm"
  by (simp_all add: instant_def clock_ok_def normMonth_keeps normMonth_days)

lemma norm_clock_instant: "instant (norm_clock tm) = instant tm" "clock_ok (norm_clock tm)"
proof -
  let ?minute = "tm_min tm + tm_sec tm div 60" let ?hour = "tm_hour tm + ?minute div 60"
  have split: "x mod n = x - n * (x div n)" for x n :: int by (simp add: minus_mult_div_eq_mod)
  define a b c where "a = tm_sec tm div 60" and "b = ?minute div 60" and "c = ?hour div 24"
  have "instant (norm_clock tm) = 86400 * (civil_days (tm_full_year tm) (tm_mon tm) (tm_mday tm) + ?hour div 24) +
      3600 * (?hour mod 24) + 60 * (?minute mod 60) + tm_sec tm mod 60"
    by (simp add: instant_def norm_clock_def Let_def remFloor_mod divFloor_div civil_days_mday tm_full_year_def)
  also have "\<dots> = 86400 * (civil_days (tm_full_year tm) (tm_mon tm) (tm_mday tm) + c) +
      3600 * (tm_hour tm + b - 24 * c) + 60 * (tm_min tm + a - 60 * b) + (tm_sec tm - 60 * a)"
    unfolding split a_def b_def c_def by (rule refl)
  also have "\<dots> = instant tm" unfolding instant_def by simp
  finally show "instant (norm_clock tm) = instant tm" .
  show "clock_ok (norm_clock tm)" by (simp add: clock_ok_def norm_clock_def Let_def remFloor_mod)
qed

lemma month_shift_instant:
  assumes "month_ok tm"
  shows "instant (tm\<lparr>tm_mday := tm_mday tm - daysInMonth tm, tm_mon := tm_mon tm + 1\<rparr>) = instant tm"
proof -
  have m: "tm_mon tm div 12 = 0" "tm_mon tm mod 12 = tm_mon tm" using assms by (simp_all add: month_ok_def)
  have "civil_days (tm_full_year tm) (tm_mon tm + 1) (tm_mday tm - daysInMonth tm) =
      civil_days (tm_full_year tm) (tm_mon tm) (tm_mday tm)"
    using civil_days_mday [of "tm_full_year tm" "tm_mon tm + 1" "tm_mday tm" "- daysInMonth tm"]
    unfolding civil_days_next_month [of _ "tm_mon tm"] m by (simp add: daysInMonth_calendar)
  then show ?thesis by (simp add: instant_def tm_full_year_def)
qed


section \<open>The loops\<close>

lemma normTm_down_spec:
  assumes "month_ok tm" "clock_ok tm"
  shows "month_ok (normTm_down tm) \<and> clock_ok (normTm_down tm) \<and> instant (normTm_down tm) = instant tm \<and>
    tm_mday (normTm_down tm) \<le> daysInMonth (normTm_down tm)"
  using assms
proof (induction tm rule: normTm_down.induct)
  case (1 tm)
  let ?next = "normMonth (tm\<lparr>tm_mday := tm_mday tm - daysInMonth tm, tm_mon := tm_mon tm + 1\<rparr>)"
  show ?case
  proof (cases "tm_mday tm > daysInMonth tm")
    case True
    have "instant ?next = instant tm" "clock_ok ?next"
      using month_shift_instant [OF "1.prems"(1)] "1.prems"(2)
      by (simp_all add: normMonth_instant) (simp add: clock_ok_def)
    then show ?thesis using "1.IH" True "1.prems" normMonth_ok by (simp add: normTm_down.simps [of tm])
  next
    case False
    then show ?thesis using "1.prems" by (simp add: normTm_down.simps [of tm])
  qed
qed

lemma month_back_instant:
  assumes "tm' = normMonth (tm\<lparr>tm_mon := tm_mon tm - 1\<rparr>)"
  shows "instant (tm'\<lparr>tm_mday := tm_mday tm' + daysInMonth tm'\<rparr>) = instant tm"
proof -
  have ok: "month_ok tm'" unfolding assms by (rule normMonth_ok)
  then have m: "tm_mon tm' div 12 = 0" "tm_mon tm' mod 12 = tm_mon tm'" by (simp_all add: month_ok_def)
  have "civil_days (tm_full_year tm') (tm_mon tm') (tm_mday tm' + daysInMonth tm') =
      civil_days (tm_full_year tm') (tm_mon tm' + 1) (tm_mday tm')"
    unfolding civil_days_next_month m civil_days_mday by (simp add: daysInMonth_calendar)
  also have "\<dots> = civil_days (tm_full_year tm) (tm_mon tm) (tm_mday tm)"
    using normMonth_days [of "tm\<lparr>tm_mon := tm_mon tm - 1\<rparr>"] civil_days_next_month [of "tm_full_year tm" "tm_mon tm - 1"]
      civil_days_next_month [of "tm_full_year tm'" "tm_mon tm'"]
    by (simp add: assms normMonth_keeps civil_days_def normMonth_def tm_full_year_def remFloor_mod divFloor_div ac_simps)
  finally show ?thesis by (simp add: instant_def tm_full_year_def assms normMonth_keeps)
qed

lemma normTm_up_spec:
  assumes "month_ok tm" "clock_ok tm" "tm_mday tm \<le> daysInMonth tm"
  shows "normal (normTm_up tm) \<and> instant (normTm_up tm) = instant tm"
  using assms
proof (induction tm rule: normTm_up.induct)
  case (1 tm)
  show ?case
  proof (cases "tm_mday tm < 1")
    case True
    define tm' where "tm' = normMonth (tm\<lparr>tm_mon := tm_mon tm - 1\<rparr>)"
    let ?next = "tm'\<lparr>tm_mday := tm_mday tm' + daysInMonth tm'\<rparr>"
    have "month_ok ?next" "clock_ok ?next" "tm_mday ?next \<le> daysInMonth ?next"
      using normMonth_ok [of "tm\<lparr>tm_mon := tm_mon tm - 1\<rparr>"] "1.prems"(2) True
      by (simp_all add: month_ok_def clock_ok_def tm'_def normMonth_keeps daysInMonth_def isLeapYear_def tm_full_year_def)
    then show ?thesis using "1.IH" [OF True tm'_def] month_back_instant [OF tm'_def] True
      by (simp add: normTm_up.simps [of tm] tm'_def Let_def)
  next
    case False
    then show ?thesis using "1.prems" by (simp add: normTm_up.simps [of tm] normal_def)
  qed
qed

lemma normTm_spec: "normal (normTm tm) \<and> instant (normTm tm) = instant tm"
proof -
  let ?m = "normMonth (norm_clock tm)"
  have m: "month_ok ?m" "clock_ok ?m" "instant ?m = instant tm"
    using normMonth_ok norm_clock_instant [of tm] by (simp_all add: normMonth_instant)
  show ?thesis using normTm_up_spec [of "normTm_down ?m"] normTm_down_spec [OF m(1,2)] m(3)
    by (simp add: normTm_def)
qed

section \<open>Normal times and their seconds\<close>

lemma month_length_nonneg: "m \<le> 11 \<Longrightarrow> 0 \<le> month_length y m"
  using month_length_range [of m y] by simp

lemma month_start_bound: "m < 12 \<Longrightarrow> month_start y m + month_length y m \<le> year_length y"
proof -
  assume m: "m < 12"
  have "month_start y k \<le> month_start y (k + j)" if "k + j \<le> 12" for k j
    using that by (induction j) (auto simp: month_start_next dest: month_length_nonneg [of _ y])
  from this [of "Suc m" "12 - Suc m"] m show ?thesis by (simp add: month_start_next month_start_12)
qed

lemma day_of_year_range:
  assumes "normal tm"
  shows "0 \<le> month_start (tm_full_year tm) (nat (tm_mon tm)) + tm_mday tm - 1"
    "month_start (tm_full_year tm) (nat (tm_mon tm)) + tm_mday tm - 1 < year_length (tm_full_year tm)"
proof -
  have n: "nat (tm_mon tm) < 12" "1 \<le> tm_mday tm" "tm_mday tm \<le> month_length (tm_full_year tm) (nat (tm_mon tm))"
    using assms table_index [of tm] by (auto simp: normal_def daysInMonth_calendar)
  have "0 \<le> month_start y m" if "m \<le> 12" for y m
    using that by (induction m) (auto simp: month_start_next month_start_0 dest: month_length_nonneg [of _ y])
  from this [of "nat (tm_mon tm)" "tm_full_year tm"]
  show "0 \<le> month_start (tm_full_year tm) (nat (tm_mon tm)) + tm_mday tm - 1" using n by simp
  show "month_start (tm_full_year tm) (nat (tm_mon tm)) + tm_mday tm - 1 < year_length (tm_full_year tm)"
    using month_start_bound [OF n(1), of "tm_full_year tm"] n by linarith
qed

lemma leapDays_calendar: "1 \<le> y \<Longrightarrow> (y - epochYear) * 365 + leapDaysFromEpochToYear y = year_start y"
  by (simp add: year_start_closed year_start_formula_def leapDaysFromEpochToYear_def epochYear_def sdiv_pos Let_def)

lemma normal_instant:
  assumes "normal tm"
  shows "instant tm = 86400 * (year_start (tm_full_year tm) + month_start (tm_full_year tm) (nat (tm_mon tm)) + tm_mday tm - 1) +
    3600 * tm_hour tm + 60 * tm_min tm + tm_sec tm"
  using assms by (simp add: normal_def month_ok_def instant_def civil_days_def)

lemma timeGm_instant:
  assumes "1 \<le> tm_full_year (normTm tm)"
  shows "timeGm lim tm = (if tm_full_year (normTm tm) < MINIMUM_YEAR lim \<or> tm_full_year (normTm tm) > MAXIMUM_YEAR lim
    then Inl DateTimeException else Inr (instant tm))"
proof -
  have n: "normal (normTm tm)" "instant (normTm tm) = instant tm" using normTm_spec by blast+
  then show ?thesis using leapDays_calendar [OF assms] daysToMonthStart_calendar [of "normTm tm"]
    normal_instant [OF n(1)] by (simp add: timeGm_def Let_def normal_def algebra_simps)
qed


section \<open>From seconds to broken-down time\<close>

lemma year_start_cycle: "year_start (y + 400 * q) = year_start y + 146097 * q"
proof -
  have split: "y + 400 * q - 1 = y - 1 + q * 100 * 4" "y + 400 * q - 1 = y - 1 + q * 4 * 100" "y + 400 * q - 1 = y - 1 + q * 400"
    by simp_all
  have d4: "(y + 400 * q - 1) div 4 = q * 100 + (y - 1) div 4"
    unfolding split(1) by (rule div_mult_self1) simp
  have d100: "(y + 400 * q - 1) div 100 = q * 4 + (y - 1) div 100"
    unfolding split(2) by (rule div_mult_self1) simp
  have d400: "(y + 400 * q - 1) div 400 = q + (y - 1) div 400"
    unfolding split(3) by (rule div_mult_self1) simp
  show ?thesis unfolding year_start_closed year_start_formula_def d4 d100 d400 by (simp only: ring_distribs)
qed

lemma gm_year_spec:
  assumes "0 \<le> d" "gm_year y d = (y', d')"
  shows "year_start y' + d' = year_start y + d \<and> 0 \<le> d' \<and> d' < year_length y'"
  using assms
proof (induction y d rule: gm_year.induct)
  case (1 y d)
  then show ?case by (cases "d < year_length y") (auto simp: gm_year.simps [of y d] year_start_next)
qed

lemma gm_month_spec:
  assumes "0 \<le> d" "m \<le> 11" "month_start y m + d < year_length y" "gm_month y m d = (m', d')"
  shows "month_start y m' + d' = month_start y m + d \<and> m' \<le> 11 \<and> 0 \<le> d' \<and> d' < month_length y m'"
  using assms
proof (induction y m d rule: gm_month.induct)
  case (1 y m d)
  show ?case
  proof (cases "11 \<le> m \<or> d < month_length y m")
    case True
    have "d < month_length y m"
    proof (cases "m = 11")
      case True
      then have "month_start y 12 = month_start y m + month_length y m" using month_start_next [of y 11] by simp
      then show ?thesis using "1.prems"(3) by (simp add: month_start_12)
    qed (use True "1.prems"(2) in simp)
    then show ?thesis using True "1.prems" by (simp add: gm_month.simps [of y m d])
  next
    case False
    then show ?thesis using "1.IH" "1.prems" by (simp add: gm_month.simps [of y m d] month_start_next)
  qed
qed

lemma seconds_split: "s = 3600 * (s div 60 div 60) + 60 * (s div 60 mod 60) + s mod 60" for s :: int
proof -
  define q r q2 r2 where "q = s div 60" "r = s mod 60" "q2 = q div 60" "r2 = q mod 60"
  then have "s = 60 * q + r" "q = 60 * q2 + r2" by simp_all
  then have "s = 3600 * q2 + 60 * r2 + r" by simp
  then show ?thesis by (simp only: \<open>q2 = q div 60\<close> \<open>r2 = q mod 60\<close> \<open>r = s mod 60\<close> \<open>q = s div 60\<close>)
qed

lemma hour_range: "0 \<le> s \<Longrightarrow> s < 86400 \<Longrightarrow> 0 \<le> s div 3600 \<and> s div 3600 < (24 :: int)"
  by (simp add: pos_imp_zdiv_nonneg_iff)

lemma gmtime_normal: "normal (gmtime_r t) \<and> instant (gmtime_r t) = t"
proof -
  let ?day = "t div 86400" let ?s = "t mod 86400"
  obtain y d where y: "gm_year (1970 + 400 * (?day div 146097)) (?day mod 146097) = (y, d)" by fastforce
  obtain m d' where m: "gm_month y 0 d = (m, d')" by fastforce
  have y': "year_start y + d = ?day" "0 \<le> d" "d < year_length y"
    using gm_year_spec [OF _ y] year_start_cycle [of 1970 "?day div 146097"]
    by (simp_all add: year_start_def)
  have m': "month_start y m + d' = d" "m < 12" "0 \<le> d'" "d' < month_length y m"
    using gm_month_spec [OF y'(2) _ _ m] y'(3) by (simp_all add: month_start_0)
  have g: "gmtime_r t = \<lparr>tm_sec = ?s mod 60, tm_min = ?s div 60 mod 60, tm_hour = ?s div 3600, tm_mday = d' + 1,
       tm_mon = int m, tm_year = y - 1900, tm_wday = (?day + 4) mod 7, tm_isdst = 0\<rparr>"
    by (simp add: gmtime_r_def Let_def y m)
  have s: "0 \<le> ?s" "?s < 86400" by simp_all
  have h: "?s div 3600 = ?s div 60 div 60" by (simp add: zdiv_zmult2_eq [symmetric])
  have "0 \<le> ?s div 3600" "?s div 3600 < 24" using hour_range [OF s] by blast+
  then have n: "normal (gmtime_r t)"
    using m'(2-4) by (simp add: g normal_def clock_ok_def month_ok_def daysInMonth_calendar tm_full_year_def tmYearBase_def)
  have clock: "3600 * (?s div 3600) + 60 * (?s div 60 mod 60) + ?s mod 60 = ?s"
    unfolding h by (rule seconds_split [symmetric])
  have day: "year_start y + month_start y m + (d' + 1) - 1 = ?day" using y'(1) m'(1) by linarith
  have "instant (gmtime_r t) = 86400 * (year_start y + month_start y m + (d' + 1) - 1) +
      3600 * (?s div 3600) + 60 * (?s div 60 mod 60) + ?s mod 60"
    unfolding normal_instant [OF n] unfolding g tm_full_year_def tmYearBase_def tm.simps by (simp only: diff_add_cancel nat_int)
  also have "\<dots> = 86400 * ?day + ?s" unfolding day using clock by linarith
  also have "\<dots> = t" by simp
  finally have "instant (gmtime_r t) = t" .
  then show ?thesis using n by blast
qed

text \<open>A normal time is determined by its second, but for the day of the week and the flag.\<close>

definition same_time :: "tm \<Rightarrow> tm \<Rightarrow> bool" where
  "same_time a b \<longleftrightarrow> tm_sec a = tm_sec b \<and> tm_min a = tm_min b \<and> tm_hour a = tm_hour b \<and>
     tm_mday a = tm_mday b \<and> tm_mon a = tm_mon b \<and> tm_year a = tm_year b"

lemma year_start_mono: "y < y' \<Longrightarrow> year_start y + year_length y \<le> year_start y'"
proof (induction "nat (y' - y)" arbitrary: y)
  case (Suc n)
  show ?case
  proof (cases "y' = y + 1")
    case False
    then have "year_start (y + 1) + year_length (y + 1) \<le> year_start y'" using Suc by (intro Suc.hyps) auto
    moreover have "0 \<le> year_length (y + 1)" by (simp add: year_length_def)
    ultimately show ?thesis by (simp add: year_start_next)
  qed (simp add: year_start_next)
qed simp

lemma month_start_mono: "m < m' \<Longrightarrow> m' \<le> 12 \<Longrightarrow> month_start y m + month_length y m \<le> month_start y m'"
proof (induction m' arbitrary: m)
  case (Suc k)
  show ?case
  proof (cases "m = k")
    case False
    then have "month_start y m + month_length y m \<le> month_start y k" using Suc by auto
    then show ?thesis using month_length_nonneg [of k y] Suc.prems(2) by (simp add: month_start_next)
  qed (simp add: month_start_next)
qed simp

lemma digits_unique:
  fixes a b n :: int
  assumes "n * a + b = n * a' + b'" "0 \<le> b" "b < n" "0 \<le> b'" "b' < n"
  shows "a = a' \<and> b = b'"
proof -
  have "(n * a + b) div n = a" by (rule int_div_pos_eq [OF refl assms(2,3)])
  moreover have "(n * a' + b') div n = a'" by (rule int_div_pos_eq [OF refl assms(4,5)])
  ultimately show ?thesis using assms(1) by simp
qed

lemma normal_unique:
  assumes a: "normal a" and b: "normal b" and e: "instant a = instant b"
  shows "same_time a b"
proof -
  let ?d = "\<lambda>tm. year_start (tm_full_year tm) + month_start (tm_full_year tm) (nat (tm_mon tm)) + tm_mday tm - 1"
  let ?s = "\<lambda>tm. 3600 * tm_hour tm + 60 * tm_min tm + tm_sec tm"
  have c: "clock_ok a" "clock_ok b" using a b by (simp_all add: normal_def)
  then have "?d a = ?d b \<and> ?s a = ?s b"
    using e unfolding normal_instant [OF a] normal_instant [OF b]
    by (intro digits_unique [of 86400]) (simp_all add: clock_ok_def)
  then have d: "?d a = ?d b" and s: "?s a = ?s b" by blast+
  have "tm_hour a = tm_hour b \<and> 60 * tm_min a + tm_sec a = 60 * tm_min b + tm_sec b"
    using s c by (intro digits_unique [of 3600]) (simp_all add: clock_ok_def)
  then have clock: "tm_hour a = tm_hour b" "tm_min a = tm_min b \<and> tm_sec a = tm_sec b"
    using c by (blast, intro digits_unique [of 60]) (simp_all add: clock_ok_def)
  have y: "tm_full_year a = tm_full_year b"
    using d day_of_year_range [OF a] day_of_year_range [OF b]
      year_start_mono [of "tm_full_year a" "tm_full_year b"] year_start_mono [of "tm_full_year b" "tm_full_year a"]
    by linarith
  have m: "nat (tm_mon a) < 12" "nat (tm_mon b) < 12" "0 \<le> tm_mon a" "0 \<le> tm_mon b"
    using a b table_index by (auto simp: normal_def month_ok_def)
  have "\<not> nat (tm_mon a) < nat (tm_mon b)"
    using d a b m month_start_mono [of "nat (tm_mon a)" "nat (tm_mon b)" "tm_full_year a"]
    unfolding normal_def daysInMonth_calendar y by linarith
  moreover have "\<not> nat (tm_mon b) < nat (tm_mon a)"
    using d a b m month_start_mono [of "nat (tm_mon b)" "nat (tm_mon a)" "tm_full_year a"]
    unfolding normal_def daysInMonth_calendar y by linarith
  ultimately have "nat (tm_mon a) = nat (tm_mon b)" by linarith
  then show ?thesis using d y m clock by (simp add: same_time_def tm_full_year_def)
qed


section \<open>What timeGm computes\<close>

lemma gmtime_year: "tm_full_year (gmtime_r (instant tm)) = tm_full_year (normTm tm)"
  using normal_unique [of "gmtime_r (instant tm)" "normTm tm"] gmtime_normal [of "instant tm"] normTm_spec [of tm]
  by (simp add: same_time_def tm_full_year_def)

lemma timeGm_year_0:
  assumes "tm_full_year (normTm tm) = 0"
  shows "timeGm lim tm = (if MINIMUM_YEAR lim \<le> 0 \<and> 0 \<le> MAXIMUM_YEAR lim
    then Inr (instant tm + 86400) else Inl DateTimeException)"
proof -
  have n: "normal (normTm tm)" "instant (normTm tm) = instant tm" using normTm_spec by blast+
  have "(0 - epochYear) * 365 + leapDaysFromEpochToYear 0 = year_start 0 + 1"
    by (simp add: year_start_closed year_start_formula_def leapDaysFromEpochToYear_def epochYear_def Let_def signed_divide_int_def)
  then show ?thesis using daysToMonthStart_calendar [of "normTm tm"] n(1)
      normal_instant [OF n(1)] n(2)
    by (simp add: timeGm_def Let_def assms normal_def algebra_simps)
qed

lemma timeGm_exact:
  assumes "0 \<le> MINIMUM_YEAR lim"
  shows "timeGm lim tm = (let y = tm_full_year (normTm tm) in
    if y < MINIMUM_YEAR lim \<or> y > MAXIMUM_YEAR lim then Inl DateTimeException
    else Inr (instant tm + (if y = 0 then 86400 else 0)))"
proof -
  consider "tm_full_year (normTm tm) < 0" | "tm_full_year (normTm tm) = 0" | "1 \<le> tm_full_year (normTm tm)"
    by linarith
  then show ?thesis
  proof cases
    case 1
    then show ?thesis using assms by (simp add: timeGm_def Let_def)
  next
    case 2
    then show ?thesis using assms by (simp add: timeGm_year_0 Let_def not_less)
  next
    case 3
    then show ?thesis using timeGm_instant [OF 3, of lim] by (simp add: Let_def)
  qed
qed

text \<open>
  C13. timeGm() counts seconds as the Gregorian calendar does, but for year 0. For any fields, in
  their ranges or not (months outside 0..11, days beyond the month or before its first, hours,
  minutes and seconds carried over), the two loops of normTm() end and the result is 86400 times
  the sum of the lengths of the years and months before the date, plus the day and the clock; it
  is one day more for a date of year 0, and a DateTimeException for a year outside the limits,
  which configure never puts below 0.
\<close>

theorem timeGm_counts_seconds:
  assumes "0 \<le> MINIMUM_YEAR lim"
  shows "timeGm lim tm = (let y = tm_full_year (gmtime_r (instant tm)) in
    if y < MINIMUM_YEAR lim \<or> y > MAXIMUM_YEAR lim then Inl DateTimeException
    else Inr (instant tm + (if y = 0 then 86400 else 0)))"
  using timeGm_exact [OF assms, of tm] by (simp add: gmtime_year)

theorem timeGm_counts_seconds_witness:
  "timeGm \<lparr>MINIMUM_YEAR = 1902, MAXIMUM_YEAR = 2037, MINIMUM_TIME = -2145916800, MAXIMUM_TIME = 2145916799\<rparr>
     \<lparr>tm_sec = -1, tm_min = 60, tm_hour = 0, tm_mday = 0, tm_mon = 14, tm_year = 100, tm_wday = 0, tm_isdst = 0\<rparr> = Inr 983321999"
proof -
  let ?tm = "\<lparr>tm_sec = -1, tm_min = 60, tm_hour = 0, tm_mday = 0, tm_mon = 14, tm_year = 100, tm_wday = 0, tm_isdst = 0\<rparr>"
  have i: "instant ?tm = 983321999"
    by (simp add: instant_def civil_days_def tm_full_year_def tmYearBase_def year_start_closed year_start_formula_def
        eval_nat_numeral month_start_table leap_def)
  have "tm_full_year (gmtime_r 983321999) = 2001" by code_simp
  then show ?thesis using timeGm_counts_seconds [of "\<lparr>MINIMUM_YEAR = 1902, MAXIMUM_YEAR = 2037,
    MINIMUM_TIME = -2145916800, MAXIMUM_TIME = 2145916799\<rparr>" ?tm] by (simp add: i)
qed

text \<open>
  timeGm() and the C library's gmtime_r() are inverse to each other: a second of a year
  within the limits, broken down and put together again, is the same second, and the fields of
  a time that timeGm() accepts are, broken down again from its second, the normalised fields.
\<close>

theorem timeGm_gmtime_roundtrip:
  assumes "1 \<le> MINIMUM_YEAR lim"
  shows "(MINIMUM_YEAR lim \<le> tm_full_year (gmtime_r t) \<and> tm_full_year (gmtime_r t) \<le> MAXIMUM_YEAR lim \<longrightarrow>
      timeGm lim (gmtime_r t) = Inr t) \<and>
    (timeGm lim tm = Inr t \<longrightarrow> same_time (gmtime_r t) (normTm tm))"
proof (intro conjI impI)
  assume y: "MINIMUM_YEAR lim \<le> tm_full_year (gmtime_r t) \<and> tm_full_year (gmtime_r t) \<le> MAXIMUM_YEAR lim"
  have i: "instant (gmtime_r t) = t" using gmtime_normal by blast
  show "timeGm lim (gmtime_r t) = Inr t"
    using timeGm_instant [of "gmtime_r t" lim] gmtime_year [of "gmtime_r t"] y assms by (simp add: i)
next
  assume e: "timeGm lim tm = Inr t"
  then have "1 \<le> tm_full_year (normTm tm)" using assms by (simp add: timeGm_def Let_def split: if_splits)
  then have "instant tm = t" using timeGm_instant [of tm lim] e by (simp split: if_splits)
  then show "same_time (gmtime_r t) (normTm tm)"
    using normal_unique [of "gmtime_r t" "normTm tm"] gmtime_normal [of t] normTm_spec [of tm] by simp
qed

theorem timeGm_gmtime_roundtrip_witness:
  "timeGm \<lparr>MINIMUM_YEAR = 1902, MAXIMUM_YEAR = 2037, MINIMUM_TIME = -2145916800, MAXIMUM_TIME = 2145916799\<rparr>
     (gmtime_r 1075372962) = Inr 1075372962"
proof -
  have "tm_full_year (gmtime_r 1075372962) = 2004" by code_simp
  then show ?thesis using timeGm_gmtime_roundtrip [of "\<lparr>MINIMUM_YEAR = 1902, MAXIMUM_YEAR = 2037,
    MINIMUM_TIME = -2145916800, MAXIMUM_TIME = 2145916799\<rparr>" 1075372962] by simp
qed

text \<open>
  Year 0 is a day late. Where configure finds that the C library accepts year 0, a date of
  that year is given the second one day after the one the calendar and gmtime_r() give it: the
  divisions of year - 1 = -1 in leapDaysFromEpochToYear() round up to 0. Its last day has the
  same second as the first day of year 1.
\<close>

theorem year_0_is_a_day_late:
  assumes "MINIMUM_YEAR lim \<le> 0" "0 \<le> MAXIMUM_YEAR lim" "tm_full_year (gmtime_r t) = 0"
  shows "timeGm lim (gmtime_r t) = Inr (t + 86400)"
proof -
  have "instant (gmtime_r t) = t" using gmtime_normal by blast
  then show ?thesis using timeGm_year_0 [of "gmtime_r t" lim] gmtime_year [of "gmtime_r t"] assms by simp
qed

theorem year_0_is_a_day_late_witness:
  "timeGm \<lparr>MINIMUM_YEAR = 0, MAXIMUM_YEAR = 9999, MINIMUM_TIME = -62167219200, MAXIMUM_TIME = 253402300799\<rparr>
     (gmtime_r (-62167219200)) = Inr (-62167219200 + 86400)"
  by (rule year_0_is_a_day_late) (simp_all, code_simp)

end
