(* ===== verification/DateTime_Props.thy ===== *)
theory DateTime_Props
  imports DateTime TmUtils_Props
begin

text \<open>
  What the operations on times and durations keep and compute: the invariant written at the
  head of \<open>DateTime.cpp\<close>, exact arithmetic in microseconds, the order, the parts of a
  duration, and the operations that break what the comments promise.
\<close>

section \<open>The limits and the invariant\<close>

text \<open>What \<open>configure\<close> computes: whole years, searched down to 0 and up to 9999, with their first
  and last second.\<close>

definition limits_ok :: "'a time_limits_scheme \<Rightarrow> bool" where
  "limits_ok lim \<longleftrightarrow> 0 \<le> MINIMUM_YEAR lim \<and> MINIMUM_YEAR lim \<le> 1970 \<and> 1970 \<le> MAXIMUM_YEAR lim \<and>
     MAXIMUM_YEAR lim \<le> 9999 \<and> MINIMUM_TIME lim = 86400 * year_start (MINIMUM_YEAR lim) \<and>
     MAXIMUM_TIME lim = 86400 * year_start (MAXIMUM_YEAR lim + 1) - 1"

definition normal_dt :: "'a time_limits_scheme \<Rightarrow> DateTime \<Rightarrow> bool" where
  "normal_dt lim dt \<longleftrightarrow> MINIMUM_TIME lim \<le> m_seconds dt \<and> m_seconds dt \<le> MAXIMUM_TIME lim \<and>
     0 \<le> m_microseconds dt \<and> m_microseconds dt < MICROSECONDS_PER_SECOND"

definition dt_ok :: "'a time_limits_scheme \<Rightarrow> DateTime \<Rightarrow> bool" where
  "dt_ok lim dt \<longleftrightarrow> dt = getPosInfinity \<or> dt = getNegInfinity \<or> dt = getNADT \<or> normal_dt lim dt"

lemmas special_values = getPosInfinity_def getNegInfinity_def getNADT_def POS_INF_SEC_def POS_INF_USEC_def
  NEG_INF_SEC_def NEG_INF_USEC_def NADT_SEC_def NADT_USEC_def MICROSECONDS_PER_SECOND_def

lemma year_start_le: "y \<le> y' \<Longrightarrow> year_start y \<le> year_start y'"
  using year_start_mono [of y y'] by (cases "y = y'") (auto simp: year_length_def split: if_splits)

lemma limits_bounds:
  assumes "limits_ok lim"
  shows "- (2 ^ 36) \<le> MINIMUM_TIME lim" "MINIMUM_TIME lim \<le> 0" "0 \<le> MAXIMUM_TIME lim" "MAXIMUM_TIME lim \<le> 2 ^ 38"
proof -
  have v: "year_start 0 = -719528" "year_start 1970 = 0" "year_start 1971 = 365" "year_start 10000 = 2932897"
    by (simp_all add: year_start_closed year_start_formula_def)
  show "- (2 ^ 36) \<le> MINIMUM_TIME lim" "MINIMUM_TIME lim \<le> 0" "0 \<le> MAXIMUM_TIME lim" "MAXIMUM_TIME lim \<le> 2 ^ 38"
    using assms v year_start_le [of 0 "MINIMUM_YEAR lim"] year_start_le [of "MINIMUM_YEAR lim" 1970]
      year_start_le [of 1971 "MAXIMUM_YEAR lim + 1"] year_start_le [of "MAXIMUM_YEAR lim + 1" 10000]
    by (simp_all add: limits_ok_def)
qed

lemma wrap64_id: "- (2 ^ 63) \<le> x \<Longrightarrow> x < 2 ^ 63 \<Longrightarrow> wrap64 x = x"
  by (simp add: wrap64_def signed_take_bit_int_eq_self)

lemma wrap32_id: "- (2 ^ 31) \<le> x \<Longrightarrow> x < 2 ^ 31 \<Longrightarrow> wrap32 x = x"
  by (simp add: wrap32_def signed_take_bit_int_eq_self)

lemma flag_cases:
  "getSpecialTimeFlag getPosInfinity = E_TIME_POS_INFINITY" "getSpecialTimeFlag getNegInfinity = E_TIME_NEG_INFINITY"
  "getSpecialTimeFlag getNADT = E_TIME_NADT"
  "normal_dt lim dt \<Longrightarrow> getSpecialTimeFlag dt = E_TIME_NOT_SPECIAL"
  by (simp_all add: getSpecialTimeFlag_def getSpecialTimeFlagImpl_def normal_dt_def special_values)

lemma normal_not_special: "normal_dt lim dt \<Longrightarrow> \<not> haveSpecialValue (m_microseconds dt)"
  by (simp add: normal_dt_def haveSpecialValue_def)

section \<open>Normalising\<close>

text \<open>The microseconds since the epoch.\<close>

definition micros :: "DateTime \<Rightarrow> int" where
  "micros dt = m_seconds dt * MICROSECONDS_PER_SECOND + m_microseconds dt"

lemma normalizeTime_spec:
  assumes "- (2 ^ 62) \<le> s" "s < 2 ^ 62" "- (2 ^ 62) \<le> us" "us < 2 ^ 62"
  shows "DateTime_of_time lim s us =
    (let q = (s * MICROSECONDS_PER_SECOND + us) div MICROSECONDS_PER_SECOND in
     if q < MINIMUM_TIME lim \<or> q > MAXIMUM_TIME lim then Inl DateTimeException
     else Inr \<lparr>m_seconds = q, m_microseconds = (s * MICROSECONDS_PER_SECOND + us) mod MICROSECONDS_PER_SECOND\<rparr>)"
proof -
  have q: "(s * MICROSECONDS_PER_SECOND + us) div MICROSECONDS_PER_SECOND = s + us div MICROSECONDS_PER_SECOND"
    "(s * MICROSECONDS_PER_SECOND + us) mod MICROSECONDS_PER_SECOND = us mod MICROSECONDS_PER_SECOND"
    by (simp_all add: MICROSECONDS_PER_SECOND_def)
  have "us div MICROSECONDS_PER_SECOND < 2 ^ 62" "- (2 ^ 62) \<le> us div MICROSECONDS_PER_SECOND"
    using assms(3,4) by (simp_all add: MICROSECONDS_PER_SECOND_def)
  then have "wrap64 (s + us div MICROSECONDS_PER_SECOND) = s + us div MICROSECONDS_PER_SECOND"
    using assms(1,2) by (intro wrap64_id) simp_all
  then show ?thesis
    by (simp add: DateTime_of_time_def normalizeTime_def Let_def q divFloor_div remFloor_mod MICROSECONDS_PER_SECOND_def)
qed

lemma micros_split: "micros \<lparr>m_seconds = t div MICROSECONDS_PER_SECOND, m_microseconds = t mod MICROSECONDS_PER_SECOND\<rparr> = t"
  by (simp add: micros_def)

lemma micros_div:
  assumes "normal_dt lim dt"
  shows "micros dt div MICROSECONDS_PER_SECOND = m_seconds dt" "micros dt mod MICROSECONDS_PER_SECOND = m_microseconds dt"
  using assms by (simp_all add: micros_def normal_dt_def MICROSECONDS_PER_SECOND_def)

lemma DateTime_of_time_normal: "DateTime_of_time lim s us = Inr dt \<Longrightarrow> normal_dt lim dt"
  by (auto simp: DateTime_of_time_def normalizeTime_def Let_def normal_dt_def remFloor_mod MICROSECONDS_PER_SECOND_def
      split: if_splits)

section \<open>Durations\<close>

lemma duration_split:
  assumes "td_special td = E_TIME_NOT_SPECIAL"
  shows "td_microseconds td = ((td_microseconds td - microsecondInSecond td) sdiv MICROSECONDS_PER_SECOND) * MICROSECONDS_PER_SECOND
      + microsecondInSecond td"
    "0 \<le> microsecondInSecond td" "microsecondInSecond td \<le> MICROSECONDS_PER_SECOND"
proof -
  let ?x = "td_microseconds td" and ?u = "microsecondInSecond td" and ?M = MICROSECONDS_PER_SECOND
  have M: "0 < ?M" by (simp add: MICROSECONDS_PER_SECOND_def)
  have u: "?u = (if ?x < 0 then ?M - (- ?x) mod ?M else ?x mod ?M)"
    by (simp add: microsecondInSecond_def smod_pos smod_upto0 MICROSECONDS_PER_SECOND_def)
  have "(?x - ?u) mod ?M = 0"
  proof (cases "?x < 0")
    case True
    have "?x - ?u = - ((- ?x) - (- ?x) mod ?M) - ?M" using True by (simp add: u)
    also have "\<dots> = ?M * (- ((- ?x) div ?M) - 1)" by (simp add: minus_mod_eq_mult_div algebra_simps)
    finally show ?thesis by simp
  qed (simp add: u minus_mod_eq_mult_div)
  then obtain k where k: "?x - ?u = ?M * k" by blast
  have "(?M * k) sdiv ?M = k"
    using M nonzero_mult_div_cancel_left [of ?M "- k"]
    by (cases "0 \<le> k") (simp_all add: sdiv_pos sdiv_neg mult_pos_neg)
  then show "?x = ((?x - ?u) sdiv ?M) * ?M + ?u" using k by (simp add: mult.commute)
  show "0 \<le> ?u" "?u \<le> ?M" using M pos_mod_bound [OF M, of "- ?x"] pos_mod_sign [OF M] by (auto simp: u less_imp_le)
qed

lemma dt_plus_spec:
  assumes l: "limits_ok lim" and dt: "normal_dt lim dt" and td: "td_special td = E_TIME_NOT_SPECIAL"
    and b: "- (2 ^ 63) \<le> td_microseconds td" "td_microseconds td < 2 ^ 63"
  shows "dt_plus lim dt td =
    (let q = (micros dt + td_microseconds td) div MICROSECONDS_PER_SECOND in
     if q < MINIMUM_TIME lim \<or> q > MAXIMUM_TIME lim then Inl DateTimeException
     else Inr \<lparr>m_seconds = q, m_microseconds = (micros dt + td_microseconds td) mod MICROSECONDS_PER_SECOND\<rparr>)"
proof -
  let ?M = MICROSECONDS_PER_SECOND and ?u = "microsecondInSecond td"
  define k where "k = (td_microseconds td - ?u) sdiv ?M"
  have x: "td_microseconds td = k * ?M + ?u" and u: "0 \<le> ?u" "?u \<le> ?M"
    using duration_split [OF td] by (simp_all add: k_def)
  have k: "- (2 ^ 44) \<le> k" "k \<le> 2 ^ 44" using x u b by (simp_all add: MICROSECONDS_PER_SECOND_def)
  have s: "- (2 ^ 36) \<le> m_seconds dt" "m_seconds dt \<le> 2 ^ 38" "0 \<le> m_microseconds dt" "m_microseconds dt < ?M"
    using limits_bounds [OF l] dt by (simp_all add: normal_dt_def)
  have w: "wrap64 (m_seconds dt + k) = m_seconds dt + k" using k s by (intro wrap64_id) simp_all
  have "dt_plus lim dt td = DateTime_of_time lim (m_seconds dt + k) (m_microseconds dt + ?u)"
    using w by (simp add: dt_plus_def Let_def flag_cases(4) [OF dt] td k_def)
  also have "\<dots> = (let q = ((m_seconds dt + k) * ?M + (m_microseconds dt + ?u)) div ?M in
     if q < MINIMUM_TIME lim \<or> q > MAXIMUM_TIME lim then Inl DateTimeException
     else Inr \<lparr>m_seconds = q, m_microseconds = ((m_seconds dt + k) * ?M + (m_microseconds dt + ?u)) mod ?M\<rparr>)"
    by (rule normalizeTime_spec) (use k s u in \<open>simp_all add: MICROSECONDS_PER_SECOND_def\<close>)
  also have "(m_seconds dt + k) * ?M + (m_microseconds dt + ?u) = micros dt + td_microseconds td"
    unfolding micros_def x by (simp only: ring_distribs ac_simps)
  finally show ?thesis .
qed

lemma dt_minus_spec:
  assumes l: "limits_ok lim" and x: "normal_dt lim x" and y: "normal_dt lim y"
  shows "dt_minus x y = duration (micros x - micros y)"
proof -
  have s: "- (2 ^ 36) \<le> m_seconds x" "m_seconds x \<le> 2 ^ 38" "- (2 ^ 36) \<le> m_seconds y" "m_seconds y \<le> 2 ^ 38"
      "0 \<le> m_microseconds x" "m_microseconds x < 1000000" "0 \<le> m_microseconds y" "m_microseconds y < 1000000"
    using limits_bounds [OF l] x y by (simp_all add: normal_dt_def MICROSECONDS_PER_SECOND_def)
  have w: "wrap64 (m_seconds x - m_seconds y) = m_seconds x - m_seconds y" using s by (intro wrap64_id) simp_all
  have v: "wrap64 ((m_seconds x - m_seconds y) * 1000000 + (m_microseconds x - m_microseconds y)) =
      (m_seconds x - m_seconds y) * 1000000 + (m_microseconds x - m_microseconds y)"
    using s by (intro wrap64_id) simp_all
  show ?thesis
    unfolding dt_minus_def Let_def flag_cases(4) [OF x] flag_cases(4) [OF y] w MICROSECONDS_PER_SECOND_def v
    by (simp add: micros_def MICROSECONDS_PER_SECOND_def algebra_simps)
qed


section \<open>Fields\<close>

lemma second_of_year:
  assumes l: "limits_ok lim" and y: "MINIMUM_YEAR lim \<le> tm_full_year (normTm tm)" "tm_full_year (normTm tm) \<le> MAXIMUM_YEAR lim"
  shows "MINIMUM_TIME lim \<le> instant tm" "instant tm \<le> MAXIMUM_TIME lim"
proof -
  let ?n = "normTm tm" let ?y = "tm_full_year ?n"
  let ?d = "month_start ?y (nat (tm_mon ?n)) + tm_mday ?n - 1" let ?s = "3600 * tm_hour ?n + 60 * tm_min ?n + tm_sec ?n"
  have n: "normal ?n" "instant ?n = instant tm" using normTm_spec by blast+
  have i: "instant tm = 86400 * (year_start ?y + ?d) + ?s" using normal_instant [OF n(1)] n(2) by simp
  have s: "0 \<le> ?s" "?s < 86400" using n(1) by (auto simp: normal_def clock_ok_def)
  have d: "0 \<le> ?d" "?d < year_length ?y" by (rule day_of_year_range [OF n(1)])+
  have "year_start (MINIMUM_YEAR lim) \<le> year_start ?y" by (rule year_start_le [OF y(1)])
  then show "MINIMUM_TIME lim \<le> instant tm" using l s(1) d(1) unfolding i by (simp add: limits_ok_def)
  have "year_start ?y + year_length ?y \<le> year_start (MAXIMUM_YEAR lim + 1)"
    using year_start_mono [of ?y "MAXIMUM_YEAR lim + 1"] y(2) by simp
  then have "year_start ?y + ?d + 1 \<le> year_start (MAXIMUM_YEAR lim + 1)" using d(2) by linarith
  then have "86400 * (year_start ?y + ?d + 1) \<le> 86400 * year_start (MAXIMUM_YEAR lim + 1)" by (rule mult_left_mono) simp
  then show "instant tm \<le> MAXIMUM_TIME lim" using l s(2) unfolding i by (simp add: limits_ok_def)
qed

lemma second_of_year_0:
  assumes l: "limits_ok lim" and y: "tm_full_year (normTm tm) = 0"
  shows "instant tm + 86400 \<le> MAXIMUM_TIME lim"
proof -
  let ?n = "normTm tm"
  let ?d = "month_start 0 (nat (tm_mon ?n)) + tm_mday ?n - 1" let ?s = "3600 * tm_hour ?n + 60 * tm_min ?n + tm_sec ?n"
  have n: "normal ?n" "instant ?n = instant tm" using normTm_spec by blast+
  have i: "instant tm = 86400 * (year_start 0 + ?d) + ?s" using normal_instant [OF n(1)] n(2) y by simp
  have "?s < 86400" using n(1) by (auto simp: normal_def clock_ok_def)
  moreover have "?d < 366" using day_of_year_range(2) [OF n(1)] y by (simp add: year_length_def split: if_splits)
  moreover have "year_start 0 = -719528" "year_start 1971 = 365"
    by (simp_all add: year_start_closed year_start_formula_def)
  ultimately show ?thesis
    using l i year_start_le [of 1971 "MAXIMUM_YEAR lim + 1"] by (simp add: limits_ok_def)
qed

lemma setTime_normal:
  assumes "limits_ok pf" "0 \<le> m_microseconds dt" "m_microseconds dt < MICROSECONDS_PER_SECOND"
    and "setTime_tm pf dt tm off = Inr dt'"
  shows "normal_dt pf dt'"
proof (cases "off = E_LOCAL_TIME")
  case True
  then show ?thesis using assms by (auto simp: setTime_tm_def normal_dt_def split: option.splits if_splits)
next
  case False
  then obtain t where t: "timeGm pf tm = Inr t" "dt' = dt\<lparr>m_seconds := t\<rparr>"
    using assms(4) by (auto simp: setTime_tm_def rbind_eq_Inr_iff)
  then have y: "MINIMUM_YEAR pf \<le> tm_full_year (normTm tm)" "tm_full_year (normTm tm) \<le> MAXIMUM_YEAR pf"
    by (auto simp: timeGm_def Let_def split: if_splits)
  have "t = instant tm + (if tm_full_year (normTm tm) = 0 then 86400 else 0)"
    using timeGm_exact [of pf tm] t(1) y assms(1) by (simp add: limits_ok_def Let_def)
  moreover have "instant tm + 86400 \<le> MAXIMUM_TIME pf" if "tm_full_year (normTm tm) = 0"
    using second_of_year_0 [OF assms(1) that] .
  ultimately show ?thesis using second_of_year [OF assms(1) y] assms(2,3) t(2)
    by (simp add: normal_dt_def)
qed

lemma sint_or_negative: "sint (w :: u32) < 0 \<or> sint w = uint w"
proof (cases "uint w < 2 ^ 31")
  case True
  have "signed_take_bit 31 (uint w) = uint w" by (rule signed_take_bit_int_eq_self) (use True order_trans [of "- (2 ^ 31)" 0 "uint w"] in simp_all)
  then have "sint w = uint w" by (simp add: sint_uint)
  then show ?thesis by blast
next
  case False
  moreover have "uint w < 2 ^ 32" using uint_lt2p [of w] by simp
  ultimately have "(uint w + 2 ^ 31) mod 2 ^ 32 = uint w - 2 ^ 31"
    using mod_pos_pos_trivial [of "uint w - 2 ^ 31" "2 ^ 32"] mod_add_self2 [of "uint w - 2 ^ 31" "2 ^ 32"] by (simp add: add.commute)
  then show ?thesis using \<open>uint w < 2 ^ 32\<close> by (simp add: sint_uint signed_take_bit_eq_take_bit_shift take_bit_eq_mod)
qed

lemma sint_small: "uint (w :: u32) < 1000000 \<Longrightarrow> sint w = uint w"
  using sint_uint [of w] signed_take_bit_int_eq_self [of 31 "uint w"] order_trans [of "- (2 ^ 31)" 0 "uint w"] by simp

lemma set_fields_normal:
  assumes "limits_ok pf" "uint us < 1000000"
    and "set_fields pf dt y mo d h mi s us off = Inr dt'"
  shows "normal_dt pf dt'"
proof -
  obtain tm dt1 where 1: "setTime_tm pf dt tm off = Inr dt1" "dt' = dt1\<lparr>m_microseconds := sint us\<rparr>"
    using assms(3) by (auto simp: set_fields_def Let_def rbind_eq_Inr_iff)
  have "setTime_tm pf (dt\<lparr>m_microseconds := sint us\<rparr>) tm off = Inr dt'"
    using 1 by (auto simp: setTime_tm_def rbind_eq_Inr_iff split: if_splits option.splits)
  then show ?thesis
    by (rule setTime_normal [OF assms(1), rotated 2])
      (use assms(2) sint_small [OF assms(2)] in \<open>simp_all add: MICROSECONDS_PER_SECOND_def\<close>)
qed

lemma change_tm_normal:
  assumes "limits_ok pf" "change_tm f pf dt off = Inr dt'"
  shows "normal_dt pf dt'"
  using assms setTime_normal [OF assms(1), of dt _ off dt']
  by (auto simp: change_tm_def getTm_def checkNormalTime_def haveSpecialValue_def rbind_eq_Inr_iff split: if_splits)

lemma add_tm_ok:
  assumes "limits_ok pf" "dt_ok pf dt" "add_tm f pf dt = Inr dt'"
  shows "dt_ok pf dt'"
proof (cases "haveSpecialValue (m_microseconds dt)")
  case False
  then obtain tm where "setTime_tm pf dt tm E_UTC_TIME = Inr dt'"
    using assms(3) by (auto simp: add_tm_def rbind_eq_Inr_iff)
  moreover have "0 \<le> m_microseconds dt" "m_microseconds dt < MICROSECONDS_PER_SECOND"
    using False by (simp_all add: haveSpecialValue_def)
  ultimately show ?thesis using setTime_normal [OF assms(1)] by (simp add: dt_ok_def)
qed (use assms in \<open>simp add: add_tm_def\<close>)

lemma dt_plus_ok:
  assumes "dt_ok lim dt" "dt_plus lim dt td = Inr dt'"
  shows "dt_ok lim dt'"
proof -
  have "dt_ok lim d" if "DateTime_of_time lim s us = Inr d" for s us d
    using DateTime_of_time_normal [OF that] by (simp add: dt_ok_def)
  then show ?thesis using assms
    by (auto simp: dt_plus_def Let_def dt_ok_def split: if_splits ESpecialTime.splits)
qed

lemma uminus_ok:
  assumes "dt_ok lim dt" "dt_uminus lim dt = Inr dt'"
  shows "dt_ok lim dt'"
proof -
  have "dt_ok lim d" if "DateTime_of_time lim s us = Inr d" for s us d
    using DateTime_of_time_normal [OF that] by (simp add: dt_ok_def)
  then show ?thesis using assms
    by (auto simp: dt_uminus_def dt_ok_def split: if_splits ESpecialTime.splits)
qed

section \<open>The theorems\<close>

text \<open>The calls that return a time.\<close>

datatype dt_call = MakeSpecial ESpecialTime | MakeTime int int | SetTimeT int int | SetHour int ETimeOffset
  | SetMinute int ETimeOffset | SetSecond int ETimeOffset | SetClock int int int ETimeOffset | SetDay int ETimeOffset
  | SetMonth int ETimeOffset | SetYear int ETimeOffset | SetMicrosecond int | AddDays int | AddWeeks int | AddMonths int
  | AddYears int | Negate | AddDuration TimeDuration | SubtractDuration TimeDuration
  | MakeFields int int int int int int u32 ETimeOffset | SetFields int int int int int int u32 ETimeOffset
  | AddSeconds int | AddMinutes int | AddHours int | AddMicroseconds int

fun do_dt_call :: "platform \<Rightarrow> dt_call \<Rightarrow> DateTime \<Rightarrow> date_error + DateTime" where
  "do_dt_call pf (MakeSpecial flag) dt = Inr (DateTime_of_special flag)"
| "do_dt_call pf (MakeTime t us) dt = DateTime_of_time pf t us"
| "do_dt_call pf (SetTimeT t us) dt = set_time pf dt t us"
| "do_dt_call pf (SetHour h off) dt = setHour pf dt h off"
| "do_dt_call pf (SetMinute m off) dt = setMinute pf dt m off"
| "do_dt_call pf (SetSecond s off) dt = setSecond pf dt s off"
| "do_dt_call pf (SetClock h m s off) dt = setTime pf dt h m s off"
| "do_dt_call pf (SetDay d off) dt = setDay pf dt d off"
| "do_dt_call pf (SetMonth m off) dt = setMonth pf dt m off"
| "do_dt_call pf (SetYear y off) dt = setYear pf dt y off"
| "do_dt_call pf (SetMicrosecond us) dt = setMicrosecond dt us"
| "do_dt_call pf (AddDays n) dt = addDays pf dt n"
| "do_dt_call pf (AddWeeks n) dt = addWeeks pf dt n"
| "do_dt_call pf (AddMonths n) dt = addMonths pf dt n"
| "do_dt_call pf (AddYears n) dt = addYears pf dt n"
| "do_dt_call pf Negate dt = dt_uminus pf dt"
| "do_dt_call pf (AddDuration td) dt = dt_plus pf dt td"
| "do_dt_call pf (SubtractDuration td) dt = dt_minus_duration pf dt td"
| "do_dt_call pf (MakeFields y mo d h mi s us off) dt = DateTime_of_fields pf y mo d h mi s us off"
| "do_dt_call pf (SetFields y mo d h mi s us off) dt = set_fields pf dt y mo d h mi s us off"
| "do_dt_call pf (AddSeconds n) dt = Inr (addSeconds dt n)"
| "do_dt_call pf (AddMinutes n) dt = Inr (addMinutes dt n)"
| "do_dt_call pf (AddHours n) dt = Inr (addHours dt n)"
| "do_dt_call pf (AddMicroseconds n) dt =
     (case addMicroseconds pf dt n of (Some e, _) \<Rightarrow> Inl e | (None, dt') \<Rightarrow> Inr dt')"

text \<open>What the caller has to see to, where the code does not: microseconds below a million for
  the fields, and a sum within the limits for the additions to the second.\<close>

fun call_ok :: "platform \<Rightarrow> dt_call \<Rightarrow> DateTime \<Rightarrow> bool" where
  "call_ok pf (MakeFields y mo d h mi s us off) dt \<longleftrightarrow> uint us < 1000000"
| "call_ok pf (SetFields y mo d h mi s us off) dt \<longleftrightarrow> uint us < 1000000"
| "call_ok pf (AddSeconds n) dt \<longleftrightarrow> MINIMUM_TIME pf \<le> m_seconds dt + n \<and> m_seconds dt + n \<le> MAXIMUM_TIME pf"
| "call_ok pf (AddMinutes n) dt \<longleftrightarrow>
     MINIMUM_TIME pf \<le> m_seconds dt + n * 60 \<and> m_seconds dt + n * 60 \<le> MAXIMUM_TIME pf"
| "call_ok pf (AddHours n) dt \<longleftrightarrow>
     MINIMUM_TIME pf \<le> m_seconds dt + n * 60 * 60 \<and> m_seconds dt + n * 60 * 60 \<le> MAXIMUM_TIME pf"
| "call_ok pf _ dt \<longleftrightarrow> True"

lemma addSeconds_ok:
  assumes l: "limits_ok pf" and dt: "dt_ok pf dt"
    and n: "MINIMUM_TIME pf \<le> m_seconds dt + n" "m_seconds dt + n \<le> MAXIMUM_TIME pf"
  shows "dt_ok pf (addSeconds dt n)"
proof (cases "haveSpecialValue (m_microseconds dt)")
  case False
  then have "normal_dt pf dt" using dt by (auto simp: dt_ok_def haveSpecialValue_def special_values)
  moreover have "wrap64 (m_seconds dt + n) = m_seconds dt + n"
    using limits_bounds [OF l] n by (intro wrap64_id) simp_all
  ultimately show ?thesis using False n by (simp add: addSeconds_def dt_ok_def normal_dt_def)
qed (use dt in \<open>simp add: addSeconds_def\<close>)

lemma wrap64_add: "wrap64 (a + wrap64 b) = wrap64 (a + b)"
proof -
  have "take_bit 64 (a + signed_take_bit 63 b) = take_bit 64 (take_bit 64 a + take_bit 64 (signed_take_bit 63 b))"
    by (simp add: take_bit_add)
  also have "\<dots> = take_bit 64 (a + b)" by (simp add: take_bit_signed_take_bit take_bit_add)
  finally show ?thesis unfolding wrap64_def by (simp add: signed_take_bit_eq_iff_take_bit_eq)
qed

lemma addMinutes_seconds: "addMinutes dt n = addSeconds dt (n * 60)" "addHours dt n = addSeconds dt (n * 60 * 60)"
  by (simp_all add: addMinutes_def addHours_def addSeconds_def wrap64_add)

lemma addMicroseconds_ok:
  assumes "dt_ok pf dt" "addMicroseconds pf dt n = (None, dt')"
  shows "dt_ok pf dt'"
  using assms DateTime_of_time_normal [of pf "m_seconds dt" "wrap32 (m_microseconds dt + n)" dt']
  by (auto simp: addMicroseconds_def DateTime_of_time_def Let_def dt_ok_def split: if_splits sum.splits prod.splits)


text \<open>
  C15. The invariant of DateTime. A time that is infinite, not-a-datetime, or normal (seconds
  within the limits, microseconds in 0..999999) stays so, whenever the call does not throw,
  under the constructors from a special value, from a time_t and from fields, set() of a
  time_t and of fields, the setters of single fields, setTime(), the additions of days, weeks,
  months, years and microseconds, negation, and adding or subtracting a duration, for all
  arguments in UTC and local time, but for two conditions that the code leaves to its caller
  (call_ok): microseconds below a million given with the fields, and a sum within the limits
  for addSeconds(), addMinutes() and addHours(). The constructor from a string is not among
  the calls.
\<close>

theorem datetime_invariant:
  assumes l: "limits_ok pf" and dt: "dt_ok pf dt" and ok: "call_ok pf c dt"
    and c: "do_dt_call pf c dt = Inr dt'"
  shows "dt_ok pf dt'"
proof -
  have time: "dt_ok pf d" if "DateTime_of_time pf s us = Inr d" for s us d
    using DateTime_of_time_normal [OF that] by (simp add: dt_ok_def)
  have set: "dt_ok pf d" if "set_time pf dt s us = Inr d" for s us d
    using time [of s us d] that by (auto simp: set_time_def DateTime_of_time_def rbind_eq_Inr_iff)
  have change: "dt_ok pf d" if "change_tm f pf dt off = Inr d" for f off d
    using change_tm_normal [OF l that] by (simp add: dt_ok_def)
  have us: "dt_ok pf d" if "setMicrosecond dt n = Inr d" for n d
    using that dt by (auto simp: setMicrosecond_def checkNormalTime_def rbind_eq_Inr_iff dt_ok_def normal_dt_def
        haveSpecialValue_def special_values split: if_splits)
  have add: "dt_ok pf d" if "add_tm f pf dt = Inr d" for f d by (rule add_tm_ok [OF l dt that])
  have fields: "dt_ok pf d" if "set_fields pf x y mo dd h mi s us off = Inr d" "uint us < 1000000"
    for x y mo dd h mi s us off d
    using set_fields_normal [OF l that(2,1)] by (simp add: dt_ok_def)
  note more = addSeconds_ok [OF l dt] addMicroseconds_ok [OF dt]
  show ?thesis using c ok
  proof (cases c)
    case (MakeSpecial flag)
    show ?thesis
    proof (cases "flag = E_TIME_NOT_SPECIAL")
      case True
      then show ?thesis using c MakeSpecial limits_bounds [OF l]
        by (auto simp: dt_ok_def normal_dt_def MICROSECONDS_PER_SECOND_def)
    next
      case False
      then show ?thesis using c MakeSpecial
        by (cases flag) (auto simp: dt_ok_def getPosInfinity_def getNegInfinity_def getNADT_def)
    qed
  qed (auto simp: setHour_def setMinute_def setSecond_def setTime_def setDay_def setMonth_def setYear_def
      addDays_def addWeeks_def addMonths_def addYears_def dt_minus_duration_def
      DateTime_of_fields_def addMinutes_seconds more
      split: if_splits prod.splits option.splits dest: time set change us add fields dt_plus_ok [OF dt] uminus_ok [OF dt])
qed

abbreviation unix32 :: platform where
  "unix32 \<equiv> \<lparr>MINIMUM_YEAR = 1902, MAXIMUM_YEAR = 2037, MINIMUM_TIME = -2145916800, MAXIMUM_TIME = 2145916799,
     localtime_r = gmtime_r, mktime = (\<lambda>_. None)\<rparr>"

lemma unix32_limits: "limits_ok unix32"
  by (simp add: limits_ok_def year_start_closed year_start_formula_def)

theorem datetime_invariant_witness:
  "\<exists>dt'. do_dt_call unix32 (MakeTime 5 (-1)) new_DateTime = Inr dt' \<and> dt_ok unix32 dt'"
proof -
  have ok: "dt_ok unix32 new_DateTime" by (simp add: dt_ok_def normal_dt_def new_DateTime_def MICROSECONDS_PER_SECOND_def)
  have "is_ok (do_dt_call unix32 (MakeTime 5 (-1)) new_DateTime)" by code_simp
  then obtain dt' where "do_dt_call unix32 (MakeTime 5 (-1)) new_DateTime = Inr dt'"
    by (cases "do_dt_call unix32 (MakeTime 5 (-1)) new_DateTime") simp_all
  then show ?thesis using datetime_invariant [OF unix32_limits ok, of "MakeTime 5 (-1)"] by simp
qed

text \<open>
  C16. Times and durations add up exactly. For times and a duration that are not special,
  operator+ yields the time with exactly the sum of the microseconds, or throws a
  DateTimeException when its second is outside the limits; operator- of two times is the exact
  difference; and adding the difference of two times to the second gives the first, equal in
  both members.
\<close>

theorem times_add_up:
  assumes "limits_ok lim" "normal_dt lim x" "normal_dt lim y" "td_special td = E_TIME_NOT_SPECIAL"
    and "- (2 ^ 63) \<le> td_microseconds td" "td_microseconds td < 2 ^ 63"
  shows "(case dt_plus lim x td of
      Inl e \<Rightarrow> (let q = (micros x + td_microseconds td) div MICROSECONDS_PER_SECOND in
        q < MINIMUM_TIME lim \<or> MAXIMUM_TIME lim < q)
    | Inr z \<Rightarrow> micros z = micros x + td_microseconds td) \<and>
    dt_minus x y = duration (micros x - micros y) \<and> dt_plus lim y (dt_minus x y) = Inr x"
proof (intro conjI)
  show "case dt_plus lim x td of
      Inl e \<Rightarrow> (let q = (micros x + td_microseconds td) div MICROSECONDS_PER_SECOND in
        q < MINIMUM_TIME lim \<or> MAXIMUM_TIME lim < q)
    | Inr z \<Rightarrow> micros z = micros x + td_microseconds td"
    using dt_plus_spec [OF assms(1,2,4,5,6)] micros_split by (auto simp: Let_def)
  show m: "dt_minus x y = duration (micros x - micros y)" by (rule dt_minus_spec [OF assms(1-3)])
  have b: "m_seconds x * 1000000 \<le> 2 ^ 38 * 1000000" "- (2 ^ 36) * 1000000 \<le> m_seconds x * 1000000"
    "m_seconds y * 1000000 \<le> 2 ^ 38 * 1000000" "- (2 ^ 36) * 1000000 \<le> m_seconds y * 1000000"
    using limits_bounds [OF assms(1)] assms(2,3) by (simp_all add: normal_dt_def)
  have d: "td_special (duration (micros x - micros y)) = E_TIME_NOT_SPECIAL"
    "td_microseconds (duration (micros x - micros y)) = micros x - micros y" by (simp_all add: duration_def)
  have "- (2 ^ 63) \<le> micros x - micros y" "micros x - micros y < 2 ^ 63"
    using b assms(2,3) by (simp_all add: micros_def normal_dt_def MICROSECONDS_PER_SECOND_def)
  then have "dt_plus lim y (duration (micros x - micros y)) =
    (let q = (micros y + (micros x - micros y)) div MICROSECONDS_PER_SECOND in
     if q < MINIMUM_TIME lim \<or> q > MAXIMUM_TIME lim then Inl DateTimeException
     else Inr \<lparr>m_seconds = q, m_microseconds = (micros y + (micros x - micros y)) mod MICROSECONDS_PER_SECOND\<rparr>)"
    using dt_plus_spec [OF assms(1,3) d(1)] unfolding d(2) by blast
  moreover have "micros y + (micros x - micros y) = micros x" by simp
  ultimately show "dt_plus lim y (dt_minus x y) = Inr x"
    using assms(2) unfolding m by (simp add: Let_def micros_div [OF assms(2)]) (auto simp: normal_dt_def)
qed

theorem times_add_up_witness:
  "dt_plus unix32 \<lparr>m_seconds = 5, m_microseconds = 250000\<rparr>
     (dt_minus \<lparr>m_seconds = -7, m_microseconds = 999999\<rparr> \<lparr>m_seconds = 5, m_microseconds = 250000\<rparr>) =
     Inr \<lparr>m_seconds = -7, m_microseconds = 999999\<rparr>"
proof -
  have "normal_dt unix32 \<lparr>m_seconds = -7, m_microseconds = 999999\<rparr>" "normal_dt unix32 \<lparr>m_seconds = 5, m_microseconds = 250000\<rparr>"
    by (simp_all add: normal_dt_def MICROSECONDS_PER_SECOND_def)
  moreover have "td_special (duration 0) = E_TIME_NOT_SPECIAL" "- (2 ^ 63) \<le> td_microseconds (duration 0)"
    "td_microseconds (duration 0) < 2 ^ 63" by (simp_all add: duration_def)
  ultimately show ?thesis using times_add_up [OF unix32_limits] by blast
qed

lemma parts_of_positive:
  fixes x :: int
  assumes "0 \<le> x"
  defines "S \<equiv> x div 1000000" and "M \<equiv> x div 1000000 div 60" and "H \<equiv> x div 1000000 div 60 div 60"
  shows "x = ((((H div 24 * 24 + H mod 24) * 60 + M mod 60) * 60 + S mod 60) * 1000000) + x mod 1000000"
    "0 \<le> S" "0 \<le> M" "0 \<le> H"
proof -
  have e: "x = S * 1000000 + x mod 1000000" "S = M * 60 + S mod 60" "M = H * 60 + M mod 60"
    by (simp_all add: S_def M_def H_def)
  have "H div 24 * 24 + H mod 24 = H" by simp
  then show "x = ((((H div 24 * 24 + H mod 24) * 60 + M mod 60) * 60 + S mod 60) * 1000000) + x mod 1000000"
    using e by (simp only:)
  show "0 \<le> S" "0 \<le> M" "0 \<le> H" using assms(1) by (simp_all add: S_def M_def H_def pos_imp_zdiv_nonneg_iff)
qed

lemma borrow:
  fixes m D h mi s u :: int
  assumes "m = ((((D * 24 + h) * 60 + mi) * 60 + s) * 1000000) + u"
    and "0 \<le> h" "h < 24" "0 \<le> mi" "mi < 60" "0 \<le> s" "s < 60" "0 \<le> u" "u < 1000000"
  shows "- m = (((((- D - 1) * 24 + (23 - h)) * 60 + (59 - mi)) * 60 + (59 - s)) * 1000000) + (1000000 - u) \<and>
    0 \<le> 23 - h \<and> 23 - h < 24 \<and> 0 \<le> 59 - mi \<and> 59 - mi < 60 \<and> 0 \<le> 59 - s \<and> 59 - s < 60 \<and>
    0 \<le> 1000000 - u \<and> 1000000 - u \<le> 1000000"
  using assms by simp

lemma parts_positive:
  assumes "0 \<le> td_microseconds td"
  shows "completeSeconds td = td_microseconds td div 1000000" "completeMinutes td = td_microseconds td div 1000000 div 60"
    "completeHours td = td_microseconds td div 1000000 div 60 div 60"
    "completeDays td = td_microseconds td div 1000000 div 60 div 60 div 24"
  using assms by (simp_all add: completeSeconds_def completeMinutes_def completeHours_def completeDays_def sdiv_pos
      pos_imp_zdiv_nonneg_iff)

lemma parts_negative:
  assumes "td_microseconds td < 0"
  shows "completeSeconds td = - (- td_microseconds td div 1000000)" "completeMinutes td = - (- td_microseconds td div 1000000 div 60)"
    "completeHours td = - (- td_microseconds td div 1000000 div 60 div 60)"
    "completeDays td = - (- td_microseconds td div 1000000 div 60 div 60 div 24)"
proof -
  have neg: "(- a) sdiv n = - (a div n)" if "0 \<le> a" "0 < n" for a n :: int using sdiv_upto0 [of "- a" n] that by simp
  have p: "0 \<le> - td_microseconds td div 1000000" "0 \<le> - td_microseconds td div 1000000 div 60"
    "0 \<le> - td_microseconds td div 1000000 div 60 div 60" using assms by (simp_all add: pos_imp_zdiv_nonneg_iff)
  show s: "completeSeconds td = - (- td_microseconds td div 1000000)"
    using neg [of "- td_microseconds td" 1000000] assms by (simp add: completeSeconds_def)
  show m: "completeMinutes td = - (- td_microseconds td div 1000000 div 60)"
    unfolding completeMinutes_def s by (rule neg [OF p(1)]) simp
  show h: "completeHours td = - (- td_microseconds td div 1000000 div 60 div 60)"
    unfolding completeHours_def m by (rule neg [OF p(2)]) simp
  show "completeDays td = - (- td_microseconds td div 1000000 div 60 div 60 div 24)"
    unfolding completeDays_def h by (rule neg [OF p(3)]) simp
qed

text \<open>
  The parts of a duration. For every duration but the least 64-bit number, the relative
  days, hour, minute, second and microsecond add up to the duration, and all of them are in
  their ranges with one exception: for a negative whole number of seconds the microseconds are
  1000000, one second too many, and the second one too few.
\<close>

theorem duration_parts:
  assumes "- (2 ^ 63) < td_microseconds td"
  shows "td_microseconds td = ((((relativeDays td * 24 + hourInDay td) * 60 + minuteInHour td) * 60 +
      secondInMinute td) * 1000000) + microsecondInSecond td \<and>
    0 \<le> hourInDay td \<and> hourInDay td < 24 \<and> 0 \<le> minuteInHour td \<and> minuteInHour td < 60 \<and>
    0 \<le> secondInMinute td \<and> secondInMinute td < 60 \<and> 0 \<le> microsecondInSecond td \<and>
    microsecondInSecond td \<le> 1000000 \<and>
    (microsecondInSecond td = 1000000 \<longleftrightarrow> td_microseconds td < 0 \<and> td_microseconds td mod 1000000 = 0)"
proof (cases "td_microseconds td < 0")
  case False
  define S M H where "S = td_microseconds td div 1000000" "M = S div 60" "H = M div 60"
  have "0 \<le> td_microseconds td" using False by simp
  note pos = parts_of_positive [OF this, folded S_M_H_def] and parts = parts_positive [OF this, folded S_M_H_def]
  have "relativeDays td = H div 24" "hourInDay td = H mod 24" "minuteInHour td = M mod 60" "secondInMinute td = S mod 60"
    "microsecondInSecond td = td_microseconds td mod 1000000"
    using \<open>0 \<le> td_microseconds td\<close> by (simp_all only: relativeDays_def hourInDay_def minuteInHour_def
        secondInMinute_def microsecondInSecond_def parts False if_False smod_pos [OF pos(2)] smod_pos [OF pos(3)]
        smod_pos [OF pos(4)] smod_pos zero_less_numeral)
  moreover have "0 \<le> H mod 24" "H mod 24 < 24" "0 \<le> M mod 60" "M mod 60 < 60" "0 \<le> S mod 60" "S mod 60 < 60"
    "0 \<le> td_microseconds td mod 1000000" "td_microseconds td mod 1000000 < 1000000" by simp_all
  ultimately show ?thesis using pos(1) False by (metis less_le)
next
  case True
  define m where "m = - td_microseconds td"
  define S M H where "S = m div 1000000" "M = S div 60" "H = M div 60"
  have "0 \<le> m" using True by (simp add: m_def)
  note pos = parts_of_positive [OF this, folded S_M_H_def] and parts = parts_negative [OF True, folded m_def, folded S_M_H_def]
  have d: "relativeDays td = - (H div 24) - 1" "hourInDay td = 23 - H mod 24" "minuteInHour td = 59 - M mod 60"
    "secondInMinute td = 59 - S mod 60"
    by (simp_all only: relativeDays_def hourInDay_def minuteInHour_def secondInMinute_def parts True if_True
        minus_minus smod_pos [OF pos(2)] smod_pos [OF pos(3)] smod_pos [OF pos(4)] zero_less_numeral)
  have u: "microsecondInSecond td = 1000000 - m mod 1000000"
    using True smod_pos [OF \<open>0 \<le> m\<close>, of 1000000]
    by (simp only: microsecondInSecond_def if_True MICROSECONDS_PER_SECOND_def m_def zero_less_numeral simp_thms)
  have r: "0 \<le> H mod 24" "H mod 24 < 24" "0 \<le> M mod 60" "M mod 60 < 60" "0 \<le> S mod 60" "S mod 60 < 60"
    "0 \<le> m mod 1000000" "m mod 1000000 < 1000000" by simp_all
  have x: "td_microseconds td = - m" by (simp add: m_def)
  have "- m mod 1000000 = 0 \<longleftrightarrow> m mod 1000000 = 0" by (simp add: mod_eq_0_iff_dvd)
  moreover have "1000000 - m mod 1000000 = 1000000 \<longleftrightarrow> m mod 1000000 = 0" by linarith
  ultimately have iff: "1000000 - m mod 1000000 = 1000000 \<longleftrightarrow> - m < 0 \<and> - m mod 1000000 = 0"
    using True by (simp only: x simp_thms)
  show ?thesis unfolding d u x using borrow [OF pos(1) r] iff by blast
qed

theorem duration_parts_witness:
  "secondInMinute (duration (-1000000)) = 58 \<and> 0 \<le> secondInMinute (duration (-1000000)) \<and>
    microsecondInSecond (duration (-1000000)) = 1000000"
  using duration_parts [of "duration (-1000000)"] by (simp, code_simp)


text \<open>
  The comparison operators order the times of the invariant: not-a-datetime is not related
  to anything, and among the others operator< is a strict total order with minus infinity
  below and plus infinity above every normal time, where it compares the microseconds since
  the epoch; <=, > and >= are what they should be from it.
\<close>

theorem times_are_ordered:
  assumes l: "limits_ok lim" and a: "dt_ok lim a" and b: "dt_ok lim b"
  shows "(isInvalid a \<or> isInvalid b \<longrightarrow> \<not> dt_less a b) \<and>
    (\<not> isInvalid a \<and> \<not> isInvalid b \<longrightarrow>
      (dt_less a b \<and> \<not> dt_less b a \<and> a \<noteq> b) \<or> (dt_less b a \<and> \<not> dt_less a b \<and> a \<noteq> b) \<or>
      (a = b \<and> \<not> dt_less a b \<and> \<not> dt_less b a)) \<and>
    (normal_dt lim a \<longrightarrow> dt_less getNegInfinity a \<and> dt_less a getPosInfinity) \<and>
    (normal_dt lim a \<and> normal_dt lim b \<longrightarrow> (dt_less a b \<longleftrightarrow> micros a < micros b)) \<and>
    (dt_le a b \<longleftrightarrow> a = b \<or> dt_less a b) \<and> (dt_greater a b \<longleftrightarrow> dt_less b a) \<and> (dt_ge a b \<longleftrightarrow> dt_le b a)"
proof (intro conjI impI)
  show "\<not> dt_less a b" if "isInvalid a \<or> isInvalid b" using that by (simp add: dt_less_def)
  have eq: "a = b \<longleftrightarrow> m_seconds a = m_seconds b \<and> m_microseconds a = m_microseconds b" by (cases a; cases b) simp
  show "(dt_less a b \<and> \<not> dt_less b a \<and> a \<noteq> b) \<or> (dt_less b a \<and> \<not> dt_less a b \<and> a \<noteq> b) \<or>
      (a = b \<and> \<not> dt_less a b \<and> \<not> dt_less b a)" if "\<not> isInvalid a \<and> \<not> isInvalid b"
    using that unfolding dt_less_def eq by auto
  show "dt_less getNegInfinity a" "dt_less a getPosInfinity" if "normal_dt lim a"
    using that limits_bounds [OF l]
    by (auto simp: dt_less_def isInvalid_def isNADT_def normal_dt_def special_values)
  show "dt_less a b \<longleftrightarrow> micros a < micros b" if "normal_dt lim a \<and> normal_dt lim b"
    using that by (auto simp: dt_less_def isInvalid_def isNADT_def normal_dt_def micros_def NADT_USEC_def MICROSECONDS_PER_SECOND_def)
  show "dt_le a b \<longleftrightarrow> a = b \<or> dt_less a b" by (auto simp: dt_le_def dt_eq_def eq)
  show "dt_ge a b \<longleftrightarrow> dt_le b a" by (auto simp: dt_ge_def dt_le_def dt_eq_def)
qed (simp add: dt_greater_def)

theorem times_are_ordered_witness:
  "dt_less getNegInfinity new_DateTime \<and> dt_less new_DateTime getPosInfinity"
proof -
  have n: "normal_dt unix32 new_DateTime" by (simp add: normal_dt_def new_DateTime_def MICROSECONDS_PER_SECOND_def)
  then have "dt_ok unix32 new_DateTime" by (simp add: dt_ok_def)
  from times_are_ordered [OF unix32_limits this this] n show ?thesis by blast
qed

lemma getTm_utc: "normal_dt pf dt \<Longrightarrow> getTm pf dt E_UTC_TIME = Inr (gmtime_r (m_seconds dt))"
  using normal_not_special [of pf dt] by (simp add: getTm_def checkNormalTime_def)

lemma instant_mday: "instant (tm\<lparr>tm_mday := tm_mday tm + n\<rparr>) = instant tm + 86400 * n"
  by (simp add: instant_def civil_days_mday tm_full_year_def)

text \<open>
  C39. addDays() adds 86400 seconds for every day, across months, leap years and centuries,
  forward and backward, and keeps the microseconds; when the date reached is in year 0, it adds
  a day more. It throws exactly when that date is in a year outside the limits. Special times
  are left as they are.
\<close>

theorem addDays_adds_days:
  assumes l: "limits_ok pf" and dt: "dt_ok pf dt"
  shows "addDays pf dt n =
    (if isSpecial dt then Inr dt
     else let t = m_seconds dt + 86400 * n; y = tm_full_year (gmtime_r t) in
       if y < MINIMUM_YEAR pf \<or> MAXIMUM_YEAR pf < y then Inl DateTimeException
       else Inr (dt\<lparr>m_seconds := t + (if y = 0 then 86400 else 0)\<rparr>))"
proof (cases "isSpecial dt")
  case False
  then have n: "normal_dt pf dt"
    using dt by (auto simp: dt_ok_def isSpecial_def haveSpecialValue_def special_values)
  let ?tm = "gmtime_r (m_seconds dt)" let ?tm' = "?tm\<lparr>tm_mday := tm_mday ?tm + n\<rparr>"
  have i: "instant ?tm' = m_seconds dt + 86400 * n" using gmtime_normal [of "m_seconds dt"] by (simp add: instant_mday)
  have y: "tm_full_year (normTm ?tm') = tm_full_year (gmtime_r (m_seconds dt + 86400 * n))"
    using gmtime_year [of ?tm'] by (simp add: i)
  have "addDays pf dt n = setTime_tm pf dt ?tm' E_UTC_TIME"
    using normal_not_special [OF n] getTm_utc [OF n] by (simp add: addDays_def add_tm_def)
  also have "\<dots> = rbind (timeGm pf ?tm') (\<lambda>t. Inr (dt\<lparr>m_seconds := t\<rparr>))" by (simp add: setTime_tm_def)
  finally have a: "addDays pf dt n = rbind (timeGm pf ?tm') (\<lambda>t. Inr (dt\<lparr>m_seconds := t\<rparr>))" .
  have "0 \<le> MINIMUM_YEAR pf" using l by (simp add: limits_ok_def)
  from timeGm_exact [OF this, of ?tm'] show ?thesis using False unfolding a i y by (simp add: Let_def)
qed (simp add: addDays_def add_tm_def isSpecial_def)

theorem addDays_adds_days_witness:
  "addDays unix32 \<lparr>m_seconds = 951696000, m_microseconds = 7\<rparr> 366 = Inr \<lparr>m_seconds = 983318400, m_microseconds = 7\<rparr>"
proof -
  have "dt_ok unix32 \<lparr>m_seconds = 951696000, m_microseconds = 7\<rparr>"
    by (simp add: dt_ok_def normal_dt_def MICROSECONDS_PER_SECOND_def)
  moreover have "tm_full_year (gmtime_r 983318400) = 2001" by code_simp
  ultimately show ?thesis using addDays_adds_days [OF unix32_limits, of "\<lparr>m_seconds = 951696000, m_microseconds = 7\<rparr>" 366]
    by (simp add: isSpecial_def haveSpecialValue_def MICROSECONDS_PER_SECOND_def Let_def)
qed

text \<open>
  addYears() checks the wrong number: it compares the years since 1900 with the limits for
  the year. Every call whose result is before the year MINIMUM_YEAR + 1900 throws, so that with
  32-bit limits, from 1902 to 2037, adding years to a time never succeeds.
\<close>

theorem addYears_checks_years_since_1900:
  assumes "normal_dt pf dt" "tm_full_year (gmtime_r (m_seconds dt)) + years < MINIMUM_YEAR pf + 1900"
  shows "addYears pf dt years = Inl DateTimeException"
  using assms normal_not_special [OF assms(1)] getTm_utc [OF assms(1)]
  by (simp add: addYears_def add_tm_def Let_def tm_full_year_def tmYearBase_def)

theorem addYears_checks_years_since_1900_witness:
  "addYears unix32 new_DateTime 1 = Inl DateTimeException"
proof (rule addYears_checks_years_since_1900)
  show "normal_dt unix32 new_DateTime" by (simp add: normal_dt_def new_DateTime_def MICROSECONDS_PER_SECOND_def)
  show "tm_full_year (gmtime_r (m_seconds new_DateTime)) + 1 < MINIMUM_YEAR unix32 + 1900" by code_simp
qed

text \<open>
  set() stores the microseconds it was given instead of the remainder it computed. With
  1000000 microseconds or more the seconds are advanced as documented, but the object then
  holds a value outside 0..999999: it is not a normal time any more but infinite or
  not-a-datetime.
\<close>

theorem set_stores_unreduced_microseconds:
  assumes "set_fields pf dt year month day hour minute second microseconds E_UTC_TIME = Inr dt'"
    and "1000000 \<le> uint microseconds"
  shows "isSpecial dt' \<and> m_microseconds dt' = sint microseconds \<and> \<not> normal_dt pf dt'"
proof -
  have "m_microseconds dt' = sint microseconds"
    using assms(1) by (auto simp: set_fields_def Let_def rbind_eq_Inr_iff)
  moreover have "sint microseconds < 0 \<or> sint microseconds = uint microseconds"
    by (rule sint_or_negative)
  ultimately show ?thesis using assms(2)
    by (auto simp: isSpecial_def haveSpecialValue_def normal_dt_def MICROSECONDS_PER_SECOND_def)
qed

theorem set_stores_unreduced_microseconds_witness:
  "\<exists>dt'. set_fields unix32 new_DateTime 1998 5 25 13 30 15 1500000 E_UTC_TIME = Inr dt' \<and> isSpecial dt' \<and>
    m_microseconds dt' = 1500000"
proof -
  have "is_ok (set_fields unix32 new_DateTime 1998 5 25 13 30 15 1500000 E_UTC_TIME)" by code_simp
  then obtain dt' where d: "set_fields unix32 new_DateTime 1998 5 25 13 30 15 1500000 E_UTC_TIME = Inr dt'"
    by (cases "set_fields unix32 new_DateTime 1998 5 25 13 30 15 1500000 E_UTC_TIME") simp_all
  from set_stores_unreduced_microseconds [OF d] d show ?thesis by simp
qed

text \<open>
  Adding seconds, minutes or hours is not checked, and adding microseconds is cut to 32
  bits: one second after the maximum time is a time outside the limits where addSeconds() is
  documented to throw, and adding 2^32 microseconds, over an hour, changes nothing.
\<close>

theorem additions_without_check:
  assumes "limits_ok lim" "normal_dt lim dt"
  shows "(\<exists>dtmax. getMaximumTime lim = Inr dtmax \<and> normal_dt lim dtmax \<and> \<not> dt_ok lim (addSeconds dtmax 1)) \<and>
    addMicroseconds lim dt (2 ^ 32) = (None, dt)"
proof
  let ?max = "\<lparr>m_seconds = MAXIMUM_TIME lim, m_microseconds = 999999\<rparr>"
  have b: "- (2 ^ 36) \<le> MINIMUM_TIME lim" "MINIMUM_TIME lim \<le> 0" "0 \<le> MAXIMUM_TIME lim" "MAXIMUM_TIME lim \<le> 2 ^ 38"
    by (rule limits_bounds [OF assms(1)])+
  have w: "wrap64 (MAXIMUM_TIME lim) = MAXIMUM_TIME lim" "wrap64 (MAXIMUM_TIME lim + 1) = MAXIMUM_TIME lim + 1"
    using b by (simp_all add: wrap64_id)
  have "getMaximumTime lim = Inr ?max"
    using b by (simp add: getMaximumTime_def DateTime_of_time_def normalizeTime_def Let_def MICROSECONDS_PER_SECOND_def
        divFloor_div remFloor_mod w)
  moreover have "normal_dt lim ?max" using b by (simp add: normal_dt_def MICROSECONDS_PER_SECOND_def)
  moreover have "\<not> dt_ok lim (addSeconds ?max 1)"
    by (simp add: addSeconds_def haveSpecialValue_def MICROSECONDS_PER_SECOND_def w dt_ok_def normal_dt_def special_values)
  ultimately show "\<exists>dtmax. getMaximumTime lim = Inr dtmax \<and> normal_dt lim dtmax \<and> \<not> dt_ok lim (addSeconds dtmax 1)" by blast
  have us: "0 \<le> m_microseconds dt" "m_microseconds dt < 1000000" and s: "MINIMUM_TIME lim \<le> m_seconds dt" "m_seconds dt \<le> MAXIMUM_TIME lim"
    using assms(2) by (simp_all add: normal_dt_def MICROSECONDS_PER_SECOND_def)
  have "wrap32 (m_microseconds dt + 2 ^ 32) = wrap32 (m_microseconds dt)"
    unfolding wrap32_def by (rule signed_take_bit_eq_iff_take_bit_eq [THEN iffD2]) (simp add: take_bit_eq_mod)
  also have "\<dots> = m_microseconds dt" using us by (simp add: wrap32_id)
  finally have "wrap32 (m_microseconds dt + 2 ^ 32) = m_microseconds dt" .
  moreover have "wrap64 (m_seconds dt) = m_seconds dt" using s b by (simp add: wrap64_id)
  ultimately show "addMicroseconds lim dt (2 ^ 32) = (None, dt)"
    using us s normal_not_special [OF assms(2)]
    by (simp add: addMicroseconds_def normalizeTime_def Let_def MICROSECONDS_PER_SECOND_def divFloor_div remFloor_mod
        del: power_numeral)
qed

theorem additions_without_check_witness:
  "addMicroseconds unix32 new_DateTime (2 ^ 32) = (None, new_DateTime)"
proof -
  have "normal_dt unix32 new_DateTime" by (simp add: normal_dt_def new_DateTime_def MICROSECONDS_PER_SECOND_def)
  from additions_without_check [OF unix32_limits this] show ?thesis by blast
qed

end
