(* ===== verification/DateTime_Parse_Props.thy ===== *)
theory DateTime_Parse_Props
  imports DateTime_Parse DateTime_Props
begin

text \<open>
  What the text of a time means: CIM datetimes are read back exactly, and the time zones of
  free-form text shift the clock exactly, but for the first hours of a year.
\<close>

section \<open>Digits\<close>

definition digit_char :: "nat \<Rightarrow> u8" where "digit_char j = of_nat (0x30 + j)"

fun dig :: "nat \<Rightarrow> nat \<Rightarrow> bytes" where
  "dig 0 k = []"
| "dig (Suc n) k = dig n (k div 10) @ [digit_char (k mod 10)]"

lemma length_dig [simp]: "length (dig n k) = n"
  by (induction n arbitrary: k) simp_all

lemma digit_char_value:
  assumes "j < 10"
  shows "digit_value (digit_char j) = Some j" "digit_char j \<noteq> 0x2A"
proof -
  have "j \<in> {0..<10}" using assms by simp
  then have "j = 0 \<or> j = 1 \<or> j = 2 \<or> j = 3 \<or> j = 4 \<or> j = 5 \<or> j = 6 \<or> j = 7 \<or> j = 8 \<or> j = 9" by auto
  then show "digit_value (digit_char j) = Some j" "digit_char j \<noteq> 0x2A"
    by (elim disjE; simp add: digit_char_def digit_value_def isdigit_def)+
qed

lemma dig_digits: "c \<in> set (dig n k) \<Longrightarrow> \<exists>j < 10. c = digit_char j"
proof (induction n arbitrary: k)
  case (Suc n)
  have "k mod 10 < 10" by simp
  then have "\<exists>j < 10. digit_char (k mod 10) = digit_char j" by blast
  then show ?case using Suc.IH [of "k div 10"] Suc.prems by auto
qed simp

lemma dig_ok: "0 < n \<Longrightarrow> numeral_ok 10 (dig n k)"
  using dig_digits [of _ n k] digit_char_value(1) by (cases n) (force simp: numeral_ok_def list_all_iff)+

lemma dig_value: "numeral_value 10 (dig n k) = k mod 10 ^ n"
proof (induction n arbitrary: k)
  case (Suc n)
  have "numeral_value 10 (dig (Suc n) k) = (k div 10 mod 10 ^ n) * 10 + k mod 10"
    using Suc [of "k div 10"] digit_char_value(1) [of "k mod 10"] by (simp add: numeral_value_def)
  also have "\<dots> = k mod (10 * 10 ^ n)" by (simp add: mod_mult2_eq)
  finally show ?case by simp
qed (simp add: numeral_value_def)

lemma dig_plain: "0 \<notin> set (dig n k)" "0x2A \<notin> set (dig n k)"
  using dig_digits [of 0 n k] dig_digits [of "0x2A" n k] digit_char_value by (auto, metis digit_value_nul option.distinct(1))

section \<open>A CIM datetime\<close>

definition cim_text :: "nat \<Rightarrow> nat \<Rightarrow> nat \<Rightarrow> nat \<Rightarrow> nat \<Rightarrow> nat \<Rightarrow> nat \<Rightarrow> bool \<Rightarrow> nat \<Rightarrow> bytes" where
  "cim_text year month day hour minute second microseconds west utc =
     dig 4 year @ dig 2 month @ dig 2 day @ dig 2 hour @ dig 2 minute @ dig 2 second @ [0x2E] @
     dig 6 microseconds @ [if west then 0x2D else 0x2B] @ dig 3 utc"

lemma plain_String: "0 \<notin> set t \<Longrightarrow> String_of (t @ [0]) = Some \<lparr>m_len = length t, m_data = t @ [0]\<rparr>"
  using cstr_append_nul [of t "[]"] by (simp add: String_of_def ByteBuf_of_def strlen_def)

lemma column_digits:
  assumes t: "0 \<notin> set t" "length t < 2 ^ 62" and n: "0 < n" "i + n \<le> length t" "take n (drop i t) = dig n k"
    and k: "k < 10 ^ n" "int k < 2 ^ 31"
  shows "column (String_of (t @ [0])) i n = Inr (int k)"
proof -
  have s: "slength (String_of (t @ [0])) = length t" "c_str (String_of (t @ [0])) = t @ [0]"
    unfolding plain_String [OF t(1)] by (simp_all add: slength_def c_str_def)
  have "size_add n i = i + n" "n \<noteq> npos" "n + 1 \<le> 2 ^ 63" using t(2) n(2) by (simp_all add: size_add_def npos_def)
  moreover have take_n: "take n (drop i (t @ [0])) = dig n k" "n \<le> length (drop i (t @ [0]))" "t \<noteq> []"
    using n by auto
  ultimately have "substring (String_of (t @ [0])) i n = Inr (Some \<lparr>m_len = n, m_data = dig n k @ [0]\<rparr>)"
    using n t(2) take_n by (simp add: substring_def s Let_def String_of_len_def)
  also have "Some \<lparr>m_len = n, m_data = dig n k @ [0]\<rparr> = String_of (dig n k @ [0])"
    using plain_String [OF dig_plain(1)] by simp
  finally show ?thesis
    using convertToIntType_numeral [OF dig_ok [OF n(1)], of 32 False] dig_value [of n k] k
    by (simp add: column_def toInt32_def sign_text_def signed_value_def s_lift_def)
qed

lemma noAsterisks_plain:
  assumes "0 \<notin> set t" "0x2A \<notin> set t"
  shows "noAsterisks (String_of (t @ [0])) = String_of (t @ [0])"
proof -
  have "map (\<lambda>c. if c = 0x2A then 0x30 else c) t = t" using assms(2) by (intro map_idI) auto
  then show ?thesis unfolding plain_String [OF assms(1)] by (simp add: noAsterisks_def)
qed

lemma cim_plain: "0 \<notin> set (cim_text y mo d h mi s us west utc)" "0x2A \<notin> set (cim_text y mo d h mi s us west utc)"
  "length (cim_text y mo d h mi s us west utc) = 25"
  using dig_plain by (auto simp: cim_text_def)

lemma parse_cim_text:
  fixes y mo d h mi s us utc :: nat
  assumes "y \<le> 9999" "mo \<le> 99" "d \<le> 99" "h \<le> 99" "mi \<le> 99" "s \<le> 99" "us \<le> 999999" "utc \<le> 999"
    and valid: "VALIDATE_RANGES pf (int y) (int mo) (int d) (int h) (int mi) (int s) (int us) = Inr ()"
  shows "DateTime_of_String pf (String_of (cim_text y mo d h mi s us west utc @ [0])) =
    dt_lift (set_fields pf new_DateTime (int y) (int mo) (int d) (int h) (int mi + (if west then int utc else - int utc)) (int s) (of_nat us) E_UTC_TIME)"
proof -
  let ?t = "cim_text y mo d h mi s us west utc" let ?S = "String_of (?t @ [0])"
  note plain = cim_plain [of y mo d h mi s us west utc]
  have l: "length ?t < 2 ^ 62" by (simp add: plain(3))
  have col: "column ?S i n = Inr (int k)" if "0 < n" "i + n \<le> 25" "take n (drop i ?t) = dig n k" "k < 10 ^ n" "k \<le> 999999" for i n k
    using column_digits [OF plain(1) l] that plain(3) by simp
  have cols: "column ?S 0 4 = Inr (int y)" "column ?S 4 2 = Inr (int mo)" "column ?S 6 2 = Inr (int d)"
    "column ?S 8 2 = Inr (int h)" "column ?S 10 2 = Inr (int mi)" "column ?S 12 2 = Inr (int s)"
    "column ?S 15 6 = Inr (int us)" "column ?S 22 3 = Inr (int utc)"
    using assms(1-8) by (intro col; simp add: cim_text_def)+
  have at: "at ?S i = ?t ! i" if "i < 25" for i
    unfolding plain_String [OF plain(1)] using that plain(3) by (simp add: at_def nth_append)
  have "at ?S 14 = 0x2E" "at ?S 21 = (if west then 0x2D else 0x2B)"
    by (simp_all add: at) (simp_all add: cim_text_def nth_append)
  moreover have "slength ?S = 25" unfolding plain_String [OF plain(1)] by (simp add: slength_def plain(3))
  moreover have "parse_cim pf ?S = dt_lift (set_fields pf new_DateTime (int y) (int mo) (int d) (int h)
      (int mi + (if west then int utc else - int utc)) (int s) (of_nat us) E_UTC_TIME)"
    using calculation by (simp add: parse_cim_def noAsterisks_plain [OF plain(1,2)] cols valid)
  moreover have "\<not> is_conversion_fault e" if "dt_lift r = Inl e" for r :: "date_error + DateTime" and e
    using that by (cases r) (auto simp: dt_lift_def is_conversion_fault_def)
  ultimately show ?thesis by (auto simp: DateTime_of_String_def split: sum.splits)
qed


text \<open>The minutes of the zone are taken off east of Greenwich and added west of it.\<close>

definition zone_minutes :: "bool \<Rightarrow> nat \<Rightarrow> int" where
  "zone_minutes west utc = (if west then int utc else - int utc)"

definition civil_second :: "int \<Rightarrow> int \<Rightarrow> int \<Rightarrow> int \<Rightarrow> int \<Rightarrow> int \<Rightarrow> int" where
  "civil_second year month day hour minute second =
     86400 * civil_days year (month - 1) day + 3600 * hour + 60 * minute + second"

lemma set_fields_utc:
  fixes pf :: platform
  assumes i: "i = civil_second year month day hour minute second" and us: "us < 1000000"
    and y: "0 \<le> MINIMUM_YEAR pf"
  shows "set_fields pf new_DateTime year month day hour minute second (of_nat us) E_UTC_TIME =
    (let yr = tm_full_year (gmtime_r i) in
     if yr < MINIMUM_YEAR pf \<or> MAXIMUM_YEAR pf < yr then Inl DateTimeException
     else Inr \<lparr>m_seconds = i + (if yr = 0 then 86400 else 0), m_microseconds = int us\<rparr>)"
proof -
  let ?tm = "\<lparr>tm_sec = second, tm_min = minute, tm_hour = hour, tm_mday = day, tm_mon = month - 1,
    tm_year = year - 1900, tm_wday = 0, tm_isdst = 0\<rparr>"
  have it: "instant ?tm = i" by (simp add: i civil_second_def instant_def tm_full_year_def tmYearBase_def)
  have w: "unat (of_nat us :: u32) = us" using us by (simp add: unat_of_nat)
  then have u: "uint (of_nat us :: u32) = int us" by (metis uint_nat)
  then have n: "sint (of_nat us :: u32) = int us"
    using us by (simp add: signed_of_nat signed_take_bit_int_eq_self)
  show ?thesis using timeGm_exact [OF y, of ?tm] gmtime_year [of ?tm] us
    by (simp add: set_fields_def setTime_tm_def Let_def u n it MICROSECONDS_PER_SECOND_def new_DateTime_def)
qed

text \<open>
  C36. A CIM datetime is read back exactly: for every valid date and time written in the fixed
  columns yyyymmddhhmmss.mmmmmmsutc, none of them left open with asterisks, DateTime(String)
  gives the second of the calendar shifted by the minutes of the zone, and the microseconds. It
  is a day late when that second is in year 0, and a DateTimeException when its year is outside
  the limits of the platform, which configure never puts below 0.
\<close>

theorem cim_datetime_roundtrip:
  fixes pf :: platform and y mo d h mi s us utc :: nat and west :: bool
  assumes "y \<le> 9999" "utc \<le> 999"
    and valid: "VALIDATE_RANGES pf (int y) (int mo) (int d) (int h) (int mi) (int s) (int us) = Inr ()"
    and "0 \<le> MINIMUM_YEAR pf"
  defines "i \<equiv> civil_second (int y) (int mo) (int d) (int h) (int mi + zone_minutes west utc) (int s)"
  shows "DateTime_of_String pf (String_of (cim_text y mo d h mi s us west utc @ [0])) =
    (let yr = tm_full_year (gmtime_r i) in
     if yr < MINIMUM_YEAR pf \<or> MAXIMUM_YEAR pf < yr then Inl (DateFault DateTimeException)
     else Inr \<lparr>m_seconds = i + (if yr = 0 then 86400 else 0), m_microseconds = int us\<rparr>)"
proof -
  have r: "mo \<le> 99" "d \<le> 99" "h \<le> 99" "mi \<le> 99" "s \<le> 99" "us \<le> 999999"
    using valid by (simp_all add: VALIDATE_RANGES_def in_range_def MICROSECONDS_PER_SECOND_def badDateTime_def split: if_splits)
  show ?thesis
    unfolding parse_cim_text [OF assms(1) r assms(2) valid] zone_minutes_def [symmetric]
    using set_fields_utc [OF i_def [THEN meta_eq_to_obj_eq], of us pf] r(6) assms(4) by (simp add: dt_lift_def Let_def)
qed


theorem cim_datetime_roundtrip_witness:
  "DateTime_of_String unix32 (String_of (cim_text 2003 7 14 9 34 20 123456 True 360 @ [0])) =
    Inr \<lparr>m_seconds = 1058196860, m_microseconds = 123456\<rparr>"
proof -
  have i: "civil_second (int 2003) (int 7) (int 14) (int 9) (int 34 + zone_minutes True 360) (int 20) = 1058196860"
    by (simp add: civil_second_def civil_days_def zone_minutes_def year_start_closed year_start_formula_def
        eval_nat_numeral month_start_table leap_def)
  have "tm_full_year (gmtime_r 1058196860) = 2003" by code_simp
  then show ?thesis
    using cim_datetime_roundtrip [of 2003 360 unix32 7 14 9 34 20 123456 True, unfolded i]
    by (simp add: VALIDATE_RANGES_def in_range_def MICROSECONDS_PER_SECOND_def)
qed

section \<open>Time zones\<close>

definition valid_date :: "int \<Rightarrow> int \<Rightarrow> int \<Rightarrow> int \<Rightarrow> bool" where
  "valid_date year month day hour \<longleftrightarrow>
     in_range month 1 12 \<and> in_range day 1 (getDaysPerMonth year month) \<and> in_range hour 0 23"

lemma getDaysPerMonth_calendar:
  assumes "0 \<le> year" "1 \<le> month" "month \<le> 12"
  shows "getDaysPerMonth year month = month_length year (nat (month - 1))"
proof -
  have l: "(year smod 4 = 0 \<and> (year smod 100 = 0 \<longrightarrow> year smod 400 = 0)) = leap year"
    using assms(1) by (auto simp: leap_def smod_pos)
  obtain n where n: "month = int n + 1" "n < 12"
  proof
    show "month = int (nat (month - 1)) + 1" "nat (month - 1) < 12" using assms by auto
  qed
  show ?thesis
    using less_12_cases [OF n(2)] l n(1)
    by (elim disjE) (auto simp: getDaysPerMonth_def Let_def month_length_def daysInMonthArr_def eval_nat_numeral)
qed

lemma civil_days_month:
  assumes "0 \<le> year" "1 \<le> month" "month \<le> 12"
  shows "civil_days year month 1 = civil_days year (month - 1) (getDaysPerMonth year month + 1)"
proof -
  have "civil_days year (month - 1 + 1) 1 = civil_days year (month - 1) 1 + month_length year (nat (month - 1))"
    using civil_days_next_month [of year "month - 1" 1] assms by (simp add: div_pos_pos_trivial)
  then show ?thesis using civil_days_mday [of year "month - 1" 1 "getDaysPerMonth year month"]
    getDaysPerMonth_calendar [OF assms] by (simp add: add.commute)
qed

lemma civil_days_year: "civil_days (year + 1) (month - 12) day = civil_days year month day"
proof -
  have "(month - 12 + 12) div 12 = (month - 12) div 12 + 1" by (rule div_add_self2) simp
  moreover have "(month - 12) mod 12 = month mod 12" by (rule minus_mod_self2)
  moreover have "year + 1 + (month - 12) div 12 = year + month div 12" using calculation(1) by simp
  ultimately show ?thesis by (simp only: civil_days_def)
qed

lemma days_positive:
  assumes "1 \<le> month" "month \<le> 12"
  shows "28 \<le> getDaysPerMonth year month"
proof -
  obtain n where n: "month = int n + 1" "n < 12"
  proof
    show "month = int (nat (month - 1)) + 1" "nat (month - 1) < 12" using assms by auto
  qed
  show ?thesis using less_12_cases [OF n(2)] n(1)
    by (elim disjE) (auto simp: getDaysPerMonth_def Let_def eval_nat_numeral)
qed

text \<open>
  The time zone of free-form text is taken off exactly. For a date of the calendar and a
  zone of the tables, adjustTimeForTimeZone() gives a date of the calendar again, over the ends
  of days, months and years, that is the second of the zone's clock less 3600 seconds for each
  hour of the offset - but for the first hours of 1 January east of Greenwich.
\<close>

theorem zone_adjustment_is_exact:
  assumes date: "valid_date year month day hour" and "1 \<le> year" and z: "-12 \<le> z" "z \<le> 12"
    and new_year: "\<not> (month = 1 \<and> day = 1 \<and> hour < z)"
    and adjusted: "adjustTimeForTimeZone z year month day hour = (year', month', day', hour')"
  shows "valid_date year' month' day' hour' \<and>
    civil_second year' month' day' hour' minute second = civil_second year month day hour minute second - 3600 * z"
proof -
  have m: "1 \<le> month" "month \<le> 12" and d: "1 \<le> day" "day \<le> getDaysPerMonth year month" and h: "0 \<le> hour" "hour \<le> 23"
    using date by (auto simp: valid_date_def in_range_def)
  have y: "0 \<le> year" using assms(2) by simp
  have next_day: "civil_days year (month - 1) (day + 1) = civil_days year (month - 1) day + 1"
    and day_before: "civil_days year (month - 1) (day - 1) = civil_days year (month - 1) day - 1"
    using civil_days_mday [of year "month - 1" day 1] civil_days_mday [of year "month - 1" day "-1"] by simp_all
  consider "0 \<le> hour - z" "hour - z \<le> 23" | "hour - z > 23" "day < getDaysPerMonth year month"
    | "hour - z > 23" "day = getDaysPerMonth year month" "month < 12"
    | "hour - z > 23" "day = getDaysPerMonth year month" "month = 12"
    | "hour - z < 0" "day > 1" | "hour - z < 0" "day = 1" "month > 1"
    using d m new_year by linarith
  then show ?thesis
  proof cases
    case 1
    then show ?thesis using adjusted m d h
      by (auto simp: adjustTimeForTimeZone_def Let_def valid_date_def in_range_def civil_second_def split: if_splits)
  next
    case 2
    then have r: "(year', month', day', hour') = (year, month, day + 1, hour - z - 24)"
      using adjusted m d h by (simp add: adjustTimeForTimeZone_def Let_def)
    show ?thesis using r 2 m d h z next_day by (simp add: valid_date_def in_range_def civil_second_def)
  next
    case 3
    then have r: "(year', month', day', hour') = (year, month + 1, 1, hour - z - 24)"
      using adjusted m d h by (simp add: adjustTimeForTimeZone_def Let_def)
    show ?thesis using r 3 m h z next_day days_positive [of "month + 1" year] civil_days_month [OF y m]
      by (simp add: valid_date_def in_range_def civil_second_def)
  next
    case 4
    then have r: "(year', month', day', hour') = (year + 1, 1, 1, hour - z - 24)"
      using adjusted m d h by (simp add: adjustTimeForTimeZone_def Let_def)
    show ?thesis using r 4 h z next_day days_positive [of 1 "year + 1"] civil_days_month [OF y m] civil_days_year [of year 12 1]
      by (simp add: valid_date_def in_range_def civil_second_def)
  next
    case 5
    then have r: "(year', month', day', hour') = (year, month, day - 1, hour - z + 24)"
      using adjusted m d h by (simp add: adjustTimeForTimeZone_def Let_def)
    show ?thesis using r 5 m d h z day_before by (simp add: valid_date_def in_range_def civil_second_def)
  next
    case 6
    then have r: "(year', month', day', hour') = (year, month - 1, getDaysPerMonth year (month - 1), hour - z + 24)"
      using adjusted m d h by (auto simp: adjustTimeForTimeZone_def Let_def)
    have "civil_days year (month - 1) 1 = civil_days year (month - 1 - 1) (getDaysPerMonth year (month - 1) + 1)"
      using civil_days_month [OF y, of "month - 1"] 6 m by simp
    then show ?thesis
      using r 6 m h z days_positive [of "month - 1" year] civil_days_mday [of year "month - 1 - 1" "getDaysPerMonth year (month - 1)" 1]
      by (simp add: valid_date_def in_range_def civil_second_def)
  qed
qed

theorem zone_adjustment_is_exact_witness:
  "civil_second 2004 1 1 4 30 0 = civil_second 2003 12 31 23 30 0 - 3600 * (-5)"
  using zone_adjustment_is_exact [of 2003 12 31 23 "-5" 2004 1 1 4 30 0]
  by (simp add: valid_date_def in_range_def getDaysPerMonth_def adjustTimeForTimeZone_def Let_def)

text \<open>
  The first hours of a year are rejected east of Greenwich: adjustTimeForTimeZone() asks
  for the days of month 0 before it turns it into December, gets 0, and the 31st December
  becomes day 0. A correct date such as "1 January 2004 00:30 CET" throws DateTimeException
  where the code means to give 23:30 of the day before.
\<close>

theorem new_year_is_rejected:
  assumes "tok_month_number d = 1" "to_int (tok_day d) = Inr 1" "to_int (tok_year d) = Inr year"
    and "to_int (time_fields ! 0) = Inr hour" "to_int (time_fields ! 1) = Inr minute" "length time_fields = 2"
    and "0 \<le> hour" "hour < tok_timezone_number d" "tok_timezone_number d \<le> 12"
  shows "date_of_tokens pf d time_fields = badDateTime"
proof -
  have "adjustTimeForTimeZone (tok_timezone_number d) year 1 1 hour = (year - 1, 12, 0, hour - tok_timezone_number d + 24)"
    using assms(7-9) by (simp add: adjustTimeForTimeZone_def getDaysPerMonth_def)
  moreover have "VALIDATE_RANGES pf (year - 1) 12 0 h minute 0 0 = badDateTime" for h
    by (simp add: VALIDATE_RANGES_def in_range_def)
  moreover have "LOCAL_TIME_OFFSET < tok_timezone_number d" using assms(7,8) by (simp add: LOCAL_TIME_OFFSET_def)
  ultimately show ?thesis using assms
    by (cases "VALIDATE_RANGES pf year 1 1 hour minute 0 0") (auto simp: date_of_tokens_def VALIDATE_RANGES_def badDateTime_def split: if_splits)
qed

theorem new_year_is_rejected_witness:
  "date_of_tokens unix32 (no_tokens\<lparr>tok_day := String_of (lit ''1'' @ [0]), tok_timezone_number := 1,
      tok_month_number := 1, tok_year := String_of (lit ''2004'' @ [0])\<rparr>)
     [String_of (lit ''00'' @ [0]), String_of (lit ''30'' @ [0])] = badDateTime"
  by (rule new_year_is_rejected [where year = 2004 and hour = 0 and minute = 30]) (simp add: no_tokens_def | code_simp)+

end
