(* ===== verification/StringBuffer.thy ===== *)
theory StringBuffer
  imports Strings_Numbers
begin

text \<open>
  The class \<open>StringBuffer\<close> (\<open>StringBuffer.cpp\<close>, \<open>StringBuffer.hpp\<close>): a growing
  buffer of bytes. The allocated block is a list of exactly \<open>m_allocated\<close> bytes, a block
  that was just allocated holds an unknown byte at every position (the parameter
  \<open>junk\<close>), and every read and write is checked against the block. Lengths are \<open>size_t\<close>.
  A C string argument is the readable memory behind the pointer, ended by a NUL.
\<close>

datatype buffer_error =
    Overrun             \<comment> \<open>an access outside the allocated block\<close>
  | NoMemory            \<comment> \<open>\<open>std::bad_alloc\<close>\<close>
  | UseAfterFree        \<comment> \<open>an access to a block that was deleted\<close>

record StringBuffer =
  sb_len :: nat
  sb_allocated :: nat
  sb_bfr :: bytes

definition BLOCXX_DEFAULT_ALLOCATION_UNIT :: nat where "BLOCXX_DEFAULT_ALLOCATION_UNIT = 128"

section \<open>The block\<close>

text \<open>\<open>new char[n]\<close>: a request above \<open>PTRDIFF_MAX\<close> throws.\<close>

definition new_block :: "(nat \<Rightarrow> u8) \<Rightarrow> nat \<Rightarrow> buffer_error + bytes" where
  "new_block junk n = (if n \<ge> 2 ^ 63 then Inl NoMemory else Inr (map junk [0..<n]))"

definition put :: "bytes \<Rightarrow> nat \<Rightarrow> bytes \<Rightarrow> buffer_error + bytes" where
  "put b i cs = (if i + length cs \<le> length b then Inr (take i b @ cs @ drop (i + length cs) b) else Inl Overrun)"

definition get_block :: "bytes \<Rightarrow> nat \<Rightarrow> nat \<Rightarrow> buffer_error + bytes" where
  "get_block b i n = (if i + n \<le> length b then Inr (take n (drop i b)) else Inl Overrun)"

definition get_byte :: "bytes \<Rightarrow> nat \<Rightarrow> buffer_error + u8" where
  "get_byte b i = (if i < length b then Inr (b ! i) else Inl Overrun)"

text \<open>What \<open>strncpy\<close> writes: the text up to its NUL, filled up with NULs.\<close>

definition strncpy_bytes :: "bytes \<Rightarrow> nat \<Rightarrow> bytes" where
  "strncpy_bytes str n = take n (cstr str) @ replicate (n - strlen str) 0"

section \<open>Construction\<close>

definition StringBuffer_new :: "(nat \<Rightarrow> u8) \<Rightarrow> nat \<Rightarrow> buffer_error + StringBuffer" where
  "StringBuffer_new junk allocSize =
     (let a = (if allocSize > 0 then allocSize else BLOCXX_DEFAULT_ALLOCATION_UNIT)
      in rbind (new_block junk a) (\<lambda>b. rbind (put b 0 [0]) (\<lambda>b.
         Inr \<lparr>sb_len = 0, sb_allocated = a, sb_bfr = b\<rparr>)))"

definition StringBuffer_of_cstr :: "(nat \<Rightarrow> u8) \<Rightarrow> bytes \<Rightarrow> buffer_error + StringBuffer" where
  "StringBuffer_of_cstr junk arg =
     (let n = strlen arg; a = size_add n BLOCXX_DEFAULT_ALLOCATION_UNIT
      in rbind (new_block junk a) (\<lambda>b. rbind (put b 0 (cstr arg @ [0])) (\<lambda>b.
         Inr \<lparr>sb_len = n, sb_allocated = a, sb_bfr = b\<rparr>)))"

definition StringBuffer_of_String :: "(nat \<Rightarrow> u8) \<Rightarrow> String \<Rightarrow> buffer_error + StringBuffer" where
  "StringBuffer_of_String junk arg =
     (let n = slength arg; a = size_add n BLOCXX_DEFAULT_ALLOCATION_UNIT
      in rbind (new_block junk a) (\<lambda>b. rbind (put b 0 (cstr (c_str arg) @ [0])) (\<lambda>b.
         Inr \<lparr>sb_len = n, sb_allocated = a, sb_bfr = b\<rparr>)))"

definition StringBuffer_copy :: "(nat \<Rightarrow> u8) \<Rightarrow> StringBuffer \<Rightarrow> buffer_error + StringBuffer" where
  "StringBuffer_copy junk arg =
     rbind (new_block junk (sb_allocated arg)) (\<lambda>b.
     rbind (get_block (sb_bfr arg) 0 (sb_len arg + 1)) (\<lambda>t.
     rbind (put b 0 t) (\<lambda>b.
       Inr \<lparr>sb_len = sb_len arg, sb_allocated = sb_allocated arg, sb_bfr = b\<rparr>)))"

definition buffer_swap :: "StringBuffer \<Rightarrow> StringBuffer \<Rightarrow> StringBuffer \<times> StringBuffer" where
  "buffer_swap this x =
     (\<lparr>sb_len = sb_len x, sb_allocated = sb_allocated x, sb_bfr = sb_bfr x\<rparr>,
      \<lparr>sb_len = sb_len this, sb_allocated = sb_allocated this, sb_bfr = sb_bfr this\<rparr>)"

text \<open>Assignment: build the new buffer, swap, drop the old one.\<close>

definition assign_String :: "(nat \<Rightarrow> u8) \<Rightarrow> StringBuffer \<Rightarrow> String \<Rightarrow> buffer_error + StringBuffer" where
  "assign_String junk this arg =
     rbind (StringBuffer_of_String junk arg) (\<lambda>t. Inr (snd (buffer_swap t this)))"

definition assign_cstr :: "(nat \<Rightarrow> u8) \<Rightarrow> StringBuffer \<Rightarrow> bytes \<Rightarrow> buffer_error + StringBuffer" where
  "assign_cstr junk this str =
     rbind (StringBuffer_of_cstr junk str) (\<lambda>t. Inr (snd (buffer_swap t this)))"

definition assign_buffer :: "(nat \<Rightarrow> u8) \<Rightarrow> StringBuffer \<Rightarrow> StringBuffer \<Rightarrow> buffer_error + StringBuffer" where
  "assign_buffer junk this arg =
     rbind (StringBuffer_copy junk arg) (\<lambda>t. Inr (snd (buffer_swap t this)))"

section \<open>Growing\<close>

definition freeSpace :: "StringBuffer \<Rightarrow> nat" where
  "freeSpace b = (sb_allocated b + 2 ^ 64 - (sb_len b + 1)) mod 2 ^ 64"

definition checkAvail :: "(nat \<Rightarrow> u8) \<Rightarrow> StringBuffer \<Rightarrow> nat \<Rightarrow> buffer_error + StringBuffer" where
  "checkAvail junk this len =
     (if len > freeSpace this then
        let toalloc = size_add (sb_allocated this * 2) len
        in rbind (new_block junk toalloc) (\<lambda>bfr.
           rbind (get_block (sb_bfr this) 0 (sb_len this)) (\<lambda>old.
           rbind (put bfr 0 old) (\<lambda>bfr.
             Inr (this\<lparr>sb_allocated := toalloc, sb_bfr := bfr\<rparr>))))
      else Inr this)"

definition append_char :: "(nat \<Rightarrow> u8) \<Rightarrow> StringBuffer \<Rightarrow> u8 \<Rightarrow> buffer_error + StringBuffer" where
  "append_char junk this c =
     rbind (checkAvail junk this 1) (\<lambda>this.
     rbind (put (sb_bfr this) (sb_len this) [c]) (\<lambda>b.
     let n = size_add (sb_len this) 1
     in rbind (put b n [0]) (\<lambda>b. Inr (this\<lparr>sb_len := n, sb_bfr := b\<rparr>))))"

definition append_cstr :: "(nat \<Rightarrow> u8) \<Rightarrow> StringBuffer \<Rightarrow> bytes \<Rightarrow> buffer_error + StringBuffer" where
  "append_cstr junk this str =
     (let len = strlen str in
      rbind (checkAvail junk this (size_add len 1)) (\<lambda>this.
      rbind (put (sb_bfr this) (sb_len this) (cstr str @ [0])) (\<lambda>b.
        Inr (this\<lparr>sb_len := size_add (sb_len this) len, sb_bfr := b\<rparr>))))"

definition append_len :: "(nat \<Rightarrow> u8) \<Rightarrow> StringBuffer \<Rightarrow> bytes \<Rightarrow> nat \<Rightarrow> buffer_error + StringBuffer" where
  "append_len junk this str len =
     rbind (checkAvail junk this (size_add len 1)) (\<lambda>this.
     rbind (put (sb_bfr this) (sb_len this) (strncpy_bytes str len)) (\<lambda>b.
     let n = size_add (sb_len this) len
     in rbind (put b n [0]) (\<lambda>b. Inr (this\<lparr>sb_len := n, sb_bfr := b\<rparr>))))"

definition append_String :: "(nat \<Rightarrow> u8) \<Rightarrow> StringBuffer \<Rightarrow> String \<Rightarrow> buffer_error + StringBuffer" where
  "append_String junk this arg = append_len junk this (c_str arg) (slength arg)"

definition append_buffer :: "(nat \<Rightarrow> u8) \<Rightarrow> StringBuffer \<Rightarrow> StringBuffer \<Rightarrow> buffer_error + StringBuffer" where
  "append_buffer junk this arg = append_len junk this (sb_bfr arg) (sb_len arg)"

text \<open>
  \<open>b += b\<close>: the argument's pointer is the buffer's own block, which \<open>checkAvail\<close> deletes
  when it allocates a larger one; the copy then reads the deleted block.
\<close>

definition append_self :: "(nat \<Rightarrow> u8) \<Rightarrow> StringBuffer \<Rightarrow> buffer_error + StringBuffer" where
  "append_self junk this =
     (if size_add (sb_len this) 1 > freeSpace this
      then rbind (checkAvail junk this (size_add (sb_len this) 1)) (\<lambda>_. Inl UseAfterFree)
      else append_len junk this (sb_bfr this) (sb_len this))"

section \<open>Numbers\<close>

text \<open>\<open>snprintf(bfr, n, ...)\<close> keeps the first \<open>n - 1\<close> characters.\<close>

definition snprintf :: "nat \<Rightarrow> bytes \<Rightarrow> bytes" where
  "snprintf n s = take (n - 1) s"

definition append_Bool where
  "append_Bool junk this v = append_String junk this (String_of (lit (if v then ''true'' else ''false'')))"
definition append_UInt8 where
  "append_UInt8 junk this (v :: 8 word) = append_cstr junk this (snprintf 6 (print_nat (unat v)))"
definition append_Int8 where
  "append_Int8 junk this (v :: 8 word) = append_cstr junk this (snprintf 6 (print_int (sint v)))"
definition append_UInt16 where
  "append_UInt16 junk this (v :: 16 word) = append_cstr junk this (snprintf 16 (print_nat (unat v)))"
definition append_Int16 where
  "append_Int16 junk this (v :: 16 word) = append_cstr junk this (snprintf 16 (print_int (sint v)))"
definition append_UInt32 where
  "append_UInt32 junk this (v :: 32 word) = append_cstr junk this (snprintf 16 (print_nat (unat v)))"
definition append_Int32 where
  "append_Int32 junk this (v :: 32 word) = append_cstr junk this (snprintf 16 (print_int (sint v)))"
definition append_UInt64 where
  "append_UInt64 junk this (v :: 64 word) = append_cstr junk this (snprintf 28 (print_nat (unat v)))"
definition append_Int64 where
  "append_Int64 junk this (v :: 64 word) = append_cstr junk this (snprintf 28 (print_int (sint v)))"

section \<open>Shrinking and queries\<close>

definition buffer_reset :: "StringBuffer \<Rightarrow> buffer_error + StringBuffer" where
  "buffer_reset this = rbind (put (sb_bfr this) 0 [0]) (\<lambda>b. Inr (this\<lparr>sb_len := 0, sb_bfr := b\<rparr>))"

definition buffer_truncate :: "StringBuffer \<Rightarrow> nat \<Rightarrow> buffer_error + StringBuffer" where
  "buffer_truncate this index =
     (if index < sb_len this
      then rbind (put (sb_bfr this) index [0]) (\<lambda>b. Inr (this\<lparr>sb_len := index, sb_bfr := b\<rparr>))
      else Inr this)"

definition chop :: "StringBuffer \<Rightarrow> buffer_error + StringBuffer" where
  "chop this = (if sb_len this \<noteq> 0 then buffer_truncate this (sb_len this - 1) else Inr this)"

fun buffer_rtrim_loop :: "bytes \<Rightarrow> nat \<Rightarrow> buffer_error + (bytes \<times> nat)" where
  "buffer_rtrim_loop b 0 = Inr (b, 0)"
| "buffer_rtrim_loop b (Suc n) =
     rbind (get_byte b n) (\<lambda>c.
       if isspace c then rbind (put b n [0]) (\<lambda>b. buffer_rtrim_loop b n) else Inr (b, Suc n))"

text \<open>The pointer \<open>p\<close>, an offset into the block; \<open>rest\<close> is the block from there on.\<close>

fun skip_spaces :: "bytes \<Rightarrow> nat \<Rightarrow> buffer_error + nat" where
  "skip_spaces [] p = Inl Overrun"
| "skip_spaces (c # rest) p = (if c \<noteq> 0 \<and> isspace c then skip_spaces rest (Suc p) else Inr p)"

definition buffer_trim :: "StringBuffer \<Rightarrow> buffer_error + StringBuffer" where
  "buffer_trim this =
     (if sb_len this \<noteq> 0 then
        rbind (buffer_rtrim_loop (sb_bfr this) (sb_len this)) (\<lambda>(b, n).
        let this = this\<lparr>sb_len := n, sb_bfr := b\<rparr> in
        if n \<noteq> 0 then
          rbind (skip_spaces b 0) (\<lambda>p.
          rbind (get_byte b p) (\<lambda>c.
          if c \<noteq> 0 \<and> p > 0 then
            rbind (get_block b p (n - p + 1)) (\<lambda>t.
            rbind (put b 0 t) (\<lambda>b. Inr (this\<lparr>sb_len := n - p, sb_bfr := b\<rparr>)))
          else Inr this))
        else Inr this)
      else Inr this)"

definition buffer_at :: "StringBuffer \<Rightarrow> nat \<Rightarrow> buffer_error + u8" where
  "buffer_at this ndx = (if ndx > sb_len this then Inr 0 else get_byte (sb_bfr this) ndx)"

definition buffer_equals :: "StringBuffer \<Rightarrow> bytes \<Rightarrow> bool" where
  "buffer_equals this arg \<longleftrightarrow> strcmp (cstr arg) (cstr (sb_bfr this)) = 0"

definition buffer_equals_buffer :: "StringBuffer \<Rightarrow> StringBuffer \<Rightarrow> bool" where
  "buffer_equals_buffer this arg \<longleftrightarrow> strcmp (cstr (sb_bfr arg)) (cstr (sb_bfr this)) = 0"

definition buffer_endsWith :: "StringBuffer \<Rightarrow> u8 \<Rightarrow> buffer_error + bool" where
  "buffer_endsWith this ch =
     (if sb_len this \<noteq> 0 then rbind (get_byte (sb_bfr this) (sb_len this - 1)) (\<lambda>c. Inr (c = ch))
      else Inr False)"

definition buffer_startsWith :: "StringBuffer \<Rightarrow> u8 \<Rightarrow> buffer_error + bool" where
  "buffer_startsWith this ch =
     (if sb_len this \<noteq> 0 then rbind (get_byte (sb_bfr this) 0) (\<lambda>c. Inr (c = ch)) else Inr False)"

definition buffer_toString :: "StringBuffer \<Rightarrow> String" where
  "buffer_toString this = String_of (sb_bfr this)"

text \<open>The string takes the block over; the buffer is left without one.\<close>

definition releaseString :: "StringBuffer \<Rightarrow> String" where
  "releaseString this = Some \<lparr>m_len = sb_len this, m_data = sb_bfr this\<rparr>"

text \<open>\<open>operator<<\<close>: what is written to the stream.\<close>

definition buffer_write :: "StringBuffer \<Rightarrow> buffer_error + bytes" where
  "buffer_write b = get_block (sb_bfr b) 0 (sb_len b)"

section \<open>Reading lines\<close>

record istream =
  is_rest :: bytes
  is_eof :: bool
  is_fail :: bool

fun getLine_loop :: "(nat \<Rightarrow> u8) \<Rightarrow> bytes \<Rightarrow> nat \<Rightarrow> StringBuffer \<Rightarrow> buffer_error + (StringBuffer \<times> istream)" where
  "getLine_loop junk [] cnt this = Inr (this, \<lparr>is_rest = [], is_eof = True, is_fail = (cnt = 0)\<rparr>)"
| "getLine_loop junk (ch # rest) cnt this =
     (if ch = 0x0A then Inr (this, \<lparr>is_rest = rest, is_eof = False, is_fail = False\<rparr>)
      else rbind (append_char junk this ch) (\<lambda>this. getLine_loop junk rest (Suc cnt) this))"

definition getLine :: "(nat \<Rightarrow> u8) \<Rightarrow> StringBuffer \<Rightarrow> istream \<Rightarrow> bool \<Rightarrow>
    buffer_error + (StringBuffer \<times> istream \<times> bytes)" where
  "getLine junk this is resetBuffer =
     rbind (if resetBuffer then buffer_reset this else Inr this) (\<lambda>this.
     rbind (if \<not> is_fail is then
              rbind (getLine_loop junk (is_rest is) 0 this) (\<lambda>(b, s). Inr (b, s\<lparr>is_eof := is_eof s \<or> is_eof is\<rparr>))
            else Inr (this, is)) (\<lambda>(this, is).
     rbind (case strchr (sb_bfr this) 0x0D of Some p \<Rightarrow> buffer_truncate this p | None \<Rightarrow> Inr this) (\<lambda>this.
       Inr (this, is, cstr (sb_bfr this)))))"

section \<open>Invariant and abstraction\<close>

definition buffer_wf :: "StringBuffer \<Rightarrow> bool" where
  "buffer_wf b \<longleftrightarrow> length (sb_bfr b) = sb_allocated b \<and> sb_len b < sb_allocated b \<and>
     sb_allocated b < 2 ^ 63 \<and> sb_bfr b ! sb_len b = 0"

definition buffer_text :: "StringBuffer \<Rightarrow> bytes" where
  "buffer_text b = take (sb_len b) (sb_bfr b)"

end
