(* ===== verification/StringBuffer_Props.thy ===== *)
theory StringBuffer_Props
  imports StringBuffer
begin

text \<open>
  Properties of \<open>StringBuffer\<close>: every operation keeps the buffer well formed, does on its
  text what the list operation of \<open>text_step\<close> does, and stays inside the allocated block;
  the block grows to at most three times what was appended.
\<close>

section \<open>The block\<close>

lemma put_ok:
  assumes "i + length cs \<le> length b"
  shows "put b i cs = Inr (take i b @ cs @ drop (i + length cs) b)"
  using assms by (simp add: put_def)

lemma get_block_ok: "i + n \<le> length b \<Longrightarrow> get_block b i n = Inr (take n (drop i b))"
  by (simp add: get_block_def)

lemma get_byte_ok: "i < length b \<Longrightarrow> get_byte b i = Inr (b ! i)"
  by (simp add: get_byte_def)

lemma new_block_ok: "n < 2 ^ 63 \<Longrightarrow> new_block junk n = Inr (map junk [0..<n])"
  by (simp add: new_block_def)

lemma buffer_wfD:
  assumes "buffer_wf b"
  shows "length (sb_bfr b) = sb_allocated b" "sb_len b < sb_allocated b"
    "sb_allocated b < 2 ^ 63" "sb_bfr b ! sb_len b = 0"
  using assms by (auto simp: buffer_wf_def)

lemma length_buffer_text [simp]: "buffer_wf b \<Longrightarrow> length (buffer_text b) = sb_len b"
  by (simp add: buffer_wf_def buffer_text_def)

lemma freeSpace_wf:
  assumes "buffer_wf b"
  shows "freeSpace b = sb_allocated b - (sb_len b + 1)"
proof -
  have eq: "sb_allocated b + 2 ^ 64 - (sb_len b + 1) = (sb_allocated b - (sb_len b + 1)) + 2 ^ 64"
    using buffer_wfD(2) [OF assms] by linarith
  have lt: "sb_allocated b - (sb_len b + 1) < 2 ^ 64"
  proof -
    have "(2 :: nat) ^ 63 < 2 ^ 64" by (rule power_strict_increasing) simp_all
    then show ?thesis using buffer_wfD(3) [OF assms] by linarith
  qed
  show ?thesis unfolding freeSpace_def eq mod_add_self2 by (rule mod_less [OF lt])
qed

lemma size_add_small: "a + b < 2 ^ 64 \<Longrightarrow> size_add a b = a + b"
  by (simp add: size_add_def)

text \<open>
  Reserving space keeps the text. A block is replaced only when it is too small, so that
  its size stays below three times what it has to hold.
\<close>

lemma checkAvail_ok:
  assumes wf: "buffer_wf b" and small: "2 * sb_allocated b + n < 2 ^ 63"
  shows "\<exists>b'. checkAvail junk b n = Inr b' \<and> sb_len b' = sb_len b \<and>
    length (sb_bfr b') = sb_allocated b' \<and> take (sb_len b) (sb_bfr b') = buffer_text b \<and>
    sb_len b + n < sb_allocated b' \<and> sb_allocated b' < 2 ^ 63 \<and>
    (sb_allocated b' = sb_allocated b \<or> sb_allocated b' \<le> 3 * (sb_len b + n))"
proof (cases "n > freeSpace b")
  case False
  then show ?thesis
    using buffer_wfD [OF wf] by (intro exI [of _ b]) (auto simp: checkAvail_def freeSpace_wf [OF wf] buffer_text_def)
next
  case True
  let ?a = "sb_allocated b * 2 + n"
  note w = buffer_wfD [OF wf]
  have a: "size_add (sb_allocated b * 2) n = ?a" using small by (intro size_add_small) simp
  have nb: "new_block junk ?a = Inr (map junk [0..<?a])" using small by (intro new_block_ok) simp
  have gb: "get_block (sb_bfr b) 0 (sb_len b) = Inr (buffer_text b)"
    using w by (simp add: get_block_ok buffer_text_def)
  have le: "0 + length (buffer_text b) \<le> length (map junk [0..<?a])" using w wf by simp
  have big: "sb_allocated b \<le> sb_len b + n"
    using True w(2) by (simp add: freeSpace_wf [OF wf])
  let ?b = "b\<lparr>sb_allocated := ?a, sb_bfr := take 0 (map junk [0..<?a]) @ buffer_text b
      @ drop (0 + length (buffer_text b)) (map junk [0..<?a])\<rparr>"
  have "checkAvail junk b n = Inr ?b"
    using True by (simp only: checkAvail_def if_True a nb gb put_ok [OF le] rbind_simps Let_def)
  then show ?thesis using w wf big small by (intro exI [of _ ?b]) simp
qed

section \<open>Appending\<close>

lemma strncpy_bytes_length [simp]: "length (strncpy_bytes str n) = n"
  by (simp add: strncpy_bytes_def strlen_def)

text \<open>What both forms of appending do once the space is there.\<close>

lemma append_counted:
  assumes wf: "buffer_wf b" and len: "length t = n" and small: "2 * sb_allocated b + n + 1 < 2 ^ 63"
  shows "\<exists>b'. rbind (checkAvail junk b (n + 1)) (\<lambda>this. rbind (put (sb_bfr this) (sb_len this) t) (\<lambda>c.
        rbind (put c (sb_len this + n) [0]) (\<lambda>c. Inr (this\<lparr>sb_len := sb_len this + n, sb_bfr := c\<rparr>)))) = Inr b' \<and>
    buffer_wf b' \<and> buffer_text b' = buffer_text b @ t \<and>
    (sb_allocated b' = sb_allocated b \<or> sb_allocated b' \<le> 3 * (sb_len b + n + 1))"
proof -
  obtain c where c: "checkAvail junk b (n + 1) = Inr c" "sb_len c = sb_len b"
    "length (sb_bfr c) = sb_allocated c" "take (sb_len b) (sb_bfr c) = buffer_text b"
    "sb_len b + (n + 1) < sb_allocated c" "sb_allocated c < 2 ^ 63"
    "sb_allocated c = sb_allocated b \<or> sb_allocated c \<le> 3 * (sb_len b + (n + 1))"
    using checkAvail_ok [OF wf, of "n + 1" junk] small by auto
  let ?t = "take (sb_len b) (sb_bfr c) @ t @ drop (sb_len b + n) (sb_bfr c)"
  have p1: "put (sb_bfr c) (sb_len b) t = Inr ?t" using c len by (simp add: put_ok)
  have p2: "put ?t (sb_len b + n) [0] = Inr (take (sb_len b) (sb_bfr c) @ t @ [0] @ drop (sb_len b + n + 1) (sb_bfr c))"
    using c len wf by (subst put_ok) auto
  show ?thesis
    by (rule exI [of _ "c\<lparr>sb_len := sb_len b + n, sb_bfr :=
        take (sb_len b) (sb_bfr c) @ t @ [0] @ drop (sb_len b + n + 1) (sb_bfr c)\<rparr>"])
      (use c len p1 p2 wf in \<open>auto simp: buffer_wf_def buffer_text_def nth_append\<close>)
qed

lemma append_len_ok:
  assumes wf: "buffer_wf b" and small: "2 * sb_allocated b + n + 1 < 2 ^ 63"
  shows "\<exists>b'. append_len junk b str n = Inr b' \<and> buffer_wf b' \<and>
    buffer_text b' = buffer_text b @ strncpy_bytes str n \<and>
    (sb_allocated b' = sb_allocated b \<or> sb_allocated b' \<le> 3 * (sb_len b + n + 1))"
proof -
  have s: "size_add n (Suc 0) = n + 1" using small by (subst size_add_small) simp_all
  have "append_len junk b str n = rbind (checkAvail junk b (n + 1)) (\<lambda>this.
      rbind (put (sb_bfr this) (sb_len this) (strncpy_bytes str n)) (\<lambda>c.
      rbind (put c (sb_len this + n) [0]) (\<lambda>c. Inr (this\<lparr>sb_len := sb_len this + n, sb_bfr := c\<rparr>))))"
  proof (cases "checkAvail junk b (n + 1)")
    case (Inr c)
    then have "sb_len c = sb_len b" using checkAvail_ok [OF wf, of "n + 1" junk] small by auto
    then have "size_add (sb_len c) n = sb_len c + n"
      using buffer_wfD(2,3) [OF wf] small by (intro size_add_small) simp
    with Inr show ?thesis by (simp add: append_len_def s Let_def)
  qed (simp add: append_len_def s Let_def)
  then show ?thesis using append_counted [OF wf _ small, of "strncpy_bytes str n" junk] by simp
qed

lemma append_char_ok:
  assumes wf: "buffer_wf b" and small: "2 * sb_allocated b + 2 < 2 ^ 63"
  shows "\<exists>b'. append_char junk b c = Inr b' \<and> buffer_wf b' \<and> buffer_text b' = buffer_text b @ [c] \<and>
    (sb_allocated b' = sb_allocated b \<or> sb_allocated b' \<le> 3 * (sb_len b + 1))"
proof -
  obtain d where d: "checkAvail junk b 1 = Inr d" "sb_len d = sb_len b"
    "length (sb_bfr d) = sb_allocated d" "take (sb_len b) (sb_bfr d) = buffer_text b"
    "sb_len b + 1 < sb_allocated d" "sb_allocated d < 2 ^ 63"
    "sb_allocated d = sb_allocated b \<or> sb_allocated d \<le> 3 * (sb_len b + 1)"
    using checkAvail_ok [OF wf, of 1 junk] small by auto
  have s: "size_add (sb_len b) (Suc 0) = sb_len b + 1" using d by (subst size_add_small) simp_all
  let ?t = "take (sb_len b) (sb_bfr d) @ [c] @ drop (sb_len b + 1) (sb_bfr d)"
  have p1: "put (sb_bfr d) (sb_len b) [c] = Inr ?t" using d by (simp add: put_ok)
  have p2: "put ?t (sb_len b + 1) [0] = Inr (take (sb_len b) (sb_bfr d) @ [c, 0] @ drop (sb_len b + 2) (sb_bfr d))"
    using d wf by (subst put_ok) auto
  show ?thesis
    by (rule exI [of _ "d\<lparr>sb_len := sb_len b + 1, sb_bfr :=
        take (sb_len b) (sb_bfr d) @ [c, 0] @ drop (sb_len b + 2) (sb_bfr d)\<rparr>"])
      (use d p1 p2 s wf in \<open>auto simp: append_char_def buffer_wf_def buffer_text_def nth_append Let_def\<close>)
qed

lemma append_cstr_ok:
  assumes wf: "buffer_wf b" and small: "2 * sb_allocated b + strlen str + 1 < 2 ^ 63"
  shows "\<exists>b'. append_cstr junk b str = Inr b' \<and> buffer_wf b' \<and> buffer_text b' = buffer_text b @ cstr str \<and>
    (sb_allocated b' = sb_allocated b \<or> sb_allocated b' \<le> 3 * (sb_len b + strlen str + 1))"
proof -
  let ?n = "strlen str"
  have n: "length (cstr str) = ?n" by (simp add: strlen_def)
  have s: "size_add ?n (Suc 0) = ?n + 1" using small by (subst size_add_small) simp_all
  obtain d where d: "checkAvail junk b (?n + 1) = Inr d" "sb_len d = sb_len b"
    "length (sb_bfr d) = sb_allocated d" "take (sb_len b) (sb_bfr d) = buffer_text b"
    "sb_len b + (?n + 1) < sb_allocated d" "sb_allocated d < 2 ^ 63"
    "sb_allocated d = sb_allocated b \<or> sb_allocated d \<le> 3 * (sb_len b + (?n + 1))"
    using checkAvail_ok [OF wf, of "?n + 1" junk] small by auto
  have s2: "size_add (sb_len b) ?n = sb_len b + ?n" using d by (intro size_add_small) simp
  let ?t = "take (sb_len b) (sb_bfr d) @ (cstr str @ [0]) @ drop (sb_len b + (?n + 1)) (sb_bfr d)"
  have p1: "put (sb_bfr d) (sb_len b) (cstr str @ [0]) = Inr ?t" using d n by (simp add: put_ok)
  show ?thesis
    by (rule exI [of _ "d\<lparr>sb_len := sb_len b + ?n, sb_bfr := ?t\<rparr>"])
      (use d p1 s s2 wf n in \<open>auto simp: append_cstr_def buffer_wf_def buffer_text_def nth_append Let_def\<close>)
qed

section \<open>Shrinking\<close>

lemma buffer_truncate_ok:
  assumes wf: "buffer_wf b"
  shows "\<exists>b'. buffer_truncate b i = Inr b' \<and> buffer_wf b' \<and> buffer_text b' = take i (buffer_text b) \<and>
    sb_allocated b' = sb_allocated b"
proof (cases "i < sb_len b")
  case True
  note w = buffer_wfD [OF wf]
  have p: "put (sb_bfr b) i [0] = Inr (take i (sb_bfr b) @ [0] @ drop (i + 1) (sb_bfr b))"
    using True w by (simp add: put_ok)
  show ?thesis
    by (rule exI [of _ "b\<lparr>sb_len := i, sb_bfr := take i (sb_bfr b) @ [0] @ drop (i + 1) (sb_bfr b)\<rparr>"])
      (use True w p in \<open>auto simp: buffer_truncate_def buffer_wf_def buffer_text_def nth_append min_def\<close>)
qed (use wf in \<open>auto simp: buffer_truncate_def buffer_text_def\<close>)

lemma buffer_reset_ok:
  assumes wf: "buffer_wf b"
  shows "\<exists>b'. buffer_reset b = Inr b' \<and> buffer_wf b' \<and> buffer_text b' = [] \<and> sb_allocated b' = sb_allocated b"
proof -
  note w = buffer_wfD [OF wf]
  have p: "put (sb_bfr b) 0 [0] = Inr (take 0 (sb_bfr b) @ [0] @ drop (0 + 1) (sb_bfr b))"
    using w by (simp add: put_ok)
  show ?thesis
    by (rule exI [of _ "b\<lparr>sb_len := 0, sb_bfr := take 0 (sb_bfr b) @ [0] @ drop (0 + 1) (sb_bfr b)\<rparr>"])
      (use w p in \<open>auto simp: buffer_reset_def buffer_wf_def buffer_text_def\<close>)
qed

text \<open>The text without the white space at its end, and at its start.\<close>

definition rtrim_text :: "bytes \<Rightarrow> bytes" where
  "rtrim_text s = rev (dropWhile isspace (rev s))"

definition trim_text :: "bytes \<Rightarrow> bytes" where
  "trim_text s = (let t = rtrim_text s; q = dropWhile isspace t in if q \<noteq> [] \<and> hd q \<noteq> 0 then q else t)"

lemma rtrim_text_snoc [simp]:
  "rtrim_text [] = []"
  "rtrim_text (s @ [c]) = (if isspace c then rtrim_text s else s @ [c])"
  by (simp_all add: rtrim_text_def)

lemma rtrim_loop_ok:
  assumes "n \<le> length b"
  shows "\<exists>b' m. buffer_rtrim_loop b n = Inr (b', m) \<and> m \<le> n \<and> length b' = length b \<and>
    take m b' = rtrim_text (take n b) \<and> (m < n \<longrightarrow> b' ! m = 0) \<and> (m = n \<longrightarrow> b' = b)"
  using assms
proof (induction n arbitrary: b)
  case (Suc n)
  have g: "get_byte b n = Inr (b ! n)" using Suc.prems by (simp add: get_byte_ok)
  have t: "take (Suc n) b = take n b @ [b ! n]" using Suc.prems by (simp add: take_Suc_conv_app_nth)
  show ?case
  proof (cases "isspace (b ! n)")
    case True
    let ?c = "take n b @ [0] @ drop (n + 1) b"
    have p: "put b n [0] = Inr ?c" using Suc.prems by (simp add: put_ok)
    have "n \<le> length ?c" using Suc.prems by simp
    from Suc.IH [OF this] obtain b' m where
      "buffer_rtrim_loop ?c n = Inr (b', m) \<and> m \<le> n \<and> length b' = length ?c \<and>
        take m b' = rtrim_text (take n ?c) \<and> (m < n \<longrightarrow> b' ! m = 0) \<and> (m = n \<longrightarrow> b' = ?c)" by blast
    then show ?thesis using True Suc.prems g p t
      by (intro exI [of _ b'] exI [of _ m]) (auto simp: nth_append)
  qed (use Suc.prems g t in \<open>auto simp: get_byte_def\<close>)
qed auto

lemma skip_spaces_ok:
  assumes "takeWhile isspace b \<noteq> b"
  shows "skip_spaces b p = Inr (p + length (takeWhile isspace b))"
  using assms by (induction b arbitrary: p) (auto simp: isspace_def)

lemma rtrim_text_last: "rtrim_text s \<noteq> [] \<Longrightarrow> \<not> isspace (last (rtrim_text s))"
  by (metis hd_dropWhile hd_rev rev.simps(1) rev_rev_ident rtrim_text_def last_rev)

lemma takeWhile_prefix_stops:
  assumes "take n b = t" and "n \<le> length b" and "t \<noteq> []" and "\<not> P (last t)"
  shows "takeWhile P b = takeWhile P t" and "length (takeWhile P t) < n"
proof -
  have b: "b = t @ drop n b" using assms(1) by (metis append_take_drop_id)
  have l: "length t = n" using assms(1,2) by (auto simp: min_def)
  have ex: "last t \<in> set t" using assms(3) by simp
  show "takeWhile P b = takeWhile P t"
    by (subst b) (use assms(4) ex in \<open>simp add: takeWhile_append1\<close>)
  have "takeWhile P t \<noteq> t" using ex assms(4) by (metis set_takeWhileD)
  then show "length (takeWhile P t) < n" unfolding l [symmetric]
    by (metis le_neq_implies_less length_takeWhile_le takeWhile_eq_take take_all_iff order_refl)
qed

lemma buffer_trim_ok:
  assumes wf: "buffer_wf b"
  shows "\<exists>b'. buffer_trim b = Inr b' \<and> buffer_wf b' \<and> buffer_text b' = trim_text (buffer_text b) \<and>
    sb_allocated b' = sb_allocated b"
proof (cases "sb_len b = 0")
  case True
  then show ?thesis using wf by (auto simp: buffer_trim_def buffer_text_def trim_text_def)
next
  case False
  note w = buffer_wfD [OF wf]
  obtain c m where c: "buffer_rtrim_loop (sb_bfr b) (sb_len b) = Inr (c, m)" "m \<le> sb_len b"
    "length c = length (sb_bfr b)" "take m c = rtrim_text (buffer_text b)"
    "m < sb_len b \<longrightarrow> c ! m = 0" "m = sb_len b \<longrightarrow> c = sb_bfr b"
    using rtrim_loop_ok [of "sb_len b" "sb_bfr b"] w by (auto simp: buffer_text_def)
  have nul: "c ! m = 0" using c(2,5,6) w(4) by (cases "m = sb_len b") auto
  let ?t = "rtrim_text (buffer_text b)"
  have len: "length ?t = m" using c w by (auto simp flip: c(4))
  let ?b = "b\<lparr>sb_len := m, sb_bfr := c\<rparr>"
  have wfb: "buffer_wf ?b" "buffer_text ?b = ?t"
    using c w nul by (auto simp: buffer_wf_def buffer_text_def)
  show ?thesis
  proof (cases "m = 0")
    case True
    then show ?thesis using False c wfb len
      by (intro exI [of _ ?b]) (auto simp: buffer_trim_def trim_text_def)
  next
    case m: False
    then have ne: "?t \<noteq> []" using len by auto
    let ?p = "length (takeWhile isspace ?t)"
    have tw: "takeWhile isspace c = takeWhile isspace ?t" "?p < m"
      using takeWhile_prefix_stops [of m c ?t isspace] c w ne rtrim_text_last [OF ne] by simp_all
    have "length (takeWhile isspace c) < length c" using tw c w by simp
    then have sk: "skip_spaces c 0 = Inr ?p"
      using skip_spaces_ok [of c 0] tw by (metis add_0 less_irrefl)
    have gb: "get_byte c ?p = Inr (c ! ?p)" using tw c w by (intro get_byte_ok) simp
    have q: "dropWhile isspace ?t = drop ?p ?t" by (simp add: dropWhile_eq_drop)
    have hd: "drop ?p ?t \<noteq> []" "hd (drop ?p ?t) = c ! ?p"
      using tw(2) len by (auto simp: hd_drop_conv_nth nth_take simp flip: c(4))
    have tt: "trim_text (buffer_text b) = (if c ! ?p \<noteq> 0 then drop ?p ?t else ?t)"
      unfolding trim_text_def Let_def q using hd by simp
    show ?thesis
    proof (cases "c ! ?p \<noteq> 0 \<and> ?p > 0")
      case True
      let ?u = "take (m - ?p + 1) (drop ?p c)"
      have g: "get_block c ?p (m - ?p + 1) = Inr ?u" using tw(2) c w by (intro get_block_ok) simp
      have u: "?u = drop ?p ?t @ [0]"
      proof -
        have "Suc (m - ?p) = Suc m - ?p" using tw(2) by simp
        then have "?u = drop ?p (take (Suc m) c)" by (simp add: drop_take)
        also have "take (Suc m) c = ?t @ [0]"
          using c w nul by (simp add: take_Suc_conv_app_nth flip: c(4))
        finally show ?thesis using tw(2) len by simp
      qed
      have ul: "length ?u = m - ?p + 1" using u len by simp
      have p: "put c 0 ?u = Inr (?u @ drop (m - ?p + 1) c)"
        using ul c w by (subst put_ok) auto
      have "buffer_trim b = Inr (b\<lparr>sb_len := m - ?p, sb_bfr := ?u @ drop (m - ?p + 1) c\<rparr>)"
        using False m c(1) sk gb True g p by (simp add: buffer_trim_def Let_def)
      moreover have "buffer_wf (b\<lparr>sb_len := m - ?p, sb_bfr := ?u @ drop (m - ?p + 1) c\<rparr>)"
        using u len tw(2) c w by (auto simp: buffer_wf_def nth_append)
      moreover have "buffer_text (b\<lparr>sb_len := m - ?p, sb_bfr := ?u @ drop (m - ?p + 1) c\<rparr>) = drop ?p ?t"
        using u len by (simp add: buffer_text_def)
      ultimately show ?thesis using True tt by auto
    next
      case F: False
      then have "buffer_trim b = Inr ?b"
        using False m c(1) sk gb by (auto simp add: buffer_trim_def Let_def)
      then show ?thesis using wfb F tt by auto
    qed
  qed
qed

section \<open>Numbers\<close>

lemma length_print_nat: "n < 10 ^ k \<Longrightarrow> 0 < k \<Longrightarrow> length (print_nat n) \<le> k"
proof (induction n arbitrary: k rule: print_nat.induct)
  case (1 n)
  show ?case
  proof (cases "n < 10")
    case False
    then obtain j where k: "k = Suc j" "0 < j"
      using "1.prems" by (cases k; cases "k - 1") auto
    have "n div 10 < 10 ^ j" using "1.prems"(1) k by (simp add: less_mult_imp_div_less mult.commute)
    then show ?thesis using "1.IH" [OF False] k by (simp add: print_nat.simps [of n] False)
  qed (use "1.prems" in \<open>simp add: print_nat.simps [of n]\<close>)
qed

lemma print_nat_nonzero: "0 \<notin> set (print_nat n)"
proof (induction n rule: print_nat.induct)
  case (1 n)
  have nz: "(of_nat (48 + d) :: u8) \<noteq> 0" if "d < 10" for d
  proof -
    have "unat (of_nat (48 + d) :: u8) = (48 + d) mod 2 ^ 8" by (simp only: unat_of_nat) simp
    then have "unat (of_nat (48 + d) :: u8) = 48 + d" using that by simp
    then show ?thesis by (metis add_is_0 unat_0 zero_neq_numeral)
  qed
  show ?case using 1 nz [of n] nz [of "n mod 10"] by (auto simp: print_nat.simps [of n])
qed

lemma cstr_nonzero: "0 \<notin> set s \<Longrightarrow> cstr s = s"
  unfolding cstr_def by (rule takeWhile_eq_all_conv [THEN iffD2]) auto

lemma snprintf_fits: "length s < n \<Longrightarrow> snprintf n s = s"
  by (simp add: snprintf_def)

lemma print_int_nonzero: "0 \<notin> set (print_int i)"
  using print_nat_nonzero by (simp add: print_int_def)

lemma length_print_int: "\<bar>i\<bar> < 10 ^ k \<Longrightarrow> 0 < k \<Longrightarrow> length (print_int i) \<le> Suc k"
proof -
  assume a: "\<bar>i\<bar> < 10 ^ k" "0 < k"
  have "nat \<bar>i\<bar> < 10 ^ k" using a(1) by (simp add: nat_less_iff)
  then show ?thesis using length_print_nat [of "nat \<bar>i\<bar>" k] a(2) by (auto simp: print_int_def)
qed

lemma word_digits:
  fixes a :: "8 word" and c :: "16 word" and d :: "32 word" and e :: "64 word"
  shows "length (print_nat (unat a)) \<le> 3" "length (print_int (sint a)) \<le> 4"
  "length (print_nat (unat c)) \<le> 5" "length (print_int (sint c)) \<le> 6"
  "length (print_nat (unat d)) \<le> 10" "length (print_int (sint d)) \<le> 11"
  "length (print_nat (unat e)) \<le> 20" "length (print_int (sint e)) \<le> 20"
proof -
  have i: "length (print_int (sint e)) \<le> Suc 19"
    by (rule length_print_int) (use sint_range_size [of e] in \<open>auto simp: word_size\<close>)
  show "length (print_int (sint a)) \<le> 4" "length (print_int (sint c)) \<le> 6" "length (print_int (sint d)) \<le> 11"
    using length_print_int [of "sint a" 3] length_print_int [of "sint c" 5] length_print_int [of "sint d" 10]
      sint_range_size [of a] sint_range_size [of c] sint_range_size [of d] by (auto simp: word_size)
  show "length (print_int (sint e)) \<le> 20" using i by simp
  show "length (print_nat (unat a)) \<le> 3" "length (print_nat (unat c)) \<le> 5" "length (print_nat (unat d)) \<le> 10"
    "length (print_nat (unat e)) \<le> 20"
    using unsigned_less [where w = a and 'a = nat] unsigned_less [where w = c and 'a = nat] unsigned_less [where w = d and 'a = nat] unsigned_less [where w = e and 'a = nat]
    by (auto intro!: length_print_nat)
qed

text \<open>
  Appending an integer of any of the eight types appends exactly its decimal digits:
  the local array is large enough for every value, and when the buffer has to grow it keeps
  its text.
\<close>

theorem integers_are_appended_in_full:
  fixes a :: "8 word" and c :: "16 word" and d :: "32 word" and e :: "64 word"
  assumes wf: "buffer_wf b" and small: "sb_allocated b \<le> 2 ^ 60"
  defines "adds r t \<equiv> \<exists>b'. r = Inr b' \<and> buffer_wf b' \<and> buffer_text b' = buffer_text b @ t"
  shows "adds (append_UInt8 junk b a) (print_nat (unat a)) \<and> adds (append_Int8 junk b a) (print_int (sint a)) \<and>
    adds (append_UInt16 junk b c) (print_nat (unat c)) \<and> adds (append_Int16 junk b c) (print_int (sint c)) \<and>
    adds (append_UInt32 junk b d) (print_nat (unat d)) \<and> adds (append_Int32 junk b d) (print_int (sint d)) \<and>
    adds (append_UInt64 junk b e) (print_nat (unat e)) \<and> adds (append_Int64 junk b e) (print_int (sint e))"
proof -
  have k: "adds (append_cstr junk b (snprintf n t)) t" if "0 \<notin> set t" "length t < n" "n \<le> 28" for n t
  proof -
    have "snprintf n t = t" "cstr t = t" "strlen t = length t"
      using that by (simp_all add: snprintf_fits cstr_nonzero strlen_def)
    then show ?thesis
      using append_cstr_ok [OF wf, of t junk] small that by (auto simp: adds_def)
  qed
  note nz = print_nat_nonzero print_int_nonzero
  show ?thesis
    unfolding append_UInt8_def append_Int8_def append_UInt16_def append_Int16_def append_UInt32_def
      append_Int32_def append_UInt64_def append_Int64_def
    using word_digits(1,2) [of a] word_digits(3,4) [of c] word_digits(5,6) [of d] word_digits(7,8) [of e]
    by (intro conjI k nz) (auto simp: le_imp_less_Suc elim: order.strict_trans1)
qed

section \<open>A history of operations\<close>

datatype buffer_op =
    Append_char u8 | Append_text bytes | Append_counted bytes nat | Append_number "64 word"
  | Append_buffer StringBuffer | Copy | Truncate nat | Chop | Trim | Reset

fun buffer_step :: "(nat \<Rightarrow> u8) \<Rightarrow> StringBuffer \<Rightarrow> buffer_op \<Rightarrow> buffer_error + StringBuffer" where
  "buffer_step junk b (Append_char c) = append_char junk b c"
| "buffer_step junk b (Append_text t) = append_cstr junk b t"
| "buffer_step junk b (Append_counted t n) = append_len junk b t n"
| "buffer_step junk b (Append_number v) = append_Int64 junk b v"
| "buffer_step junk b (Append_buffer c) = append_buffer junk b c"
| "buffer_step junk b Copy = StringBuffer_copy junk b"
| "buffer_step junk b (Truncate i) = buffer_truncate b i"
| "buffer_step junk b Chop = chop b"
| "buffer_step junk b Trim = buffer_trim b"
| "buffer_step junk b Reset = buffer_reset b"

fun buffer_run :: "(nat \<Rightarrow> u8) \<Rightarrow> StringBuffer \<Rightarrow> buffer_op list \<Rightarrow> buffer_error + StringBuffer" where
  "buffer_run junk b [] = Inr b"
| "buffer_run junk b (p # ps) = rbind (buffer_step junk b p) (\<lambda>b. buffer_run junk b ps)"

text \<open>The same operations on a list of bytes.\<close>

fun text_step :: "bytes \<Rightarrow> buffer_op \<Rightarrow> bytes" where
  "text_step s (Append_char c) = s @ [c]"
| "text_step s (Append_text t) = s @ cstr t"
| "text_step s (Append_counted t n) = s @ take n t"
| "text_step s (Append_number v) = s @ print_int (sint v)"
| "text_step s (Append_buffer c) = s @ buffer_text c"
| "text_step s Copy = s"
| "text_step s (Truncate i) = take i s"
| "text_step s Chop = butlast s"
| "text_step s Trim = trim_text s"
| "text_step s Reset = []"

text \<open>The space an operation may need.\<close>

fun op_space :: "buffer_op \<Rightarrow> nat" where
  "op_space (Append_char c) = 1"
| "op_space (Append_text t) = strlen t + 1"
| "op_space (Append_counted t n) = n + 1"
| "op_space (Append_number v) = 21"
| "op_space (Append_buffer c) = sb_len c + 1"
| "op_space _ = 0"

text \<open>
  The counted appends copy with \<open>strncpy\<close>: they append the bytes they are given when these
  are as many as counted and none of them is a NUL.\<close>

fun op_ok :: "buffer_op \<Rightarrow> bool" where
  "op_ok (Append_counted t n) \<longleftrightarrow> n \<le> length t \<and> 0 \<notin> set (take n t)"
| "op_ok (Append_buffer c) \<longleftrightarrow> buffer_wf c \<and> 0 \<notin> set (buffer_text c)"
| "op_ok _ \<longleftrightarrow> True"

lemma strncpy_bytes_take:
  assumes "n \<le> length t" and "0 \<notin> set (take n t)"
  shows "strncpy_bytes t n = take n t"
proof -
  have "cstr t = take n t @ cstr (drop n t)"
    unfolding cstr_def using assms(2)
    by (subst append_take_drop_id [of n t, symmetric], subst takeWhile_append2) auto
  then show ?thesis using assms(1) by (simp add: strncpy_bytes_def strlen_def)
qed

lemma StringBuffer_copy_ok:
  assumes wf: "buffer_wf b"
  shows "\<exists>b'. StringBuffer_copy junk b = Inr b' \<and> buffer_wf b' \<and> buffer_text b' = buffer_text b \<and>
    sb_allocated b' = sb_allocated b"
proof -
  note w = buffer_wfD [OF wf]
  let ?t = "take (sb_len b + 1) (sb_bfr b)" and ?n = "map junk [0..<sb_allocated b]"
  let ?b = "\<lparr>sb_len = sb_len b, sb_allocated = sb_allocated b, sb_bfr = ?t @ drop (sb_len b + 1) ?n\<rparr>"
  have "get_block (sb_bfr b) 0 (sb_len b + 1) = Inr ?t" using w by (simp add: get_block_ok)
  moreover have "put ?n 0 ?t = Inr (?t @ drop (sb_len b + 1) ?n)" using w by (subst put_ok) auto
  ultimately have "StringBuffer_copy junk b = Inr ?b"
    using new_block_ok [OF w(3)] by (simp add: StringBuffer_copy_def)
  then show ?thesis using w by (intro exI [of _ ?b]) (auto simp: buffer_wf_def buffer_text_def nth_append min_def)
qed

lemma length_trim_text: "length (trim_text s) \<le> length s"
proof -
  have "length (rtrim_text s) \<le> length s"
    unfolding rtrim_text_def using length_dropWhile_le [of isspace "rev s"] by simp
  moreover have "length (dropWhile isspace (rtrim_text s)) \<le> length (rtrim_text s)"
    by (rule length_dropWhile_le)
  ultimately show ?thesis by (auto simp: trim_text_def Let_def)
qed

lemma text_step_space: "op_ok p \<Longrightarrow> length (text_step s p) \<le> length s + op_space p"
proof (cases p)
  case (Append_number v)
  then show ?thesis using word_digits(8) [where e = v] by simp
qed (use length_trim_text [of s] in \<open>auto simp: strlen_def\<close>)

lemma buffer_step_ok:
  assumes wf: "buffer_wf b" and T: "sb_len b \<le> T" "sb_allocated b \<le> max a (3 * T)"
    and small: "a \<le> 2 ^ 60" "T + op_space p \<le> 2 ^ 59" and ok: "op_ok p"
  shows "\<exists>b'. buffer_step junk b p = Inr b' \<and> buffer_wf b' \<and> buffer_text b' = text_step (buffer_text b) p \<and>
    sb_len b' \<le> T + op_space p \<and> sb_allocated b' \<le> max a (3 * (T + op_space p))"
proof -
  have al: "sb_allocated b \<le> 3 * 2 ^ 59" using T(2) small by auto
  have "\<exists>b'. buffer_step junk b p = Inr b' \<and> buffer_wf b' \<and> buffer_text b' = text_step (buffer_text b) p \<and>
    (sb_allocated b' = sb_allocated b \<or> sb_allocated b' \<le> 3 * (sb_len b + op_space p))"
  proof (cases p)
    case (Append_char c)
    then show ?thesis using append_char_ok [OF wf, of junk c] al by auto
  next
    case (Append_text t)
    then show ?thesis using append_cstr_ok [OF wf, of t junk] al small by auto
  next
    case (Append_counted t n)
    then show ?thesis using append_len_ok [OF wf, of n junk t] al small ok
      by (auto simp: strncpy_bytes_take)
  next
    case (Append_buffer c)
    then have "strncpy_bytes (sb_bfr c) (sb_len c) = buffer_text c"
      using ok buffer_wfD [of c] strncpy_bytes_take [of "sb_len c" "sb_bfr c"] by (simp add: buffer_text_def)
    then show ?thesis using Append_buffer append_len_ok [OF wf, of "sb_len c" junk "sb_bfr c"] al small
      by (auto simp: append_buffer_def)
  next
    case Copy
    then show ?thesis using StringBuffer_copy_ok [OF wf, of junk] by auto
  next
    case (Append_number v)
    have "cstr (print_int (sint v)) = print_int (sint v)" "snprintf 28 (print_int (sint v)) = print_int (sint v)"
      using word_digits(8) [where e = v] by (simp_all add: cstr_nonzero print_int_nonzero snprintf_fits)
    moreover have "strlen (print_int (sint v)) \<le> 20"
      using word_digits(8) [where e = v] calculation by (simp add: strlen_def)
    ultimately show ?thesis using append_cstr_ok [OF wf, of "print_int (sint v)" junk] al Append_number
      by (fastforce simp: append_Int64_def)
  next
    case (Truncate i)
    then show ?thesis using buffer_truncate_ok [OF wf, of i] by auto
  next
    case Chop
    show ?thesis
    proof (cases "sb_len b = 0")
      case True
      then have "buffer_text b = []" using wf by (simp add: buffer_text_def)
      then show ?thesis using Chop True wf by (auto simp: chop_def)
    next
      case False
      then have "butlast (buffer_text b) = take (sb_len b - 1) (buffer_text b)"
        using wf by (simp add: butlast_conv_take)
      then show ?thesis using Chop False buffer_truncate_ok [OF wf, of "sb_len b - 1"] by (auto simp: chop_def)
    qed
  next
    case Trim
    then show ?thesis using buffer_trim_ok [OF wf] by auto
  next
    case Reset
    then show ?thesis using buffer_reset_ok [OF wf] by auto
  qed
  then obtain b' where b': "buffer_step junk b p = Inr b'" "buffer_wf b'"
    "buffer_text b' = text_step (buffer_text b) p"
    "sb_allocated b' = sb_allocated b \<or> sb_allocated b' \<le> 3 * (sb_len b + op_space p)" by blast
  have "sb_len b' \<le> T + op_space p"
    using text_step_space [OF ok, of "buffer_text b"] b'(2,3) wf T(1) length_buffer_text by (metis add_le_mono1 order_trans)
  then show ?thesis using b' T by (intro exI [of _ b']) auto
qed

lemma buffer_run_ok:
  assumes "buffer_wf b" and "sb_len b \<le> T" "sb_allocated b \<le> max a (3 * T)"
    and "a \<le> 2 ^ 60" "T + sum_list (map op_space ps) \<le> 2 ^ 59" "\<forall>p \<in> set ps. op_ok p"
  shows "\<exists>b'. buffer_run junk b ps = Inr b' \<and> buffer_wf b' \<and> buffer_text b' = foldl text_step (buffer_text b) ps \<and>
    sb_allocated b' \<le> max a (3 * (T + sum_list (map op_space ps)))"
  using assms
proof (induction ps arbitrary: b T)
  case (Cons p ps)
  have le: "T + op_space p \<le> 2 ^ 59" using Cons.prems(5) by simp
  obtain b' where b': "buffer_step junk b p = Inr b'" "buffer_wf b'"
    "buffer_text b' = text_step (buffer_text b) p" "sb_len b' \<le> T + op_space p"
    "sb_allocated b' \<le> max a (3 * (T + op_space p))"
    using buffer_step_ok [OF Cons.prems(1,2,3,4) le, of junk] Cons.prems(6) by auto
  show ?case using Cons.IH [OF b'(2,4,5) Cons.prems(4)] Cons.prems(5,6) b'(1,3) by (simp add: add.assoc)
qed auto

lemma StringBuffer_new_ok:
  assumes "n < 2 ^ 63"
  shows "\<exists>b. StringBuffer_new junk n = Inr b \<and> buffer_wf b \<and> buffer_text b = [] \<and>
    sb_allocated b = (if n > 0 then n else 128)"
proof -
  define a :: nat where "a = (if n > 0 then n else BLOCXX_DEFAULT_ALLOCATION_UNIT)"
  have a: "a < 2 ^ 63" "0 < a" using assms by (auto simp: a_def BLOCXX_DEFAULT_ALLOCATION_UNIT_def)
  let ?b = "\<lparr>sb_len = 0, sb_allocated = a, sb_bfr = [] @ [0] @ drop 1 (map junk [0..<a])\<rparr>"
  have "put (map junk [0..<a]) 0 [0] = Inr ([] @ [0] @ drop 1 (map junk [0..<a]))"
    using a(2) by (subst put_ok) simp_all
  then have "StringBuffer_new junk n = Inr ?b"
    unfolding StringBuffer_new_def a_def [symmetric] Let_def new_block_ok [OF a(1)] by simp
  moreover have "a = (if n > 0 then n else 128)"
    by (simp add: a_def BLOCXX_DEFAULT_ALLOCATION_UNIT_def)
  ultimately show ?thesis using a by (intro exI [of _ ?b]) (auto simp: buffer_wf_def buffer_text_def)
qed

text \<open>
  C17. A new buffer, and then any sequence of these operations: appending a character, a C
  string, a counted piece of memory or another buffer without NULs, or a 64-bit number; copying;
  truncating, chopping, trimming and resetting. No access leaves the allocated block, the text
  is the one the same operations give on a list of bytes, whatever the fresh memory holds, and
  the block is never larger than three times the space asked for. Appending a buffer to itself,
  NULs in counted pieces and getLine() are not among the operations: other theorems say what
  they do.
\<close>

theorem buffer_refines_text:
  assumes "n \<le> 2 ^ 60" and "sum_list (map op_space ps) \<le> 2 ^ 59" and "\<forall>p \<in> set ps. op_ok p"
  shows "\<exists>b0 b. StringBuffer_new junk n = Inr b0 \<and> buffer_run junk b0 ps = Inr b \<and> buffer_wf b \<and>
    buffer_text b = foldl text_step [] ps \<and>
    sb_allocated b \<le> max (if n > 0 then n else 128) (3 * sum_list (map op_space ps))"
proof -
  obtain b0 where b0: "StringBuffer_new junk n = Inr b0" "buffer_wf b0" "buffer_text b0 = []"
    "sb_allocated b0 = (if n > 0 then n else 128)"
    using StringBuffer_new_ok [of n junk] assms(1) by auto
  have "sb_len b0 = 0" using b0(2,3) length_buffer_text by fastforce
  then show ?thesis
    using buffer_run_ok [OF b0(2), of 0 "if n > 0 then n else 128" ps junk] b0 assms by auto
qed

theorem buffer_refines_text_witness:
  "\<exists>b0 b. StringBuffer_new (\<lambda>_. 0x55) 2 = Inr b0 \<and>
    buffer_run (\<lambda>_. 0x55) b0 [Append_char 0x20, Append_text [0x61, 0x62, 0x20, 0], Trim, Append_number 7] = Inr b \<and>
    buffer_text b = [0x61, 0x62, 0x37]"
proof -
  have "foldl text_step [] [Append_char 0x20, Append_text [0x61, 0x62, 0x20, 0], Trim, Append_number 7] =
      [0x61, 0x62, 0x37]" by code_simp
  then show ?thesis
    using buffer_refines_text [of 2 "[Append_char 0x20, Append_text [0x61, 0x62, 0x20, 0], Trim, Append_number 7]" "\<lambda>_. 0x55"]
    by (auto simp: strlen_def cstr_def)
qed

theorem integers_are_appended_in_full_witness:
  "\<exists>b'. append_Int8 (\<lambda>_. 1) \<lparr>sb_len = 0, sb_allocated = 1, sb_bfr = [0]\<rparr> 0xFF = Inr b' \<and> buffer_text b' = [0x2D, 0x31]"
proof -
  have "print_int (sint (0xFF :: 8 word)) = [0x2D, 0x31]" by code_simp
  then show ?thesis
    using integers_are_appended_in_full [of "\<lparr>sb_len = 0, sb_allocated = 1, sb_bfr = [0]\<rparr>" "\<lambda>_. 1" "0xFF" 0 0 0,
        THEN conjunct2, THEN conjunct1]
    by (auto simp: buffer_wf_def) (simp add: buffer_text_def)
qed

section \<open>Reading lines\<close>

lemma getLine_loop_ok:
  assumes "buffer_wf b" and "sb_len b \<le> T" "sb_allocated b \<le> max a (3 * T)"
    and "a \<le> 2 ^ 60" "T + length (takeWhile (\<lambda>c. c \<noteq> 0x0A) rest) \<le> 2 ^ 59"
  defines "line \<equiv> takeWhile (\<lambda>c. c \<noteq> 0x0A) rest"
  shows "\<exists>b'. getLine_loop junk rest cnt b = Inr (b',
      \<lparr>is_rest = drop (length line + 1) rest, is_eof = (line = rest), is_fail = (line = rest \<and> cnt + length line = 0)\<rparr>) \<and>
    buffer_wf b' \<and> buffer_text b' = buffer_text b @ line"
  using assms(1-5) unfolding line_def
proof (induction rest arbitrary: b T cnt)
  case (Cons c rest)
  show ?case
  proof (cases "c = 0x0A")
    case False
    obtain b' where b': "append_char junk b c = Inr b'" "buffer_wf b'"
      "buffer_text b' = buffer_text b @ [c]" "sb_len b' \<le> T + 1" "sb_allocated b' \<le> max a (3 * (T + 1))"
      using buffer_step_ok [OF Cons.prems(1-4), of "Append_char c" junk] Cons.prems(5) False by auto
    have "T + 1 + length (takeWhile (\<lambda>c. c \<noteq> 0x0A) rest) \<le> 2 ^ 59" using Cons.prems(5) False by simp
    from Cons.IH [OF b'(2,4,5) Cons.prems(4) this, of "Suc cnt"] show ?thesis
      using False b'(1,3) by auto
  qed (use Cons.prems in auto)
qed auto

lemma strchr_text:
  assumes "0 \<notin> set s"
  shows "strchr (s @ 0 # r) c = (if c \<in> set s then Some (length (takeWhile (\<lambda>x. x \<noteq> c) s)) else if c = 0 then Some (length s) else None)"
  using assms by (induction s) auto

lemma buffer_bfr_split: "buffer_wf b \<Longrightarrow> sb_bfr b = buffer_text b @ 0 # drop (sb_len b + 1) (sb_bfr b)"
  unfolding buffer_wf_def buffer_text_def by (metis Suc_eq_plus1 id_take_nth_drop)

lemma cstr_buffer: "buffer_wf b \<Longrightarrow> 0 \<notin> set (buffer_text b) \<Longrightarrow> cstr (sb_bfr b) = buffer_text b"
proof -
  assume b: "buffer_wf b" "0 \<notin> set (buffer_text b)"
  have "cstr (buffer_text b @ 0 # r) = buffer_text b" for r
    unfolding cstr_def using b(2) by (subst takeWhile_append2) auto
  then show ?thesis using buffer_bfr_split [OF b(1)] by metis
qed

text \<open>
  \<open>getLine\<close> on a readable stream reads up to the next newline and takes it from the
  stream, returns the line up to its first carriage return, and sets the end-of-file flag
  exactly when the newline was missing and the failure flag exactly when nothing was left.
  The line cut off behind a carriage return in its middle is lost.
\<close>

theorem getLine_reads_a_line:
  assumes wf: "buffer_wf b" and small: "sb_allocated b \<le> 2 ^ 60" "length (is_rest str) \<le> 2 ^ 59"
    and str: "\<not> is_fail str" and nonul: "0 \<notin> set (is_rest str)"
  defines "line \<equiv> takeWhile (\<lambda>c. c \<noteq> 0x0A) (is_rest str)"
  shows "\<exists>b' str'. getLine junk b str True = Inr (b', str', takeWhile (\<lambda>c. c \<noteq> 0x0D) line) \<and>
    buffer_wf b' \<and> buffer_text b' = takeWhile (\<lambda>c. c \<noteq> 0x0D) line \<and>
    is_rest str' = drop (length line + 1) (is_rest str) \<and>
    (is_eof str' \<longleftrightarrow> is_eof str \<or> 0x0A \<notin> set (is_rest str)) \<and> (is_fail str' \<longleftrightarrow> is_rest str = [])"
proof -
  obtain b1 where b1: "buffer_reset b = Inr b1" "buffer_wf b1" "buffer_text b1 = []" "sb_allocated b1 = sb_allocated b"
    using buffer_reset_ok [OF wf] by blast
  have l0: "sb_len b1 \<le> 0" using b1(2,3) length_buffer_text by fastforce
  have le: "0 + length line \<le> 2 ^ 59"
    using small(2) length_takeWhile_le [of "\<lambda>c. c \<noteq> 0x0A" "is_rest str"] by (simp add: line_def)
  obtain b2 where b2: "getLine_loop junk (is_rest str) 0 b1 = Inr (b2,
      \<lparr>is_rest = drop (length line + 1) (is_rest str), is_eof = (line = is_rest str),
       is_fail = (line = is_rest str \<and> 0 + length line = 0)\<rparr>)" "buffer_wf b2" "buffer_text b2 = line"
    using getLine_loop_ok [OF b1(2) l0, of "2 ^ 60" "is_rest str" junk 0] b1(3,4) small le
    unfolding line_def by auto
  have eof: "line = is_rest str \<longleftrightarrow> 0x0A \<notin> set (is_rest str)"
    unfolding line_def takeWhile_eq_all_conv by auto
  have fail: "line = is_rest str \<and> 0 + length line = 0 \<longleftrightarrow> is_rest str = []"
    by (cases "is_rest str") (simp_all add: line_def)
  have nz: "0 \<notin> set line" using nonul set_takeWhileD unfolding line_def by fastforce
  have sc: "strchr (sb_bfr b2) 0x0D =
      (if 0x0D \<in> set line then Some (length (takeWhile (\<lambda>x. x \<noteq> 0x0D) line)) else None)"
    by (subst buffer_bfr_split [OF b2(2)]) (simp add: b2(3) strchr_text nz)
  have cut: "take (length (takeWhile (\<lambda>x. x \<noteq> 0x0D) line)) line = takeWhile (\<lambda>x. x \<noteq> 0x0D) line"
    by (rule takeWhile_eq_take [symmetric])
  have uncut: "0x0D \<notin> set line \<Longrightarrow> takeWhile (\<lambda>x. x \<noteq> 0x0D) line = line"
    by (auto simp: takeWhile_eq_all_conv)
  have "\<exists>b3. (case strchr (sb_bfr b2) 0x0D of Some p \<Rightarrow> buffer_truncate b2 p | None \<Rightarrow> Inr b2) = Inr b3 \<and>
      buffer_wf b3 \<and> buffer_text b3 = takeWhile (\<lambda>x. x \<noteq> 0x0D) line"
  proof (cases "0x0D \<in> set line")
    case True
    then show ?thesis
      using buffer_truncate_ok [OF b2(2), of "length (takeWhile (\<lambda>x. x \<noteq> 0x0D) line)"] b2(3)
      by (auto simp: sc cut)
  next
    case False
    then show ?thesis using b2(2,3) uncut [OF False] by (intro exI [of _ b2]) (simp only: sc if_False option.case)
  qed
  then obtain b3 where b3: "(case strchr (sb_bfr b2) 0x0D of Some p \<Rightarrow> buffer_truncate b2 p | None \<Rightarrow> Inr b2) = Inr b3"
    "buffer_wf b3" "buffer_text b3 = takeWhile (\<lambda>x. x \<noteq> 0x0D) line" by blast
  have nz3: "0 \<notin> set (buffer_text b3)" using nz set_takeWhileD unfolding b3(3) by fastforce
  have "cstr (sb_bfr b3) = buffer_text b3" by (rule cstr_buffer [OF b3(2) nz3])
  then show ?thesis using b1(1) b2(1) b3 str eof fail
    by (auto simp: getLine_def)
qed

theorem getLine_reads_a_line_witness:
  "\<exists>b' str'. getLine (\<lambda>_. 1) \<lparr>sb_len = 0, sb_allocated = 1, sb_bfr = [0]\<rparr>
      \<lparr>is_rest = [0x61, 0x0D, 0x62, 0x0A, 0x63], is_eof = False, is_fail = False\<rparr> True = Inr (b', str', [0x61]) \<and>
    is_rest str' = [0x63]"
  using getLine_reads_a_line [of "\<lparr>sb_len = 0, sb_allocated = 1, sb_bfr = [0]\<rparr>"
      "\<lparr>is_rest = [0x61, 0x0D, 0x62, 0x0A, 0x63], is_eof = False, is_fail = False\<rparr>" "\<lambda>_. 1"]
  by (auto simp: buffer_wf_def)

section \<open>Appending a buffer to itself\<close>

text \<open>
  Appending a buffer to itself doubles its text as long as the copy fits into the
  block; as soon as the block has to grow, the copy reads the block that was just deleted.
\<close>

theorem self_append_reads_freed_memory:
  assumes wf: "buffer_wf b" and small: "sb_allocated b \<le> 2 ^ 60" and nonul: "0 \<notin> set (buffer_text b)"
  shows "append_self junk b = Inl UseAfterFree \<longleftrightarrow> sb_allocated b < 2 * sb_len b + 2"
    and "2 * sb_len b + 2 \<le> sb_allocated b \<Longrightarrow>
      \<exists>b'. append_self junk b = Inr b' \<and> buffer_text b' = buffer_text b @ buffer_text b"
proof -
  note w = buffer_wfD [OF wf]
  have s: "size_add (sb_len b) (Suc 0) = Suc (sb_len b)" using w by (subst size_add_small) auto
  have grows: "sb_len b + 1 > freeSpace b \<longleftrightarrow> sb_allocated b < 2 * sb_len b + 2"
    using w(2) by (auto simp: freeSpace_wf [OF wf])
  have ca: "\<exists>d. checkAvail junk b (Suc (sb_len b)) = Inr d"
    using checkAvail_ok [OF wf, of "Suc (sb_len b)" junk] w(2) small by auto
  have t: "strncpy_bytes (sb_bfr b) (sb_len b) = buffer_text b"
  proof -
    have "cstr (sb_bfr b) = buffer_text b" by (rule cstr_buffer [OF wf nonul])
    then show ?thesis using wf by (simp add: strncpy_bytes_def strlen_def)
  qed
  obtain b' where b': "append_len junk b (sb_bfr b) (sb_len b) = Inr b'" "buffer_text b' = buffer_text b @ buffer_text b"
    using append_len_ok [OF wf, of "sb_len b" junk "sb_bfr b"] w(2) small by (auto simp: t)
  show "append_self junk b = Inl UseAfterFree \<longleftrightarrow> sb_allocated b < 2 * sb_len b + 2"
    using ca grows b' by (auto simp: append_self_def s)
  show "\<exists>b'. append_self junk b = Inr b' \<and> buffer_text b' = buffer_text b @ buffer_text b"
    if "2 * sb_len b + 2 \<le> sb_allocated b"
    using that grows b' by (auto simp: append_self_def s)
qed

theorem self_append_reads_freed_memory_witness:
  "append_self (\<lambda>_. 1) \<lparr>sb_len = 1, sb_allocated = 3, sb_bfr = [0x61, 0, 0]\<rparr> = Inl UseAfterFree"
  using self_append_reads_freed_memory(1) [of "\<lparr>sb_len = 1, sb_allocated = 3, sb_bfr = [0x61, 0, 0]\<rparr>" "\<lambda>_. 1"]
  by (simp add: buffer_wf_def buffer_text_def)

text \<open>
  A string that contains a NUL is not appended as it is: the bytes behind its first
  NUL are replaced by NULs.
\<close>

theorem bytes_behind_a_nul_are_lost:
  assumes wf: "buffer_wf b" and small: "sb_allocated b \<le> 2 ^ 60"
    and arg: "arg = Some \<lparr>m_len = length (t @ 0 # r), m_data = t @ 0 # r @ [0]\<rparr>" "0 \<notin> set t" "length (t @ 0 # r) \<le> 2 ^ 60"
  shows "\<exists>b'. append_String junk b arg = Inr b' \<and> buffer_wf b' \<and>
    buffer_text b' = buffer_text b @ t @ 0 # replicate (length r) 0"
proof -
  have c: "cstr (t @ 0 # r @ [0]) = t"
    unfolding cstr_def using arg(2) by (subst takeWhile_append2) auto
  show ?thesis using append_len_ok [OF wf, of "length (t @ 0 # r)" junk "t @ 0 # r @ [0]"] small arg(1,3) c
    by (auto simp: append_String_def slength_def c_str_def strncpy_bytes_def strlen_def)
qed

theorem bytes_behind_a_nul_are_lost_witness:
  "\<exists>b'. append_String (\<lambda>_. 1) \<lparr>sb_len = 0, sb_allocated = 1, sb_bfr = [0]\<rparr>
      (Some \<lparr>m_len = 3, m_data = [0x61, 0, 0x62, 0]\<rparr>) = Inr b' \<and> buffer_text b' = [0x61, 0, 0]"
  using bytes_behind_a_nul_are_lost [of "\<lparr>sb_len = 0, sb_allocated = 1, sb_bfr = [0]\<rparr>"
      "Some \<lparr>m_len = 3, m_data = [0x61, 0, 0x62, 0]\<rparr>" "[0x61]" "[0x62]" "\<lambda>_. 1"]
  by (auto simp: buffer_wf_def buffer_text_def)

end
