(* ===== verification/TimePeriod.thy ===== *)
theory TimePeriod
  imports DateTime_Props
begin

text \<open>
  The class \<open>TimePeriod\<close> (\<open>TimePeriod.cpp\<close>) and the predicates of \<open>TimeUtils.cpp\<close>: half-open
  intervals of times, with the law its header states, that a period stands for a set of
  times. The interval laws are proved once, in the locale of a strict total order, and
  interpreted on the times with \<open>operator<\<close>.
\<close>

section \<open>Half-open intervals of an order\<close>

locale half_open_intervals =
  fixes carrier :: "'t \<Rightarrow> bool" and less :: "'t \<Rightarrow> 't \<Rightarrow> bool"
  assumes irrefl: "carrier a \<Longrightarrow> \<not> less a a"
    and trans: "carrier a \<Longrightarrow> carrier b \<Longrightarrow> carrier c \<Longrightarrow> less a b \<Longrightarrow> less b c \<Longrightarrow> less a c"
    and total: "carrier a \<Longrightarrow> carrier b \<Longrightarrow> a = b \<or> less a b \<or> less b a"
begin

definition interval :: "'t \<Rightarrow> 't \<Rightarrow> 't set" where
  "interval a b = {t. carrier t \<and> (a = t \<or> less a t) \<and> less t b}"

definition least_of :: "'t \<Rightarrow> 't \<Rightarrow> 't" where "least_of a b = (if less b a then b else a)"
definition greatest_of :: "'t \<Rightarrow> 't \<Rightarrow> 't" where "greatest_of a b = (if less a b then b else a)"

lemma start_in_interval: "carrier a \<Longrightarrow> less a b \<Longrightarrow> a \<in> interval a b"
  by (simp add: interval_def)

lemma interval_empty: "carrier a \<Longrightarrow> carrier b \<Longrightarrow> interval a b = {} \<longleftrightarrow> \<not> less a b"
  unfolding interval_def using trans by blast

lemma interval_subset:
  assumes c: "carrier a" "carrier b" "carrier c" "carrier d" and ab: "less a b"
  shows "interval a b \<subseteq> interval c d \<longleftrightarrow> (c = a \<or> less c a) \<and> (b = d \<or> less b d)"
proof
  assume sub: "interval a b \<subseteq> interval c d"
  then have a: "(c = a \<or> less c a) \<and> less a d"
    using start_in_interval [OF c(1) ab] by (auto simp: interval_def)
  have "\<not> less d b"
  proof
    assume "less d b"
    then have "d \<in> interval a b" using a c by (simp add: interval_def)
    then show False using sub irrefl [OF c(4)] by (auto simp: interval_def)
  qed
  then show "(c = a \<or> less c a) \<and> (b = d \<or> less b d)" using a total [OF c(2,4)] by blast
next
  assume r: "(c = a \<or> less c a) \<and> (b = d \<or> less b d)"
  show "interval a b \<subseteq> interval c d"
  proof
    fix t
    assume t: "t \<in> interval a b"
    then have "c = t \<or> less c t" "less t d" using r c trans unfolding interval_def by blast+
    then show "t \<in> interval c d" using t by (simp add: interval_def)
  qed
qed

lemma interval_meet:
  assumes c: "carrier a" "carrier b" "carrier c" "carrier d"
  shows "interval a b \<inter> interval c d = interval (greatest_of a c) (least_of b d)"
proof (intro set_eqI iffI)
  fix t assume "t \<in> interval a b \<inter> interval c d"
  then show "t \<in> interval (greatest_of a c) (least_of b d)"
    by (auto simp: interval_def greatest_of_def least_of_def)
next
  fix t assume t: "t \<in> interval (greatest_of a c) (least_of b d)"
  then have ct: "carrier t" by (simp add: interval_def)
  have "a = t \<or> less a t" "c = t \<or> less c t"
    using t c ct trans [of a c t] trans [of c a t] total [of a c]
    by (auto simp: interval_def greatest_of_def split: if_splits)
  moreover have "less t b" "less t d"
    using t c ct trans [of t b d] trans [of t d b] total [of b d]
    by (auto simp: interval_def least_of_def split: if_splits)
  ultimately show "t \<in> interval a b \<inter> interval c d" using ct by (simp add: interval_def)
qed

lemma interval_join:
  assumes c: "carrier a" "carrier b" "carrier c" "carrier d" and "less a b" "less c d"
    and touch: "\<not> less b c" "\<not> less d a"
  shows "interval a b \<union> interval c d = interval (least_of a c) (greatest_of b d)"
proof (intro set_eqI iffI)
  fix t assume t: "t \<in> interval a b \<union> interval c d"
  then have ct: "carrier t" by (auto simp: interval_def)
  show "t \<in> interval (least_of a c) (greatest_of b d)"
    using t ct c total [of a c] total [of b d] trans [of a c t] trans [of c a t] trans [of t b d] trans [of t d b]
    by (auto simp: interval_def greatest_of_def least_of_def)
next
  fix t assume t: "t \<in> interval (least_of a c) (greatest_of b d)"
  then have ct: "carrier t" by (simp add: interval_def)
  have "(a = t \<or> less a t) \<or> (c = t \<or> less c t)" using t by (auto simp: interval_def least_of_def split: if_splits)
  moreover have "less t b \<or> less t d" using t by (auto simp: interval_def greatest_of_def split: if_splits)
  moreover have "(a = t \<or> less a t) \<or> less t a" "(c = t \<or> less c t) \<or> less t c" "less t b \<or> b = t \<or> less b t"
    "less t d \<or> d = t \<or> less d t"
    using total ct c by blast+
  ultimately show "t \<in> interval a b \<union> interval c d"
    using touch ct c trans [of b t c] trans [of d t a] trans [of t a b] trans [of t c d]
    by (auto simp: interval_def)
qed

lemma least_greatest:
  assumes "carrier a" "carrier b"
  shows "carrier (least_of a b)" "carrier (greatest_of a b)"
    "least_of a b = a \<or> less (least_of a b) a" "least_of a b = b \<or> less (least_of a b) b"
    "greatest_of a b = a \<or> less a (greatest_of a b)" "greatest_of a b = b \<or> less b (greatest_of a b)"
  using assms total [of a b] by (auto simp: least_of_def greatest_of_def)

lemma less_le_trans':
  "carrier a \<Longrightarrow> carrier b \<Longrightarrow> carrier c \<Longrightarrow> a = b \<or> less a b \<Longrightarrow> less b c \<Longrightarrow> less a c"
  "carrier a \<Longrightarrow> carrier b \<Longrightarrow> carrier c \<Longrightarrow> less a b \<Longrightarrow> b = c \<or> less b c \<Longrightarrow> less a c"
  using trans by blast+

end

section \<open>Periods\<close>

record TimePeriod =
  m_start :: DateTime
  m_finish :: DateTime

definition normalizeEndpoints :: "DateTime \<Rightarrow> DateTime \<Rightarrow> DateTime \<times> DateTime" where
  "normalizeEndpoints start finish =
     (if isInvalid start \<or> isInvalid finish then (getNADT, getNADT)
      else if dt_ge start finish then (getPosInfinity, getNegInfinity)
      else (start, finish))"

definition TimePeriod_new :: TimePeriod where
  "TimePeriod_new = \<lparr>m_start = new_DateTime, m_finish = new_DateTime\<rparr>"

definition TimePeriod_of :: "DateTime \<Rightarrow> DateTime \<Rightarrow> TimePeriod" where
  "TimePeriod_of start finish =
     (let (s, f) = normalizeEndpoints start finish in \<lparr>m_start = s, m_finish = f\<rparr>)"

definition TimePeriod_of_length :: "'a time_limits_scheme \<Rightarrow> DateTime \<Rightarrow> TimeDuration \<Rightarrow> date_error + TimePeriod" where
  "TimePeriod_of_length lim start len =
     rbind (dt_plus lim start len) (\<lambda>finish. Inr (TimePeriod_of start finish))"

definition period_length :: "TimePeriod \<Rightarrow> TimeDuration" where
  "period_length p =
     (if isInvalid (m_start p) then special_duration E_TIME_NADT
      else if dt_ge (m_start p) (m_finish p) then duration 0
      else timeBetween (m_start p) (m_finish p))"

definition period_empty :: "TimePeriod \<Rightarrow> bool" where
  "period_empty p = dt_ge (m_start p) (m_finish p)"

definition period_contains_time :: "TimePeriod \<Rightarrow> DateTime \<Rightarrow> bool" where
  "period_contains_time p dt \<longleftrightarrow> dt_le (m_start p) dt \<and> dt_less dt (m_finish p)"

definition period_contains :: "TimePeriod \<Rightarrow> TimePeriod \<Rightarrow> bool" where
  "period_contains p tp =
     (if isInvalid (m_start p) \<and> \<not> isInvalid (m_start tp) then False
      else if period_empty tp then True
      else dt_le (m_start p) (m_start tp) \<and> dt_le (m_finish tp) (m_finish p))"

definition period_eq :: "TimePeriod \<Rightarrow> TimePeriod \<Rightarrow> bool" where
  "period_eq a b \<longleftrightarrow> dt_eq (m_start a) (m_start b) \<and> dt_eq (m_finish a) (m_finish b)"

section \<open>Utilities\<close>

definition period_isInvalid :: "TimePeriod \<Rightarrow> bool" where
  "period_isInvalid p =
     (if isInvalid (m_start p) then True
      else if isInvalid (m_finish p) then True
      else isPosInfinity (m_start p))"

definition td_isInfinite :: "TimeDuration \<Rightarrow> bool" where
  "td_isInfinite td \<longleftrightarrow> td_special td = E_TIME_POS_INFINITY \<or> td_special td = E_TIME_NEG_INFINITY"

definition period_isInfinite :: "TimePeriod \<Rightarrow> bool" where
  "period_isInfinite p = td_isInfinite (timeBetween (m_start p) (m_finish p))"

definition infiniteTime :: DateTime where "infiniteTime = getPosInfinity"
definition invalidTime :: DateTime where "invalidTime = DateTime_of_special E_TIME_NADT"

definition infiniteTimePeriod :: "DateTime \<Rightarrow> TimePeriod" where
  "infiniteTimePeriod start = TimePeriod_of start infiniteTime"

definition invalidTimePeriod :: TimePeriod where
  "invalidTimePeriod = TimePeriod_of invalidTime invalidTime"

section \<open>Combinations\<close>

definition dt_max :: "DateTime \<Rightarrow> DateTime \<Rightarrow> DateTime" where "dt_max a b = (if dt_less a b then b else a)"
definition dt_min :: "DateTime \<Rightarrow> DateTime \<Rightarrow> DateTime" where "dt_min a b = (if dt_less b a then b else a)"

definition period_intersect :: "TimePeriod \<Rightarrow> TimePeriod \<Rightarrow> bool" where
  "period_intersect tp1 tp2 =
     (if period_isInvalid tp1 \<or> period_isInvalid tp2 then False
      else dt_greater (m_finish tp1) (m_start tp2) \<and> dt_less (m_start tp1) (m_finish tp2))"

definition period_intersection :: "TimePeriod \<Rightarrow> TimePeriod \<Rightarrow> TimePeriod" where
  "period_intersection tp1 tp2 =
     (if \<not> period_intersect tp1 tp2 then TimePeriod_of getNADT getNADT
      else TimePeriod_of (dt_max (m_start tp1) (m_start tp2)) (dt_min (m_finish tp1) (m_finish tp2)))"

definition period_merge :: "TimePeriod \<Rightarrow> TimePeriod \<Rightarrow> TimePeriod" where
  "period_merge tp1 tp2 =
     (if period_isInvalid tp1 \<or> period_isInvalid tp2 then TimePeriod_of getNADT getNADT
      else if period_intersect tp1 tp2 \<or> dt_eq (m_finish tp1) (m_start tp2) \<or> dt_eq (m_start tp1) (m_start tp2)
        then TimePeriod_of (dt_min (m_start tp1) (m_start tp2)) (dt_max (m_finish tp1) (m_finish tp2))
      else TimePeriod_of getNADT getNADT)"

definition period_span :: "TimePeriod \<Rightarrow> TimePeriod \<Rightarrow> TimePeriod" where
  "period_span tp1 tp2 =
     (if period_isInvalid tp1 \<or> period_isInvalid tp2 then TimePeriod_of getNADT getNADT
      else TimePeriod_of (dt_min (m_start tp1) (m_start tp2)) (dt_max (m_finish tp1) (m_finish tp2)))"

section \<open>Times as an order\<close>

definition valid_time :: "DateTime \<Rightarrow> bool" where "valid_time t \<longleftrightarrow> \<not> isInvalid t"

lemma dt_eq_iff: "dt_eq a b \<longleftrightarrow> a = b"
  by (cases a; cases b) (auto simp: dt_eq_def)

lemma dt_le_iff: "dt_le a b \<longleftrightarrow> a = b \<or> dt_less a b" "dt_ge a b \<longleftrightarrow> a = b \<or> dt_less b a"
  by (auto simp: dt_le_def dt_ge_def dt_eq_iff)

interpretation tm: half_open_intervals valid_time dt_less
proof
  fix a b :: DateTime
  show "a = b \<or> dt_less a b \<or> dt_less b a" if "valid_time a" "valid_time b"
    using that by (cases a; cases b) (auto simp: valid_time_def dt_less_def)
qed (auto simp: valid_time_def dt_less_def split: if_splits)

lemma dt_min_max: "dt_min a b = tm.least_of a b" "dt_max a b = tm.greatest_of a b"
  by (simp_all add: dt_min_def dt_max_def tm.least_of_def tm.greatest_of_def)

text \<open>The times of a period, the set it stands for.\<close>

definition times_of :: "TimePeriod \<Rightarrow> DateTime set" where
  "times_of p = {t. \<not> isInvalid t \<and> dt_le (m_start p) t \<and> dt_less t (m_finish p)}"

lemma times_interval: "times_of p = tm.interval (m_start p) (m_finish p)"
  by (auto simp: times_of_def tm.interval_def dt_le_iff valid_time_def)

text \<open>What the constructor with two times makes: not-a-period, the empty period, or a
  nonempty one.\<close>

definition invalid_period :: TimePeriod where "invalid_period = \<lparr>m_start = getNADT, m_finish = getNADT\<rparr>"
definition empty_period :: TimePeriod where "empty_period = \<lparr>m_start = getPosInfinity, m_finish = getNegInfinity\<rparr>"

definition proper :: "TimePeriod \<Rightarrow> bool" where
  "proper p \<longleftrightarrow> \<not> isInvalid (m_start p) \<and> \<not> isInvalid (m_finish p) \<and> \<not> isPosInfinity (m_start p) \<and>
     dt_less (m_start p) (m_finish p)"

definition period_wf :: "TimePeriod \<Rightarrow> bool" where
  "period_wf p \<longleftrightarrow> p = invalid_period \<or> p = empty_period \<or> proper p"

lemma special_valid [simp]: "isInvalid getNADT" "\<not> isInvalid getPosInfinity" "\<not> isInvalid getNegInfinity"
  "isPosInfinity getPosInfinity" "\<not> isPosInfinity getNADT" "\<not> dt_less getPosInfinity getNegInfinity"
  "getPosInfinity \<noteq> getNegInfinity"
  by (simp_all add: isInvalid_def isPosInfinity_def isNADT_def isPosInf_def special_values dt_less_def)

text \<open>No time of the invariant is above plus infinity, so that a period that starts there is empty.\<close>

lemma not_above_infinity:
  assumes "limits_ok lim" and "dt_ok lim t"
  shows "isPosInfinity s \<Longrightarrow> dt_ok lim s \<Longrightarrow> \<not> dt_less s t"
  using limits_bounds [OF assms(1)] assms(2)
  by (auto simp: dt_less_def dt_ok_def isPosInfinity_def isPosInf_def normal_dt_def special_values isInvalid_def)

lemma TimePeriod_of_cases:
  assumes "limits_ok lim" and "dt_ok lim a" "dt_ok lim b"
  shows "TimePeriod_of a b = invalid_period \<and> (isInvalid a \<or> isInvalid b) \<or>
    TimePeriod_of a b = empty_period \<and> \<not> isInvalid a \<and> \<not> isInvalid b \<and> \<not> dt_less a b \<or>
    TimePeriod_of a b = \<lparr>m_start = a, m_finish = b\<rparr> \<and> proper \<lparr>m_start = a, m_finish = b\<rparr>"
proof -
  have "a = b \<or> dt_less a b \<or> dt_less b a" if "\<not> isInvalid a" "\<not> isInvalid b"
    using tm.total [of a b] that by (simp add: valid_time_def)
  moreover have "\<not> dt_less a b \<or> \<not> dt_less b a" "\<not> dt_less a a"
    by (auto simp: dt_less_def)
  ultimately show ?thesis
    using not_above_infinity [OF assms(1,3) _ assms(2)]
    by (auto simp: TimePeriod_of_def normalizeEndpoints_def invalid_period_def empty_period_def proper_def dt_le_iff)
qed

lemma proper_facts:
  assumes "proper p"
  shows "valid_time (m_start p)" "valid_time (m_finish p)" "dt_less (m_start p) (m_finish p)"
    "\<not> period_isInvalid p" "\<not> period_empty p" "p \<noteq> empty_period" "p \<noteq> invalid_period"
proof -
  show v: "valid_time (m_start p)" "valid_time (m_finish p)" "dt_less (m_start p) (m_finish p)" "\<not> period_isInvalid p"
    using assms by (simp_all add: proper_def valid_time_def period_isInvalid_def)
  have "\<not> dt_less (m_finish p) (m_start p)" "m_start p \<noteq> m_finish p"
    using v(3) by (auto simp: dt_less_def split: if_splits)
  then show "\<not> period_empty p" by (simp add: period_empty_def dt_le_iff)
  show "p \<noteq> empty_period" "p \<noteq> invalid_period"
    using assms by (auto simp: proper_def empty_period_def invalid_period_def)
qed

lemma wf_facts:
  "period_isInvalid invalid_period" "period_isInvalid empty_period" "period_empty invalid_period"
  "period_empty empty_period" "times_of invalid_period = {}" "times_of empty_period = {}"
proof -
  show "period_isInvalid invalid_period" "period_isInvalid empty_period"
    by (simp_all add: period_isInvalid_def invalid_period_def empty_period_def)
  show "period_empty invalid_period"
    by (simp add: period_empty_def invalid_period_def dt_le_iff)
  show "period_empty empty_period"
    by (simp add: period_empty_def empty_period_def dt_le_iff dt_less_def)
      (simp add: special_values isInvalid_def isNADT_def)
  show "times_of invalid_period = {}"
    by (simp add: times_of_def invalid_period_def dt_less_def)
  show "times_of empty_period = {}"
    using tm.interval_empty [of getPosInfinity getNegInfinity]
    by (simp add: times_interval empty_period_def valid_time_def)
qed

lemma proper_of:
  "valid_time a \<Longrightarrow> valid_time b \<Longrightarrow> dt_less a b \<Longrightarrow> TimePeriod_of a b = \<lparr>m_start = a, m_finish = b\<rparr>"
proof -
  assume v: "valid_time a" "valid_time b" "dt_less a b"
  then have "\<not> dt_less b a" "a \<noteq> b" by (auto simp: dt_less_def split: if_splits)
  then show ?thesis using v by (simp add: TimePeriod_of_def normalizeEndpoints_def valid_time_def dt_le_iff)
qed

lemma invalid_of: "TimePeriod_of getNADT getNADT = invalid_period"
  by (simp add: TimePeriod_of_def normalizeEndpoints_def invalid_period_def)

section \<open>The laws of the header\<close>

text \<open>
  A period made of two times stands for the times from the first to before the second:
  it contains exactly those, it is empty exactly when there are none, there is only one
  empty period, and a period with an invalid end contains nothing.
\<close>

theorem period_is_a_set_of_times:
  assumes l: "limits_ok lim" and ab: "dt_ok lim a" "dt_ok lim b"
  shows "period_wf (TimePeriod_of a b)"
    and "period_contains_time (TimePeriod_of a b) t \<longleftrightarrow> dt_le a t \<and> dt_less t b"
    and "period_empty (TimePeriod_of a b) \<longleftrightarrow> times_of (TimePeriod_of a b) = {}"
    and "\<not> isInvalid a \<Longrightarrow> \<not> isInvalid b \<Longrightarrow> \<not> dt_less a b \<Longrightarrow> TimePeriod_of a b = empty_period"
    and "\<not> isInvalid a \<Longrightarrow> \<not> isInvalid b \<Longrightarrow> dt_less a b \<Longrightarrow>
      period_length (TimePeriod_of a b) = timeBetween a b"
proof -
  note c = TimePeriod_of_cases [OF l ab]
  show "period_wf (TimePeriod_of a b)" using c by (auto simp: period_wf_def)
  have "\<not> period_contains_time empty_period t" "\<not> period_contains_time invalid_period t"
    by (auto simp: period_contains_time_def empty_period_def invalid_period_def dt_le_iff dt_less_def
        special_values isInvalid_def isNADT_def split: if_splits)
  moreover have "\<not> (dt_le a t \<and> dt_less t b)" if "isInvalid a \<or> isInvalid b \<or> \<not> dt_less a b"
    using that by (auto simp: dt_le_iff dt_less_def split: if_splits)
  ultimately show "period_contains_time (TimePeriod_of a b) t \<longleftrightarrow> dt_le a t \<and> dt_less t b"
    using c by (auto simp: period_contains_time_def)
  show "period_empty (TimePeriod_of a b) \<longleftrightarrow> times_of (TimePeriod_of a b) = {}"
    using c wf_facts(3-6) proper_facts(1,2,3,5) [of "\<lparr>m_start = a, m_finish = b\<rparr>"] tm.interval_empty [of a b]
    by (auto simp: times_interval)
  show "TimePeriod_of a b = empty_period" if "\<not> isInvalid a" "\<not> isInvalid b" "\<not> dt_less a b"
    using c that by (auto simp: proper_def)
  show "period_length (TimePeriod_of a b) = timeBetween a b" if "\<not> isInvalid a" "\<not> isInvalid b" "dt_less a b"
    using c that proper_facts(5) [of "\<lparr>m_start = a, m_finish = b\<rparr>"]
    by (auto simp: period_length_def period_empty_def)
qed

theorem period_is_a_set_of_times_witness:
  "period_contains_time (TimePeriod_of new_DateTime getPosInfinity) new_DateTime \<and>
    TimePeriod_of getPosInfinity new_DateTime = empty_period"
proof -
  have n: "dt_ok unix32 new_DateTime" "dt_ok unix32 getPosInfinity" "dt_less new_DateTime getPosInfinity"
    "\<not> dt_less getPosInfinity new_DateTime" "\<not> isInvalid new_DateTime"
    by (simp_all add: dt_ok_def normal_dt_def new_DateTime_def MICROSECONDS_PER_SECOND_def dt_less_def isInvalid_def
        isNADT_def special_values)
  show ?thesis
    using period_is_a_set_of_times(2) [OF unix32_limits n(1,2), of new_DateTime]
      period_is_a_set_of_times(4) [OF unix32_limits n(2,1)] n
    by (simp add: dt_le_iff)
qed

lemma contains_iff:
  assumes "proper p" "proper q"
  shows "period_contains p q \<longleftrightarrow> (m_start p = m_start q \<or> dt_less (m_start p) (m_start q)) \<and>
      (m_finish q = m_finish p \<or> dt_less (m_finish q) (m_finish p))"
  using proper_facts [OF assms(1)] proper_facts [OF assms(2)]
  by (auto simp: period_contains_def valid_time_def dt_le_iff)

lemma contains_iff_subset:
  assumes "proper p" "proper q"
  shows "period_contains p q \<longleftrightarrow> times_of q \<subseteq> times_of p"
  using tm.interval_subset [of "m_start q" "m_finish q" "m_start p" "m_finish p"]
    proper_facts [OF assms(1)] proper_facts [OF assms(2)]
  by (simp add: contains_iff [OF assms] times_interval)

text \<open>The common part as an interval, which \<open>intersect\<close> finds empty or not.\<close>

lemma meet_interval:
  assumes "proper p" "proper q"
  shows "times_of p \<inter> times_of q =
    tm.interval (tm.greatest_of (m_start p) (m_start q)) (tm.least_of (m_finish p) (m_finish q))"
  using tm.interval_meet [OF proper_facts(1,2) [OF assms(1)] proper_facts(1,2) [OF assms(2)]]
  by (simp add: times_interval)

lemma intersect_iff_less:
  assumes p: "proper p" and q: "proper q"
  shows "period_intersect p q \<longleftrightarrow>
    dt_less (tm.greatest_of (m_start p) (m_start q)) (tm.least_of (m_finish p) (m_finish q))"
proof -
  note fp = proper_facts [OF p] and fq = proper_facts [OF q]
  note lg = tm.least_greatest [OF fp(1) fq(1)] tm.least_greatest [OF fp(2) fq(2)]
  let ?M = "tm.greatest_of (m_start p) (m_start q)" and ?m = "tm.least_of (m_finish p) (m_finish q)"
  have int: "period_intersect p q \<longleftrightarrow> dt_less (m_start q) (m_finish p) \<and> dt_less (m_start p) (m_finish q)"
    using fp fq by (simp add: period_intersect_def dt_greater_def)
  show ?thesis
  proof
    assume "period_intersect p q"
    then show "dt_less ?M ?m" using fp(3) fq(3) by (auto simp: int tm.greatest_of_def tm.least_of_def)
  next
    assume less: "dt_less ?M ?m"
    have "dt_less (m_start q) ?m" "dt_less (m_start p) ?m"
      using tm.less_le_trans'(1) [OF _ lg(2) lg(7) _ less] lg(5,6) fp(1) fq(1) by metis+
    then show "period_intersect p q"
      using tm.less_le_trans'(2) [OF _ lg(7)] lg(9,10) fp(1,2) fq(1,2) unfolding int by metis
  qed
qed

lemma times_of_intersection:
  assumes p: "proper p" and q: "proper q"
  shows "period_intersect p q \<longleftrightarrow> times_of p \<inter> times_of q \<noteq> {}"
    and "times_of (period_intersection p q) = times_of p \<inter> times_of q"
proof -
  note wf = tm.least_greatest(2) [OF proper_facts(1) [OF p] proper_facts(1) [OF q]]
    tm.least_greatest(1) [OF proper_facts(2) [OF p] proper_facts(2) [OF q]]
  note less = intersect_iff_less [OF p q] and meet = meet_interval [OF p q]
  show "period_intersect p q \<longleftrightarrow> times_of p \<inter> times_of q \<noteq> {}"
    using tm.interval_empty [OF wf] by (simp add: meet less)
  show "times_of (period_intersection p q) = times_of p \<inter> times_of q"
  proof (cases "period_intersect p q")
    case True
    then show ?thesis using proper_of [OF wf] less
      by (simp add: period_intersection_def dt_min_max meet [unfolded times_interval] times_interval)
  next
    case False
    then show ?thesis using tm.interval_empty [OF wf] less
      by (simp add: period_intersection_def invalid_of wf_facts meet)
  qed
qed

lemma span_is_least:
  assumes p: "proper p" and q: "proper q"
  shows "period_contains (period_span p q) p" "period_contains (period_span p q) q"
    and "proper r \<Longrightarrow> period_contains r p \<Longrightarrow> period_contains r q \<Longrightarrow> period_contains r (period_span p q)"
proof -
  note fp = proper_facts [OF p] and fq = proper_facts [OF q]
  note lg = tm.least_greatest [OF fp(1) fq(1)] tm.least_greatest [OF fp(2) fq(2)]
  let ?l = "tm.least_of (m_start p) (m_start q)" and ?g = "tm.greatest_of (m_finish p) (m_finish q)"
  have lgs: "dt_less ?l ?g"
    using tm.less_le_trans'(1) [OF lg(1) fp(1) fp(2) lg(3) fp(3)] tm.less_le_trans'(2) [OF lg(1) fp(2) lg(8) _]
      lg(11) by metis
  have sp: "period_span p q = \<lparr>m_start = ?l, m_finish = ?g\<rparr>"
    using fp fq proper_of [OF lg(1) lg(8) lgs] by (simp add: period_span_def dt_min_max)
  have pr: "proper (period_span p q)"
    using lg(1,8) lgs p q by (auto simp: sp proper_def valid_time_def tm.least_of_def)
  show "period_contains (period_span p q) p" "period_contains (period_span p q) q"
    using contains_iff [OF pr p] contains_iff [OF pr q] lg(3,4,11,12) by (auto simp: sp)
  show "period_contains r (period_span p q)" if "proper r" "period_contains r p" "period_contains r q"
    using that contains_iff [OF that(1) pr] contains_iff [OF that(1) p] contains_iff [OF that(1) q]
    by (auto simp: sp tm.least_of_def tm.greatest_of_def)
qed

lemma proper_nonempty: "proper p \<Longrightarrow> times_of p \<noteq> {}"
  using tm.interval_empty [of "m_start p" "m_finish p"] proper_facts [of p] by (simp add: times_interval)

lemma wf_not_proper:
  assumes "period_wf p" and "\<not> proper p"
  shows "p = invalid_period \<or> p = empty_period" "times_of p = {}" "period_isInvalid p" "period_empty p"
  using assms wf_facts by (auto simp: period_wf_def)

lemma not_proper_operations:
  assumes "period_wf p" and "period_wf q" and "\<not> (proper p \<and> proper q)"
  shows "\<not> period_intersect p q" "period_intersection p q = invalid_period" "period_span p q = invalid_period"
    "times_of p \<inter> times_of q = {}"
proof -
  have "period_isInvalid p \<or> period_isInvalid q" using assms wf_not_proper(3) by blast
  then show "\<not> period_intersect p q" "period_span p q = invalid_period" "period_intersection p q = invalid_period"
    by (auto simp: period_intersect_def period_span_def period_intersection_def invalid_of)
  show "times_of p \<inter> times_of q = {}" using assms wf_not_proper(2) by blast
qed

lemma infinities_apart: "dt_le getPosInfinity s \<Longrightarrow> dt_less s f \<Longrightarrow> \<not> dt_le f getNegInfinity"
  by (auto simp: dt_le_iff dt_less_def special_values split: if_splits)

lemma empty_not_invalid: "empty_period \<noteq> invalid_period"
  by (simp add: empty_period_def invalid_period_def special_values)

lemma wf_starts: "isInvalid (m_start invalid_period)" "\<not> isInvalid (m_start empty_period)"
  by (simp_all add: empty_period_def invalid_period_def)

lemma contains_wf:
  assumes p: "period_wf p" and q: "period_wf q"
  shows "period_contains p q \<longleftrightarrow> times_of q \<subseteq> times_of p \<and> \<not> (p = invalid_period \<and> q = empty_period)"
proof -
  consider (pp) "proper p" "proper q" | (left) "\<not> proper p" "proper q" | (right) "\<not> proper q" by blast
  then show ?thesis
  proof cases
    case pp
    then show ?thesis using contains_iff_subset [OF pp] proper_facts [OF pp(1)] by simp
  next
    case left
    note fq = proper_facts [OF left(2)]
    have "\<not> period_contains invalid_period q"
      using fq(1) by (simp add: period_contains_def invalid_period_def valid_time_def)
    moreover have "\<not> period_contains empty_period q"
      using fq(5) infinities_apart [OF _ fq(3)] by (auto simp: period_contains_def empty_period_def)
    ultimately have "\<not> period_contains p q" using wf_not_proper(1) [OF p left(1)] by blast
    then show ?thesis using wf_not_proper(2) [OF p left(1)] proper_nonempty [OF left(2)] by simp
  next
    case right
    note nq = wf_not_proper [OF q right]
    have "isInvalid (m_start p) \<longleftrightarrow> p = invalid_period"
      using p proper_facts(1,7) [of p]
      by (cases "p = invalid_period"; cases "p = empty_period")
        (simp_all add: period_wf_def valid_time_def, simp_all add: invalid_period_def empty_period_def)
    moreover have "isInvalid (m_start q) \<longleftrightarrow> q = invalid_period"
      using nq(1) wf_starts empty_not_invalid by (elim disjE) simp_all
    ultimately have "period_contains p q \<longleftrightarrow> \<not> (p = invalid_period \<and> q = empty_period)"
      using nq(1,4) empty_not_invalid by (elim disjE) (simp_all add: period_contains_def)
    then show ?thesis using nq(2) by simp
  qed
qed

text \<open>
  C21. Between periods made of two times, which are proper (from one time to a later one), the
  empty period or an invalid one, \<open>contains\<close> is inclusion of their sets of times, but that an
  invalid period does not contain the empty one; \<open>intersect\<close> tells whether the sets meet and
  \<open>intersection\<close> is the common part; \<open>span\<close> of proper periods is the smallest period that
  contains both, and it is invalid otherwise. The period of the default constructor is not among
  these periods.
\<close>

theorem period_operations_are_set_operations:
  assumes p: "period_wf p" and q: "period_wf q"
  shows "(period_contains p q \<longleftrightarrow> times_of q \<subseteq> times_of p \<and> \<not> (p = invalid_period \<and> q = empty_period)) \<and>
    (period_intersect p q \<longleftrightarrow> times_of p \<inter> times_of q \<noteq> {}) \<and>
    times_of (period_intersection p q) = times_of p \<inter> times_of q \<and>
    (if proper p \<and> proper q
     then period_contains (period_span p q) p \<and> period_contains (period_span p q) q \<and>
       (\<forall>r. proper r \<longrightarrow> period_contains r p \<longrightarrow> period_contains r q \<longrightarrow> period_contains r (period_span p q))
     else period_span p q = invalid_period)"
proof (cases "proper p \<and> proper q")
  case True
  then have pq: "proper p" "proper q" by blast+
  show ?thesis
    using contains_wf [OF p q] times_of_intersection [OF pq] span_is_least [OF pq] pq by simp
next
  case False
  show ?thesis
    using contains_wf [OF p q] not_proper_operations [OF p q False] False wf_facts by auto
qed

theorem period_operations_are_set_operations_witness:
  "times_of (period_intersection
      \<lparr>m_start = \<lparr>m_seconds = 1, m_microseconds = 0\<rparr>, m_finish = \<lparr>m_seconds = 5, m_microseconds = 0\<rparr>\<rparr>
      \<lparr>m_start = \<lparr>m_seconds = 3, m_microseconds = 0\<rparr>, m_finish = \<lparr>m_seconds = 9, m_microseconds = 0\<rparr>\<rparr>) \<noteq> {}"
proof -
  let ?p = "\<lparr>m_start = \<lparr>m_seconds = 1, m_microseconds = 0\<rparr>, m_finish = \<lparr>m_seconds = 5, m_microseconds = 0\<rparr>\<rparr>"
  let ?q = "\<lparr>m_start = \<lparr>m_seconds = 3, m_microseconds = 0\<rparr>, m_finish = \<lparr>m_seconds = 9, m_microseconds = 0\<rparr>\<rparr>"
  have pq: "proper ?p" "proper ?q" "period_intersect ?p ?q"
    by (simp_all add: proper_def isInvalid_def isNADT_def isPosInfinity_def isPosInf_def dt_less_def
        NADT_USEC_def MICROSECONDS_PER_SECOND_def POS_INF_USEC_def period_intersect_def period_isInvalid_def dt_greater_def)
  show ?thesis
    using period_operations_are_set_operations [of ?p ?q] pq by (simp add: period_wf_def)
qed

text \<open>
  Merging two periods that overlap, or the second of which begins where the first ends,
  gives the union of their times; when the first begins where the second ends, the union is
  a period too, and \<open>merge\<close> returns an invalid one: it depends on the order of its arguments.
\<close>

theorem merge_depends_on_the_order:
  assumes p: "proper p" and q: "proper q"
  shows "period_intersect p q \<or> m_finish p = m_start q \<Longrightarrow> times_of (period_merge p q) = times_of p \<union> times_of q"
    and "m_finish q = m_start p \<Longrightarrow> period_merge p q = invalid_period \<and>
      times_of (period_merge q p) = times_of p \<union> times_of q"
proof -
  have join: "times_of (period_merge p q) = times_of p \<union> times_of q"
    if p: "proper p" and q: "proper q" and t: "period_intersect p q \<or> m_finish p = m_start q" for p q
  proof -
    note fp = proper_facts [OF p] and fq = proper_facts [OF q]
    note lg = tm.least_greatest [OF fp(1) fq(1)] tm.least_greatest [OF fp(2) fq(2)]
    have asym: "\<not> dt_less y x" if "dt_less x y" for x y
      using that by (auto simp: dt_less_def split: if_splits)
    have touch: "\<not> dt_less (m_finish p) (m_start q)" "\<not> dt_less (m_finish q) (m_start p)"
    proof -
      show "\<not> dt_less (m_finish p) (m_start q)"
        using t fp fq asym tm.irrefl [OF fq(1)] by (auto simp: period_intersect_def dt_greater_def)
      have "m_start p = m_finish q \<or> dt_less (m_start p) (m_finish q)"
        using t fp fq tm.trans [OF fp(1,2) fq(2)] by (auto simp: period_intersect_def)
      then show "\<not> dt_less (m_finish q) (m_start p)" using asym tm.irrefl [OF fq(2)] by auto
    qed
    have "dt_less (tm.least_of (m_start p) (m_start q)) (tm.greatest_of (m_finish p) (m_finish q))"
      using tm.less_le_trans'(1) [OF lg(1) fp(1) fp(2) lg(3) fp(3)] tm.less_le_trans'(2) [OF lg(1) fp(2) lg(8) _]
        lg(11) by metis
    then have "period_merge p q = \<lparr>m_start = tm.least_of (m_start p) (m_start q), m_finish = tm.greatest_of (m_finish p) (m_finish q)\<rparr>"
      using t fp fq proper_of [OF lg(1) lg(8)] by (auto simp: period_merge_def dt_min_max dt_eq_iff)
    then show ?thesis
      using tm.interval_join [OF fp(1,2) fq(1,2) fp(3) fq(3) touch] by (simp add: times_interval)
  qed
  show "period_intersect p q \<or> m_finish p = m_start q \<Longrightarrow> times_of (period_merge p q) = times_of p \<union> times_of q"
    using join [OF p q] .
  assume e: "m_finish q = m_start p"
  note fp = proper_facts [OF p] and fq = proper_facts [OF q]
  have "\<not> period_intersect p q"
    using tm.irrefl [OF fp(1)] fp fq by (simp add: period_intersect_def e)
  moreover have "m_finish p \<noteq> m_start q" "m_start p \<noteq> m_start q"
    using e fp fq tm.irrefl tm.trans [of "m_start q" "m_start p" "m_finish p"] by fastforce+
  ultimately have "period_merge p q = invalid_period"
    using fp fq by (simp add: period_merge_def dt_eq_iff invalid_of)
  then show "period_merge p q = invalid_period \<and> times_of (period_merge q p) = times_of p \<union> times_of q"
    using join [OF q p] e by auto
qed

theorem merge_depends_on_the_order_witness:
  "period_merge
      \<lparr>m_start = \<lparr>m_seconds = 5, m_microseconds = 0\<rparr>, m_finish = \<lparr>m_seconds = 9, m_microseconds = 0\<rparr>\<rparr>
      \<lparr>m_start = \<lparr>m_seconds = 1, m_microseconds = 0\<rparr>, m_finish = \<lparr>m_seconds = 5, m_microseconds = 0\<rparr>\<rparr> = invalid_period"
proof -
  let ?p = "\<lparr>m_start = \<lparr>m_seconds = 5, m_microseconds = 0\<rparr>, m_finish = \<lparr>m_seconds = 9, m_microseconds = 0\<rparr>\<rparr>"
  let ?q = "\<lparr>m_start = \<lparr>m_seconds = 1, m_microseconds = 0\<rparr>, m_finish = \<lparr>m_seconds = 5, m_microseconds = 0\<rparr>\<rparr>"
  have pq: "proper ?p" "proper ?q"
    by (simp_all add: proper_def isInvalid_def isNADT_def isPosInfinity_def isPosInf_def dt_less_def
        NADT_USEC_def MICROSECONDS_PER_SECOND_def POS_INF_USEC_def)
  show ?thesis using merge_depends_on_the_order(2) [OF pq] by simp
qed

text \<open>
  The default period is empty but is not the empty period: it compares different from
  it, and it is said to intersect every period around the epoch although it has no times.
\<close>

theorem default_period_is_not_the_empty_one:
  "period_empty TimePeriod_new \<and> times_of TimePeriod_new = {} \<and> \<not> period_eq TimePeriod_new empty_period \<and>
    (proper p \<longrightarrow> (period_intersect p TimePeriod_new \<longleftrightarrow>
      dt_less (m_start p) new_DateTime \<and> dt_less new_DateTime (m_finish p)))"
proof (intro conjI impI)
  show "period_empty TimePeriod_new" by (simp add: period_empty_def TimePeriod_new_def dt_le_iff)
  show "times_of TimePeriod_new = {}"
    by (auto simp: times_of_def TimePeriod_new_def dt_le_iff dt_less_def split: if_splits)
  show "\<not> period_eq TimePeriod_new empty_period"
    by (simp add: period_eq_def TimePeriod_new_def empty_period_def dt_eq_iff new_DateTime_def special_values)
  assume p: "proper p"
  have "\<not> isInvalid new_DateTime" "\<not> isPosInfinity new_DateTime"
    by (simp_all add: new_DateTime_def isInvalid_def isNADT_def isPosInfinity_def isPosInf_def special_values)
  then show "period_intersect p TimePeriod_new \<longleftrightarrow>
      dt_less (m_start p) new_DateTime \<and> dt_less new_DateTime (m_finish p)"
    using proper_facts [OF p] by (auto simp: period_intersect_def TimePeriod_new_def period_isInvalid_def dt_greater_def)
qed

theorem default_period_is_not_the_empty_one_witness:
  "period_intersect \<lparr>m_start = \<lparr>m_seconds = -5, m_microseconds = 0\<rparr>, m_finish = \<lparr>m_seconds = 5, m_microseconds = 0\<rparr>\<rparr>
    TimePeriod_new"
proof -
  let ?p = "\<lparr>m_start = \<lparr>m_seconds = -5, m_microseconds = 0\<rparr>, m_finish = \<lparr>m_seconds = 5, m_microseconds = 0\<rparr>\<rparr>"
  have "proper ?p" "dt_less (m_start ?p) new_DateTime" "dt_less new_DateTime (m_finish ?p)"
    by (simp_all add: proper_def isInvalid_def isNADT_def isPosInfinity_def isPosInf_def dt_less_def
        NADT_USEC_def MICROSECONDS_PER_SECOND_def POS_INF_USEC_def new_DateTime_def)
  then show ?thesis using default_period_is_not_the_empty_one [of ?p] by blast
qed

end
