(* ===== verification/Timeouts.thy ===== *)
theory Timeouts
  imports Prelude "HOL-Library.Signed_Division"
begin

text \<open>
  Timeouts and the timers that measure them (\<open>Timeout.cpp\<close>, \<open>TimeoutTimer.cpp\<close>). A time
  is its number of microseconds since the epoch, as \<open>times_add_up\<close> of the theory of
  \<open>DateTime\<close> justifies. Reading the clock is an argument.

  One idealisation: the code keeps a number of seconds as a \<open>float\<close> in \<open>Timeout\<close> and computes
  with \<open>double\<close>; here it is an exact whole number of microseconds, or infinity. What the code
  loses where a number of seconds is no whole number of microseconds, or where a sum, a
  product or a conversion between the two types is rounded, is not modelled: a timer may
  expire a rounding error before or after the time it has here. What \<open>safeAssign\<close> rounds to
  whole seconds, milliseconds and nanoseconds is modelled.
\<close>

section \<open>Timeouts\<close>

datatype seconds = Micro int | INFINITY

datatype ETimeoutType = E_ABSOLUTE | E_RELATIVE | E_RELATIVE_WITH_RESET

record Timeout =
  m_type :: ETimeoutType
  m_absolute :: int
  m_timeout_seconds :: seconds

text \<open>The factory functions; the member that is not given is not initialised, here a parameter
  that no function reads.\<close>

definition absolute :: "int \<Rightarrow> Timeout" where
  "absolute dt = \<lparr>m_type = E_ABSOLUTE, m_absolute = dt, m_timeout_seconds = Micro 0\<rparr>"

definition relative :: "seconds \<Rightarrow> Timeout" where
  "relative s = \<lparr>m_type = E_RELATIVE, m_absolute = 0, m_timeout_seconds = s\<rparr>"

definition relativeWithReset :: "seconds \<Rightarrow> Timeout" where
  "relativeWithReset s = \<lparr>m_type = E_RELATIVE_WITH_RESET, m_absolute = 0, m_timeout_seconds = s\<rparr>"

definition Timeout_infinite :: Timeout where "Timeout_infinite = relative INFINITY"

definition timeout_eq :: "Timeout \<Rightarrow> Timeout \<Rightarrow> bool" where
  "timeout_eq x y =
     (if m_type x \<noteq> m_type y then False
      else if m_type x = E_ABSOLUTE then m_absolute x = m_absolute y
      else m_timeout_seconds x = m_timeout_seconds y)"

section \<open>Arithmetic with seconds\<close>

fun seconds_plus :: "int \<Rightarrow> seconds \<Rightarrow> seconds" where
  "seconds_plus d (Micro s) = Micro (d + s)"
| "seconds_plus d INFINITY = INFINITY"

fun seconds_min :: "seconds \<Rightarrow> seconds \<Rightarrow> seconds" where
  "seconds_min (Micro a) (Micro b) = Micro (if a > b then b else a)"
| "seconds_min INFINITY b = b"
| "seconds_min a INFINITY = a"

text \<open>
  \<open>safeAssign\<close> to a signed type with the given limits, of the number \<open>num / den\<close>: beyond the
  limits it is cut; otherwise a half is added and the sum cut towards zero.
\<close>

definition safeAssign :: "int \<Rightarrow> int \<Rightarrow> int \<Rightarrow> int \<Rightarrow> int" where
  "safeAssign lo hi num den =
     (if num < lo * den then lo
      else if num > hi * den then hi
      else (2 * num + den) sdiv (2 * den))"

definition INT_MAX :: int where "INT_MAX = 2 ^ 31 - 1"
definition INT_MIN :: int where "INT_MIN = - (2 ^ 31)"
definition LONG_MAX :: int where "LONG_MAX = 2 ^ 63 - 1"
definition LONG_MIN :: int where "LONG_MIN = - (2 ^ 63)"

section \<open>Timers\<close>

record TimeoutTimer =
  m_timeout :: Timeout
  m_timer_start :: int
  m_loopTime :: int

definition TimeoutTimer_new :: "Timeout \<Rightarrow> int \<Rightarrow> TimeoutTimer" where
  "TimeoutTimer_new x now = \<lparr>m_timeout = x, m_timer_start = now, m_loopTime = now\<rparr>"

definition timer_start :: "TimeoutTimer \<Rightarrow> int \<Rightarrow> TimeoutTimer" where
  "timer_start t now = t\<lparr>m_timer_start := now, m_loopTime := now\<rparr>"

definition timer_loop :: "TimeoutTimer \<Rightarrow> int \<Rightarrow> TimeoutTimer" where
  "timer_loop t now = t\<lparr>m_loopTime := now\<rparr>"

definition resetOnLoop :: "TimeoutTimer \<Rightarrow> int \<Rightarrow> TimeoutTimer" where
  "resetOnLoop t now =
     (let t = timer_loop t now in
      if m_type (m_timeout t) = E_RELATIVE_WITH_RESET then t\<lparr>m_timer_start := m_loopTime t\<rparr> else t)"

definition timer_infinite :: "TimeoutTimer \<Rightarrow> bool" where
  "timer_infinite t = timeout_eq (m_timeout t) Timeout_infinite"

fun compareInterval :: "int \<Rightarrow> int \<Rightarrow> seconds \<Rightarrow> bool" where
  "compareInterval first timeToTest (Micro s) \<longleftrightarrow> timeToTest - first \<ge> s"
| "compareInterval first timeToTest INFINITY \<longleftrightarrow> False"

definition expired :: "TimeoutTimer \<Rightarrow> bool" where
  "expired t =
     (if timer_infinite t then False
      else case m_type (m_timeout t) of
        E_ABSOLUTE \<Rightarrow> m_loopTime t \<ge> m_absolute (m_timeout t)
      | E_RELATIVE \<Rightarrow> compareInterval (m_timer_start t) (m_loopTime t) (m_timeout_seconds (m_timeout t))
      | E_RELATIVE_WITH_RESET \<Rightarrow> compareInterval (m_timer_start t) (m_loopTime t) (m_timeout_seconds (m_timeout t)))"

definition calcSeconds :: "TimeoutTimer \<Rightarrow> seconds" where
  "calcSeconds t =
     (if m_type (m_timeout t) = E_ABSOLUTE then Micro (m_absolute (m_timeout t) - m_loopTime t)
      else seconds_plus (m_timer_start t - m_loopTime t) (m_timeout_seconds (m_timeout t)))"

definition calcSeconds_max :: "TimeoutTimer \<Rightarrow> seconds \<Rightarrow> seconds" where
  "calcSeconds_max t maxSeconds = seconds_min (calcSeconds t) maxSeconds"

definition asRelativeTimeout :: "TimeoutTimer \<Rightarrow> Timeout" where
  "asRelativeTimeout t = relative (calcSeconds t)"

definition asRelativeTimeout_max :: "TimeoutTimer \<Rightarrow> seconds \<Rightarrow> Timeout" where
  "asRelativeTimeout_max t maxSeconds = relative (calcSeconds_max t maxSeconds)"

text \<open>\<open>m_start + infinity\<close> is the time plus infinity, which a number does not represent: the
  result is then \<open>None\<close>.\<close>

definition asAbsoluteTimeout :: "TimeoutTimer \<Rightarrow> Timeout option" where
  "asAbsoluteTimeout t =
     (if timer_infinite t then Some (m_timeout t)
      else if m_type (m_timeout t) = E_ABSOLUTE then Some (m_timeout t)
      else case m_timeout_seconds (m_timeout t) of
        Micro s \<Rightarrow> Some (absolute (m_timer_start t + s)) | INFINITY \<Rightarrow> None)"

text \<open>Milliseconds for \<open>poll\<close>: -1 for infinity.\<close>

fun ms_of :: "seconds \<Rightarrow> int" where
  "ms_of (Micro s) = safeAssign INT_MIN INT_MAX s 1000"
| "ms_of INFINITY = INT_MAX"

definition asIntMs :: "TimeoutTimer \<Rightarrow> int" where
  "asIntMs t = (if timer_infinite t then -1 else ms_of (calcSeconds t))"

definition asIntMs_max :: "TimeoutTimer \<Rightarrow> seconds \<Rightarrow> int" where
  "asIntMs_max t maxSeconds =
     (if timer_infinite t \<and> maxSeconds = INFINITY then -1 else ms_of (calcSeconds_max t maxSeconds))"

text \<open>
  A \<open>timeval\<close> as its seconds and microseconds. For a relative timeout both are assigned with
  \<open>safeAssign\<close>: the seconds from the number of seconds, the microseconds from its fraction.
\<close>

definition tv_sec_of :: "int \<Rightarrow> int" where "tv_sec_of us = safeAssign LONG_MIN LONG_MAX us 1000000"
definition tv_usec_of :: "int \<Rightarrow> int" where "tv_usec_of us = safeAssign LONG_MIN LONG_MAX (us smod 1000000) 1"

fun timeval_of :: "seconds \<Rightarrow> int \<times> int" where
  "timeval_of (Micro us) = (tv_sec_of us, tv_usec_of us)"
| "timeval_of INFINITY = (LONG_MAX, 0)"

definition asTimeval :: "TimeoutTimer \<Rightarrow> (int \<times> int) option" where
  "asTimeval t =
     (if timer_infinite t then None
      else if m_type (m_timeout t) = E_ABSOLUTE then
        if m_absolute (m_timeout t) > m_loopTime t then
          let diff = m_absolute (m_timeout t) - m_loopTime t in Some (diff sdiv 1000000, diff smod 1000000)
        else Some (0, 0)
      else Some (timeval_of (calcSeconds t)))"

definition asTimeval_max :: "TimeoutTimer \<Rightarrow> seconds \<Rightarrow> (int \<times> int) option" where
  "asTimeval_max t maxSeconds =
     (if timer_infinite t \<and> maxSeconds = INFINITY then None
      else let temp = timeval_of maxSeconds in
        case asTimeval t of
          None \<Rightarrow> Some temp
        | Some tv \<Rightarrow>
            if fst temp < fst tv then Some temp
            else if fst temp = fst tv \<and> snd temp < snd tv then Some (fst tv, snd temp)
            else Some tv)"

text \<open>A \<open>timespec\<close>, the time of expiry as seconds and nanoseconds since the epoch.\<close>

definition asTimespec :: "TimeoutTimer \<Rightarrow> int \<times> int" where
  "asTimespec t =
     (if m_type (m_timeout t) = E_ABSOLUTE then
        if m_absolute (m_timeout t) > m_loopTime t
        then (m_absolute (m_timeout t) div 1000000, (m_absolute (m_timeout t) mod 1000000) * 1000)
        else (0, 0)
      else
        let s = m_timer_start t div 1000000; us = m_timer_start t mod 1000000;
            (sec, nsec) = (case m_timeout_seconds (m_timeout t) of
               Micro r \<Rightarrow> (safeAssign LONG_MIN LONG_MAX (s * 1000000 + r) 1000000,
                 safeAssign LONG_MIN LONG_MAX (us * 1000 + (r smod 1000000) * 1000) 1)
             | INFINITY \<Rightarrow> (LONG_MAX, us * 1000))
        in (sec + nsec sdiv 1000000000, nsec smod 1000000000))"

section \<open>When a timer expires\<close>

text \<open>The time at which a timer expires, \<open>None\<close> for never.\<close>

definition deadline :: "TimeoutTimer \<Rightarrow> int option" where
  "deadline t =
     (if m_type (m_timeout t) = E_ABSOLUTE then Some (m_absolute (m_timeout t))
      else case m_timeout_seconds (m_timeout t) of Micro s \<Rightarrow> Some (m_timer_start t + s) | INFINITY \<Rightarrow> None)"

lemma infinite_iff: "timer_infinite t \<longleftrightarrow> m_type (m_timeout t) = E_RELATIVE \<and> m_timeout_seconds (m_timeout t) = INFINITY"
  by (auto simp: timer_infinite_def timeout_eq_def Timeout_infinite_def relative_def)

lemma expired_iff: "expired t \<longleftrightarrow> (case deadline t of Some d \<Rightarrow> d \<le> m_loopTime t | None \<Rightarrow> False)"
  by (cases "m_type (m_timeout t)"; cases "m_timeout_seconds (m_timeout t)")
    (auto simp: expired_def infinite_iff deadline_def)

lemma calcSeconds_deadline:
  "calcSeconds t = (case deadline t of Some d \<Rightarrow> Micro (d - m_loopTime t) | None \<Rightarrow> INFINITY)"
  by (cases "m_timeout_seconds (m_timeout t)") (auto simp: calcSeconds_def deadline_def)

lemma timer_deadline:
  "expired (timer_loop t now) \<longleftrightarrow> (case deadline t of Some d \<Rightarrow> d \<le> now | None \<Rightarrow> False)"
  "deadline (fold (\<lambda>n t. timer_loop t n) ns t) = deadline t"
  "deadline (resetOnLoop t now) =
    (if m_type (m_timeout t) = E_RELATIVE_WITH_RESET then deadline (TimeoutTimer_new (m_timeout t) now) else deadline t)"
  "case asAbsoluteTimeout t of Some a \<Rightarrow> deadline (TimeoutTimer_new a now) = deadline t
    | None \<Rightarrow> m_type (m_timeout t) = E_RELATIVE_WITH_RESET \<and> deadline t = None"
proof -
  have loop: "deadline (timer_loop t n) = deadline t" for t n by (simp add: timer_loop_def deadline_def split: seconds.splits)
  show "expired (timer_loop t now) \<longleftrightarrow> (case deadline t of Some d \<Rightarrow> d \<le> now | None \<Rightarrow> False)"
    by (simp add: expired_iff loop) (simp add: timer_loop_def split: option.splits)
  show "deadline (fold (\<lambda>n t. timer_loop t n) ns t) = deadline t"
    by (induction ns arbitrary: t) (auto simp: loop)
  show "deadline (resetOnLoop t now) =
    (if m_type (m_timeout t) = E_RELATIVE_WITH_RESET then deadline (TimeoutTimer_new (m_timeout t) now) else deadline t)"
    by (auto simp: resetOnLoop_def deadline_def timer_loop_def TimeoutTimer_new_def split: seconds.splits)
  show "case asAbsoluteTimeout t of Some a \<Rightarrow> deadline (TimeoutTimer_new a now) = deadline t
    | None \<Rightarrow> m_type (m_timeout t) = E_RELATIVE_WITH_RESET \<and> deadline t = None"
    by (cases "m_type (m_timeout t)"; cases "m_timeout_seconds (m_timeout t)")
      (auto simp: asAbsoluteTimeout_def infinite_iff deadline_def TimeoutTimer_new_def absolute_def)
qed

section \<open>Waiting times\<close>

lemma quotient_and_rest:
  fixes n d :: int
  assumes "0 < d"
  obtains q r where "n div d = q" "n mod d = r" "n = d * q + r" "0 \<le> r" "r < d"
  using assms mult_div_mod_eq [of d n] pos_mod_bound [of d n] pos_mod_sign [of d n] by metis

lemma sdiv_nonneg:
  fixes n d :: int
  assumes "0 \<le> n" and "0 < d"
  shows "n sdiv d = n div d" "n smod d = n mod d"
  using assms by (cases "n = 0"; simp add: signed_divide_int_def signed_modulo_int_def)+

lemma round_nonneg:
  fixes n d :: int
  assumes "0 \<le> n" and "0 < d"
  shows "(2 * n + d) sdiv (2 * d) = n div d + (if 2 * (n mod d) \<ge> d then 1 else 0)"
proof -
  obtain q r where qr: "n div d = q" "n mod d = r" "n = d * q + r" "0 \<le> r" "r < d"
    using quotient_and_rest [OF assms(2)] .
  have e: "2 * n + d = (2 * r + d) + 2 * d * q" by (simp add: qr(3) distrib_left)
  have "(2 * n + d) sdiv (2 * d) = ((2 * r + d) + 2 * d * q) div (2 * d)"
    unfolding e [symmetric] using assms by (intro sdiv_nonneg) simp_all
  also have "((2 * r + d) + 2 * d * q) div (2 * d) = q + (2 * r + d) div (2 * d)"
    using assms(2) by (intro div_mult_self2) simp
  also have "(2 * r + d) div (2 * d) = (if 2 * r \<ge> d then 1 else 0)"
    using qr(4,5) assms(2) by (auto simp: div_pos_geq div_pos_pos_trivial)
  finally show ?thesis by (simp add: qr(1,2))
qed

lemma round_unit: "0 \<le> n \<Longrightarrow> (2 * n + 1) sdiv 2 = (n :: int)"
  using round_nonneg [of n 1] by simp

text \<open>
  The number of milliseconds given to \<open>poll\<close> is the time left, rounded to the nearest
  millisecond and cut to the limits of \<open>int\<close>; it is negative as soon as the deadline has
  passed by a millisecond and a half, so that \<open>poll\<close>, for which a negative number is an
  infinite wait, waits for ever instead of not at all.
\<close>

theorem milliseconds_of_a_passed_deadline:
  assumes d: "deadline t = Some d" and m: "maxSeconds = Micro m" "0 \<le> m"
  shows "m_loopTime t \<le> d \<Longrightarrow> d - m_loopTime t \<le> 2000000000000 \<Longrightarrow>
      \<bar>1000 * asIntMs t - (d - m_loopTime t)\<bar> \<le> 500"
    and "d + 1500 \<le> m_loopTime t \<Longrightarrow> asIntMs t < 0 \<and> asIntMs_max t maxSeconds < 0"
    and "m_loopTime t < d + 1500 \<Longrightarrow> 0 \<le> asIntMs t \<and> 0 \<le> asIntMs_max t maxSeconds"
proof -
  have ninf: "\<not> timer_infinite t" using d by (auto simp: infinite_iff deadline_def)
  let ?r = "d - m_loopTime t"
  have ms: "asIntMs t = safeAssign INT_MIN INT_MAX ?r 1000"
    "asIntMs_max t maxSeconds = safeAssign INT_MIN INT_MAX (if ?r > m then m else ?r) 1000"
    using ninf d m by (simp_all add: asIntMs_def asIntMs_max_def calcSeconds_max_def calcSeconds_deadline)
  show "\<bar>1000 * asIntMs t - ?r\<bar> \<le> 500" if "m_loopTime t \<le> d" "?r \<le> 2000000000000"
  proof -
    have "asIntMs t = (2 * ?r + 1000) sdiv (2 * 1000)"
      using that by (simp add: ms safeAssign_def INT_MIN_def INT_MAX_def)
    also have "\<dots> = ?r div 1000 + (if 2 * (?r mod 1000) \<ge> 1000 then 1 else 0)"
      using that by (intro round_nonneg) simp_all
    finally have ms1: "asIntMs t = ?r div 1000 + (if 2 * (?r mod 1000) \<ge> 1000 then 1 else 0)" .
    obtain q c where qc: "?r div 1000 = q" "?r mod 1000 = c" "?r = 1000 * q + c" "0 \<le> c" "c < 1000"
      using quotient_and_rest [of 1000 ?r] by auto
    show ?thesis unfolding ms1 qc(1,2) unfolding qc(3) using qc(4,5) by auto
  qed
  have neg: "safeAssign INT_MIN INT_MAX r 1000 < 0" if "r \<le> - 1500" for r
  proof (cases "r < INT_MIN * 1000")
    case False
    have "(2 * r + 1000) sdiv 2000 = - ((- 2 * r - 1000) div 2000)"
      using that by (simp add: signed_divide_int_def sgn_if abs_if)
    moreover have "2000 div 2000 \<le> (- 2 * r - 1000) div 2000" by (rule zdiv_mono1) (use that in simp_all)
    ultimately show ?thesis using that False by (simp add: safeAssign_def INT_MAX_def)
  qed (simp add: safeAssign_def INT_MIN_def)
  have pos: "0 \<le> safeAssign INT_MIN INT_MAX r 1000" if "- 1500 < r" for r
  proof -
    have "0 \<le> (2 * r + 1000) sdiv 2000"
    proof (cases "0 \<le> 2 * r + 1000")
      case True
      then show ?thesis by (simp add: sdiv_nonneg)
    next
      case False
      have "\<bar>2 * r + 1000\<bar> < 2000" using that False by auto
      then have "\<bar>2 * r + 1000\<bar> div 2000 = 0" by (simp add: div_pos_pos_trivial)
      then show ?thesis by (simp add: signed_divide_int_def)
    qed
    then show ?thesis using that by (simp add: safeAssign_def INT_MIN_def INT_MAX_def)
  qed
  show "asIntMs t < 0 \<and> asIntMs_max t maxSeconds < 0" if "d + 1500 \<le> m_loopTime t"
    using that neg [of ?r] m(2) by (simp add: ms)
  show "0 \<le> asIntMs t \<and> 0 \<le> asIntMs_max t maxSeconds" if "m_loopTime t < d + 1500"
    using that pos [of ?r] pos [of m] m(2) by (simp add: ms)
qed

theorem milliseconds_of_a_passed_deadline_witness:
  "asIntMs_max (TimeoutTimer_new (absolute 1000000) 1002000) (Micro 10000000) < 0"
  using milliseconds_of_a_passed_deadline(2) [of "TimeoutTimer_new (absolute 1000000) 1002000" 1000000 "Micro 10000000" 10000000]
  by (simp add: deadline_def TimeoutTimer_new_def absolute_def)

text \<open>
  C38. The \<open>timeval\<close> of an absolute timeout is exactly the time left, and zero after the
  deadline. That of a relative timeout is a whole second too long whenever the fraction of
  the time left is half a second or more, since the seconds are rounded and the fraction
  is added again.
\<close>

theorem relative_timeval_is_a_second_late:
  assumes d: "deadline t = Some d" and left: "m_loopTime t \<le> d" "d - m_loopTime t \<le> 2 ^ 62"
    and tv: "asTimeval t = Some (sec, usec)"
  shows "0 \<le> usec \<and> usec < 1000000 \<and>
    sec * 1000000 + usec = (d - m_loopTime t) +
      (if m_type (m_timeout t) \<noteq> E_ABSOLUTE \<and> 500000 \<le> (d - m_loopTime t) mod 1000000 then 1000000 else 0)"
proof -
  have ninf: "\<not> timer_infinite t" using d by (auto simp: infinite_iff deadline_def)
  let ?r = "d - m_loopTime t"
  have r0: "0 \<le> ?r" using left(1) by simp
  have sm: "?r smod 1000000 = ?r mod 1000000" "?r sdiv 1000000 = ?r div 1000000"
    using r0 by (simp_all add: sdiv_nonneg)
  have rng: "0 \<le> ?r mod 1000000" "?r mod 1000000 < 1000000" by simp_all
  have split: "1000000 * (?r div 1000000) + ?r mod 1000000 = ?r" by (rule mult_div_mod_eq)
  show ?thesis
  proof (cases "m_type (m_timeout t) = E_ABSOLUTE")
    case True
    then have "m_absolute (m_timeout t) = d" using d by (simp add: deadline_def)
    then have "(sec, usec) = (?r div 1000000, ?r mod 1000000)"
      using True tv ninf sm left by (auto simp: asTimeval_def Let_def split: if_splits)
    then have "sec = ?r div 1000000" "usec = ?r mod 1000000" by simp_all
    then show ?thesis using True rng split by (simp only: simp_thms if_False)
  next
    case False
    have "(sec, usec) = (tv_sec_of ?r, tv_usec_of ?r)"
      using False tv ninf d by (simp add: asTimeval_def calcSeconds_deadline)
    moreover have "tv_usec_of ?r = ?r mod 1000000"
    proof -
      define c where "c = ?r mod 1000000"
      have "0 \<le> c" "c < 1000000" by (simp_all add: c_def)
      then have "safeAssign LONG_MIN LONG_MAX c 1 = c"
        using round_unit [of c] by (simp add: safeAssign_def LONG_MIN_def LONG_MAX_def)
      then show ?thesis by (simp add: tv_usec_of_def sm c_def)
    qed
    moreover have "tv_sec_of ?r = ?r div 1000000 + (if 2 * (?r mod 1000000) \<ge> 1000000 then 1 else 0)"
    proof -
      have "tv_sec_of ?r = (2 * ?r + 1000000) sdiv (2 * 1000000)"
        using r0 left(2) by (simp add: tv_sec_of_def safeAssign_def LONG_MIN_def LONG_MAX_def)
      then show ?thesis using round_nonneg [OF r0, of 1000000] by simp
    qed
    ultimately have sec: "sec = ?r div 1000000 + (if 2 * (?r mod 1000000) \<ge> 1000000 then 1 else 0)"
      and usec: "usec = ?r mod 1000000" by simp_all
    obtain q c where qc: "?r div 1000000 = q" "?r mod 1000000 = c" "?r = 1000000 * q + c" "0 \<le> c" "c < 1000000"
      using quotient_and_rest [of 1000000 ?r] by auto
    show ?thesis unfolding qc(2) qc(3) using False sec [unfolded qc(1,2)] usec [unfolded qc(2)] qc(4,5)
      by (auto split: if_splits)
  qed
qed

theorem relative_timeval_is_a_second_late_witness:
  "asTimeval (TimeoutTimer_new (relative (Micro 700000)) 5) = Some (1, 700000)"
proof -
  have d: "deadline (TimeoutTimer_new (relative (Micro 700000)) 5) = Some 700005"
    by (simp add: deadline_def TimeoutTimer_new_def relative_def)
  obtain a b where ab: "asTimeval (TimeoutTimer_new (relative (Micro 700000)) 5) = Some (a, b)"
    by (simp add: asTimeval_def infinite_iff TimeoutTimer_new_def relative_def calcSeconds_def)
  have "0 \<le> b \<and> b < 1000000 \<and> a * 1000000 + b = 1700000"
    using relative_timeval_is_a_second_late [OF d _ _ ab] by (simp add: TimeoutTimer_new_def relative_def)
  moreover from this have "a = 1" by linarith
  ultimately have "a = 1 \<and> b = 700000" by simp
  then show ?thesis using ab by simp
qed

text \<open>
  The \<open>timespec\<close> with which a thread waits on a condition is the deadline for an
  absolute timeout that has not passed; for a relative timeout it is a second late whenever
  the length of the interval has a fraction of half a second or more.
\<close>

theorem condition_waits_a_second_longer:
  assumes d: "deadline t = Some d" and small: "0 \<le> m_timer_start t" "m_timer_start t \<le> d" "d \<le> 2 ^ 62"
    and ts: "asTimespec t = (sec, nsec)" and notyet: "m_loopTime t < d"
  shows "0 \<le> nsec \<and> nsec < 1000000000 \<and>
    sec * 1000000000 + nsec = 1000 * (d + (if m_type (m_timeout t) \<noteq> E_ABSOLUTE \<and>
      500000 \<le> (d - m_timer_start t) mod 1000000 then 1000000 else 0))"
proof (cases "m_type (m_timeout t) = E_ABSOLUTE")
  case True
  then have "m_absolute (m_timeout t) = d" using d by (simp add: deadline_def)
  then have "sec = d div 1000000" "nsec = d mod 1000000 * 1000"
    using True ts notyet by (simp_all add: asTimespec_def)
  moreover obtain q c where qc: "d div 1000000 = q" "d mod 1000000 = c" "d = 1000000 * q + c" "0 \<le> c" "c < 1000000"
    using quotient_and_rest [of 1000000 d] by auto
  ultimately have "sec = q" "nsec = c * 1000" by simp_all
  then show ?thesis using True qc(3,4,5) by simp
next
  case False
  let ?st = "m_timer_start t"
  define r where "r = d - ?st"
  have r: "m_timeout_seconds (m_timeout t) = Micro r"
    using False d by (auto simp: deadline_def r_def split: seconds.splits)
  have r0: "0 \<le> r" using small by (simp add: r_def)
  obtain q c where st: "?st div 1000000 = q" "?st mod 1000000 = c" "?st = 1000000 * q + c" "0 \<le> c" "c < 1000000"
    using quotient_and_rest [of 1000000 ?st] by auto
  obtain u v where rr: "r div 1000000 = u" "r mod 1000000 = v" "r = 1000000 * u + v" "0 \<le> v" "v < 1000000"
    using quotient_and_rest [of 1000000 r] by auto
  define k where "k = c * 1000 + v * 1000"
  have q0: "0 \<le> q" using st(3-5) small(1) by linarith
  have n0: "0 \<le> q * 1000000 + r" "q * 1000000 + r \<le> 2 ^ 62" using q0 st(3,4) small(1,3) r0 unfolding r_def by linarith+
  have k0: "0 \<le> k" "k < 2000000000" using st rr by (simp_all add: k_def)
  have nd: "(q * 1000000 + r) div 1000000 = q + u" "(q * 1000000 + r) mod 1000000 = v"
    using rr(1,2) by (simp_all add: add.commute)
  have sec1: "safeAssign LONG_MIN LONG_MAX (q * 1000000 + r) 1000000 = q + u + (if 2 * v \<ge> 1000000 then 1 else 0)"
    using n0 round_nonneg [OF n0(1), of 1000000] by (simp add: safeAssign_def LONG_MIN_def LONG_MAX_def nd rr(2))
  have nsec1: "safeAssign LONG_MIN LONG_MAX k 1 = k"
    using k0 round_unit [OF k0(1)] by (simp add: safeAssign_def LONG_MIN_def LONG_MAX_def)
  have sm: "r smod 1000000 = v" using r0 rr(2) by (simp add: sdiv_nonneg)
  obtain x y where kk: "k div 1000000000 = x" "k mod 1000000000 = y" "k = 1000000000 * x + y" "0 \<le> y" "y < 1000000000"
    using quotient_and_rest [of 1000000000 k] by auto
  have out: "sec = q + u + (if 2 * v \<ge> 1000000 then 1 else 0) + x" "nsec = y"
    using ts False sec1 nsec1 kk(1,2) sdiv_nonneg [OF k0(1), of 1000000000] sm
    by (simp_all add: asTimespec_def r Let_def st(1,2) k_def)
  have dd: "d = 1000000 * q + c + r" using st(3) unfolding r_def by linarith
  have total: "1000000000 * (q + u + x) + y = 1000 * d"
  proof -
    have "y = c * 1000 + v * 1000 - 1000000000 * x" using kk(3) by (simp add: k_def)
    then show ?thesis unfolding dd rr(3) by (simp add: distrib_left)
  qed
  have v: "(d - ?st) mod 1000000 = v" using rr(2) by (simp add: r_def)
  show ?thesis unfolding v using False out kk(4,5) total by (simp split: if_splits)
qed

theorem condition_waits_a_second_longer_witness:
  "\<exists>sec nsec. asTimespec (TimeoutTimer_new (relative (Micro 600000)) 2000000) = (sec, nsec) \<and>
    sec * 1000000000 + nsec = 3600000000"
proof -
  have d: "deadline (TimeoutTimer_new (relative (Micro 600000)) 2000000) = Some 2600000"
    by (simp add: deadline_def TimeoutTimer_new_def relative_def)
  obtain a b where ab: "asTimespec (TimeoutTimer_new (relative (Micro 600000)) 2000000) = (a, b)" by fastforce
  have "a * 1000000000 + b = 3600000000"
    using condition_waits_a_second_longer [OF d _ _ _ ab] by (simp add: TimeoutTimer_new_def relative_def)
  then show ?thesis using ab by blast
qed

end
