(* ===== verification/Process.thy ===== *)
theory Process
  imports Timeouts "HOL-Library.Sublist" Complex_Main
begin

unbundle bit_operations_syntax

text \<open>
  The class \<open>Process\<close> (\<open>Process.cpp\<close>, POSIX part): the status of a child, the wait with
  increasingly severe measures, and the reaper of zombies. What the system does is a
  parameter \<open>os\<close> that may depend in any way on the events so far: the answer of
  \<open>pollStatus\<close>, the result of \<open>kill\<close> and the clock. The events are recorded in the order in
  which the code causes them.
\<close>

section \<open>The status of a child\<close>

text \<open>The macros of \<open>sys/wait.h\<close>.\<close>

definition WIFEXITED :: "32 word \<Rightarrow> bool" where "WIFEXITED s \<longleftrightarrow> s AND 0x7F = 0"
definition WEXITSTATUS :: "32 word \<Rightarrow> 32 word" where "WEXITSTATUS s = drop_bit 8 (s AND 0xFF00)"
definition WTERMSIG :: "32 word \<Rightarrow> 32 word" where "WTERMSIG s = s AND 0x7F"
definition WIFSIGNALED :: "32 word \<Rightarrow> bool" where
  "WIFSIGNALED s \<longleftrightarrow> 0 < sint (ucast ((s AND 0x7F) + 1) :: 8 word) div 2"
definition WIFSTOPPED :: "32 word \<Rightarrow> bool" where "WIFSTOPPED s \<longleftrightarrow> s AND 0xFF = 0x7F"
definition WSTOPSIG :: "32 word \<Rightarrow> 32 word" where "WSTOPSIG s = WEXITSTATUS s"

record Status =
  m_status_available :: bool
  m_status :: "32 word"

definition Status_of :: "int \<Rightarrow> 32 word \<Rightarrow> Status" where
  "Status_of pid status = \<lparr>m_status_available = (pid > 0), m_status = status\<rparr>"

definition Status_new :: Status where "Status_new = \<lparr>m_status_available = False, m_status = 0\<rparr>"

definition running :: "Status \<Rightarrow> bool" where "running s \<longleftrightarrow> \<not> m_status_available s"

definition terminated :: "Status \<Rightarrow> bool" where
  "terminated s \<longleftrightarrow> m_status_available s \<and> (WIFEXITED (m_status s) \<or> WIFSIGNALED (m_status s))"

definition exitTerminated :: "Status \<Rightarrow> bool" where
  "exitTerminated s \<longleftrightarrow> m_status_available s \<and> WIFEXITED (m_status s)"

definition exitStatus :: "Status \<Rightarrow> 32 word" where "exitStatus s = WEXITSTATUS (m_status s)"

definition signalTerminated :: "Status \<Rightarrow> bool" where
  "signalTerminated s \<longleftrightarrow> m_status_available s \<and> WIFSIGNALED (m_status s)"

definition termSignal :: "Status \<Rightarrow> 32 word" where "termSignal s = WTERMSIG (m_status s)"

definition stopped :: "Status \<Rightarrow> bool" where
  "stopped s \<longleftrightarrow> m_status_available s \<and> WIFSTOPPED (m_status s)"

definition stopSignal :: "Status \<Rightarrow> 32 word" where "stopSignal s = WSTOPSIG (m_status s)"

definition terminatedSuccessfully :: "Status \<Rightarrow> bool" where
  "terminatedSuccessfully s \<longleftrightarrow> exitTerminated s \<and> exitStatus s = 0"

text \<open>\<open>repr\<close> and the constructor that reads it back.\<close>

definition status_repr :: "Status \<Rightarrow> int \<times> 32 word" where
  "status_repr s = (of_bool (m_status_available s), m_status s)"

definition Status_of_repr :: "int \<Rightarrow> 32 word \<Rightarrow> Status" where
  "Status_of_repr rep1 rep2 = \<lparr>m_status_available = (rep1 \<noteq> 0), m_status = rep2\<rparr>"

section \<open>The system\<close>

datatype event =
    Polled | Killed int int | Slept nat | ClosedIn | ClosedOut | ClosedErr | ReadClock

datatype process_error = PollError | OwnProcess | KillError int | NotKilled

record os =
  os_poll :: "event list \<Rightarrow> process_error + Status"
  os_kill :: "event list \<Rightarrow> int \<Rightarrow> int \<Rightarrow> int"
  os_clock :: "event list \<Rightarrow> int"
  os_getpid :: int

definition SIGTERM :: int where "SIGTERM = 15"
definition SIGKILL :: int where "SIGKILL = 9"

text \<open>The object: whether its pipes are there, the process and its last status; with it, the
  events so far.\<close>

record Process =
  has_in :: bool
  has_out :: bool
  has_err :: bool
  m_pid :: int
  m_pstatus :: Status
  events :: "event list"

definition Process_of_pid :: "int \<Rightarrow> Process" where
  "Process_of_pid pid =
     \<lparr>has_in = False, has_out = False, has_err = False, m_pid = pid, m_pstatus = Status_new, events = []\<rparr>"

definition Process_new :: "bool \<Rightarrow> bool \<Rightarrow> bool \<Rightarrow> int \<Rightarrow> Process" where
  "Process_new i e r pid =
     \<lparr>has_in = i, has_out = e, has_err = r, m_pid = pid, m_pstatus = Status_new, events = []\<rparr>"

definition release :: "Process \<Rightarrow> Process" where
  "release p = p\<lparr>has_in := False, has_out := False, has_err := False, m_pid := -1\<rparr>"

definition emit :: "event \<Rightarrow> Process \<Rightarrow> Process" where "emit e p = p\<lparr>events := events p @ [e]\<rparr>"

definition poll :: "os \<Rightarrow> Process \<Rightarrow> (process_error + unit) \<times> Process" where
  "poll os p = (case os_poll os (events p) of
     Inl e \<Rightarrow> (Inl e, emit Polled p)
   | Inr st \<Rightarrow> (Inr (), (emit Polled p)\<lparr>m_pstatus := st\<rparr>))"

definition processStatus :: "os \<Rightarrow> Process \<Rightarrow> (process_error + Status) \<times> Process" where
  "processStatus os p =
     (if m_pid p \<ge> 0 \<and> \<not> terminated (m_pstatus p) then
        case poll os p of (Inl e, q) \<Rightarrow> (Inl e, q) | (Inr _, q) \<Rightarrow> (Inr (m_pstatus q), q)
      else (Inr (m_pstatus p), p))"

definition read_clock :: "os \<Rightarrow> Process \<Rightarrow> int \<times> Process" where
  "read_clock os p = (os_clock os (events p), emit ReadClock p)"

definition new_timer :: "os \<Rightarrow> Timeout \<Rightarrow> Process \<Rightarrow> TimeoutTimer \<times> Process" where
  "new_timer os t p = (let (now, p) = read_clock os p in (TimeoutTimer_new t now, p))"

section \<open>Waiting\<close>

text \<open>The period, a number of milliseconds, grows by a fifth up to five seconds; the thread
  sleeps for its integral part.\<close>

definition next_period :: "rat \<Rightarrow> rat" where "next_period period = min 5000 (period * (6 / 5))"

partial_function (option) wait_loop ::
    "os \<Rightarrow> rat \<Rightarrow> TimeoutTimer \<Rightarrow> Process \<Rightarrow> ((process_error + bool) \<times> Process) option" where
  "wait_loop os period timer p =
     (if \<not> expired timer \<and> \<not> terminated (m_pstatus p) then
        let p = emit (Slept (nat \<lfloor>period\<rfloor>)) p;
            period = next_period period
        in case poll os p of
             (Inl e, p) \<Rightarrow> Some (Inl e, p)
           | (Inr _, p) \<Rightarrow>
               let (now, p) = read_clock os p in wait_loop os period (timer_loop timer now) p
      else Some (Inr (terminated (m_pstatus p)), p))"

definition terminatesWithin :: "os \<Rightarrow> Timeout \<Rightarrow> Process \<Rightarrow> ((process_error + bool) \<times> Process) option" where
  "terminatesWithin os wait_time p =
     (let (timer, p) = new_timer os wait_time p in wait_loop os 100 timer p)"

definition killWait :: "os \<Rightarrow> Timeout \<Rightarrow> int \<Rightarrow> bool \<Rightarrow> Process \<Rightarrow> ((process_error + bool) \<times> Process) option" where
  "killWait os wait_time sig whole_group p =
     (let killArg = (if whole_group then - m_pid p else m_pid p);
          errnum = os_kill os (events p) killArg sig;
          p = emit (Killed killArg sig) p
      in if errnum \<noteq> 0 then
           case processStatus os p of
             (Inl e, p) \<Rightarrow> Some (Inl e, p)
           | (Inr st, p) \<Rightarrow> if terminated st then Some (Inr True, p) else Some (Inl (KillError errnum), p)
         else terminatesWithin os wait_time p)"

definition upr_close :: "bool \<Rightarrow> event \<Rightarrow> Process \<Rightarrow> Process" where
  "upr_close x e p = (if x then emit e p else p)"

definition close_pipes :: "Process \<Rightarrow> Process" where
  "close_pipes p = upr_close (has_err p) ClosedErr (upr_close (has_out p) ClosedOut (upr_close (has_in p) ClosedIn p))"

text \<open>\<open>getType() == E_RELATIVE && getRelative() > 0\<close>.\<close>

definition relative_positive :: "Timeout \<Rightarrow> bool" where
  "relative_positive t \<longleftrightarrow> m_type t = E_RELATIVE \<and> (case m_timeout_seconds t of Micro s \<Rightarrow> 0 < s | INFINITY \<Rightarrow> True)"

text \<open>A relative timeout that is not infinite has an absolute one; an infinite one stays.\<close>

definition absolute_of :: "TimeoutTimer \<Rightarrow> Timeout" where
  "absolute_of t = (case asAbsoluteTimeout t of Some a \<Rightarrow> a | None \<Rightarrow> m_timeout t)"

text \<open>The steps of \<open>waitCloseTerm\<close>, in the order of the code: the result of each is whether
  the child has terminated.\<close>

definition wait_step where
  "wait_step cond action p rest =
     (if cond then
        case action p of
          None \<Rightarrow> None
        | Some (Inl e, p) \<Rightarrow> Some (Inl e, p)
        | Some (Inr ended, p) \<Rightarrow> if ended then Some (Inr (), p) else rest p
      else rest p)"

definition waitCloseTerm :: "os \<Rightarrow> Timeout \<Rightarrow> Timeout \<Rightarrow> Timeout \<Rightarrow> bool \<Rightarrow> Process \<Rightarrow>
    ((process_error + unit) \<times> Process) option" where
  "waitCloseTerm os wait_initial wait_close wait_term whole_group p =
     (if m_pid p < 0 then Some (Inr (), p)
      else case processStatus os p of
        (Inl e, p) \<Rightarrow> Some (Inl e, p)
      | (Inr st, p) \<Rightarrow>
          if terminated st then Some (Inr (), p)
          else if m_pid p = os_getpid os then Some (Inl OwnProcess, p)
          else
            let (initialTimer, p) = new_timer os wait_initial p;
                (closeTimer, p) = new_timer os wait_close p;
                (termTimer, p) = new_timer os wait_term p
            in
            wait_step (relative_positive wait_initial)
              (\<lambda>p. terminatesWithin os (absolute_of initialTimer) p) p (\<lambda>p.
            wait_step (relative_positive wait_close)
              (\<lambda>p. terminatesWithin os (absolute_of closeTimer) (close_pipes p)) p (\<lambda>p.
            wait_step (relative_positive wait_term)
              (\<lambda>p. killWait os (absolute_of termTimer) SIGTERM whole_group p) p (\<lambda>p.
            wait_step True
              (\<lambda>p. killWait os (relative (Micro 60000000)) SIGKILL whole_group p) p (\<lambda>p.
            Some (Inl NotKilled, p))))))"

text \<open>The destructor; the flag tells whether a zombie reaper is set to work.\<close>

definition Process_destroy :: "os \<Rightarrow> Process \<Rightarrow> (bool \<times> Process) option" where
  "Process_destroy os p =
     (if m_pid p < 0 then Some (False, p)
      else case waitCloseTerm os (relative (Micro 0)) (relative (Micro 1000000)) (relative (Micro 5000000)) True p of
        None \<Rightarrow> None
      | Some (Inr _, p) \<Rightarrow> Some (False, p)
      | Some (Inl e, p) \<Rightarrow> Some (\<not> terminated (m_pstatus p), p))"

definition MAX_ZOMBIE_POLL_ATTEMPTS :: nat where "MAX_ZOMBIE_POLL_ATTEMPTS = 6"

text \<open>The loop of the zombie reaper; the result of \<open>kill\<close> is not looked at, and an error of
  \<open>pollStatus\<close> ends it.\<close>

partial_function (option) reaper_loop :: "os \<Rightarrow> nat \<Rightarrow> Process \<Rightarrow> ((process_error + unit) \<times> Process) option" where
  "reaper_loop os attempts p =
     (if terminated (m_pstatus p) then Some (Inr (), p)
      else
        let signum = (if attempts < MAX_ZOMBIE_POLL_ATTEMPTS then SIGTERM else SIGKILL);
            p = emit (Slept 10000) (emit (Killed (m_pid p) signum) p)
        in case poll os p of
             (Inl e, p) \<Rightarrow> Some (Inl e, p)
           | (Inr _, p) \<Rightarrow> reaper_loop os (attempts + 1) p)"

definition ZombieReaper_run :: "os \<Rightarrow> Process \<Rightarrow> ((process_error + unit) \<times> Process) option" where
  "ZombieReaper_run os p =
     (case poll os p of
        (Inl e, p) \<Rightarrow> Some (Inl e, p)
      | (Inr _, p) \<Rightarrow> reaper_loop os 0 p)"

end
