(* ===== verification/Process_Props.thy ===== *)
theory Process_Props
  imports Process
begin

text \<open>
  Properties of \<open>Process\<close>: the three states of a child, the order in which a child is
  waited for, closed, terminated and killed, that a normal return means that it has
  terminated, that the waits end, and the reaper.
\<close>

section \<open>States\<close>

lemma uint_and_masks:
  "uint (s AND 0x7F :: 32 word) = uint s mod 128" "uint (s AND 0xFF :: 32 word) = uint s mod 256"
  using take_bit_eq_mask [of 7 "uint s"] take_bit_eq_mask [of 8 "uint s"]
  by (simp_all add: uint_and mask_eq_exp_minus_1 take_bit_eq_mod)

lemma status_macros:
  "WIFEXITED s \<longleftrightarrow> uint s mod 128 = 0"
  "WIFSIGNALED s \<longleftrightarrow> 0 < uint s mod 128 \<and> uint s mod 128 < 127"
  "WIFSTOPPED s \<longleftrightarrow> uint s mod 256 = 127"
proof -
  show "WIFEXITED s \<longleftrightarrow> uint s mod 128 = 0"
    by (simp add: WIFEXITED_def word_uint_eq_iff uint_and_masks)
  show "WIFSTOPPED s \<longleftrightarrow> uint s mod 256 = 127"
    by (simp add: WIFSTOPPED_def word_uint_eq_iff uint_and_masks)
  define n where "n = uint s mod 128"
  have n: "0 \<le> n" "n < 128" by (simp_all add: n_def)
  have "uint ((s AND 0x7F) + 1) = n + 1"
    using n by (simp add: uint_word_ariths uint_and_masks flip: n_def)
  then have "sint (ucast ((s AND 0x7F) + 1) :: 8 word) = signed_take_bit 7 (n + 1)"
    using n by (simp add: sint_uint unsigned_ucast_eq take_bit_int_eq_self)
  moreover have "signed_take_bit 7 (n + 1) = (if n = 127 then - 128 else n + 1)"
  proof (cases "n = 127")
    case False
    then have "signed_take_bit 7 (n + 1) = n + 1" using n by (intro signed_take_bit_int_eq_self) auto
    then show ?thesis using False by simp
  qed simp
  ultimately show "WIFSIGNALED s \<longleftrightarrow> 0 < uint s mod 128 \<and> uint s mod 128 < 127"
    using n by (auto simp: WIFSIGNALED_def simp flip: n_def)
qed

text \<open>
  A status is running, stopped or terminated and never two of them; one of them it is
  exactly when its low byte is not 0xFF, so that the status of a continued child is none. A
  terminated child has exited or was ended by a signal, not both, and the two integers of
  \<open>repr\<close> give the status back.
\<close>

theorem child_is_in_one_state:
  "\<not> (running s \<and> stopped s) \<and> \<not> (running s \<and> terminated s) \<and> \<not> (stopped s \<and> terminated s)"
  "(running s \<or> stopped s \<or> terminated s) \<longleftrightarrow> (m_status_available s \<longrightarrow> uint (m_status s) mod 256 \<noteq> 255)"
  "terminated s \<longleftrightarrow> exitTerminated s \<or> signalTerminated s" "\<not> (exitTerminated s \<and> signalTerminated s)"
  "(case status_repr s of (a, b) \<Rightarrow> Status_of_repr a b) = s"
proof -
  let ?n = "uint (m_status s)"
  define k where "k = ?n mod 256"
  have "?n mod 128 = k mod 128" unfolding k_def by (rule mod_mod_cancel [symmetric]) simp
  moreover have "k mod 128 = (if k < 128 then k else k - 128)"
  proof (cases "k < 128")
    case False
    have "k mod 128 = (k - 128) mod 128" by (rule minus_mod_self2 [symmetric])
    also have "\<dots> = k - 128" using False by (intro mod_pos_pos_trivial) (simp_all add: k_def)
    finally show ?thesis using False by simp
  qed (simp add: k_def mod_pos_pos_trivial)
  ultimately have m: "?n mod 256 = 127 \<Longrightarrow> ?n mod 128 = 127"
    "?n mod 128 = 127 \<longleftrightarrow> ?n mod 256 = 127 \<or> ?n mod 256 = 255"
    unfolding k_def [symmetric] by (auto split: if_splits)
  show "\<not> (running s \<and> stopped s) \<and> \<not> (running s \<and> terminated s) \<and> \<not> (stopped s \<and> terminated s)"
    using m(1) by (auto simp: running_def stopped_def terminated_def status_macros)
  have "0 \<le> ?n mod 128" "?n mod 128 < 128" by simp_all
  then have "?n mod 128 = 0 \<or> (0 < ?n mod 128 \<and> ?n mod 128 < 127) \<or> ?n mod 128 = 127" by linarith
  moreover have "?n mod 256 = 255 \<Longrightarrow> ?n mod 128 = 127" using m(2) by blast
  ultimately show "(running s \<or> stopped s \<or> terminated s) \<longleftrightarrow> (m_status_available s \<longrightarrow> ?n mod 256 \<noteq> 255)"
    using m(2) by (auto simp: running_def stopped_def terminated_def status_macros)
  show "terminated s \<longleftrightarrow> exitTerminated s \<or> signalTerminated s" "\<not> (exitTerminated s \<and> signalTerminated s)"
    by (auto simp: terminated_def exitTerminated_def signalTerminated_def status_macros)
  show "(case status_repr s of (a, b) \<Rightarrow> Status_of_repr a b) = s"
    by (cases s) (simp add: status_repr_def Status_of_repr_def)
qed

section \<open>Waiting\<close>

definition same_object :: "Process \<Rightarrow> Process \<Rightarrow> bool" where
  "same_object p q \<longleftrightarrow> has_in q = has_in p \<and> has_out q = has_out p \<and> has_err q = has_err p \<and> m_pid q = m_pid p"

fun quiet_event :: "event \<Rightarrow> bool" where
  "quiet_event Polled = True"
| "quiet_event (Slept n) = True"
| "quiet_event ReadClock = True"
| "quiet_event _ = False"

text \<open>What a wait does to the object: it polls, sleeps and reads the clock.\<close>

definition waits :: "Process \<Rightarrow> Process \<Rightarrow> bool" where
  "waits p q \<longleftrightarrow> same_object p q \<and> (\<exists>evs. events q = events p @ evs \<and> list_all quiet_event evs)"

lemma waits_refl [simp]: "waits p p"
  by (simp add: waits_def same_object_def)

lemma waits_trans: "waits p q \<Longrightarrow> waits q r \<Longrightarrow> waits p r"
  by (auto simp: waits_def same_object_def)

lemma waits_emit: "quiet_event e \<Longrightarrow> waits p (emit e p)"
  by (auto simp: waits_def same_object_def emit_def)

lemma waits_poll: "poll os p = (r, q) \<Longrightarrow> waits p q"
  by (auto simp: poll_def waits_def same_object_def emit_def split: sum.splits)

lemma waits_prefix: "waits p q \<Longrightarrow> prefix (events p) (events q)"
  by (auto simp: waits_def)

lemma processStatus_cases:
  assumes "processStatus os p = (r, q)"
  shows "waits p q" and "r = Inr st \<Longrightarrow> st = m_pstatus q"
  using assms waits_poll [of os p]
  by (auto simp: processStatus_def split: if_splits prod.splits sum.splits)

text \<open>A reading of the clock at or after a deadline, before the events of \<open>q\<close> end.\<close>

definition clock_reached :: "os \<Rightarrow> int \<Rightarrow> event list \<Rightarrow> event list \<Rightarrow> bool" where
  "clock_reached os d h k \<longleftrightarrow> (\<exists>j. prefix h j \<and> prefix j k \<and> d \<le> os_clock os j)"

lemma clock_reached_mono: "clock_reached os d h k \<Longrightarrow> prefix k l \<Longrightarrow> clock_reached os d h l"
  unfolding clock_reached_def by (meson prefix_order.trans)

definition wait_post :: "os \<Rightarrow> TimeoutTimer \<Rightarrow> Process \<Rightarrow> (process_error + bool) \<times> Process \<Rightarrow> bool" where
  "wait_post os timer p y \<longleftrightarrow> waits p (snd y) \<and> (\<forall>b. fst y = Inr b \<longrightarrow> b = terminated (m_pstatus (snd y))) \<and>
     (fst y = Inr False \<longrightarrow> expired timer \<or>
       (\<exists>d. deadline timer = Some d \<and> clock_reached os d (events p) (events (snd y))))"

lemma deadline_loop: "deadline (timer_loop t n) = deadline t"
  by (simp add: timer_loop_def deadline_def split: seconds.splits)

lemma wait_loop_post:
  assumes "wait_loop os period timer p = Some y"
  shows "wait_post os timer p y"
proof (rule wait_loop.raw_induct [where P = "\<lambda>os period timer p y. wait_post os timer p y", OF _ assms])
  fix f os period timer p y
  assume IH: "\<And>os period timer p y. f os period timer p = Some y \<Longrightarrow> wait_post os timer p y"
    and run: "(if \<not> expired timer \<and> \<not> terminated (m_pstatus p) then
        let p = emit (Slept (nat \<lfloor>period\<rfloor>)) p; period = next_period period
        in case poll os p of (Inl e, p) \<Rightarrow> Some (Inl e, p)
           | (Inr _, p) \<Rightarrow> let (now, p) = read_clock os p in f os period (timer_loop timer now) p
      else Some (Inr (terminated (m_pstatus p)), p)) = Some y"
  show "wait_post os timer p y"
  proof (cases "\<not> expired timer \<and> \<not> terminated (m_pstatus p)")
    case False
    then show ?thesis using run by (auto simp: wait_post_def)
  next
    case True
    let ?p1 = "emit (Slept (nat \<lfloor>period\<rfloor>)) p"
    obtain r p2 where po: "poll os ?p1 = (r, p2)" by fastforce
    have w2: "waits p p2" using waits_trans [OF waits_emit waits_poll [OF po]] by simp
    show ?thesis
    proof (cases r)
      case (Inl e)
      then show ?thesis using run True po w2 by (cases y) (auto simp: Let_def wait_post_def)
    next
      case (Inr u)
      define now where "now = os_clock os (events p2)"
      let ?p3 = "emit ReadClock p2"
      have "f os (next_period period) (timer_loop timer now) ?p3 = Some y"
        using run True po Inr by (simp add: Let_def read_clock_def now_def)
      then have post: "wait_post os (timer_loop timer now) ?p3 y" by (rule IH)
      have w3: "waits p ?p3" using waits_trans [OF w2 waits_emit] by simp
      have wy: "waits ?p3 (snd y)" using post by (simp add: wait_post_def)
      have "\<exists>d. deadline timer = Some d \<and> clock_reached os d (events p) (events (snd y))" if no: "fst y = Inr False"
      proof -
        from post no consider "expired (timer_loop timer now)"
          | d where "deadline timer = Some d" "clock_reached os d (events ?p3) (events (snd y))"
          by (auto simp: wait_post_def deadline_loop)
        then show ?thesis
        proof cases
          case 1
          then obtain d where d: "deadline timer = Some d" "d \<le> now"
            by (auto simp: timer_deadline(1) split: option.splits)
          have "prefix (events p2) (events (snd y))"
            using waits_prefix [OF waits_trans [OF waits_emit wy]] by simp
          then show ?thesis using d waits_prefix [OF w2] unfolding clock_reached_def now_def by blast
        next
          case 2
          then show ?thesis using waits_prefix [OF w3] unfolding clock_reached_def by (meson prefix_order.trans)
        qed
      qed
      then show ?thesis using post waits_trans [OF w3 wy] by (auto simp: wait_post_def)
    qed
  qed
qed

text \<open>What \<open>terminatesWithin\<close> does with a timeout of a deadline.\<close>

lemma terminatesWithin_post:
  assumes "terminatesWithin os t p = Some (r, q)"
  shows "waits p q" and "r = Inr b \<Longrightarrow> b = terminated (m_pstatus q)"
    and "r = Inr False \<Longrightarrow> m_type t = E_ABSOLUTE \<Longrightarrow> clock_reached os (m_absolute t) (events p) (events q)"
proof -
  let ?now = "os_clock os (events p)"
  have "wait_loop os 100 (TimeoutTimer_new t ?now) (emit ReadClock p) = Some (r, q)"
    using assms by (simp add: terminatesWithin_def new_timer_def read_clock_def)
  then have post: "wait_post os (TimeoutTimer_new t ?now) (emit ReadClock p) (r, q)" by (rule wait_loop_post)
  have w: "waits p (emit ReadClock p)" "waits (emit ReadClock p) q"
    using post by (simp_all add: waits_emit wait_post_def)
  then show wq: "waits p q" by (rule waits_trans)
  show "r = Inr b \<Longrightarrow> b = terminated (m_pstatus q)" using post by (simp add: wait_post_def)
  assume r: "r = Inr False" and abs: "m_type t = E_ABSOLUTE"
  then have d: "deadline (TimeoutTimer_new t ?now) = Some (m_absolute t)"
    by (simp add: deadline_def TimeoutTimer_new_def)
  from post r d consider "m_absolute t \<le> ?now"
    | "clock_reached os (m_absolute t) (events (emit ReadClock p)) (events q)"
    by (auto simp: wait_post_def expired_iff TimeoutTimer_new_def)
  then show "clock_reached os (m_absolute t) (events p) (events q)"
  proof cases
    case 1
    then show ?thesis using waits_prefix [OF wq] by (auto simp: clock_reached_def)
  next
    case 2
    then show ?thesis using waits_prefix [OF w(1)] unfolding clock_reached_def by (meson prefix_order.trans)
  qed
qed


lemma killWait_post:
  assumes "killWait os t sig g p = Some (r, q)"
  defines "p1 \<equiv> emit (Killed (if g then - m_pid p else m_pid p) sig) p"
  shows "waits p1 q" and "r = Inr b \<Longrightarrow> b = terminated (m_pstatus q)"
    and "r = Inr False \<Longrightarrow> terminatesWithin os t p1 = Some (Inr False, q)"
proof -
  let ?k = "os_kill os (events p) (if g then - m_pid p else m_pid p) sig"
  have run: "(if ?k \<noteq> 0 then case processStatus os p1 of
        (Inl e, p) \<Rightarrow> Some (Inl e, p)
      | (Inr st, p) \<Rightarrow> if terminated st then Some (Inr True, p) else Some (Inl (KillError ?k), p)
    else terminatesWithin os t p1) = Some (r, q)"
    using assms(1) unfolding killWait_def Let_def p1_def .
  have "waits p1 q \<and> (\<forall>b. r = Inr b \<longrightarrow> b = terminated (m_pstatus q)) \<and>
      (r = Inr False \<longrightarrow> terminatesWithin os t p1 = Some (Inr False, q))"
  proof (cases "?k = 0")
    case True
    then show ?thesis using run terminatesWithin_post(1,2) by auto
  next
    case False
    obtain x p2 where x: "processStatus os p1 = (x, p2)" by fastforce
    show ?thesis
      using run False x processStatus_cases [OF x] by (auto split: sum.splits if_splits)
  qed
  then show "waits p1 q" "r = Inr b \<Longrightarrow> b = terminated (m_pstatus q)"
    "r = Inr False \<Longrightarrow> terminatesWithin os t p1 = Some (Inr False, q)" by blast+
qed

section \<open>The order of the measures\<close>

text \<open>The measures that \<open>waitCloseTerm\<close> may take, in their order.\<close>

definition termination_measures :: "Timeout \<Rightarrow> Timeout \<Rightarrow> bool \<Rightarrow> Process \<Rightarrow> event list" where
  "termination_measures wait_close wait_term g p =
     (let arg = (if g then - m_pid p else m_pid p) in
      (if relative_positive wait_close
       then (if has_in p then [ClosedIn] else []) @ (if has_out p then [ClosedOut] else []) @
         (if has_err p then [ClosedErr] else [])
       else []) @
      (if relative_positive wait_term then [Killed arg SIGTERM] else []) @ [Killed arg SIGKILL])"

text \<open>The whole time of a timeout passes between two readings of the clock after \<open>h\<close> and
  before the end of \<open>k\<close>.\<close>

definition waited :: "os \<Rightarrow> Timeout \<Rightarrow> event list \<Rightarrow> event list \<Rightarrow> bool" where
  "waited os t h k \<longleftrightarrow> relative_positive t \<longrightarrow> (\<exists>s j0 j1. m_timeout_seconds t = Micro s \<and> prefix h j0 \<and> prefix j0 j1 \<and>
     prefix j1 k \<and> os_clock os j0 + s \<le> os_clock os j1)"

lemma waited_mono: "waited os t h k \<Longrightarrow> prefix k l \<Longrightarrow> waited os t h l"
  unfolding waited_def by (meson prefix_order.trans)

text \<open>What must have been waited for before a measure.\<close>

fun may_happen :: "os \<Rightarrow> Timeout \<Rightarrow> Timeout \<Rightarrow> Timeout \<Rightarrow> event list \<Rightarrow> event \<Rightarrow> event list \<Rightarrow> bool" where
  "may_happen os wi wc wt h (Killed a sig) k \<longleftrightarrow>
     waited os wi h k \<and> waited os wc h k \<and> (sig = SIGKILL \<longrightarrow> waited os wt h k)"
| "may_happen os wi wc wt h ClosedIn k \<longleftrightarrow> waited os wi h k"
| "may_happen os wi wc wt h ClosedOut k \<longleftrightarrow> waited os wi h k"
| "may_happen os wi wc wt h ClosedErr k \<longleftrightarrow> waited os wi h k"
| "may_happen os wi wc wt h _ k \<longleftrightarrow> True"

fun timely :: "(event \<Rightarrow> event list \<Rightarrow> bool) \<Rightarrow> event list \<Rightarrow> event list \<Rightarrow> bool" where
  "timely W h [] = True"
| "timely W h (e # es) = (W e h \<and> timely W (h @ [e]) es)"

lemma timely_append: "timely W h (xs @ ys) \<longleftrightarrow> timely W h xs \<and> timely W (h @ xs) ys"
  by (induction xs arbitrary: h) auto

lemma timely_at: "timely W h (xs @ e # ys) \<Longrightarrow> W e (h @ xs)"
  by (simp add: timely_append)

lemma timely_quiet: "list_all quiet_event es \<Longrightarrow> timely (may_happen os wi wc wt h0) h es"
proof (induction es arbitrary: h)
  case (Cons e es)
  then show ?case by (cases e) auto
qed simp

text \<open>The object after the measures \<open>A\<close>.\<close>

definition stage :: "os \<Rightarrow> Timeout \<Rightarrow> Timeout \<Rightarrow> Timeout \<Rightarrow> Process \<Rightarrow> event list \<Rightarrow> Process \<Rightarrow> bool" where
  "stage os wi wc wt p A q \<longleftrightarrow> same_object p q \<and> (\<exists>evs. events q = events p @ evs \<and>
     filter (\<lambda>e. \<not> quiet_event e) evs = A \<and> timely (may_happen os wi wc wt (events p)) (events p) evs)"

lemma stage_prefix: "stage os wi wc wt p A q \<Longrightarrow> prefix (events p) (events q)"
  by (auto simp: stage_def)

lemma stage_waits:
  assumes "stage os wi wc wt p A q" and "waits q r"
  shows "stage os wi wc wt p A r"
proof -
  obtain evs qs where e: "events q = events p @ evs" "filter (\<lambda>e. \<not> quiet_event e) evs = A"
    "timely (may_happen os wi wc wt (events p)) (events p) evs" "events r = events q @ qs" "list_all quiet_event qs"
    using assms by (auto simp: stage_def waits_def)
  have "filter (\<lambda>e. \<not> quiet_event e) qs = []" using e(5) by (auto simp: filter_empty_conv list_all_iff)
  then show ?thesis using assms e timely_quiet [OF e(5)]
    by (auto simp: stage_def waits_def same_object_def timely_append intro!: exI [of _ "evs @ qs"])
qed

lemma stage_emit:
  assumes "stage os wi wc wt p A q" and "\<not> quiet_event e" and "may_happen os wi wc wt (events p) e (events q)"
  shows "stage os wi wc wt p (A @ [e]) (emit e q)"
proof -
  obtain evs where e: "events q = events p @ evs" "filter (\<lambda>e. \<not> quiet_event e) evs = A"
    "timely (may_happen os wi wc wt (events p)) (events p) evs"
    using assms by (auto simp: stage_def)
  then show ?thesis using assms
    by (auto simp: stage_def emit_def same_object_def timely_append intro!: exI [of _ "evs @ [e]"])
qed

lemma stage_close:
  assumes s: "stage os wi wc wt p [] q" and w: "waited os wi (events p) (events q)"
  shows "stage os wi wc wt p ((if has_in p then [ClosedIn] else []) @ (if has_out p then [ClosedOut] else []) @
         (if has_err p then [ClosedErr] else [])) (close_pipes q)"
    and "prefix (events q) (events (close_pipes q))"
proof -
  have o: "has_in q = has_in p" "has_out q = has_out p" "has_err q = has_err p"
    using s by (simp_all add: stage_def same_object_def)
  have step: "stage os wi wc wt p (A @ (if x then [e] else [])) (upr_close x e r)"
    if "stage os wi wc wt p A r" "e \<in> {ClosedIn, ClosedOut, ClosedErr}" "prefix (events q) (events r)" for A r x e
    using that waited_mono [OF w that(3)] stage_emit [of os wi wc wt p A r e] by (auto simp: upr_close_def)
  have pre: "prefix (events r) (events (upr_close x e r))" for x e r
    by (simp add: upr_close_def emit_def)
  let ?q1 = "upr_close (has_in q) ClosedIn q"
  let ?q2 = "upr_close (has_out q) ClosedOut ?q1"
  have p1: "prefix (events q) (events ?q1)" and p2: "prefix (events q) (events ?q2)"
    using pre prefix_order.trans by blast+
  have s1: "stage os wi wc wt p (if has_in p then [ClosedIn] else []) ?q1"
    using step [OF s, of ClosedIn "has_in q"] o by auto
  have s2: "stage os wi wc wt p ((if has_in p then [ClosedIn] else []) @ (if has_out p then [ClosedOut] else [])) ?q2"
    using step [OF s1 _ p1, of ClosedOut "has_out q"] o by auto
  show "stage os wi wc wt p ((if has_in p then [ClosedIn] else []) @ (if has_out p then [ClosedOut] else []) @
         (if has_err p then [ClosedErr] else [])) (close_pipes q)"
    using step [OF s2 _ p2, of ClosedErr "has_err q"] o by (auto simp: close_pipes_def)
  show "prefix (events q) (events (close_pipes q))"
    using p2 pre prefix_order.trans unfolding close_pipes_def by blast
qed

text \<open>A wait with the absolute timeout of a timer that was started at \<open>j0\<close>.\<close>

lemma waited_after:
  assumes t: "terminatesWithin os (absolute_of (TimeoutTimer_new w (os_clock os j0))) q = Some (Inr False, r)"
    and "prefix h j0" "prefix j0 (events q)"
  shows "waited os w h (events r)"
  unfolding waited_def
proof
  assume rp: "relative_positive w"
  show "\<exists>s j0 j1. m_timeout_seconds w = Micro s \<and> prefix h j0 \<and> prefix j0 j1 \<and> prefix j1 (events r) \<and>
      os_clock os j0 + s \<le> os_clock os j1"
  proof (cases "m_timeout_seconds w")
    case INFINITY
    have ti: "timer_infinite (TimeoutTimer_new w (os_clock os j0))"
      using INFINITY rp by (simp add: infinite_iff TimeoutTimer_new_def relative_positive_def)
    then have "absolute_of (TimeoutTimer_new w (os_clock os j0)) = w"
      by (simp add: absolute_of_def asAbsoluteTimeout_def TimeoutTimer_new_def)
    then have "terminatesWithin os w q = Some (Inr False, r)" using t by simp
    then have "wait_post os (TimeoutTimer_new w (os_clock os (events q))) (emit ReadClock q) (Inr False, r)"
      by (intro wait_loop_post) (simp add: terminatesWithin_def new_timer_def read_clock_def)
    then show ?thesis
      using INFINITY rp by (simp add: wait_post_def expired_iff deadline_def TimeoutTimer_new_def relative_positive_def)
  next
    case (Micro s)
    then have "absolute_of (TimeoutTimer_new w (os_clock os j0)) = absolute (os_clock os j0 + s)"
      using rp by (simp add: absolute_of_def asAbsoluteTimeout_def infinite_iff TimeoutTimer_new_def relative_positive_def)
    then have "clock_reached os (os_clock os j0 + s) (events q) (events r)"
      using terminatesWithin_post(3) [OF t] by (simp add: absolute_def)
    then show ?thesis using Micro assms(2,3) unfolding clock_reached_def by (meson prefix_order.trans)
  qed
qed

lemma wait_step_cases:
  assumes "wait_step c act p rest = Some (r, q)"
  obtains (skip) "\<not> c" "rest p = Some (r, q)"
  | (failed) e where "c" "act p = Some (Inl e, q)" "r = Inl e"
  | (ended) "c" "act p = Some (Inr True, q)" "r = Inr ()"
  | (go_on) p' where "c" "act p = Some (Inr False, p')" "rest p' = Some (r, q)"
  using assms by (auto simp: wait_step_def split: if_splits option.splits prod.splits sum.splits)


text \<open>The measures of each step, and what holds when the call ends.\<close>

definition close_measures :: "Timeout \<Rightarrow> Process \<Rightarrow> event list" where
  "close_measures wc p = (if relative_positive wc
     then (if has_in p then [ClosedIn] else []) @ (if has_out p then [ClosedOut] else []) @
       (if has_err p then [ClosedErr] else []) else [])"

definition term_measures :: "Timeout \<Rightarrow> bool \<Rightarrow> Process \<Rightarrow> event list" where
  "term_measures wt g p = (if relative_positive wt then [Killed (if g then - m_pid p else m_pid p) SIGTERM] else [])"

lemma termination_measures_split:
  "termination_measures wc wt g p =
     close_measures wc p @ term_measures wt g p @ [Killed (if g then - m_pid p else m_pid p) SIGKILL]"
  by (simp add: termination_measures_def Let_def close_measures_def term_measures_def)

lemma measures_prefixes:
  "prefix [] (termination_measures wc wt g p)" "prefix (close_measures wc p) (termination_measures wc wt g p)"
  "prefix (close_measures wc p @ term_measures wt g p) (termination_measures wc wt g p)"
  unfolding termination_measures_split by (simp_all only: prefix_def append_assoc) blast+

definition ends_well :: "os \<Rightarrow> Timeout \<Rightarrow> Timeout \<Rightarrow> Timeout \<Rightarrow> bool \<Rightarrow> Process \<Rightarrow> process_error + unit \<Rightarrow> Process \<Rightarrow> bool" where
  "ends_well os wi wc wt g p r q \<longleftrightarrow> (\<exists>A. prefix A (termination_measures wc wt g p) \<and> stage os wi wc wt p A q) \<and>
     (r = Inr () \<and> 0 \<le> m_pid p \<longrightarrow> terminated (m_pstatus q))"

lemma ends_wellI:
  assumes "stage os wi wc wt p A q" "prefix A (termination_measures wc wt g p)" "r = Inr () \<longrightarrow> terminated (m_pstatus q)"
  shows "ends_well os wi wc wt g p r q"
  using assms unfolding ends_well_def by blast

text \<open>One step: its action reaches the stage \<open>A\<close>, and the rest of the call ends well.\<close>

lemma step_ends_well:
  assumes run: "wait_step c act p' rest = Some (r, q)" and A: "prefix A (termination_measures wc wt g p)"
    and act: "\<And>b q'. c \<Longrightarrow> act p' = Some (b, q') \<Longrightarrow> stage os wi wc wt p A q' \<and> (b = Inr True \<longrightarrow> terminated (m_pstatus q'))"
    and skip: "\<not> c \<Longrightarrow> rest p' = Some (r, q) \<Longrightarrow> ends_well os wi wc wt g p r q"
    and go_on: "\<And>p2. c \<Longrightarrow> act p' = Some (Inr False, p2) \<Longrightarrow> rest p2 = Some (r, q) \<Longrightarrow> ends_well os wi wc wt g p r q"
  shows "ends_well os wi wc wt g p r q"
  using run
proof (cases rule: wait_step_cases)
  case (failed e)
  then show ?thesis using act [OF failed(1,2)] ends_wellI [OF _ A] by simp
next
  case ended
  then show ?thesis using act [OF ended(1,2)] ends_wellI [OF _ A] by simp
qed (use skip go_on in blast)+

lemma stage_pid: "stage os wi wc wt p A q \<Longrightarrow> m_pid q = m_pid p"
  by (simp add: stage_def same_object_def)

definition kill_step :: "os \<Rightarrow> bool \<Rightarrow> Process \<Rightarrow> ((process_error + unit) \<times> Process) option" where
  "kill_step os g p = wait_step True (\<lambda>p. killWait os (relative (Micro 60000000)) SIGKILL g p) p
     (\<lambda>p. Some (Inl NotKilled, p))"

definition term_step where
  "term_step os wt j g p = wait_step (relative_positive wt)
     (\<lambda>p. killWait os (absolute_of (TimeoutTimer_new wt (os_clock os j))) SIGTERM g p) p (kill_step os g)"

definition close_step where
  "close_step os wc wt i j g p = wait_step (relative_positive wc)
     (\<lambda>p. terminatesWithin os (absolute_of (TimeoutTimer_new wc (os_clock os i))) (close_pipes p)) p (term_step os wt j g)"

lemma kill_step_ends_well:
  assumes k: "kill_step os g p' = Some (r, q)" and s: "stage os wi wc wt p (close_measures wc p @ term_measures wt g p) p'"
    and w: "waited os wi (events p) (events p')" "waited os wc (events p) (events p')" "waited os wt (events p) (events p')"
  shows "ends_well os wi wc wt g p r q"
  using k [unfolded kill_step_def]
proof (rule step_ends_well [where A = "termination_measures wc wt g p"])
  let ?p1 = "emit (Killed (if g then - m_pid p' else m_pid p') SIGKILL) p'"
  have s1: "stage os wi wc wt p (termination_measures wc wt g p) ?p1"
    using stage_emit [OF s, of "Killed (if g then - m_pid p else m_pid p) SIGKILL"] w stage_pid [OF s]
    unfolding termination_measures_split by (simp split: if_splits)
  show act: "stage os wi wc wt p (termination_measures wc wt g p) q' \<and> (b = Inr True \<longrightarrow> terminated (m_pstatus q'))"
    if "killWait os (relative (Micro 60000000)) SIGKILL g p' = Some (b, q')" for b q'
    using stage_waits [OF s1 killWait_post(1) [OF that]] killWait_post(2) [OF that] by auto
  show "ends_well os wi wc wt g p r q"
    if "killWait os (relative (Micro 60000000)) SIGKILL g p' = Some (Inr False, p2)" "Some (Inl NotKilled, p2) = Some (r, q)" for p2
    using act [OF that(1)] that(2) by (auto intro: ends_wellI)
qed simp_all

lemma term_step_ends_well:
  assumes k: "term_step os wt j g p' = Some (r, q)" and s: "stage os wi wc wt p (close_measures wc p) p'"
    and j: "prefix (events p) j" "prefix j (events p')"
    and w: "waited os wi (events p) (events p')" "waited os wc (events p) (events p')"
  shows "ends_well os wi wc wt g p r q"
  using k [unfolded term_step_def]
proof (rule step_ends_well [where A = "close_measures wc p @ term_measures wt g p"])
  let ?p1 = "emit (Killed (if g then - m_pid p' else m_pid p') SIGTERM) p'"
  let ?t = "absolute_of (TimeoutTimer_new wt (os_clock os j))"
  have e1: "prefix (events p') (events ?p1)" by (simp add: emit_def)
  have s1: "stage os wi wc wt p (close_measures wc p @ term_measures wt g p) ?p1" if "relative_positive wt"
    using that stage_emit [OF s, of "Killed (if g then - m_pid p else m_pid p) SIGTERM"] w stage_pid [OF s]
    by (simp add: SIGTERM_def SIGKILL_def term_measures_def split: if_splits)
  show "stage os wi wc wt p (close_measures wc p @ term_measures wt g p) q' \<and> (b = Inr True \<longrightarrow> terminated (m_pstatus q'))"
    if "relative_positive wt" "killWait os ?t SIGTERM g p' = Some (b, q')" for b q'
    using stage_waits [OF s1 [OF that(1)] killWait_post(1) [OF that(2)]] killWait_post(2) [OF that(2)] by auto
  show "ends_well os wi wc wt g p r q" if "\<not> relative_positive wt" "kill_step os g p' = Some (r, q)"
    using kill_step_ends_well [OF that(2)] that(1) s w by (simp add: waited_def term_measures_def)
  show "ends_well os wi wc wt g p r q"
    if "relative_positive wt" "killWait os ?t SIGTERM g p' = Some (Inr False, p2)" "kill_step os g p2 = Some (r, q)" for p2
  proof -
    have w2: "waits ?p1 p2" by (rule killWait_post(1) [OF that(2)])
    have e2: "prefix (events p') (events p2)" by (rule prefix_order.trans [OF e1 waits_prefix [OF w2]])
    have "waited os wt (events p) (events p2)"
      using waited_after [OF killWait_post(3) [OF that(2) refl] j(1)] prefix_order.trans [OF j(2) e1] by blast
    then show ?thesis
      using kill_step_ends_well [OF that(3) stage_waits [OF s1 [OF that(1)] w2]] w waited_mono [OF _ e2] by blast
  qed
qed (rule measures_prefixes)

lemma close_step_ends_well:
  assumes k: "close_step os wc wt i j g p' = Some (r, q)" and s: "stage os wi wc wt p [] p'"
    and i: "prefix (events p) i" "prefix i (events p')" and j: "prefix (events p) j" "prefix j (events p')"
    and w: "waited os wi (events p) (events p')"
  shows "ends_well os wi wc wt g p r q"
  using k [unfolded close_step_def]
proof (rule step_ends_well [where A = "close_measures wc p"])
  let ?t = "absolute_of (TimeoutTimer_new wc (os_clock os i))"
  have s1: "stage os wi wc wt p (close_measures wc p) (close_pipes p')" if "relative_positive wc"
    using that stage_close(1) [OF s w] by (simp add: close_measures_def)
  show "stage os wi wc wt p (close_measures wc p) q' \<and> (b = Inr True \<longrightarrow> terminated (m_pstatus q'))"
    if "relative_positive wc" "terminatesWithin os ?t (close_pipes p') = Some (b, q')" for b q'
    using stage_waits [OF s1 [OF that(1)] terminatesWithin_post(1) [OF that(2)]] terminatesWithin_post(2) [OF that(2)] by auto
  show "ends_well os wi wc wt g p r q" if "\<not> relative_positive wc" "term_step os wt j g p' = Some (r, q)"
    using term_step_ends_well [OF that(2)] that(1) s w j by (simp add: waited_def close_measures_def)
  show "ends_well os wi wc wt g p r q"
    if "relative_positive wc" "terminatesWithin os ?t (close_pipes p') = Some (Inr False, p2)" "term_step os wt j g p2 = Some (r, q)" for p2
  proof -
    have w2: "waits (close_pipes p') p2" by (rule terminatesWithin_post(1) [OF that(2)])
    have e1: "prefix (events p') (events (close_pipes p'))" by (rule stage_close(2) [OF s w])
    have e2: "prefix (events p') (events p2)" by (rule prefix_order.trans [OF e1 waits_prefix [OF w2]])
    have "waited os wc (events p) (events p2)"
      using waited_after [OF that(2) i(1)] prefix_order.trans [OF i(2) e1] by blast
    then show ?thesis
      using term_step_ends_well [OF that(3) stage_waits [OF s1 [OF that(1)] w2] j(1) prefix_order.trans [OF j(2) e2]]
        w waited_mono [OF _ e2] by blast
  qed
qed (rule measures_prefixes)

text \<open>From the start of the first wait, the timers started at three readings of the clock.\<close>

lemma first_step_ends_well:
  assumes run: "wait_step (relative_positive wi)
      (\<lambda>p. terminatesWithin os (absolute_of (TimeoutTimer_new wi (os_clock os h))) p) p' (close_step os wc wt i j g) = Some (r, q)"
    and s: "stage os wi wc wt p [] p'"
    and h: "prefix (events p) h" "prefix h (events p')" and i: "prefix (events p) i" "prefix i (events p')"
    and j: "prefix (events p) j" "prefix j (events p')"
  shows "ends_well os wi wc wt g p r q"
  using run
proof (rule step_ends_well [where A = "[]"])
  let ?t = "absolute_of (TimeoutTimer_new wi (os_clock os h))"
  show "stage os wi wc wt p [] q' \<and> (b = Inr True \<longrightarrow> terminated (m_pstatus q'))"
    if "terminatesWithin os ?t p' = Some (b, q')" for b q'
    using stage_waits [OF s terminatesWithin_post(1) [OF that]] terminatesWithin_post(2) [OF that] by auto
  show "ends_well os wi wc wt g p r q" if "\<not> relative_positive wi" "close_step os wc wt i j g p' = Some (r, q)"
    using close_step_ends_well [OF that(2) s i j] that(1) by (simp add: waited_def)
  show "ends_well os wi wc wt g p r q"
    if "terminatesWithin os ?t p' = Some (Inr False, p2)" "close_step os wc wt i j g p2 = Some (r, q)" for p2
  proof -
    have w2: "waits p' p2" by (rule terminatesWithin_post(1) [OF that(1)])
    note e2 = waits_prefix [OF w2]
    show ?thesis
      using close_step_ends_well [OF that(2) stage_waits [OF s w2] i(1) prefix_order.trans [OF i(2) e2] j(1)
          prefix_order.trans [OF j(2) e2] waited_after [OF that(1) h]] .
  qed
qed (rule measures_prefixes)

lemma waitCloseTerm_ends_well:
  assumes run: "waitCloseTerm os wi wc wt g p = Some (r, q)"
  shows "ends_well os wi wc wt g p r q"
proof (cases "m_pid p < 0")
  case True
  then show ?thesis using run
    by (auto simp: waitCloseTerm_def ends_well_def stage_def same_object_def intro!: exI [of _ "[]"])
next
  case pid: False
  obtain x pS where x: "processStatus os p = (x, pS)" by fastforce
  have "stage os wi wc wt p [] p" by (simp add: stage_def same_object_def)
  then have sS: "stage os wi wc wt p [] pS" using stage_waits processStatus_cases(1) [OF x] by blast
  show ?thesis
  proof (cases "\<exists>st. x = Inr st \<and> \<not> terminated st \<and> m_pid pS \<noteq> os_getpid os")
    case False
    then have "q = pS \<and> (r = Inr () \<longrightarrow> terminated (m_pstatus pS))"
      using run pid x processStatus_cases(2) [OF x] by (auto simp: waitCloseTerm_def split: sum.splits if_splits)
    then show ?thesis using ends_wellI [OF sS] by simp
  next
    case True
    let ?h = "events pS" and ?i = "events pS @ [ReadClock]" and ?j = "events pS @ [ReadClock, ReadClock]"
    define p3 where "p3 = emit ReadClock (emit ReadClock (emit ReadClock pS))"
    have "wait_step (relative_positive wi)
        (\<lambda>p. terminatesWithin os (absolute_of (TimeoutTimer_new wi (os_clock os ?h))) p) p3 (close_step os wc wt ?i ?j g) = Some (r, q)"
      using run pid x True
      by (auto simp: waitCloseTerm_def new_timer_def read_clock_def Let_def emit_def p3_def
          close_step_def [abs_def] term_step_def [abs_def] kill_step_def [abs_def])
    moreover have "waits q' (emit ReadClock q')" for q' by (simp add: waits_emit)
    then have "stage os wi wc wt p [] p3" unfolding p3_def using stage_waits sS by metis
    moreover have "prefix (events p) ?h" "prefix (events p) ?i" "prefix (events p) ?j"
      using stage_prefix [OF sS] by (auto simp: prefix_def)
    moreover have "prefix ?h (events p3)" "prefix ?i (events p3)" "prefix ?j (events p3)" by (simp_all add: p3_def emit_def)
    ultimately show ?thesis by (intro first_step_ends_well)
  qed
qed

text \<open>
  C18. The measures against a child are taken in the order closing, \<open>SIGTERM\<close>, \<open>SIGKILL\<close>,
  none twice and none of those asked for left out before the next, and each only after the
  waits before it have passed on the clock; when \<open>waitCloseTerm\<close> returns without an
  exception the child has terminated.
\<close>

theorem measures_in_order:
  assumes run: "waitCloseTerm os wi wc wt g p = Some (r, q)"
  shows "\<exists>evs. events q = events p @ evs \<and>
      prefix (filter (\<lambda>e. \<not> quiet_event e) evs) (termination_measures wc wt g p) \<and>
      (\<forall>pre e post. evs = pre @ e # post \<longrightarrow> may_happen os wi wc wt (events p) e (events p @ pre)) \<and>
      (r = Inr () \<and> 0 \<le> m_pid p \<longrightarrow> terminated (m_pstatus q))"
proof -
  obtain A evs where "prefix A (termination_measures wc wt g p)" "events q = events p @ evs"
    "filter (\<lambda>e. \<not> quiet_event e) evs = A" and t: "timely (may_happen os wi wc wt (events p)) (events p) evs"
    and "r = Inr () \<and> 0 \<le> m_pid p \<longrightarrow> terminated (m_pstatus q)"
    using waitCloseTerm_ends_well [OF run] unfolding ends_well_def stage_def by blast
  moreover have "\<forall>pre e post. evs = pre @ e # post \<longrightarrow> may_happen os wi wc wt (events p) e (events p @ pre)"
    using timely_at t by blast
  ultimately show ?thesis by blast
qed

section \<open>The waits end\<close>

text \<open>A clock that never goes back, and advances at least by the time slept.\<close>

definition steady :: "os \<Rightarrow> bool" where
  "steady os \<longleftrightarrow> (\<forall>h e. os_clock os h + (case e of Slept n \<Rightarrow> 1000 * int n | _ \<Rightarrow> 0) \<le> os_clock os (h @ [e]))"

lemma steadyD:
  assumes "steady os"
  shows "os_clock os h + 1000 * int n \<le> os_clock os (h @ [Slept n])"
    and "os_clock os h \<le> os_clock os (h @ [e])"
proof -
  show "os_clock os h + 1000 * int n \<le> os_clock os (h @ [Slept n])"
    using assms [unfolded steady_def, rule_format, of h "Slept n"] by simp
  have "os_clock os h + (case e of Slept n \<Rightarrow> 1000 * int n | _ \<Rightarrow> 0) \<le> os_clock os (h @ [e])"
    using assms by (auto simp: steady_def)
  then show "os_clock os h \<le> os_clock os (h @ [e])" by (cases e) auto
qed

lemma next_period_least: "100 \<le> period \<Longrightarrow> 100 \<le> next_period period"
  by (simp add: next_period_def min_def)

lemma wait_loop_returns:
  assumes st: "steady os" and p: "100 \<le> period" and d: "deadline timer = Some d"
    and t: "m_loopTime timer \<le> os_clock os (events p)" and n: "d - m_loopTime timer \<le> 100000 * int n"
  shows "\<exists>y. wait_loop os period timer p = Some y"
  using p d t n
proof (induction n arbitrary: period timer p)
  case 0
  then have "expired timer" by (simp add: expired_iff)
  then show ?case by (subst wait_loop.simps) simp
next
  case (Suc n)
  show ?case
  proof (cases "\<not> expired timer \<and> \<not> terminated (m_pstatus p)")
    case False
    then show ?thesis by (subst wait_loop.simps) auto
  next
    case True
    let ?p1 = "emit (Slept (nat \<lfloor>period\<rfloor>)) p"
    obtain x p2 where x: "poll os ?p1 = (x, p2)" by fastforce
    then have e2: "events p2 = events ?p1 @ [Polled]" by (auto simp: poll_def emit_def split: sum.splits)
    let ?now = "os_clock os (events p2)"
    have "100 \<le> \<lfloor>period\<rfloor>" using Suc.prems(1) by (simp add: le_floor_iff)
    then have "100000 \<le> 1000 * int (nat \<lfloor>period\<rfloor>)" by linarith
    moreover have "os_clock os (events p) + 1000 * int (nat \<lfloor>period\<rfloor>) \<le> os_clock os (events ?p1)"
      using steadyD(1) [OF st, of "events p" "nat \<lfloor>period\<rfloor>"] by (simp only: emit_def) simp
    ultimately have "os_clock os (events p) + 100000 \<le> os_clock os (events ?p1)" by linarith
    then have now: "os_clock os (events p) + 100000 \<le> ?now"
      using steadyD(2) [OF st, of "events ?p1" Polled] unfolding e2 by linarith
    have "\<exists>y. wait_loop os (next_period period) (timer_loop timer ?now) (emit ReadClock p2) = Some y"
    proof (rule Suc.IH)
      show "100 \<le> next_period period" using Suc.prems(1) by (rule next_period_least)
      show "deadline (timer_loop timer ?now) = Some d" using Suc.prems(2) by (simp add: deadline_loop)
      show "m_loopTime (timer_loop timer ?now) \<le> os_clock os (events (emit ReadClock p2))"
        using steadyD(2) [OF st] by (simp add: timer_loop_def emit_def)
      have "d - ?now \<le> d - m_loopTime timer - 100000" using now Suc.prems(3) by linarith
      then show "d - m_loopTime (timer_loop timer ?now) \<le> 100000 * int n"
        using Suc.prems(4) by (simp add: timer_loop_def)
    qed
    then show ?thesis using True x
      by (subst wait_loop.simps) (auto simp: Let_def read_clock_def split: sum.splits)
  qed
qed

lemma terminatesWithin_returns:
  assumes "steady os" and "deadline (TimeoutTimer_new t (os_clock os (events p))) = Some d"
  shows "\<exists>y. terminatesWithin os t p = Some y"
proof -
  let ?timer = "TimeoutTimer_new t (os_clock os (events p))"
  have "\<exists>y. wait_loop os 100 ?timer (emit ReadClock p) = Some y"
  proof (rule wait_loop_returns [OF assms(1) _ assms(2)])
    show "m_loopTime ?timer \<le> os_clock os (events (emit ReadClock p))"
      using steadyD(2) [OF assms(1)] by (simp add: TimeoutTimer_new_def emit_def)
    show "d - m_loopTime ?timer \<le> 100000 * int (nat (d - m_loopTime ?timer))" by simp
  qed simp
  then show ?thesis by (simp add: terminatesWithin_def new_timer_def read_clock_def)
qed

lemma killWait_returns:
  assumes "steady os" and "\<And>n. \<exists>d. deadline (TimeoutTimer_new t n) = Some d"
  shows "\<exists>y. killWait os t sig g p = Some y"
proof -
  have "\<exists>y. terminatesWithin os t q = Some y" for q
    using terminatesWithin_returns [OF assms(1)] assms(2) by metis
  then show ?thesis by (auto simp: killWait_def Let_def split: prod.splits sum.splits)
qed

lemma wait_step_returns:
  "(\<And>q. \<exists>y. act q = Some y) \<Longrightarrow> (\<And>q. \<exists>y. rest q = Some y) \<Longrightarrow> \<exists>y. wait_step c act p rest = Some y"
  unfolding wait_step_def by (auto split: option.splits prod.splits sum.splits) (metis option.distinct(1))+

lemma some_result: "\<exists>y. Some x = Some y" by simp

lemma absolute_of_deadline:
  "m_timeout_seconds t = Micro s \<Longrightarrow> m_type t = E_RELATIVE \<Longrightarrow> \<exists>d. deadline (TimeoutTimer_new (absolute_of (TimeoutTimer_new t n)) k) = Some d"
  by (simp add: absolute_of_def asAbsoluteTimeout_def infinite_iff TimeoutTimer_new_def absolute_def deadline_def)

lemma waitCloseTerm_returns:
  assumes st: "steady os"
    and fin: "\<And>w. w \<in> {wi, wc, wt} \<Longrightarrow> m_type w = E_RELATIVE \<and> m_timeout_seconds w \<noteq> INFINITY"
  shows "\<exists>y. waitCloseTerm os wi wc wt g p = Some y"
proof -
  have kill: "\<exists>d. deadline (TimeoutTimer_new (relative (Micro 60000000)) n) = Some d" for n
    by (simp add: deadline_def TimeoutTimer_new_def relative_def)
  have abs: "\<exists>d. deadline (TimeoutTimer_new (absolute_of (TimeoutTimer_new w n)) k) = Some d" if "w \<in> {wi, wc, wt}" for w n k
    using fin [OF that] absolute_of_deadline by (cases "m_timeout_seconds w") auto
  have tw: "\<exists>y. terminatesWithin os (absolute_of (TimeoutTimer_new w n)) q = Some y" if "w \<in> {wi, wc, wt}" for w n q
    using terminatesWithin_returns [OF st] abs [OF that] by metis
  have kw: "\<exists>y. killWait os (absolute_of (TimeoutTimer_new wt n)) s g q = Some y" for n s q
    using killWait_returns [OF st] abs [of wt] by blast
  obtain x pS where x: "processStatus os p = (x, pS)" by fastforce
  show ?thesis
  proof (cases "m_pid p < 0 \<or> (\<exists>e. x = Inl e) \<or> (\<exists>st. x = Inr st \<and> (terminated st \<or> m_pid pS = os_getpid os))")
    case True
    then show ?thesis by (cases x) (auto simp: waitCloseTerm_def x)
  next
    case False
    then obtain s where s: "x = Inr s" by (cases x) auto
    have "(m_pid p < 0) = False" "terminated s = False" "(m_pid pS = os_getpid os) = False"
      using False s by auto
    then show ?thesis
      by (simp only: waitCloseTerm_def x s new_timer_def read_clock_def Let_def split_conv prod.case sum.case if_False)
        (intro wait_step_returns tw kw killWait_returns [OF st kill] some_result insertI1 insertI2)
  qed
qed

lemma Process_destroy_returns:
  assumes st: "steady os"
  shows "\<exists>b q. Process_destroy os p = Some (b, q) \<and> (0 \<le> m_pid p \<and> \<not> b \<longrightarrow> terminated (m_pstatus q))"
proof (cases "m_pid p < 0")
  case True
  then show ?thesis by (auto simp: Process_destroy_def)
next
  case False
  have "\<exists>y. waitCloseTerm os (relative (Micro 0)) (relative (Micro 1000000)) (relative (Micro 5000000)) True p = Some y"
    by (rule waitCloseTerm_returns [OF st]) (auto simp: relative_def)
  then obtain r q where rq: "waitCloseTerm os (relative (Micro 0)) (relative (Micro 1000000)) (relative (Micro 5000000)) True p = Some (r, q)"
    by auto
  have "r = Inr () \<and> 0 \<le> m_pid p \<longrightarrow> terminated (m_pstatus q)"
    using waitCloseTerm_ends_well [OF rq] unfolding ends_well_def by blast
  then show ?thesis using False rq by (cases r) (auto simp: Process_destroy_def)
qed

text \<open>
  C37. With a clock that advances while the thread sleeps and waiting times that are finite,
  \<open>waitCloseTerm\<close> returns or throws, whatever the child, \<open>kill\<close> and \<open>waitpid\<close> do; so does the
  destructor, after which the child has terminated or the reaper has been set to work.
\<close>

theorem waiting_ends:
  assumes "steady os"
    and "\<And>w. w \<in> {wi, wc, wt} \<Longrightarrow> m_type w = E_RELATIVE \<and> m_timeout_seconds w \<noteq> INFINITY"
  shows "(\<exists>y. waitCloseTerm os wi wc wt g p = Some y) \<and>
    (\<exists>b q. Process_destroy os p = Some (b, q) \<and> (0 \<le> m_pid p \<and> \<not> b \<longrightarrow> terminated (m_pstatus q)))"
  using waitCloseTerm_returns [OF assms] Process_destroy_returns [OF assms(1)] by simp

section \<open>The reaper\<close>

definition reaper_post :: "nat \<Rightarrow> Process \<Rightarrow> (process_error + unit) \<times> Process \<Rightarrow> bool" where
  "reaper_post n p y \<longleftrightarrow> m_pid (snd y) = m_pid p \<and> (fst y = Inr () \<longrightarrow> terminated (m_pstatus (snd y))) \<and>
     (\<exists>evs i j. events (snd y) = events p @ evs \<and>
       filter (\<lambda>e. \<not> quiet_event e) evs = replicate i (Killed (m_pid p) SIGTERM) @ replicate j (Killed (m_pid p) SIGKILL) \<and>
       i \<le> 6 - n \<and> (0 < j \<longrightarrow> i = 6 - n))"

lemma reaper_postI:
  assumes "m_pid (snd y) = m_pid p" "fst y = Inr () \<longrightarrow> terminated (m_pstatus (snd y))" "events (snd y) = events p @ evs"
    "filter (\<lambda>e. \<not> quiet_event e) evs = replicate i (Killed (m_pid p) SIGTERM) @ replicate j (Killed (m_pid p) SIGKILL)"
    "i \<le> 6 - n" "0 < j \<longrightarrow> i = 6 - n"
  shows "reaper_post n p y"
  unfolding reaper_post_def using assms by blast

lemma reaper_loop_post:
  assumes "reaper_loop os n p = Some y"
  shows "reaper_post n p y"
proof (rule reaper_loop.raw_induct [where P = "\<lambda>os n p y. reaper_post n p y", OF _ assms])
  fix f os n p y
  assume IH: "\<And>os n p y. f os n p = Some y \<Longrightarrow> reaper_post n p y"
    and run: "(if terminated (m_pstatus p) then Some (Inr (), p)
      else let signum = (if n < MAX_ZOMBIE_POLL_ATTEMPTS then SIGTERM else SIGKILL);
            p = emit (Slept 10000) (emit (Killed (m_pid p) signum) p)
        in case poll os p of (Inl e, p) \<Rightarrow> Some (Inl e, p) | (Inr _, p) \<Rightarrow> f os (n + 1) p) = Some y"
  show "reaper_post n p y"
  proof (cases "terminated (m_pstatus p)")
    case True
    then have y: "y = (Inr (), p)" using run by simp
    show ?thesis by (rule reaper_postI [of _ _ "[]" 0 0]) (use True y in simp_all)
  next
    case False
    define s where "s = (if n < 6 then SIGTERM else SIGKILL)"
    let ?p1 = "emit (Slept 10000) (emit (Killed (m_pid p) s) p)"
    obtain x p2 where x: "poll os ?p1 = (x, p2)" by fastforce
    have p2: "events p2 = events p @ [Killed (m_pid p) s, Slept 10000, Polled]" "m_pid p2 = m_pid p"
      using x by (auto simp: poll_def emit_def split: sum.splits)
    have one: "[Killed (m_pid p) s] = replicate (if n < 6 then 1 else 0) (Killed (m_pid p) SIGTERM) @
        replicate (if n < 6 then 0 else 1) (Killed (m_pid p) SIGKILL)" by (simp add: s_def)
    show ?thesis
    proof (cases x)
      case (Inl e)
      then have y: "y = (Inl e, p2)" using run False x by (simp add: Let_def MAX_ZOMBIE_POLL_ATTEMPTS_def s_def)
      show ?thesis
        by (rule reaper_postI [of _ _ "[Killed (m_pid p) s, Slept 10000, Polled]" "if n < 6 then 1 else 0" "if n < 6 then 0 else 1"])
          (use y p2 one in auto)
    next
      case (Inr u)
      then have "f os (n + 1) p2 = Some y" using run False x by (simp add: Let_def MAX_ZOMBIE_POLL_ATTEMPTS_def s_def)
      then have "reaper_post (n + 1) p2 y" by (rule IH)
      then obtain evs i j where e: "events (snd y) = events p2 @ evs"
        "filter (\<lambda>e. \<not> quiet_event e) evs = replicate i (Killed (m_pid p) SIGTERM) @ replicate j (Killed (m_pid p) SIGKILL)"
        "i \<le> 6 - (n + 1)" "0 < j \<longrightarrow> i = 6 - (n + 1)"
        "m_pid (snd y) = m_pid p" "fst y = Inr () \<longrightarrow> terminated (m_pstatus (snd y))"
        unfolding reaper_post_def p2(2) by blast
      let ?evs = "[Killed (m_pid p) s, Slept 10000, Polled] @ evs"
      show ?thesis
      proof (cases "n < 6")
        case True
        then have "filter (\<lambda>e. \<not> quiet_event e) ?evs = replicate (Suc i) (Killed (m_pid p) SIGTERM) @ replicate j (Killed (m_pid p) SIGKILL)"
          using e(2) by (simp add: s_def)
        then show ?thesis using e True p2(1) by (intro reaper_postI [of _ _ ?evs "Suc i" j]) auto
      next
        case F: False
        then have "i = 0" using e(3) by simp
        then have "filter (\<lambda>e. \<not> quiet_event e) ?evs = replicate 0 (Killed (m_pid p) SIGTERM) @ replicate (Suc j) (Killed (m_pid p) SIGKILL)"
          using e(2) F by (simp add: s_def)
        then show ?thesis using e F p2(1) by (intro reaper_postI [of _ _ ?evs 0 "Suc j"]) auto
      qed
    qed
  qed
qed

text \<open>
  The reaper of a child sends at most six \<open>SIGTERM\<close> and after them only \<open>SIGKILL\<close>, to
  the process itself, and returns without an error only when the child has terminated.
\<close>

theorem reaper_escalates:
  assumes "ZombieReaper_run os p = Some (r, q)"
  shows "\<exists>evs i j. events q = events p @ evs \<and> filter (\<lambda>e. \<not> quiet_event e) evs =
      replicate i (Killed (m_pid p) SIGTERM) @ replicate j (Killed (m_pid p) SIGKILL) \<and> i \<le> 6 \<and> (0 < j \<longrightarrow> i = 6) \<and>
    (r = Inr () \<longrightarrow> terminated (m_pstatus q))"
proof -
  obtain x p2 where x: "poll os p = (x, p2)" by fastforce
  have p2: "events p2 = events p @ [Polled]" "m_pid p2 = m_pid p"
    using x by (auto simp: poll_def emit_def split: sum.splits)
  show ?thesis
  proof (cases x)
    case (Inl e)
    then have "r = Inl e" "q = p2" using assms x by (simp_all add: ZombieReaper_run_def)
    then have "events q = events p @ [Polled] \<and> filter (\<lambda>e. \<not> quiet_event e) [Polled] =
        replicate 0 (Killed (m_pid p) SIGTERM) @ replicate 0 (Killed (m_pid p) SIGKILL)" using p2 by simp
    then show ?thesis using \<open>r = Inl e\<close> by blast
  next
    case (Inr u)
    then have "reaper_loop os 0 p2 = Some (r, q)" using assms x by (simp add: ZombieReaper_run_def)
    from reaper_loop_post [OF this] obtain evs i j where "events q = events p2 @ evs"
      "filter (\<lambda>e. \<not> quiet_event e) evs = replicate i (Killed (m_pid p) SIGTERM) @ replicate j (Killed (m_pid p) SIGKILL)"
      "i \<le> 6" "0 < j \<longrightarrow> i = 6" "r = Inr () \<longrightarrow> terminated (m_pstatus q)"
      unfolding reaper_post_def p2(2) by auto
    moreover from this have "events q = events p @ [Polled] @ evs" using p2(1) by simp
    moreover have "filter (\<lambda>e. \<not> quiet_event e) ([Polled] @ evs) = filter (\<lambda>e. \<not> quiet_event e) evs" by simp
    ultimately show ?thesis by metis
  qed
qed

section \<open>An instance\<close>

text \<open>A child that ends by the second signal, and a clock that advances with every event.\<close>

definition stubborn_child :: os where
  "stubborn_child = \<lparr>os_poll = (\<lambda>h. Inr \<lparr>m_status_available = (Killed (- 7) SIGKILL \<in> set h), m_status = 9\<rparr>),
     os_kill = (\<lambda>h p s. 0),
     os_clock = (\<lambda>h. sum_list (map (\<lambda>e. case e of Slept n \<Rightarrow> 1000 * int n | _ \<Rightarrow> 1) h)), os_getpid = 1\<rparr>"

lemma stubborn_steady: "steady stubborn_child"
  by (auto simp: steady_def stubborn_child_def split: event.splits)

theorem waiting_ends_witness:
  "\<exists>y. waitCloseTerm stubborn_child (relative (Micro 1000)) (relative (Micro 1000)) (relative (Micro 1000)) True
    (Process_new True True True 7) = Some y"
  by (rule waiting_ends [OF stubborn_steady, THEN conjunct1]) (auto simp: relative_def)

theorem measures_in_order_witness:
  "\<exists>r q. waitCloseTerm stubborn_child (relative (Micro 0)) (relative (Micro 0)) (relative (Micro 0)) True
      (Process_new True True True 7) = Some (r, q) \<and> (r = Inr () \<longrightarrow> terminated (m_pstatus q))"
proof -
  have "\<exists>y. waitCloseTerm stubborn_child (relative (Micro 0)) (relative (Micro 0)) (relative (Micro 0)) True
      (Process_new True True True 7) = Some y"
    by (rule waitCloseTerm_returns [OF stubborn_steady]) (auto simp: relative_def)
  then obtain r q where rq: "waitCloseTerm stubborn_child (relative (Micro 0)) (relative (Micro 0)) (relative (Micro 0)) True
      (Process_new True True True 7) = Some (r, q)" by auto
  show ?thesis using measures_in_order [OF rq] rq by (auto simp: Process_new_def)
qed

definition obedient_child :: os where
  "obedient_child = stubborn_child\<lparr>os_poll := (\<lambda>h. Inr \<lparr>m_status_available = (Killed 7 SIGTERM \<in> set h), m_status = 15\<rparr>)\<rparr>"

theorem reaper_escalates_witness:
  "\<exists>q evs i j. ZombieReaper_run obedient_child (Process_of_pid 7) = Some (Inr (), q) \<and> events q = evs \<and>
    filter (\<lambda>e. \<not> quiet_event e) evs = replicate i (Killed 7 SIGTERM) @ replicate j (Killed 7 SIGKILL) \<and> i \<le> 6"
proof -
  have "terminated \<lparr>m_status_available = True, m_status = 15\<rparr>" "\<not> terminated \<lparr>m_status_available = False, m_status = 15\<rparr>"
    by (simp_all add: terminated_def status_macros)
  then have "\<exists>q. ZombieReaper_run obedient_child (Process_of_pid 7) = Some (Inr (), q)"
    by (simp add: ZombieReaper_run_def poll_def obedient_child_def stubborn_child_def Process_of_pid_def emit_def
        reaper_loop.simps MAX_ZOMBIE_POLL_ATTEMPTS_def SIGTERM_def SIGKILL_def)
  then obtain q where q: "ZombieReaper_run obedient_child (Process_of_pid 7) = Some (Inr (), q)" by blast
  from reaper_escalates [OF q] show ?thesis using q by (auto simp: Process_of_pid_def)
qed

end
