(* ===== verification/EnvVars.thy ===== *)
theory EnvVars
  imports StringBuffer "HOL-Library.List_Lexorder"
begin

text \<open>
  The class \<open>EnvVars\<close> (\<open>EnvVars.cpp\<close>): a map from names to values and the array of C
  strings built from it on demand, which is kept until the map changes. Names and values
  are strings without NUL, as lists of their bytes. The map is the sorted list of its pairs,
  as \<open>std::map\<close> iterates over it with \<open>operator<\<close> of \<open>String\<close>.
\<close>

section \<open>The sorted map\<close>

type_synonym EnvMap = "(bytes \<times> bytes) list"

fun map_find :: "EnvMap \<Rightarrow> bytes \<Rightarrow> bytes option" where
  "map_find [] k = None"
| "map_find ((x, v) # m) k = (if strcmp x k < 0 then map_find m k else if strcmp k x < 0 then None else Some v)"

text \<open>\<open>m[k] = v\<close>.\<close>

fun map_put :: "EnvMap \<Rightarrow> bytes \<Rightarrow> bytes \<Rightarrow> EnvMap" where
  "map_put [] k v = [(k, v)]"
| "map_put ((x, w) # m) k v =
     (if strcmp x k < 0 then (x, w) # map_put m k v
      else if strcmp k x < 0 then (k, v) # (x, w) # m
      else (x, v) # m)"

text \<open>\<open>m.erase(it)\<close> for the iterator \<open>m.find(k)\<close>.\<close>

fun map_erase :: "EnvMap \<Rightarrow> bytes \<Rightarrow> EnvMap" where
  "map_erase [] k = []"
| "map_erase ((x, w) # m) k = (if strcmp x k = 0 then m else (x, w) # map_erase m k)"

section \<open>Names and values\<close>

definition getKeyValue :: "bytes \<Rightarrow> bytes \<times> bytes" where
  "getKeyValue strArg = (case strchr (strArg @ [0]) 0x3D of
     Some p \<Rightarrow> (take p strArg, drop (p + 1) strArg)
   | None \<Rightarrow> ([], []))"

definition isValidKey :: "bytes \<Rightarrow> bool" where
  "isValidKey key \<longleftrightarrow> length key \<noteq> 0 \<and> strchr (key @ [0]) 0x3D = None"

section \<open>The object\<close>

text \<open>The array is \<open>None\<close> for the null pointer.\<close>

record EnvVars =
  m_envMap :: EnvMap
  m_envp :: "bytes list option"

definition fillEnvMap :: "bytes list \<Rightarrow> EnvMap" where
  "fillEnvMap envp = foldl (\<lambda>m s. let (key, v) = getKeyValue s in if isValidKey key then map_put m key v else m) [] envp"

text \<open>The environment of the process is an argument.\<close>

definition EnvVars_new :: "bytes list \<Rightarrow> bool \<Rightarrow> EnvVars" where
  "EnvVars_new environ current =
     \<lparr>m_envMap = (if current then fillEnvMap environ else []), m_envp = None\<rparr>"

definition EnvVars_of :: "bytes list \<Rightarrow> EnvVars" where
  "EnvVars_of envp = \<lparr>m_envMap = fillEnvMap envp, m_envp = None\<rparr>"

definition deleteEnvp :: "EnvVars \<Rightarrow> EnvVars" where "deleteEnvp e = e\<lparr>m_envp := None\<rparr>"

definition getValue :: "EnvVars \<Rightarrow> bytes \<Rightarrow> bytes \<Rightarrow> bytes" where
  "getValue e key notFoundRetVal = (case map_find (m_envMap e) key of Some v \<Rightarrow> v | None \<Rightarrow> notFoundRetVal)"

text \<open>
  One entry of the array: a fresh block, the name copied with its NUL, the NUL replaced by
  \<open>=\<close> and the value copied behind it. The entry is the C string in the block.
\<close>

definition make_entry :: "(nat \<Rightarrow> u8) \<Rightarrow> bytes \<Rightarrow> bytes \<Rightarrow> buffer_error + bytes" where
  "make_entry junk k v =
     rbind (new_block junk (length k + length v + 2)) (\<lambda>b.
     rbind (put b 0 (k @ [0])) (\<lambda>b.
     rbind (put b (length k) [0x3D]) (\<lambda>b.
     rbind (put b (length k + 1) (v @ [0])) (\<lambda>b. Inr (cstr b)))))"

fun make_entries :: "(nat \<Rightarrow> u8) \<Rightarrow> EnvMap \<Rightarrow> buffer_error + bytes list" where
  "make_entries junk [] = Inr []"
| "make_entries junk ((k, v) # m) =
     rbind (make_entry junk k v) (\<lambda>s. rbind (make_entries junk m) (\<lambda>ss. Inr (s # ss)))"

text \<open>A failing allocation leaves the object without an array.\<close>

definition getenvp :: "(nat \<Rightarrow> u8) \<Rightarrow> EnvVars \<Rightarrow> (buffer_error + bytes list) \<times> EnvVars" where
  "getenvp junk e = (case m_envp e of
     Some a \<Rightarrow> (Inr a, e)
   | None \<Rightarrow> (case make_entries junk (m_envMap e) of
       Inr a \<Rightarrow> (Inr a, e\<lparr>m_envp := Some a\<rparr>)
     | Inl x \<Rightarrow> (Inl x, deleteEnvp e)))"

definition removeVar :: "EnvVars \<Rightarrow> bytes \<Rightarrow> bool \<times> EnvVars" where
  "removeVar e varName =
     (if map_find (m_envMap e) varName \<noteq> None
      then (True, (deleteEnvp e)\<lparr>m_envMap := map_erase (m_envMap e) varName\<rparr>)
      else (False, e))"

definition addVar :: "EnvVars \<Rightarrow> bytes \<Rightarrow> bytes \<Rightarrow> bool \<times> EnvVars" where
  "addVar e name v =
     (if isValidKey name \<and> map_find (m_envMap e) name = None
      then (True, (deleteEnvp e)\<lparr>m_envMap := map_put (m_envMap e) name v\<rparr>)
      else (False, e))"

definition setVar :: "EnvVars \<Rightarrow> bytes \<Rightarrow> bytes \<Rightarrow> bool \<times> EnvVars" where
  "setVar e key v =
     (if isValidKey key
      then (True, (deleteEnvp e)\<lparr>m_envMap := map_put (m_envMap e) key v\<rparr>)
      else (False, e))"

definition setVar_keyValue :: "EnvVars \<Rightarrow> bytes \<Rightarrow> bool \<times> EnvVars" where
  "setVar_keyValue e keyValue = (let (key, v) = getKeyValue keyValue in setVar e key v)"

definition updateVar :: "EnvVars \<Rightarrow> bytes \<Rightarrow> bytes \<Rightarrow> bool \<times> EnvVars" where
  "updateVar e name v =
     (if map_find (m_envMap e) name \<noteq> None
      then (True, (deleteEnvp e)\<lparr>m_envMap := map_put (m_envMap e) name v\<rparr>)
      else (False, e))"

definition env_size :: "EnvVars \<Rightarrow> nat" where "env_size e = length (m_envMap e)"

section \<open>The order of names\<close>

lemma strcmp_less: "(strcmp x y < 0 \<longleftrightarrow> x < y) \<and> (strcmp x y = 0 \<longleftrightarrow> x = y)"
  by (induction x y rule: strcmp.induct) (auto simp: less_le_not_le)

lemmas strcmp_order = strcmp_less [THEN conjunct1] strcmp_less [THEN conjunct2]

definition map_sorted :: "EnvMap \<Rightarrow> bool" where "map_sorted m \<longleftrightarrow> sorted_wrt (<) (map fst m)"

lemma map_find_map_of: "map_sorted m \<Longrightarrow> map_find m k = map_of m k"
proof (induction m)
  case (Cons p m)
  obtain x v where p: "p = (x, v)" by fastforce
  have s: "map_sorted m" "\<forall>y \<in> fst ` set m. x < y" using Cons.prems by (auto simp: map_sorted_def p)
  have "map_of m k = None" if "k \<le> x" using s(2) that by (auto simp: map_of_eq_None_iff)
  then show ?case using Cons.IH [OF s(1)] by (auto simp: p strcmp_order not_less)
qed simp

lemma map_put_keys: "fst ` set (map_put m k v) = insert k (fst ` set m)"
  by (induction m k v rule: map_put.induct) (auto simp: strcmp_order not_less dest: antisym)

lemma map_put_sorted: "map_sorted m \<Longrightarrow> map_sorted (map_put m k v)"
proof (induction m k v rule: map_put.induct)
  case (2 x w m k v)
  have "fst ` set (map_put m k v) = insert k (fst ` set m)" by (rule map_put_keys)
  then show ?case using 2 by (auto simp: map_sorted_def strcmp_order)
qed (simp add: map_sorted_def)

lemma map_put_map_of: "map_sorted m \<Longrightarrow> map_of (map_put m k v) = (map_of m)(k \<mapsto> v)"
proof (induction m k v rule: map_put.induct)
  case (2 x w m k v)
  then show ?case by (auto simp: map_sorted_def strcmp_order not_less fun_eq_iff dest: antisym)
qed simp

lemma map_erase_map_of: "map_sorted m \<Longrightarrow> map_of (map_erase m k) = (map_of m)(k := None)"
proof (induction m k rule: map_erase.induct)
  case (2 x w m k)
  then have "x \<notin> fst ` set m" by (auto simp: map_sorted_def)
  then have "map_of m x = None" by (simp add: map_of_eq_None_iff)
  then show ?case using 2 by (auto simp: map_sorted_def strcmp_order fun_eq_iff)
qed simp

lemma map_erase_subset: "set (map_erase m k) \<subseteq> set m"
  by (induction m k rule: map_erase.induct) auto

lemma map_erase_sorted: "map_sorted m \<Longrightarrow> map_sorted (map_erase m k)"
proof (induction m k rule: map_erase.induct)
  case (2 x w m k)
  then show ?case using map_erase_subset [of m k] by (auto simp: map_sorted_def)
qed simp

section \<open>Entries\<close>

definition nul_free :: "bytes \<Rightarrow> bool" where "nul_free s \<longleftrightarrow> 0 \<notin> set s"

lemma valid_key: "isValidKey k \<longleftrightarrow> k \<noteq> [] \<and> 0x3D \<notin> set k" if "nul_free k"
proof -
  have "strchr (k @ [0]) 0x3D = None \<longleftrightarrow> 0x3D \<notin> set k"
    using that by (induction k) (auto simp: nul_free_def)
  then show ?thesis by (auto simp: isValidKey_def)
qed

lemma getKeyValue_entry:
  assumes "nul_free k" and "0x3D \<notin> set k"
  shows "getKeyValue (k @ 0x3D # v) = (k, v)"
proof -
  have "strchr (k @ 0x3D # r) 0x3D = Some (length k)" for r
    using assms by (induction k) (auto simp: nul_free_def)
  then show ?thesis by (simp add: getKeyValue_def)
qed

lemma getKeyValue_nul_free: "nul_free s \<Longrightarrow> nul_free (fst (getKeyValue s)) \<and> nul_free (snd (getKeyValue s))"
  by (auto simp: getKeyValue_def nul_free_def split: option.splits dest: in_set_takeD in_set_dropD)

lemma make_entry_ok:
  assumes "nul_free k" "nul_free v" and "length k + length v + 2 < 2 ^ 63"
  shows "make_entry junk k v = Inr (k @ 0x3D # v)"
proof -
  let ?n = "length k + length v + 2"
  let ?b = "map junk [0..<?n]"
  have p1: "put ?b 0 (k @ [0]) = Inr (k @ 0 # drop (length k + 1) ?b)"
    by (simp add: put_def del: upt_Suc)
  have p2: "put (k @ 0 # drop (length k + 1) ?b) (length k) [0x3D] = Inr (k @ 0x3D # drop (length k + 1) ?b)"
    by (simp add: put_def del: upt_Suc)
  have p3: "put (k @ 0x3D # drop (length k + 1) ?b) (length k + 1) (v @ [0]) = Inr (k @ 0x3D # v @ [0])"
    by (simp add: put_def del: upt_Suc)
  have "cstr (k @ 0x3D # v @ [0]) = k @ 0x3D # v"
  proof -
    have "cstr ((k @ 0x3D # v) @ [0]) = k @ 0x3D # v"
      unfolding cstr_def using assms(1,2) by (subst takeWhile_append2) (auto simp: nul_free_def)
    then show ?thesis by simp
  qed
  then show ?thesis using p1 p2 p3 assms(3) by (simp add: make_entry_def new_block_def del: upt_Suc)
qed


section \<open>The object as a map\<close>

definition entries :: "EnvMap \<Rightarrow> bytes list" where "entries m = map (\<lambda>(k, v). k @ 0x3D # v) m"

definition good_text :: "bytes \<Rightarrow> bool" where "good_text s \<longleftrightarrow> nul_free s \<and> length s < 2 ^ 61"

text \<open>The invariant: valid names in order, and an array that is the one of the map.\<close>

definition env_ok :: "EnvVars \<Rightarrow> bool" where
  "env_ok e \<longleftrightarrow> map_sorted (m_envMap e) \<and>
     (\<forall>(k, v) \<in> set (m_envMap e). good_text k \<and> good_text v \<and> isValidKey k) \<and>
     (m_envp e = None \<or> m_envp e = Some (entries (m_envMap e)))"

lemma make_entries_ok:
  "(\<forall>(k, v) \<in> set m. good_text k \<and> good_text v) \<Longrightarrow> make_entries junk m = Inr (entries m)"
  by (induction junk m rule: make_entries.induct) (auto simp: entries_def good_text_def make_entry_ok)

lemma getenvp_ok:
  assumes "env_ok e"
  shows "fst (getenvp junk e) = Inr (entries (m_envMap e))"
    and "env_ok (snd (getenvp junk e))" and "m_envMap (snd (getenvp junk e)) = m_envMap e"
proof -
  have "make_entries junk (m_envMap e) = Inr (entries (m_envMap e))"
    using assms by (intro make_entries_ok) (auto simp: env_ok_def)
  then show "fst (getenvp junk e) = Inr (entries (m_envMap e))" "env_ok (snd (getenvp junk e))"
    "m_envMap (snd (getenvp junk e)) = m_envMap e"
    using assms by (auto simp: getenvp_def env_ok_def split: option.splits)
qed

lemma map_put_elems: "p \<in> set (map_put m k v) \<Longrightarrow> p = (k, v) \<or> p \<in> set m"
  by (induction m k v rule: map_put.induct) (auto simp: strcmp_order not_less split: if_splits dest: antisym)

lemma map_put_ok:
  assumes "env_ok e" and "good_text k" "good_text v" "isValidKey k"
  shows "env_ok ((deleteEnvp e)\<lparr>m_envMap := map_put (m_envMap e) k v\<rparr>)"
  using assms map_put_sorted by (auto simp: env_ok_def deleteEnvp_def dest!: map_put_elems)

lemma map_erase_ok: "env_ok e \<Longrightarrow> env_ok ((deleteEnvp e)\<lparr>m_envMap := map_erase (m_envMap e) k\<rparr>)"
  using map_erase_subset map_erase_sorted by (fastforce simp: env_ok_def deleteEnvp_def)

lemma find_valid: "env_ok e \<Longrightarrow> map_find (m_envMap e) k = Some v \<Longrightarrow> isValidKey k"
  by (auto simp: env_ok_def map_find_map_of dest!: map_of_SomeD)

datatype env_op =
    Remove bytes | Add bytes bytes | Set bytes bytes | Set_text bytes | Update bytes bytes | Get_array

fun env_step :: "(nat \<Rightarrow> u8) \<Rightarrow> EnvVars \<Rightarrow> env_op \<Rightarrow> bool \<times> EnvVars" where
  "env_step junk e (Remove k) = removeVar e k"
| "env_step junk e (Add k v) = addVar e k v"
| "env_step junk e (Set k v) = setVar e k v"
| "env_step junk e (Set_text s) = setVar_keyValue e s"
| "env_step junk e (Update k v) = updateVar e k v"
| "env_step junk e Get_array = (True, snd (getenvp junk e))"

text \<open>The same operations on a map, with what they return.\<close>

fun map_step :: "(bytes \<rightharpoonup> bytes) \<Rightarrow> env_op \<Rightarrow> bool \<times> (bytes \<rightharpoonup> bytes)" where
  "map_step m (Remove k) = (m k \<noteq> None, m(k := None))"
| "map_step m (Add k v) = (if isValidKey k \<and> m k = None then (True, m(k \<mapsto> v)) else (False, m))"
| "map_step m (Set k v) = (if isValidKey k then (True, m(k \<mapsto> v)) else (False, m))"
| "map_step m (Set_text s) = (let (k, v) = getKeyValue s in if isValidKey k then (True, m(k \<mapsto> v)) else (False, m))"
| "map_step m (Update k v) = (if m k \<noteq> None then (True, m(k \<mapsto> v)) else (False, m))"
| "map_step m Get_array = (True, m)"

fun op_texts :: "env_op \<Rightarrow> bytes set" where
  "op_texts (Remove k) = {k}"
| "op_texts (Add k v) = {k, v}"
| "op_texts (Set k v) = {k, v}"
| "op_texts (Set_text s) = {s}"
| "op_texts (Update k v) = {k, v}"
| "op_texts Get_array = {}"

lemma getKeyValue_good: "good_text s \<Longrightarrow> good_text (fst (getKeyValue s)) \<and> good_text (snd (getKeyValue s))"
  using getKeyValue_nul_free [of s] by (auto simp: good_text_def getKeyValue_def split: option.splits)

lemma env_step_ok:
  assumes ok: "env_ok e" and t: "\<forall>s \<in> op_texts p. good_text s"
  shows "env_ok (snd (env_step junk e p))" and "fst (env_step junk e p) = fst (map_step (map_of (m_envMap e)) p)"
    and "map_of (m_envMap (snd (env_step junk e p))) = snd (map_step (map_of (m_envMap e)) p)"
proof -
  have f: "map_find (m_envMap e) k = map_of (m_envMap e) k" for k
    using ok by (simp add: env_ok_def map_find_map_of)
  have pm: "map_of (map_put (m_envMap e) k v) = (map_of (m_envMap e))(k \<mapsto> v)" for k v
    using ok by (simp add: env_ok_def map_put_map_of)
  have em: "map_of (map_erase (m_envMap e) k) = (map_of (m_envMap e))(k := None)" for k
    using ok by (simp add: env_ok_def map_erase_map_of)
  have none: "map_of (m_envMap e) k = None \<Longrightarrow> (map_of (m_envMap e))(k := None) = map_of (m_envMap e)" for k by auto
  have set: "env_ok (snd (setVar e k v)) \<and> fst (setVar e k v) = isValidKey k \<and>
      map_of (m_envMap (snd (setVar e k v))) = (if isValidKey k then (map_of (m_envMap e))(k \<mapsto> v) else map_of (m_envMap e))"
    if "good_text k" "good_text v" for k v
    using that ok map_put_ok by (simp add: setVar_def pm)
  have "env_ok (snd (env_step junk e p)) \<and> fst (env_step junk e p) = fst (map_step (map_of (m_envMap e)) p) \<and>
    map_of (m_envMap (snd (env_step junk e p))) = snd (map_step (map_of (m_envMap e)) p)"
  proof (cases p)
    case (Remove k)
    then show ?thesis using ok map_erase_ok none by (auto simp: removeVar_def f em)
  next
    case (Add k v)
    then show ?thesis using ok t map_put_ok by (auto simp: addVar_def f pm)
  next
    case (Set k v)
    then show ?thesis using set t by simp
  next
    case (Set_text s)
    obtain k v where kv: "getKeyValue s = (k, v)" by fastforce
    then have "good_text k" "good_text v" using getKeyValue_good [of s] t Set_text by auto
    then show ?thesis using set Set_text kv by (simp add: setVar_keyValue_def)
  next
    case (Update k v)
    then show ?thesis using ok t map_put_ok find_valid by (auto simp: updateVar_def f pm)
  next
    case Get_array
    then show ?thesis using getenvp_ok [OF ok] by simp
  qed
  then show "env_ok (snd (env_step junk e p))" "fst (env_step junk e p) = fst (map_step (map_of (m_envMap e)) p)"
    "map_of (m_envMap (snd (env_step junk e p))) = snd (map_step (map_of (m_envMap e)) p)" by blast+
qed

definition env_run :: "(nat \<Rightarrow> u8) \<Rightarrow> EnvVars \<Rightarrow> env_op list \<Rightarrow> EnvVars" where
  "env_run junk e ps = foldl (\<lambda>e p. snd (env_step junk e p)) e ps"

definition map_run :: "env_op list \<Rightarrow> bytes \<rightharpoonup> bytes" where
  "map_run ps = foldl (\<lambda>m p. snd (map_step m p)) Map.empty ps"

lemma env_run_ok:
  assumes "env_ok e" and "\<forall>p \<in> set ps. \<forall>s \<in> op_texts p. good_text s"
  shows "env_ok (env_run junk e ps) \<and>
    map_of (m_envMap (env_run junk e ps)) = foldl (\<lambda>m p. snd (map_step m p)) (map_of (m_envMap e)) ps"
  using assms
proof (induction ps arbitrary: e)
  case (Cons p ps)
  have "\<forall>s \<in> op_texts p. good_text s" using Cons.prems(2) by auto
  note st = env_step_ok [OF Cons.prems(1) this, of junk]
  show ?case using Cons.IH [OF st(1)] Cons.prems(2) st(3) by (simp add: env_run_def)
qed (simp add: env_run_def)

lemma entries_by_key:
  assumes "map_sorted m"
  shows "entries m = map (\<lambda>k. k @ 0x3D # the (map_of m k)) (map fst m)"
proof -
  have "distinct (map fst m)" using assms by (simp add: map_sorted_def strict_sorted_iff)
  then have "map_of m k = Some v" if "(k, v) \<in> set m" for k v using that by simp
  then show ?thesis by (auto simp: entries_def)
qed

text \<open>
  C24. Whatever sequence of operations is applied, the object is the map that the same
  operations make of the empty one, \<open>getValue\<close> reads it, and the array of C strings that
  \<open>getenvp\<close> returns, however often it was asked for and built before, is the one of the
  variables as they are now, in the order of their names.
\<close>

theorem environment_refines_map:
  assumes "\<forall>p \<in> set ps. \<forall>s \<in> op_texts p. good_text s"
  shows "getValue (env_run junk (EnvVars_new env False) ps) k d = (case map_run ps k of Some v \<Rightarrow> v | None \<Rightarrow> d) \<and>
    (\<exists>ks. sorted_wrt (<) ks \<and> set ks = dom (map_run ps) \<and>
      fst (getenvp junk' (env_run junk (EnvVars_new env False) ps)) = Inr (map (\<lambda>k. k @ 0x3D # the (map_run ps k)) ks))"
proof -
  define e where "e = env_run junk (EnvVars_new env False) ps"
  have "env_ok (EnvVars_new env False)" by (simp add: env_ok_def EnvVars_new_def map_sorted_def)
  then have e: "env_ok e" "map_of (m_envMap e) = map_run ps"
    using env_run_ok [of "EnvVars_new env False" ps junk] assms by (auto simp: e_def map_run_def EnvVars_new_def)
  have srt: "map_sorted (m_envMap e)" using e(1) by (simp add: env_ok_def)
  then have "getValue e k d = (case map_run ps k of Some v \<Rightarrow> v | None \<Rightarrow> d)"
    by (simp add: getValue_def map_find_map_of e(2))
  moreover have "\<exists>ks. sorted_wrt (<) ks \<and> set ks = dom (map_run ps) \<and>
      fst (getenvp junk' e) = Inr (map (\<lambda>k. k @ 0x3D # the (map_run ps k)) ks)"
    using srt getenvp_ok(1) [OF e(1)] entries_by_key [OF srt]
    by (intro exI [of _ "map fst (m_envMap e)"]) (auto simp: map_sorted_def dom_map_of_conv_image_fst simp flip: e(2))
  ultimately show ?thesis by (simp add: e_def)
qed

theorem environment_refines_map_witness:
  "fst (getenvp (\<lambda>_. 7) (env_run (\<lambda>_. 3) (EnvVars_new [] False) [Set [0x61] [0x62], Get_array, Set_text [0x61, 0x3D, 0x63]]))
    = Inr [[0x61, 0x3D, 0x63]]"
proof -
  let ?ps = "[Set [0x61] [0x62], Get_array, Set_text [0x61, 0x3D, 0x63]]"
  have g: "\<forall>p \<in> set ?ps. \<forall>s \<in> op_texts p. good_text s" by (auto simp: good_text_def nul_free_def)
  have m: "map_run ?ps = [[0x61] \<mapsto> [0x63]]"
    by (simp add: map_run_def isValidKey_def getKeyValue_def)
  obtain ks where ks: "sorted_wrt (<) ks" "set ks = {[0x61]}"
    "fst (getenvp (\<lambda>_. 7) (env_run (\<lambda>_. 3) (EnvVars_new [] False) ?ps)) =
      Inr (map (\<lambda>k. k @ 0x3D # the ([[0x61] \<mapsto> [0x63]] k)) ks)"
    using environment_refines_map [where ps = ?ps and junk = "\<lambda>_. 3" and env = "[]" and junk' = "\<lambda>_. 7" and k = "[]" and d = "[]", OF g, unfolded m, THEN conjunct2] by auto
  have "ks = [[0x61]]" using ks(1,2) by (cases ks; cases "tl ks") auto
  then show ?thesis using ks(3) by simp
qed

lemma map_put_last: "\<forall>x \<in> fst ` set m. x < k \<Longrightarrow> map_put m k v = m @ [(k, v)]"
  by (induction m k v rule: map_put.induct) (auto simp: strcmp_order)

text \<open>
  An object made from the array of another one has the same variables, values with
  equal signs in them included.
\<close>

theorem environment_roundtrip:
  assumes "env_ok e" and "fst (getenvp junk e) = Inr a"
  shows "m_envMap (EnvVars_of a) = m_envMap e"
proof -
  have a: "a = entries (m_envMap e)" using assms getenvp_ok(1) by simp
  have "fillEnvMap (entries m) = m" if "map_sorted m" "\<forall>(k, v) \<in> set m. good_text k \<and> isValidKey k" for m
    using that
  proof (induction m rule: rev_induct)
    case (snoc p m)
    obtain k v where p: "p = (k, v)" by fastforce
    have s: "map_sorted m" "\<forall>x \<in> fst ` set m. x < k"
      using snoc.prems(1) by (auto simp: map_sorted_def p sorted_wrt_append)
    have k: "nul_free k" "isValidKey k" "0x3D \<notin> set k"
      using snoc.prems(2) valid_key [of k] by (auto simp: p good_text_def)
    have "fillEnvMap (entries m) = m" using snoc.IH [OF s(1)] snoc.prems(2) by auto
    then show ?case using k getKeyValue_entry [OF k(1,3)] map_put_last [OF s(2)]
      by (simp add: fillEnvMap_def entries_def p)
  qed (simp add: fillEnvMap_def entries_def)
  then show ?thesis using assms(1) by (auto simp: EnvVars_of_def a env_ok_def)
qed

theorem environment_roundtrip_witness:
  "m_envMap (EnvVars_of [[0x61, 0x3D, 0x3D, 0x62]]) = [([0x61], [0x3D, 0x62])]"
proof -
  let ?e = "\<lparr>m_envMap = [([0x61 :: u8], [0x3D, 0x62])], m_envp = None\<rparr>"
  have ok: "env_ok ?e" by (simp add: env_ok_def map_sorted_def good_text_def nul_free_def isValidKey_def)
  have "fst (getenvp (\<lambda>_. 0) ?e) = Inr [[0x61, 0x3D, 0x3D, 0x62]]"
    using getenvp_ok(1) [OF ok] by (simp add: entries_def)
  from environment_roundtrip [OF ok this] show ?thesis by simp
qed

end
