(* ===== verification/SafeCString.thy ===== *)
theory SafeCString
  imports StringBuffer_Props
begin

text \<open>
  The functions of \<open>SafeCString.cpp\<close> on C strings in arrays of a given size. A destination
  is the memory from its pointer to the end of its array, a source the memory that may be
  read behind its pointer; every access is checked. A pointer that is returned is an offset
  into the destination.
\<close>

section \<open>Copying\<close>

datatype overflow_code = RESULT_TRUNCATED | DEST_UNTERMINATED

text \<open>\<open>Fault\<close> is undefined behaviour, \<open>Overflow\<close> the exception, with the destination as it is
  when it is thrown.\<close>

datatype 'a cstr_result = Fault | Overflow overflow_code bytes | Done bytes 'a

fun cbind :: "'a cstr_result \<Rightarrow> (bytes \<Rightarrow> 'a \<Rightarrow> 'b cstr_result) \<Rightarrow> 'b cstr_result" where
  "cbind Fault f = Fault"
| "cbind (Overflow e d) f = Overflow e d"
| "cbind (Done d a) f = f d a"

definition write_at :: "bytes \<Rightarrow> nat \<Rightarrow> bytes \<Rightarrow> unit cstr_result" where
  "write_at dst i cs = (case put dst i cs of Inr d \<Rightarrow> Done d () | Inl _ \<Rightarrow> Fault)"

text \<open>\<open>memchr(s, 0, n)\<close>: reads up to the first NUL or \<open>n\<close> bytes.\<close>

definition strend :: "bytes \<Rightarrow> nat \<Rightarrow> nat option cstr_result" where
  "strend s n =
     (if 0 \<in> set (take n s) then Done s (Some (length (cstr s)))
      else if n \<le> length s then Done s None
      else Fault)"

definition strend_checked :: "bytes \<Rightarrow> nat \<Rightarrow> nat cstr_result" where
  "strend_checked s n = cbind (strend s n) (\<lambda>s r. case r of Some e \<Rightarrow> Done s e | None \<Rightarrow> Overflow DEST_UNTERMINATED s)"

text \<open>The result is \<open>None\<close> for the null pointer: no NUL among the first \<open>n\<close> bytes.\<close>

definition safe_strcpy :: "bytes \<Rightarrow> bytes \<Rightarrow> nat \<Rightarrow> nat option cstr_result" where
  "safe_strcpy dst src n =
     cbind (strend src n) (\<lambda>_ r. case r of
       Some len \<Rightarrow> cbind (write_at dst 0 (take (len + 1) src)) (\<lambda>d _. Done d (Some len))
     | None \<Rightarrow> cbind (write_at dst 0 (take n src)) (\<lambda>d _. Done d None))"

text \<open>\<open>size_t\<close> arithmetic: \<open>dstsize - 1\<close> wraps for 0.\<close>

definition size_pred :: "nat \<Rightarrow> nat" where "size_pred n = (if n = 0 then 2 ^ 64 - 1 else n - 1)"

definition finish_copy :: "nat \<Rightarrow> nat option cstr_result \<Rightarrow> nat cstr_result" where
  "finish_copy n r = cbind r (\<lambda>d retval. case retval of
     Some len \<Rightarrow> Done d len
   | None \<Rightarrow> cbind (write_at d n [0]) (\<lambda>d _. Done d n))"

definition strcpy_trunc :: "bytes \<Rightarrow> nat \<Rightarrow> bytes \<Rightarrow> nat cstr_result" where
  "strcpy_trunc dst dstsize src = (let n = size_pred dstsize in finish_copy n (safe_strcpy dst src n))"

definition strcpy_trunc_len :: "bytes \<Rightarrow> nat \<Rightarrow> bytes \<Rightarrow> nat \<Rightarrow> nat cstr_result" where
  "strcpy_trunc_len dst dstsize src srclen =
     (let n = (if srclen < dstsize then srclen else size_pred dstsize) in finish_copy n (safe_strcpy dst src n))"

definition strcpy_check :: "bytes \<Rightarrow> nat \<Rightarrow> bytes \<Rightarrow> nat cstr_result" where
  "strcpy_check dst dstsize src =
     cbind (safe_strcpy dst src dstsize) (\<lambda>d retval. case retval of
       Some len \<Rightarrow> Done d len
     | None \<Rightarrow> cbind (write_at d (size_pred dstsize) [0]) (\<lambda>d _. Overflow RESULT_TRUNCATED d))"

definition strcpy_check_len :: "bytes \<Rightarrow> nat \<Rightarrow> bytes \<Rightarrow> nat \<Rightarrow> nat cstr_result" where
  "strcpy_check_len dst dstsize src srclen =
     (if srclen \<ge> dstsize then strcpy_check dst dstsize src else strcpy_trunc dst (srclen + 1) src)"

section \<open>Appending\<close>

text \<open>The copy into the destination from its terminator on.\<close>

definition at_end :: "bytes \<Rightarrow> nat \<Rightarrow> (bytes \<Rightarrow> nat cstr_result) \<Rightarrow> nat cstr_result" where
  "at_end dst e copy = (case copy (drop e dst) of
     Fault \<Rightarrow> Fault
   | Overflow x d \<Rightarrow> Overflow x (take e dst @ d)
   | Done d r \<Rightarrow> Done (take e dst @ d) (e + r))"

definition strcat_trunc :: "bytes \<Rightarrow> nat \<Rightarrow> bytes \<Rightarrow> nat cstr_result" where
  "strcat_trunc dst dstsize src =
     cbind (strend_checked dst dstsize) (\<lambda>dst e. at_end dst e (\<lambda>d. strcpy_trunc d (dstsize - e) src))"

definition strcat_trunc_len :: "bytes \<Rightarrow> nat \<Rightarrow> bytes \<Rightarrow> nat \<Rightarrow> nat cstr_result" where
  "strcat_trunc_len dst dstsize src srclen =
     cbind (strend_checked dst dstsize) (\<lambda>dst e. at_end dst e (\<lambda>d. strcpy_trunc_len d (dstsize - e) src srclen))"

definition strcat_check :: "bytes \<Rightarrow> nat \<Rightarrow> bytes \<Rightarrow> nat cstr_result" where
  "strcat_check dst dstsize src =
     cbind (strend_checked dst dstsize) (\<lambda>dst e. at_end dst e (\<lambda>d. strcpy_check d (dstsize - e) src))"

definition strcat_check_len :: "bytes \<Rightarrow> nat \<Rightarrow> bytes \<Rightarrow> nat \<Rightarrow> nat cstr_result" where
  "strcat_check_len dst dstsize src srclen =
     cbind (strend_checked dst dstsize) (\<lambda>dst e. at_end dst e (\<lambda>d. strcpy_check_len d (dstsize - e) src srclen))"

section \<open>Duplicating\<close>

definition str_dup :: "(nat \<Rightarrow> u8) \<Rightarrow> bytes \<Rightarrow> buffer_error + bytes" where
  "str_dup junk s = rbind (new_block junk (size_add (strlen s) 1)) (\<lambda>retval. put retval 0 (cstr s @ [0]))"

text \<open>An allocation that fails gives the null pointer, \<open>None\<close>.\<close>

definition str_dup_nothrow :: "(nat \<Rightarrow> u8) \<Rightarrow> bytes \<Rightarrow> buffer_error + bytes option" where
  "str_dup_nothrow junk s = (case new_block junk (strlen s) of
     Inl _ \<Rightarrow> Inr None
   | Inr retval \<Rightarrow> rbind (put retval 0 (cstr s @ [0])) (\<lambda>r. Inr (Some r)))"

definition nchars_check :: "int \<Rightarrow> nat \<Rightarrow> nat option" where
  "nchars_check retval dstsize = (if retval < 0 \<or> retval \<ge> int_cast dstsize then None else Some (nat retval))"

section \<open>What the functions promise\<close>

text \<open>The memory of a C string: a text, its NUL, and what follows.\<close>

lemma write_at_ok: "i + length cs \<le> length dst \<Longrightarrow> write_at dst i cs = Done (take i dst @ cs @ drop (i + length cs) dst) ()"
  by (simp add: write_at_def put_def)

lemma cstr_prefix: "take (length (cstr s)) s = cstr s"
  unfolding cstr_def by (metis takeWhile_eq_take)

lemma cstr_within: "0 \<in> set (take n s) \<longleftrightarrow> length (cstr s) < n \<and> 0 \<in> set s"
proof -
  have "0 \<in> set (take n s) \<longleftrightarrow> takeWhile (\<lambda>c. c \<noteq> 0) (take n s) \<noteq> take n s"
    by (metis (mono_tags, lifting) set_takeWhileD takeWhile_eq_all_conv)
  then show ?thesis
  proof (induction s arbitrary: n)
    case (Cons c s)
    then show ?case by (cases n) (auto simp: cstr_def)
  qed (simp add: cstr_def)
qed

lemma cstr_terminated: "0 \<in> set s \<Longrightarrow> take (length (cstr s) + 1) s = cstr s @ [0]"
  unfolding cstr_def by (induction s) auto

lemma long_source:
  assumes "0 \<notin> set (take n src)" and "0 \<in> set src \<or> n \<le> length src"
  shows "take n src = take n (cstr src)" "n \<le> length src" "n \<le> length (cstr src)"
proof -
  have tw: "takeWhile (\<lambda>c. c \<noteq> 0) (take n src) = take n src" using assms(1) by (simp add: takeWhile_eq_all_conv) metis
  have "take n s = take n (takeWhile P s)" if "takeWhile P (take n s) = take n s" for P and s :: bytes and n
    using that
  proof (induction s arbitrary: n)
    case (Cons c s)
    then show ?case by (cases n) (auto split: if_splits)
  qed simp
  from this [OF tw] show e: "take n src = take n (cstr src)" by (simp add: cstr_def)
  have "length (cstr src) \<le> length src" by (simp add: cstr_def length_takeWhile_le)
  moreover have "0 \<in> set src \<longrightarrow> n \<le> length (cstr src)" using assms(1) by (auto simp: cstr_within)
  ultimately show n: "n \<le> length src" using assms(2) by auto
  show "n \<le> length (cstr src)" using e n by (metis length_take min.absorb2 min.cobounded1)
qed

text \<open>A text with its terminator at the start of a destination.\<close>

definition placed :: "bytes \<Rightarrow> bytes \<Rightarrow> bytes" where
  "placed dst t = t @ 0 # drop (length t + 1) dst"

lemma write_whole:
  assumes "0 \<in> set (take n src)" "n \<le> length dst"
  shows "write_at dst 0 (take (Suc (length (cstr src))) src) = Done (placed dst (cstr src)) ()"
proof -
  have l: "length (cstr src) < n" "0 \<in> set src" using assms(1) by (simp_all add: cstr_within)
  have t: "take (Suc (length (cstr src))) src = cstr src @ [0]" using cstr_terminated [OF l(2)] by simp
  show ?thesis unfolding t using l assms(2) by (subst write_at_ok) (simp_all add: placed_def)
qed

text \<open>The copy of at most \<open>n\<close> characters, when the source is terminated or has that many.\<close>

lemma finish_copy_spec:
  assumes dst: "n < length dst" and src: "0 \<in> set src \<or> n \<le> length src"
  shows "finish_copy n (safe_strcpy dst src n) = Done (placed dst (take n (cstr src))) (length (take n (cstr src)))"
proof (cases "0 \<in> set (take n src)")
  case True
  then show ?thesis using dst write_whole [of n src dst]
    by (simp add: finish_copy_def safe_strcpy_def strend_def cstr_within)
next
  case False
  note c = long_source [OF False src]
  have w1: "write_at dst 0 (take n src) = Done (take n src @ drop n dst) ()"
    using dst c by (subst write_at_ok) auto
  have w2: "write_at (take n src @ drop n dst) n [0] = Done (placed dst (take n src)) ()"
    using dst c(2) by (subst write_at_ok) (auto simp: min_def placed_def)
  have "safe_strcpy dst src n = Done (take n src @ drop n dst) None"
    using False c(2) w1 by (simp add: safe_strcpy_def strend_def)
  then show ?thesis using w2 c by (simp add: finish_copy_def)
qed

text \<open>What \<open>src\<close> contributes with at most \<open>m\<close> characters to a place of \<open>room\<close> bytes, and
  whether all of it fits.\<close>

definition copied :: "bytes \<Rightarrow> nat \<Rightarrow> nat \<Rightarrow> bytes" where
  "copied src m room = take (min m (room - 1)) (cstr src)"

definition copy_fits :: "bytes \<Rightarrow> nat \<Rightarrow> nat \<Rightarrow> bool" where
  "copy_fits src m room \<longleftrightarrow> min m (strlen src) < room"

lemma strcpy_trunc_spec:
  assumes "0 < room" "room \<le> length dst" "0 \<in> set src \<or> room - 1 \<le> length src"
  shows "strcpy_trunc dst room src = Done (placed dst (copied src (room - 1) room)) (length (copied src (room - 1) room))"
  using finish_copy_spec [of "room - 1" dst src] assms by (simp add: strcpy_trunc_def size_pred_def copied_def Let_def)

lemma strcpy_trunc_len_spec:
  assumes "0 < room" "room \<le> length dst" "0 \<in> set src \<or> m \<le> length src"
  shows "strcpy_trunc_len dst room src m = Done (placed dst (copied src m room)) (length (copied src m room))"
proof (cases "m < room")
  case True
  then show ?thesis using finish_copy_spec [of m dst src] assms
    by (simp add: strcpy_trunc_len_def copied_def min_absorb1 Let_def)
next
  case False
  then have "0 \<in> set src \<or> room - 1 \<le> length src" "room - 1 < length dst" using assms by auto
  then show ?thesis using False finish_copy_spec [of "room - 1" dst src] assms(1)
    by (simp add: strcpy_trunc_len_def copied_def size_pred_def min_absorb2 Let_def)
qed

lemma strcpy_check_spec:
  assumes room: "0 < room" "room \<le> length dst" and src: "0 \<in> set src \<or> room \<le> length src"
  shows "strcpy_check dst room src =
      (if copy_fits src room room then Done (placed dst (cstr src)) (strlen src)
       else Overflow RESULT_TRUNCATED (placed dst (copied src room room)))"
proof (cases "0 \<in> set (take room src)")
  case True
  then show ?thesis using room write_whole [of room src dst]
    by (simp add: strcpy_check_def safe_strcpy_def strend_def copy_fits_def strlen_def cstr_within)
next
  case False
  note len = long_source [OF False src]
  have w1: "write_at dst 0 (take room src) = Done (take room src @ drop room dst) ()"
    using len room by (subst write_at_ok) auto
  have w2: "write_at (take room src @ drop room dst) (room - 1) [0] = Done (placed dst (take (room - 1) (cstr src))) ()"
    using len room by (subst write_at_ok) (auto simp: placed_def min_def)
  have "safe_strcpy dst src room = Done (take room src @ drop room dst) None"
    using False len w1 by (simp add: safe_strcpy_def strend_def)
  then show ?thesis using w2 len room
    by (simp add: strcpy_check_def size_pred_def copy_fits_def strlen_def copied_def)
qed

lemma strcpy_check_len_spec:
  assumes room: "0 < room" "room \<le> length dst" and src: "0 \<in> set src \<or> m \<le> length src"
  shows "strcpy_check_len dst room src m =
      (if copy_fits src m room then Done (placed dst (copied src m room)) (length (copied src m room))
       else Overflow RESULT_TRUNCATED (placed dst (copied src m room)))"
proof (cases "m < room")
  case True
  then have "copy_fits src m room" "copied src m room = take m (cstr src)" by (auto simp: copy_fits_def copied_def min_def)
  then show ?thesis using True finish_copy_spec [of m dst src] src room
    by (simp add: strcpy_check_len_def strcpy_trunc_def size_pred_def Let_def)
next
  case False
  then have "copy_fits src m room = copy_fits src room room" "copied src m room = copied src room room"
    by (auto simp: copy_fits_def copied_def min_def)
  moreover have "copy_fits src room room \<Longrightarrow> copied src room room = cstr src"
    by (auto simp: copy_fits_def copied_def strlen_def min_def split: if_splits)
  moreover have "0 \<in> set src \<or> room \<le> length src" using False src by auto
  ultimately show ?thesis using False strcpy_check_spec [OF room] by (simp add: strcpy_check_len_def strlen_def)
qed

text \<open>
  C25. The copying functions keep their promises for every destination of the given size and
  every source that is terminated or long enough: the truncating ones place what fits with
  its terminator and return its end; the checking ones do the same when all of it fits, and
  otherwise throw \<open>RESULT_TRUNCATED\<close> and leave the cut text with a terminator. None of them
  reads or writes outside, and the bytes behind the terminator are left as they are.
\<close>

theorem strcpy_keeps_promises:
  assumes "0 < room" "room \<le> length dst" "0 \<in> set src \<or> m \<le> length src"
  shows "strcpy_trunc_len dst room src m = Done (placed dst (copied src m room)) (length (copied src m room)) \<and>
    strcpy_check_len dst room src m =
      (if copy_fits src m room then Done (placed dst (copied src m room)) (length (copied src m room))
       else Overflow RESULT_TRUNCATED (placed dst (copied src m room))) \<and>
    (0 \<in> set src \<longrightarrow>
      strcpy_trunc dst room src = Done (placed dst (copied src (strlen src) room)) (length (copied src (strlen src) room)) \<and>
      strcpy_check dst room src =
        (if strlen src < room then Done (placed dst (cstr src)) (strlen src)
         else Overflow RESULT_TRUNCATED (placed dst (copied src (strlen src) room))))"
proof -
  have "copied src (room - 1) room = copied src (strlen src) room" "copied src room room = copied src (strlen src) room"
    by (auto simp: copied_def strlen_def min_def)
  moreover have "copy_fits src room room \<longleftrightarrow> strlen src < room" by (auto simp: copy_fits_def)
  ultimately show ?thesis
    using strcpy_trunc_len_spec [OF assms] strcpy_check_len_spec [OF assms]
      strcpy_trunc_spec [OF assms(1,2), of src] strcpy_check_spec [OF assms(1,2), of src] by simp
qed

theorem strcpy_keeps_promises_witness:
  "strcpy_trunc_len [7, 7, 7] 3 [0x61, 0x62, 0x63, 0] 4 = Done [0x61, 0x62, 0] 2 \<and>
    strcpy_check_len [7, 7, 7] 3 [0x61, 0x62, 0x63, 0] 3 = Overflow RESULT_TRUNCATED [0x61, 0x62, 0]"
proof -
  have "copied [0x61, 0x62, 0x63, 0] 4 3 = [0x61, 0x62]" "copied [0x61, 0x62, 0x63, 0] 3 3 = [0x61, 0x62]"
    "cstr [0x61, 0x62, 0x63, 0] = [0x61, 0x62, 0x63]"
    by (simp_all add: copied_def cstr_def)
  then show ?thesis
    using strcpy_keeps_promises [of 3 "[7, 7, 7]" "[0x61, 0x62, 0x63, 0]" 4]
      strcpy_keeps_promises [of 3 "[7, 7, 7]" "[0x61, 0x62, 0x63, 0]" 3]
    by (simp add: placed_def copy_fits_def strlen_def)
qed

lemma strend_checked_spec:
  assumes "room \<le> length dst"
  shows "strend_checked dst room =
    (if strlen dst < room \<and> 0 \<in> set dst then Done dst (strlen dst) else Overflow DEST_UNTERMINATED dst)"
  using assms by (simp add: strend_checked_def strend_def cstr_within strlen_def)

lemma placed_at_end:
  "0 \<in> set dst \<Longrightarrow> take (strlen dst) dst @ placed (drop (strlen dst) dst) t = placed dst (cstr dst @ t)"
  using cstr_prefix [of dst] by (simp add: placed_def strlen_def add.commute)

text \<open>
  The appending functions throw \<open>DEST_UNTERMINATED\<close> and change nothing when the
  destination holds no C string; otherwise the result is the old text followed by what fits,
  and the checking ones throw \<open>RESULT_TRUNCATED\<close> exactly when something is cut off.
\<close>

theorem strcat_keeps_promises:
  assumes room: "room \<le> length dst" and src: "0 \<in> set src"
  shows "if strlen dst < room \<and> 0 \<in> set dst
    then strcat_trunc_len dst room src m =
        Done (placed dst (cstr dst @ copied src m (room - strlen dst))) (strlen dst + length (copied src m (room - strlen dst))) \<and>
      strcat_check_len dst room src m =
        (if copy_fits src m (room - strlen dst)
         then Done (placed dst (cstr dst @ copied src m (room - strlen dst))) (strlen dst + length (copied src m (room - strlen dst)))
         else Overflow RESULT_TRUNCATED (placed dst (cstr dst @ copied src m (room - strlen dst))))
    else strcat_trunc_len dst room src m = Overflow DEST_UNTERMINATED dst \<and>
      strcat_check_len dst room src m = Overflow DEST_UNTERMINATED dst"
proof (cases "strlen dst < room \<and> 0 \<in> set dst")
  case True
  let ?d = "drop (strlen dst) dst" and ?s = "room - strlen dst"
  have "0 < ?s" "?s \<le> length ?d" "0 \<in> set src \<or> m \<le> length src" using True room src by simp_all
  then show ?thesis
    using True placed_at_end [of dst] strcpy_trunc_len_spec [of ?s ?d src m] strcpy_check_len_spec [of ?s ?d src m]
    by (simp add: strcat_trunc_len_def strcat_check_len_def strend_checked_spec [OF room] at_end_def)
next
  case False
  have "strend_checked dst room = Overflow DEST_UNTERMINATED dst" using False by (simp add: strend_checked_spec [OF room])
  then show ?thesis using False by (simp add: strcat_trunc_len_def strcat_check_len_def)
qed

theorem strcat_keeps_promises_witness:
  "strcat_check_len [0x61, 0, 7, 7] 4 [0x62, 0x63, 0] 1 = Done [0x61, 0x62, 0, 7] 2"
proof -
  have "cstr [0x61, 0, 7, 7] = [0x61]" "strlen [0x61, 0, 7, 7] = 1" "copied [0x62, 0x63, 0] 1 3 = [0x62]"
    "copy_fits [0x62, 0x63, 0] 1 3"
    by (simp_all add: cstr_def strlen_def copied_def copy_fits_def)
  then show ?thesis
    using strcat_keeps_promises [of 4 "[0x61, 0, 7, 7]" "[0x62, 0x63, 0]" 1] by (simp add: placed_def)
qed

text \<open>
  \<open>str_dup\<close> returns a copy of the text in a block of its own; \<open>str_dup_nothrow\<close>
  allocates a block that is one byte too small and writes the terminator behind its end,
  whatever the text.
\<close>

theorem str_dup_nothrow_overflows:
  assumes "strlen s + 1 < 2 ^ 63"
  shows "str_dup junk s = Inr (cstr s @ [0]) \<and> str_dup_nothrow junk s = Inl Overrun"
proof -
  have n: "size_add (strlen s) 1 = strlen s + 1" using assms by (simp add: size_add_def)
  have l: "length (cstr s) = strlen s" by (simp add: strlen_def)
  have "str_dup junk s = Inr (cstr s @ [0])"
    unfolding str_dup_def n using assms l by (simp add: new_block_def put_def del: upt_Suc)
  moreover have "str_dup_nothrow junk s = Inl Overrun"
    using assms l by (simp add: str_dup_nothrow_def new_block_def put_def del: upt_Suc)
  ultimately show ?thesis by simp
qed

theorem str_dup_nothrow_overflows_witness:
  "str_dup_nothrow (\<lambda>_. 0) [0x61, 0] = Inl Overrun"
  using str_dup_nothrow_overflows [of "[0x61, 0]" "\<lambda>_. 0"] by (simp add: strlen_def cstr_def)

end
