(* ===== verification/LogPattern.thy ===== *)
theory LogPattern
  imports Strings_Numbers DateTime
begin

text \<open>
  The pattern formatter of log messages, \<open>LogMessagePatternFormatter.cpp\<close>: the converters, the
  formatting to a minimal and a maximal width, and the parser of the patterns. A
  \<open>StringBuffer\<close> is its text; what comes from outside (the clock, the thread, the process,
  \<open>strftime\<close>) is a record that may differ from one converter to the next.
\<close>

section \<open>Messages and formatting\<close>

record LogMessage =
  component :: String
  category :: String
  message :: String
  filename :: "bytes option"
  fileline :: i32
  methodname :: "bytes option"

record outside =
  current_thread :: u64
  current_pid :: i32
  startMillis :: u64
  now :: DateTime
  strftime :: "bytes \<Rightarrow> bytes"

datatype EJustificationFlag = E_RIGHT_JUSTIFY | E_LEFT_JUSTIFY

record Formatting =
  minWidth :: int
  maxWidth :: int
  justification :: EJustificationFlag

definition NO_MIN_WIDTH :: int where "NO_MIN_WIDTH = - 1"
definition NO_MAX_WIDTH :: int where "NO_MAX_WIDTH = 0x7FFFFFFF"

definition Formatting_new :: Formatting where
  "Formatting_new = \<lparr>minWidth = NO_MIN_WIDTH, maxWidth = NO_MAX_WIDTH, justification = E_RIGHT_JUSTIFY\<rparr>"

text \<open>\<open>Converter::formatMessage\<close>: what is appended for the converted text.\<close>

definition spaces :: "int \<Rightarrow> bytes" where "spaces n = replicate (nat n) 0x20"

definition format_text :: "Formatting \<Rightarrow> bytes \<Rightarrow> bytes" where
  "format_text m_formatting buf =
     (if minWidth m_formatting = NO_MIN_WIDTH \<and> maxWidth m_formatting = NO_MAX_WIDTH then buf
      else if length buf = 0 then
        (if minWidth m_formatting > 0 then spaces (minWidth m_formatting) else [])
      else let len = int_cast (length buf) in
        if len > maxWidth m_formatting then
          (if justification m_formatting = E_LEFT_JUSTIFY
           then take (nat (maxWidth m_formatting)) buf
           else drop (nat (len - maxWidth m_formatting)) buf)
        else if len < minWidth m_formatting then
          (if justification m_formatting = E_LEFT_JUSTIFY
           then buf @ spaces (minWidth m_formatting - len)
           else spaces (minWidth m_formatting - len) @ buf)
        else buf)"

section \<open>Converters\<close>

datatype Converter =
    MessageConverter Formatting
  | XMLMessageConverter Formatting
  | LiteralConverter String
  | ThreadConverter Formatting
  | PidConverter Formatting
  | ComponentConverter Formatting int
  | FileLocationConverter Formatting
  | FullLocationConverter Formatting
  | LineLocationConverter Formatting
  | MethodLocationConverter Formatting
  | CategoryConverter Formatting
  | RelativeTimeConverter Formatting
  | DateConverter Formatting String

definition string_bytes :: "String \<Rightarrow> bytes" where
  "string_bytes s = take (slength s) (c_str s)"

definition CDATA_START :: bytes where "CDATA_START = lit ''<![CDATA[''"
definition CDATA_END :: bytes where "CDATA_END = lit '']]>''"
definition CDATA_EMBEDDED_END :: bytes where "CDATA_EMBEDDED_END = lit '']]>]]&gt;<![CDATA[''"

lemma strstr_bound: "strstr s arg = Some i \<Longrightarrow> arg \<noteq> [] \<Longrightarrow> i < length s"
  by (induction s arbitrary: i) (auto split: if_splits)

lemma indexOf_bounds:
  assumes "indexOf s arg i = e" and "e \<noteq> npos" and "i < slength s"
  shows "i \<le> e"
  using assms by (auto simp: indexOf_def split: if_splits option.splits)

lemma strstr_shift: "strstr s arg = Some i \<Longrightarrow> take (length arg) (drop i s) = arg"
  by (induction s arbitrary: i) (auto split: if_splits)

function xml_loop :: "String \<Rightarrow> nat \<Rightarrow> nat \<Rightarrow> bytes \<Rightarrow> bytes" where
  "xml_loop msg start end output =
     (if end = npos then output
      else let output1 = output @ take (end - start) (drop start (c_str msg)) @ CDATA_EMBEDDED_END;
               start1 = end + length CDATA_END in
        if start1 < slength msg then xml_loop msg start1 (indexOf msg (CDATA_END @ [0]) start1) output1
        else output1)"
  by pat_completeness auto
termination
proof (relation "measure (\<lambda>(msg, start, e, out). if e = npos then 0 else Suc (slength msg - e))", simp)
  fix msg :: String and start e :: nat and out x :: bytes and xa :: nat
  assume e: "e \<noteq> npos" "xa = e + length CDATA_END" "xa < slength msg"
  have "length CDATA_END = 3" by (simp add: CDATA_END_def lit_def)
  then show "((msg, xa, indexOf msg (CDATA_END @ [0]) xa, x), msg, start, e, out)
      \<in> measure (\<lambda>(msg, start, e, out). if e = npos then 0 else Suc (slength msg - e))"
    using e indexOf_bounds [of msg "CDATA_END @ [0]" xa "indexOf msg (CDATA_END @ [0]) xa"] by auto
qed

declare xml_loop.simps [simp del]

definition xml_text :: "String \<Rightarrow> bytes" where
  "xml_text msg =
     CDATA_START @
     (if slength msg \<noteq> 0 then
        let end = indexOf msg (CDATA_END @ [0]) 0 in
        xml_loop msg 0 end (if end = npos then string_bytes msg else [])
      else []) @
     CDATA_END"

text \<open>\<open>size_t\<close> subtraction.\<close>

definition size_sub :: "nat \<Rightarrow> nat \<Rightarrow> nat" where "size_sub a b = (a + 2 ^ 64 - b) mod 2 ^ 64"

text \<open>The loop over the dots of a component, counted by the precision; \<open>None\<close> when there are
  too few.\<close>

fun component_loop :: "String \<Rightarrow> nat \<Rightarrow> nat \<Rightarrow> nat option" where
  "component_loop s 0 end = Some end"
| "component_loop s (Suc i) end =
     (let e = lastIndexOf_char s 0x2E (size_sub end 1) in if e = npos then None else component_loop s i e)"

definition component_text :: "int \<Rightarrow> String \<Rightarrow> string_error + bytes" where
  "component_text m_precision s =
     (if m_precision \<le> 0 then Inr (string_bytes s)
      else let len = slength s in
        case component_loop s (nat m_precision) (size_sub len 1) of
          None \<Rightarrow> Inr (string_bytes s)
        | Some end \<Rightarrow> rbind (substring s (size_add end 1) (size_sub len (size_add end 1))) (\<lambda>r. Inr (string_bytes r)))"

definition getNowMillis :: "outside \<Rightarrow> u64" where
  "getNowMillis os = word_of_int (m_seconds (now os)) * 1000 + word_of_int (m_microseconds (now os) div 1000)"

definition PERCENT_Q :: bytes where "PERCENT_Q = lit ''%Q''"

text \<open>The constructor of \<open>DateConverter\<close> escapes the first \<open>%Q\<close>.\<close>

definition escape_Q :: "String \<Rightarrow> string_error + String" where
  "escape_Q format =
     (let pos = indexOf format (PERCENT_Q @ [0]) 0 in
      if pos \<noteq> npos then
        rbind (substring format 0 pos) (\<lambda>a. rbind (substring format pos npos) (\<lambda>b.
          Inr (concat_String (concat_char a 0x25) b)))
      else Inr format)"

definition date_text :: "outside \<Rightarrow> String \<Rightarrow> bytes" where
  "date_text os format =
     (let buf = strftime os (cstr (c_str format)) in
      case strstr buf PERCENT_Q of
        None \<Rightarrow> buf
      | Some p \<Rightarrow>
          let strMillis = print_int (m_microseconds (now os) div 1000) in
          take p buf @ (if length strMillis = 1 then [0x30, 0x30] else if length strMillis = 2 then [0x30] else []) @
          strMillis @ drop (p + 2) buf)"

fun convert :: "outside \<Rightarrow> LogMessage \<Rightarrow> Converter \<Rightarrow> string_error + bytes" where
  "convert os msg (MessageConverter f) = Inr (string_bytes (message msg))"
| "convert os msg (XMLMessageConverter f) = Inr (xml_text (message msg))"
| "convert os msg (LiteralConverter literal) = Inr (string_bytes literal)"
| "convert os msg (ThreadConverter f) = Inr (print_nat (unat (current_thread os)))"
| "convert os msg (PidConverter f) = Inr (print_int (sint (current_pid os)))"
| "convert os msg (ComponentConverter f precision) = component_text precision (component msg)"
| "convert os msg (FileLocationConverter f) = Inr (case filename msg of Some n \<Rightarrow> cstr n | None \<Rightarrow> [])"
| "convert os msg (FullLocationConverter f) = Inr (case filename msg of
     Some n \<Rightarrow> cstr n @ [0x28] @ print_int (sint (fileline msg)) @ [0x29] | None \<Rightarrow> [])"
| "convert os msg (LineLocationConverter f) = Inr (print_int (sint (fileline msg)))"
| "convert os msg (MethodLocationConverter f) = Inr (case methodname msg of Some n \<Rightarrow> cstr n | None \<Rightarrow> [])"
| "convert os msg (CategoryConverter f) = Inr (string_bytes (category msg))"
| "convert os msg (RelativeTimeConverter f) = Inr (print_nat (unat (getNowMillis os - startMillis os)))"
| "convert os msg (DateConverter f format) = Inr (date_text os format)"

fun m_formatting :: "Converter \<Rightarrow> Formatting" where
  "m_formatting (MessageConverter f) = f"
| "m_formatting (XMLMessageConverter f) = f"
| "m_formatting (LiteralConverter s) = Formatting_new"
| "m_formatting (ThreadConverter f) = f"
| "m_formatting (PidConverter f) = f"
| "m_formatting (ComponentConverter f n) = f"
| "m_formatting (FileLocationConverter f) = f"
| "m_formatting (FullLocationConverter f) = f"
| "m_formatting (LineLocationConverter f) = f"
| "m_formatting (MethodLocationConverter f) = f"
| "m_formatting (CategoryConverter f) = f"
| "m_formatting (RelativeTimeConverter f) = f"
| "m_formatting (DateConverter f s) = f"

definition formatMessage_converter :: "outside \<Rightarrow> LogMessage \<Rightarrow> Converter \<Rightarrow> string_error + bytes" where
  "formatMessage_converter os msg c = rbind (convert os msg c) (\<lambda>t. Inr (format_text (m_formatting c) t))"

text \<open>\<open>LogMessagePatternFormatter::formatMessage\<close>; \<open>os k\<close> is what the converter with the index
  \<open>k\<close> finds outside.\<close>

fun formatMessage :: "(nat \<Rightarrow> outside) \<Rightarrow> nat \<Rightarrow> LogMessage \<Rightarrow> Converter list \<Rightarrow> bytes \<Rightarrow> string_error + bytes" where
  "formatMessage os k msg [] out = Inr out"
| "formatMessage os k msg (c # cs) out =
     rbind (formatMessage_converter (os k) msg c) (\<lambda>t. formatMessage os (k + 1) msg cs (out @ t))"

section \<open>The parser\<close>

datatype pattern_error =
    NO_DIGIT_AFTER_DOT nat u8
  | PRECISION_NOT_AN_INTEGER nat String
  | UNSUPPORTED_CONVERSION nat u8
  | Int_overflow
  | String_failure string_error
  | Case_failure utf8_error

datatype EParserState = E_LITERAL_STATE | E_CONVERTER_STATE | E_DOT_STATE | E_MIN_STATE | E_MAX_STATE

record Parser =
  p_i :: nat
  p_state :: EParserState
  p_literal :: bytes
  p_formatting :: Formatting

definition Parser_new :: Parser where
  "Parser_new = \<lparr>p_i = 0, p_state = E_LITERAL_STATE, p_literal = [], p_formatting = Formatting_new\<rparr>"

definition string_step :: "string_error + 'a \<Rightarrow> pattern_error + 'a" where
  "string_step r = (case r of Inl e \<Rightarrow> Inl (String_failure e) | Inr a \<Rightarrow> Inr a)"

text \<open>The contents of the braces at the position, if any, and the position after them.\<close>

definition getOption :: "String \<Rightarrow> nat \<Rightarrow> pattern_error + String \<times> nat" where
  "getOption pattern i =
     (if i < slength pattern \<and> at pattern i = 0x7B then
        let end = indexOf_char pattern 0x7D i in
        if end > i then
          rbind (string_step (substring pattern (size_add i 1) (size_sub end (size_add i 1)))) (\<lambda>rv.
            Inr (rv, size_add end 1))
        else Inr (None, i)
      else Inr (None, i))"

definition getPrecision :: "String \<Rightarrow> nat \<Rightarrow> pattern_error + int \<times> nat" where
  "getPrecision pattern i =
     rbind (getOption pattern i) (\<lambda>(opt, i).
       if slength opt \<noteq> 0 then
         (case toUInt32 opt 10 of
            Inl _ \<Rightarrow> Inl (PRECISION_NOT_AN_INTEGER i opt)
          | Inr rv \<Rightarrow> Inr (signed_wrap 32 (int rv), i))
       else Inr (0, i))"

definition ISO8601_DATE_FORMAT :: bytes where "ISO8601_DATE_FORMAT = lit ''ISO8601''"
definition ISO8601_PATTERN :: bytes where "ISO8601_PATTERN = lit ''%Y-%m-%d %H:%M:%S,%Q''"
definition ABSOLUTE_DATE_FORMAT :: bytes where "ABSOLUTE_DATE_FORMAT = lit ''ABSOLUTE''"
definition ABSOLUTE_PATTERN :: bytes where "ABSOLUTE_PATTERN = lit ''%H:%M:%S,%Q''"
definition DATE_DATE_FORMAT :: bytes where "DATE_DATE_FORMAT = lit ''DATE''"
definition DATE_PATTERN :: bytes where "DATE_PATTERN = lit ''%d %b %Y %H:%M:%S,%Q''"

text \<open>The first of the predefined formats that the text names, or the text itself.\<close>

fun predefined :: "(bytes \<times> bytes) list \<Rightarrow> String \<Rightarrow> (utf8_error + String) option" where
  "predefined [] dateFormat = Some (Inr dateFormat)"
| "predefined ((name, pat) # fs) dateFormat = (case equalsIgnoreCase dateFormat (name @ [0]) of
     None \<Rightarrow> None
   | Some (Inl e) \<Rightarrow> Some (Inl e)
   | Some (Inr True) \<Rightarrow> Some (Inr (String_of (pat @ [0])))
   | Some (Inr False) \<Rightarrow> predefined fs dateFormat)"

definition date_format :: "String \<Rightarrow> (pattern_error + String) option" where
  "date_format dateOpt =
     (case predefined [(ISO8601_DATE_FORMAT, ISO8601_PATTERN), (ABSOLUTE_DATE_FORMAT, ABSOLUTE_PATTERN),
         (DATE_DATE_FORMAT, DATE_PATTERN)]
         (if slength dateOpt = 0 then String_of (ISO8601_DATE_FORMAT @ [0]) else dateOpt) of
        None \<Rightarrow> None
      | Some (Inl e) \<Rightarrow> Some (Inl (Case_failure e))
      | Some (Inr f) \<Rightarrow> Some (string_step (escape_Q f)))"

text \<open>The converter for a conversion character, and the position after its option.\<close>

definition make_converter :: "String \<Rightarrow> nat \<Rightarrow> Formatting \<Rightarrow> u8 \<Rightarrow> (pattern_error + Converter \<times> nat) option" where
  "make_converter pattern i f c =
     (if c = 0x63 then Some (rbind (getPrecision pattern i) (\<lambda>(p, i). Inr (ComponentConverter f p, i)))
      else if c = 0x64 then
        (case getOption pattern i of
           Inl e \<Rightarrow> Some (Inl e)
         | Inr (dateOpt, i) \<Rightarrow> map_option (\<lambda>r. rbind r (\<lambda>fmt. Inr (DateConverter f fmt, i))) (date_format dateOpt))
      else if c = 0x46 then Some (Inr (FileLocationConverter f, i))
      else if c = 0x6C then Some (Inr (FullLocationConverter f, i))
      else if c = 0x4C then Some (Inr (LineLocationConverter f, i))
      else if c = 0x4D then Some (Inr (MethodLocationConverter f, i))
      else if c = 0x6D then Some (Inr (MessageConverter f, i))
      else if c = 0x65 then Some (Inr (XMLMessageConverter f, i))
      else if c = 0x70 then Some (Inr (CategoryConverter f, i))
      else if c = 0x72 then Some (Inr (RelativeTimeConverter f, i))
      else if c = 0x74 then Some (Inr (ThreadConverter f, i))
      else if c = 0x50 then Some (Inr (PidConverter f, i))
      else Some (Inl (UNSUPPORTED_CONVERSION i c)))"

type_synonym parse_result = "(pattern_error + Parser \<times> Converter list) option"

definition finalizeConverter :: "String \<Rightarrow> Parser \<Rightarrow> Converter list \<Rightarrow> u8 \<Rightarrow> parse_result" where
  "finalizeConverter pattern p cs c =
     map_option (\<lambda>r. rbind r (\<lambda>(rv, i).
       Inr (\<lparr>p_i = i, p_state = E_LITERAL_STATE, p_literal = [], p_formatting = Formatting_new\<rparr>, cs @ [rv])))
     (make_converter pattern (p_i p) (p_formatting p) c)"

definition literal_String :: "bytes \<Rightarrow> String" where
  "literal_String literal = String_of (literal @ [0])"

text \<open>\<open>strtol\<close> of the C library to the base 16: of \<open>0x\<close> without a digit after it only the zero is
  read.\<close>

definition strtol16 :: "bytes \<Rightarrow> int \<times> bytes \<times> bool" where
  "strtol16 nptr =
     (let s = dropWhile isspace nptr; t = (if s \<noteq> [] \<and> (hd s = 0x2D \<or> hd s = 0x2B) then tl s else s) in
      if length t > 1 \<and> t ! 0 = 0x30 \<and> (t ! 1 = 0x78 \<or> t ! 1 = 0x58) \<and>
        \<not> (length t > 2 \<and> (case digit_value (t ! 2) of Some d \<Rightarrow> d < 16 | None \<Rightarrow> False))
      then (0, tl t, False)
      else strtoll nptr 16)"

definition CHAR_MAX :: int where "CHAR_MAX = 127"

text \<open>A character after a backslash at the position \<open>i\<close>: what is appended to the literal, and
  the new position.\<close>

definition backslash :: "String \<Rightarrow> nat \<Rightarrow> bytes \<times> nat" where
  "backslash pattern i =
     (let c = at pattern i in
      if c = 0x6E then ([0x0A], i + 1)
      else if c = 0x5C then ([0x5C], i + 1)
      else if c = 0x72 then ([0x0D], i + 1)
      else if c = 0x74 then ([0x09], i + 1)
      else if c = 0x78 then
        (let begin = drop (i + 1) (c_str pattern);
             (v, end, erange) = strtol16 begin;
             hexNumber = signed_wrap 32 v in
         if length end = length begin \<or> erange \<or> hexNumber > CHAR_MAX then ([0x5C, 0x78], i + 1)
         else ([word_of_int hexNumber], i + (length begin - length end) + 1))
      else ([0x5C], i))"

text \<open>A digit is appended to a width; signed overflow is undefined.\<close>

definition add_digit :: "int \<Rightarrow> u8 \<Rightarrow> pattern_error + int" where
  "add_digit w c = (let n = w * 10 + (uint c - 0x30) in if n > 0x7FFFFFFF then Inl Int_overflow else Inr n)"

definition literal_step :: "String \<Rightarrow> Parser \<Rightarrow> Converter list \<Rightarrow> u8 \<Rightarrow> Parser \<times> Converter list" where
  "literal_step pattern p cs c =
     (let i = p_i p; literal = p_literal p in
      if i = slength pattern then (p\<lparr>p_literal := literal @ [c]\<rparr>, cs)
      else if c = 0x25 then
        (if at pattern i = 0x25 then (p\<lparr>p_literal := literal @ [c], p_i := i + 1\<rparr>, cs)
         else if at pattern i = 0x6E then (p\<lparr>p_literal := literal @ [0x0A], p_i := i + 1\<rparr>, cs)
         else (p\<lparr>p_literal := [c], p_state := E_CONVERTER_STATE, p_formatting := Formatting_new\<rparr>,
           if length literal > 0 then cs @ [LiteralConverter (literal_String literal)] else cs))
      else if c = 0x5C then
        (let (t, i) = backslash pattern i in (p\<lparr>p_literal := literal @ t, p_i := i\<rparr>, cs))
      else (p\<lparr>p_literal := literal @ [c]\<rparr>, cs))"

text \<open>The body of the loop, for the character \<open>c\<close> before the position.\<close>

definition converter_step :: "String \<Rightarrow> Parser \<Rightarrow> Converter list \<Rightarrow> u8 \<Rightarrow> parse_result" where
  "converter_step pattern p cs c =
     (let p = p\<lparr>p_literal := p_literal p @ [c]\<rparr>; f = p_formatting p in
      if c = 0x2D then Some (Inr (p\<lparr>p_formatting := f\<lparr>justification := E_LEFT_JUSTIFY\<rparr>\<rparr>, cs))
      else if c = 0x2E then Some (Inr (p\<lparr>p_state := E_DOT_STATE\<rparr>, cs))
      else if isdigit c then
        Some (Inr (p\<lparr>p_formatting := f\<lparr>minWidth := uint c - 0x30\<rparr>, p_state := E_MIN_STATE\<rparr>, cs))
      else finalizeConverter pattern p cs c)"

definition min_step :: "String \<Rightarrow> Parser \<Rightarrow> Converter list \<Rightarrow> u8 \<Rightarrow> parse_result" where
  "min_step pattern p cs c =
     (let p = p\<lparr>p_literal := p_literal p @ [c]\<rparr>; f = p_formatting p in
      if isdigit c then
        Some (rbind (add_digit (minWidth f) c) (\<lambda>n. Inr (p\<lparr>p_formatting := f\<lparr>minWidth := n\<rparr>\<rparr>, cs)))
      else if c = 0x2E then Some (Inr (p\<lparr>p_state := E_DOT_STATE\<rparr>, cs))
      else finalizeConverter pattern p cs c)"

definition dot_step :: "Parser \<Rightarrow> Converter list \<Rightarrow> u8 \<Rightarrow> parse_result" where
  "dot_step p cs c =
     (let p = p\<lparr>p_literal := p_literal p @ [c]\<rparr>; f = p_formatting p in
      if isdigit c then
        Some (Inr (p\<lparr>p_formatting := f\<lparr>maxWidth := uint c - 0x30\<rparr>, p_state := E_MAX_STATE\<rparr>, cs))
      else Some (Inl (NO_DIGIT_AFTER_DOT (p_i p) c)))"

definition max_step :: "String \<Rightarrow> Parser \<Rightarrow> Converter list \<Rightarrow> u8 \<Rightarrow> parse_result" where
  "max_step pattern p cs c =
     (let p = p\<lparr>p_literal := p_literal p @ [c]\<rparr>; f = p_formatting p in
      if isdigit c then
        Some (rbind (add_digit (maxWidth f) c) (\<lambda>n. Inr (p\<lparr>p_formatting := f\<lparr>maxWidth := n\<rparr>\<rparr>, cs)))
      else finalizeConverter pattern p cs c)"

definition parse_step :: "String \<Rightarrow> Parser \<Rightarrow> Converter list \<Rightarrow> parse_result" where
  "parse_step pattern p cs =
     (let c = at pattern (p_i p); p1 = p\<lparr>p_i := p_i p + 1\<rparr> in
      case p_state p of
        E_LITERAL_STATE \<Rightarrow> Some (Inr (literal_step pattern p1 cs c))
      | E_CONVERTER_STATE \<Rightarrow> converter_step pattern p1 cs c
      | E_MIN_STATE \<Rightarrow> min_step pattern p1 cs c
      | E_DOT_STATE \<Rightarrow> dot_step p1 cs c
      | E_MAX_STATE \<Rightarrow> max_step pattern p1 cs c)"

partial_function (option) pattern_loop :: "String \<Rightarrow> Parser \<Rightarrow> Converter list \<Rightarrow> (pattern_error + Converter list) option" where
  "pattern_loop pattern p cs =
     (if p_i p < slength pattern then
        (case parse_step pattern p cs of
           None \<Rightarrow> None
         | Some r \<Rightarrow> (case r of Inl e \<Rightarrow> Some (Inl e) | Inr x \<Rightarrow> pattern_loop pattern (fst x) (snd x)))
      else Some (Inr (if length (p_literal p) > 0 then cs @ [LiteralConverter (literal_String (p_literal p))] else cs)))"

definition pattern_parse :: "String \<Rightarrow> (pattern_error + Converter list) option" where
  "pattern_parse pattern = pattern_loop pattern Parser_new []"

definition STR_DEFAULT_MESSAGE_PATTERN :: bytes where "STR_DEFAULT_MESSAGE_PATTERN = lit ''%r [%t] %p %c - %m''"

end
