(* ===== verification/LogPattern_Props.thy ===== *)
theory LogPattern_Props
  imports LogPattern StringBuffer_Props
begin

text \<open>
  The properties of the pattern formatter: the widths of the converted texts, the parser as
  the inverse of a printer of patterns, its termination, and what goes wrong.
\<close>

section \<open>Widths\<close>

definition target_length :: "Formatting \<Rightarrow> nat \<Rightarrow> nat" where
  "target_length f n = nat (if int n > maxWidth f then maxWidth f else max (int n) (minWidth f))"

text \<open>
  The text that is appended for a conversion has the length that its widths ask for: it
  is the converted text, cut to the maximal width at the end that the justification leaves
  free, or filled there with spaces to the minimal one.
\<close>

theorem format_text_widths:
  assumes "length t < 2 ^ 31" and "0 < length t" and "0 \<le> maxWidth f"
  shows "length (format_text f t) = target_length f (length t) \<and>
    (case justification f of
       E_LEFT_JUSTIFY \<Rightarrow> \<exists>a. format_text f t = take (target_length f (length t)) t @ spaces a
     | E_RIGHT_JUSTIFY \<Rightarrow> \<exists>a. format_text f t = spaces a @ drop (length t - target_length f (length t)) t)"
proof -
  have l: "int_cast (length t) = int (length t)" using assms(1) by (rule int_cast_small)
  have s0: "x = x @ spaces 0" "x = spaces 0 @ x" for x by (simp_all add: spaces_def)
  have sp: "length (spaces a) = nat a" for a by (simp add: spaces_def)
  consider (whole) "minWidth f = NO_MIN_WIDTH" "maxWidth f = NO_MAX_WIDTH"
    | (cut) "int (length t) > maxWidth f" "\<not> (minWidth f = NO_MIN_WIDTH \<and> maxWidth f = NO_MAX_WIDTH)"
    | (fill) "\<not> int (length t) > maxWidth f" "int (length t) < minWidth f" "\<not> (minWidth f = NO_MIN_WIDTH \<and> maxWidth f = NO_MAX_WIDTH)"
    | (fit) "\<not> int (length t) > maxWidth f" "\<not> int (length t) < minWidth f" "\<not> (minWidth f = NO_MIN_WIDTH \<and> maxWidth f = NO_MAX_WIDTH)"
    by blast
  then show ?thesis
  proof cases
    case whole
    then have "target_length f (length t) = length t" "format_text f t = t"
      using assms(1) by (simp_all add: target_length_def format_text_def NO_MIN_WIDTH_def NO_MAX_WIDTH_def)
    then show ?thesis using s0 [of t] by (auto split: EJustificationFlag.splits)
  next
    case cut
    then have n: "target_length f (length t) = nat (maxWidth f)" by (simp add: target_length_def)
    have "length t - nat (maxWidth f) = nat (int (length t) - maxWidth f)" using assms(3) by simp
    then have "format_text f t = (if justification f = E_LEFT_JUSTIFY then take (nat (maxWidth f)) t
        else drop (length t - nat (maxWidth f)) t)"
      using cut assms(2) unfolding format_text_def Let_def l by auto
    then show ?thesis using cut(1) s0(1) [of "take (nat (maxWidth f)) t"] s0(2) [of "drop (length t - nat (maxWidth f)) t"]
      by (auto simp: n split: EJustificationFlag.splits)
  next
    case fill
    then have n: "target_length f (length t) = nat (minWidth f)" "length t \<le> nat (minWidth f)" by (simp_all add: target_length_def)
    have "format_text f t = (if justification f = E_LEFT_JUSTIFY then t @ spaces (minWidth f - int (length t))
        else spaces (minWidth f - int (length t)) @ t)"
      using fill assms(2) unfolding format_text_def Let_def l by auto
    then show ?thesis using fill n by (auto simp: sp split: EJustificationFlag.splits)
  next
    case fit
    then have n: "target_length f (length t) = length t" by (simp add: target_length_def)
    have "format_text f t = t" using fit assms(2) unfolding format_text_def Let_def l by auto
    then show ?thesis using n s0 [of t] by (auto split: EJustificationFlag.splits)
  qed
qed

theorem format_text_widths_witness:
  "length (format_text \<lparr>minWidth = 5, maxWidth = 9, justification = E_RIGHT_JUSTIFY\<rparr> [0x61, 0x62]) = 5"
  using format_text_widths [of "[0x61, 0x62]" "\<lparr>minWidth = 5, maxWidth = 9, justification = E_RIGHT_JUSTIFY\<rparr>"]
  by (simp add: target_length_def)

lemma at_text [simp]:
  assumes "0 \<notin> set t" "i \<le> length t"
  shows "at (String_of (t @ [0])) i = (t @ [0]) ! i"
  using assms by (simp add: at_def String_of_def ByteBuf_of_def strlen_def cstr_append_nul)

lemma slength_text [simp]: "0 \<notin> set t \<Longrightarrow> slength (String_of (t @ [0])) = length t"
  by (simp add: slength_def String_of_def ByteBuf_of_def strlen_def cstr_append_nul)

lemma c_str_text [simp]: "0 \<notin> set t \<Longrightarrow> c_str (String_of (t @ [0])) = t @ [0]"
  by (simp add: c_str_def String_of_def ByteBuf_of_def strlen_def cstr_append_nul)

lemma string_bytes_text [simp]: "0 \<notin> set t \<Longrightarrow> string_bytes (String_of (t @ [0])) = t"
  by (simp add: string_bytes_def)

section \<open>Runs of the parser\<close>

text \<open>The parser at the offset of a suffix of the pattern, in the literal state.\<close>

definition literal_state :: "nat \<Rightarrow> bytes \<Rightarrow> Parser" where
  "literal_state i l = \<lparr>p_i = i, p_state = E_LITERAL_STATE, p_literal = l, p_formatting = Formatting_new\<rparr>"

definition parses :: "bytes \<Rightarrow> Parser \<times> Converter list \<Rightarrow> Parser \<times> Converter list \<Rightarrow> bool" where
  "parses t x y \<longleftrightarrow> (let s = String_of (t @ [0]) in pattern_loop s (fst x) (snd x) = pattern_loop s (fst y) (snd y))"

lemma parses_refl: "parses t x x" by (simp add: parses_def)

lemma parses_trans: "parses t x y \<Longrightarrow> parses t y z \<Longrightarrow> parses t x z" by (simp add: parses_def Let_def)

lemma parses_step:
  assumes "0 \<notin> set t" "p_i p < length t" "parse_step (String_of (t @ [0])) p cs = Some (Inr (q, cs'))"
  shows "parses t (p, cs) (q, cs')"
  using assms unfolding parses_def Let_def by (subst pattern_loop.simps) simp

text \<open>A text is printed with its percent signs and backslashes doubled.\<close>

definition escape_char :: "u8 \<Rightarrow> bytes" where
  "escape_char c = (if c = 0x25 \<or> c = 0x5C then [c, c] else [c])"

definition escape_text :: "bytes \<Rightarrow> bytes" where "escape_text t = concat (map escape_char t)"

lemma parse_step_here:
  assumes "0 \<notin> set (a @ c # b)"
  shows "parse_step (String_of ((a @ c # b) @ [0])) (p\<lparr>p_i := length a\<rparr>) cs =
    (let s = String_of ((a @ c # b) @ [0]); p1 = p\<lparr>p_i := Suc (length a)\<rparr> in
     case p_state p of
        E_LITERAL_STATE \<Rightarrow> Some (Inr (literal_step s p1 cs c))
      | E_CONVERTER_STATE \<Rightarrow> converter_step s p1 cs c
      | E_MIN_STATE \<Rightarrow> min_step s p1 cs c
      | E_DOT_STATE \<Rightarrow> dot_step p1 cs c
      | E_MAX_STATE \<Rightarrow> max_step s p1 cs c)"
proof -
  have "at (String_of ((a @ c # b) @ [0])) (length a) = c"
    using assms by (subst at_text) (simp_all add: nth_append)
  then show ?thesis by (simp add: parse_step_def Let_def)
qed

lemma parses_here:
  assumes "t = a @ c # b" "0 \<notin> set t"
    and "(let s = String_of (t @ [0]); p1 = p\<lparr>p_i := Suc (length a)\<rparr> in
     case p_state p of
        E_LITERAL_STATE \<Rightarrow> Some (Inr (literal_step s p1 cs c))
      | E_CONVERTER_STATE \<Rightarrow> converter_step s p1 cs c
      | E_MIN_STATE \<Rightarrow> min_step s p1 cs c
      | E_DOT_STATE \<Rightarrow> dot_step p1 cs c
      | E_MAX_STATE \<Rightarrow> max_step s p1 cs c) = Some (Inr y)"
  shows "parses t (p\<lparr>p_i := length a\<rparr>, cs) y"
  using assms parse_step_here [of a c b p cs] parses_step [of t "p\<lparr>p_i := length a\<rparr>" cs "fst y" "snd y"] by simp

lemma at_here:
  assumes "0 \<notin> set (a @ b)" "k = length a + i" "i \<le> length b"
  shows "at (String_of ((a @ b) @ [0])) k = (b @ [0]) ! i"
  using assms by (subst at_text) (simp_all add: nth_append)

lemma parses_escaped_char:
  assumes "t = a @ escape_char c @ b" "0 \<notin> set t"
  shows "parses t (literal_state (length a) l, cs) (literal_state (length (a @ escape_char c)) (l @ [c]), cs)"
proof (cases "c = 0x25 \<or> c = 0x5C")
  case True
  then have e: "t = a @ c # c # b" "0 \<notin> set (a @ c # c # b)" using assms by (simp_all add: escape_char_def)
  have "at (String_of (t @ [0])) (Suc (length a)) = c"
    unfolding e(1) using e(2) by (subst at_here [where i = 1]) simp_all
  moreover have "slength (String_of (t @ [0])) \<noteq> Suc (length a)" 
    by (simp only: slength_text [OF assms(2)]) (simp add: e(1))
  ultimately have "literal_step (String_of (t @ [0])) (literal_state (Suc (length a)) l) cs c =
      (literal_state (length (a @ escape_char c)) (l @ [c]), cs)"
    using True by (auto simp: literal_step_def literal_state_def backslash_def escape_char_def)
  then show ?thesis using parses_here [OF e(1) assms(2), of "literal_state (length a) l" cs]
    by (simp add: literal_state_def)
next
  case False
  then have e: "t = a @ c # b" "escape_char c = [c]" using assms by (simp_all add: escape_char_def)
  have "literal_step (String_of (t @ [0])) (literal_state (Suc (length a)) l) cs c =
      (literal_state (length (a @ escape_char c)) (l @ [c]), cs)"
    using False by (simp add: literal_step_def literal_state_def e(2))
  then show ?thesis using parses_here [OF e(1) assms(2), of "literal_state (length a) l" cs]
    by (simp add: literal_state_def)
qed

lemma parses_escaped_text:
  assumes "t = a @ escape_text u @ b" "0 \<notin> set t"
  shows "parses t (literal_state (length a) l, cs) (literal_state (length (a @ escape_text u)) (l @ u), cs)"
  using assms(1)
proof (induction u arbitrary: a l)
  case Nil
  then show ?case by (simp add: escape_text_def parses_refl)
next
  case (Cons c u)
  have e: "t = a @ escape_char c @ escape_text u @ b" "t = (a @ escape_char c) @ escape_text u @ b"
    using Cons.prems by (simp_all add: escape_text_def)
  show ?case
    using parses_trans [OF parses_escaped_char [OF e(1) assms(2)] Cons.IH [OF e(2)]] by (simp add: escape_text_def)
qed

section \<open>Conversions\<close>

definition conv_state :: "EParserState \<Rightarrow> nat \<Rightarrow> bytes \<Rightarrow> Formatting \<Rightarrow> Parser" where
  "conv_state st i l f = \<lparr>p_i = i, p_state = st, p_literal = l, p_formatting = f\<rparr>"

lemma dec_digit:
  assumes "digit_at 10 c"
  shows "isdigit c" "uint c - 0x30 = int (the (digit_value c))" "c \<noteq> 0x2D" "c \<noteq> 0x2E" "c \<noteq> 0x25" "c \<noteq> 0x6E"
proof -
  have c: "isdigit c"
  proof (rule ccontr)
    assume n: "\<not> isdigit c"
    then have al: "isalpha c" using assms by (auto simp: digit_value_def split: if_splits)
    then have "10 \<le> unat c - (if isupper c then 0x41 - 10 else 0x61 - 10)"
      by (auto simp: isalpha_def isupper_def word_le_nat_alt)
    then show False using n al assms by (simp add: digit_value_def split: if_splits)
  qed
  then have "48 \<le> unat c" by (simp add: isdigit_def word_le_nat_alt)
  then have "uint c - 0x30 = int (unat c - 0x30)" by (simp add: of_nat_diff)
  moreover have "the (digit_value c) = unat c - 0x30" using c by (simp add: digit_value_def)
  ultimately show "isdigit c" "uint c - 0x30 = int (the (digit_value c))" using c by simp_all
  show "c \<noteq> 0x2D" "c \<noteq> 0x2E" "c \<noteq> 0x25" "c \<noteq> 0x6E" using c by (auto simp: isdigit_def)
qed

lemma add_digit_ok:
  assumes "digit_at 10 c" "w * 10 + the (digit_value c) < 2 ^ 31"
  shows "add_digit (int w) c = Inr (int (w * 10 + the (digit_value c)))"
  using assms(2) unfolding add_digit_def dec_digit(2) [OF assms(1)] Let_def by simp

lemma value_from_10_ge: "a \<le> value_from 10 a t" by (rule value_from_ge) simp

lemma parses_min_digits:
  assumes "t = a @ ds @ b" "0 \<notin> set t" "list_all (digit_at 10) ds" "value_from 10 w ds < 2 ^ 31"
  shows "parses t (conv_state E_MIN_STATE (length a) l (f\<lparr>minWidth := int w\<rparr>), cs)
    (conv_state E_MIN_STATE (length (a @ ds)) (l @ ds) (f\<lparr>minWidth := int (value_from 10 w ds)\<rparr>), cs)"
  using assms(1,3,4)
proof (induction ds arbitrary: a w l)
  case (Cons c ds)
  let ?w = "w * 10 + the (digit_value c)"
  have c: "digit_at 10 c" using Cons.prems(2) by simp
  have e: "t = a @ c # ds @ b" "t = (a @ [c]) @ ds @ b" using Cons.prems(1) by simp_all
  have "?w < 2 ^ 31" using Cons.prems(3) value_from_10_ge [of ?w ds] by simp
  then have "add_digit (int w) c = Inr (int ?w)" using c by (intro add_digit_ok)
  then have "parses t (conv_state E_MIN_STATE (length a) l (f\<lparr>minWidth := int w\<rparr>), cs)
      (conv_state E_MIN_STATE (length (a @ [c])) (l @ [c]) (f\<lparr>minWidth := int ?w\<rparr>), cs)"
    using parses_here [OF e(1) assms(2), of "conv_state E_MIN_STATE (length a) l (f\<lparr>minWidth := int w\<rparr>)" cs] dec_digit [OF c]
    by (simp add: conv_state_def min_step_def Let_def)
  moreover have "list_all (digit_at 10) ds" "value_from 10 ?w ds < 2 ^ 31" using Cons.prems(2,3) by simp_all
  note Cons.IH [OF e(2) this, of "l @ [c]"]
  ultimately show ?case using parses_trans by simp
qed (simp add: parses_refl)

lemma parses_max_digits:
  assumes "t = a @ ds @ b" "0 \<notin> set t" "list_all (digit_at 10) ds" "value_from 10 w ds < 2 ^ 31"
  shows "parses t (conv_state E_MAX_STATE (length a) l (f\<lparr>maxWidth := int w\<rparr>), cs)
    (conv_state E_MAX_STATE (length (a @ ds)) (l @ ds) (f\<lparr>maxWidth := int (value_from 10 w ds)\<rparr>), cs)"
  using assms(1,3,4)
proof (induction ds arbitrary: a w l)
  case (Cons c ds)
  let ?w = "w * 10 + the (digit_value c)"
  have c: "digit_at 10 c" using Cons.prems(2) by simp
  have e: "t = a @ c # ds @ b" "t = (a @ [c]) @ ds @ b" using Cons.prems(1) by simp_all
  have "?w < 2 ^ 31" using Cons.prems(3) value_from_10_ge [of ?w ds] by simp
  then have "add_digit (int w) c = Inr (int ?w)" using c by (intro add_digit_ok)
  then have "parses t (conv_state E_MAX_STATE (length a) l (f\<lparr>maxWidth := int w\<rparr>), cs)
      (conv_state E_MAX_STATE (length (a @ [c])) (l @ [c]) (f\<lparr>maxWidth := int ?w\<rparr>), cs)"
    using parses_here [OF e(1) assms(2), of "conv_state E_MAX_STATE (length a) l (f\<lparr>maxWidth := int w\<rparr>)" cs] dec_digit [OF c]
    by (simp add: conv_state_def max_step_def Let_def)
  moreover have "list_all (digit_at 10) ds" "value_from 10 ?w ds < 2 ^ 31" using Cons.prems(2,3) by simp_all
  note Cons.IH [OF e(2) this, of "l @ [c]"]
  ultimately show ?case using parses_trans by simp
qed (simp add: parses_refl)

text \<open>A number in the converter state is the minimal width, one after a dot the maximal.\<close>

lemma print_nat_digits:
  obtains c ds where "print_nat n = c # ds" "digit_at 10 c" "list_all (digit_at 10) ds"
    "value_from 10 (the (digit_value c)) ds = n"
proof -
  have p: "numeral_ok 10 (print_nat n)" "numeral_value 10 (print_nat n) = n" using print_nat_numeral by simp_all
  then obtain c ds where c: "print_nat n = c # ds" by (cases "print_nat n") (auto simp: numeral_ok_def)
  then have "value_from 10 (the (digit_value c)) ds = n"
    using p(2) by (simp add: numeral_value_from)
  then show thesis using that [OF c] p(1) by (simp add: numeral_ok_def c)
qed

lemma parses_min:
  assumes "t = a @ print_nat n @ b" "0 \<notin> set t" "n < 2 ^ 31"
  shows "parses t (conv_state E_CONVERTER_STATE (length a) l f, cs)
    (conv_state E_MIN_STATE (length (a @ print_nat n)) (l @ print_nat n) (f\<lparr>minWidth := int n\<rparr>), cs)"
proof -
  obtain c ds where d: "print_nat n = c # ds" "digit_at 10 c" "list_all (digit_at 10) ds"
    "value_from 10 (the (digit_value c)) ds = n" by (rule print_nat_digits)
  have e: "t = a @ c # ds @ b" "t = (a @ [c]) @ ds @ b" using assms(1) d(1) by simp_all
  have "parses t (conv_state E_CONVERTER_STATE (length a) l f, cs)
      (conv_state E_MIN_STATE (length (a @ [c])) (l @ [c]) (f\<lparr>minWidth := int (the (digit_value c))\<rparr>), cs)"
    using parses_here [OF e(1) assms(2), of "conv_state E_CONVERTER_STATE (length a) l f" cs] dec_digit [OF d(2)]
    by (simp add: conv_state_def converter_step_def Let_def)
  from parses_trans [OF this parses_min_digits [OF e(2) assms(2) d(3)]] show ?thesis
    using assms(3) d(4) by (simp add: d(1))
qed

lemma parses_max:
  assumes "t = a @ 0x2E # print_nat n @ b" "0 \<notin> set t" "n < 2 ^ 31" "st = E_CONVERTER_STATE \<or> st = E_MIN_STATE"
  shows "parses t (conv_state st (length a) l f, cs)
    (conv_state E_MAX_STATE (length (a @ 0x2E # print_nat n)) (l @ 0x2E # print_nat n) (f\<lparr>maxWidth := int n\<rparr>), cs)"
proof -
  obtain c ds where d: "print_nat n = c # ds" "digit_at 10 c" "list_all (digit_at 10) ds"
    "value_from 10 (the (digit_value c)) ds = n" by (rule print_nat_digits)
  have e: "t = (a @ [0x2E]) @ c # ds @ b" "t = ((a @ [0x2E]) @ [c]) @ ds @ b" using assms(1) d(1) by simp_all
  have "parses t (conv_state st (length a) l f, cs) (conv_state E_DOT_STATE (length (a @ [0x2E])) (l @ [0x2E]) f, cs)"
    using parses_here [OF assms(1,2), of "conv_state st (length a) l f" cs] assms(4)
    by (auto simp: conv_state_def converter_step_def min_step_def isdigit_def Let_def)
  moreover have "parses t (conv_state E_DOT_STATE (length (a @ [0x2E])) (l @ [0x2E]) f, cs)
      (conv_state E_MAX_STATE (length ((a @ [0x2E]) @ [c])) ((l @ [0x2E]) @ [c]) (f\<lparr>maxWidth := int (the (digit_value c))\<rparr>), cs)"
    using parses_here [OF e(1) assms(2), of "conv_state E_DOT_STATE (length (a @ [0x2E])) (l @ [0x2E]) f" cs] dec_digit [OF d(2)]
    by (simp add: conv_state_def dot_step_def Let_def)
  moreover have "value_from 10 (the (digit_value c)) ds < 2 ^ 31" using assms(3) d(4) by simp
  note parses_max_digits [OF e(2) assms(2) d(3) this, of "(l @ [0x2E]) @ [c]" f cs]
  ultimately have "parses t (conv_state st (length a) l f, cs)
      (conv_state E_MAX_STATE (length (((a @ [0x2E]) @ [c]) @ ds)) (((l @ [0x2E]) @ [c]) @ ds)
        (f\<lparr>maxWidth := int (value_from 10 (the (digit_value c)) ds)\<rparr>), cs)"
    using parses_trans by blast
  then show ?thesis by (simp add: d(1) d(4))
qed

lemma parses_final:
  assumes "t = a @ c # b" "0 \<notin> set t" "st = E_CONVERTER_STATE \<or> st = E_MIN_STATE \<or> st = E_MAX_STATE"
    and "\<not> isdigit c" "c \<noteq> 0x2D" "c \<noteq> 0x2E" "make_converter (String_of (t @ [0])) (Suc (length a)) f c = Some (Inr (rv, i))"
  shows "parses t (conv_state st (length a) l f, cs) (literal_state i [], cs @ [rv])"
  using parses_here [OF assms(1,2), of "conv_state st (length a) l f" cs] assms(3-)
  by (auto simp: conv_state_def converter_step_def min_step_def max_step_def finalizeConverter_def literal_state_def Let_def)

section \<open>Options\<close>

lemma strchr_here:
  assumes "c \<notin> set o1" "0 \<notin> set o1" "c \<noteq> 0"
  shows "strchr (o1 @ c # b) c = Some (length o1)"
  using assms by (induction o1) auto

lemma substring_here:
  assumes "0 \<notin> set (a @ u @ b)" "length (a @ u @ b) < 2 ^ 62"
  shows "substring (String_of ((a @ u @ b) @ [0])) (length a) (length u) = Inr (if u = [] then None else String_of (u @ [0]))"
proof (cases "u = []")
  case False
  have nz: "0 \<notin> set u" using assms(1) by simp
  have l: "size_add (length u) (length a) = length u + length a" "\<not> length (a @ u @ b) < length u + length a"
    using assms(2) by (simp_all add: size_add_def)
  have "length u \<noteq> npos" "\<not> length u + 1 > 2 ^ 63" using assms(2) by (simp_all add: npos_def)
  moreover have "String_of (u @ [0]) = Some \<lparr>m_len = length u, m_data = u @ [0]\<rparr>"
    using nz by (simp add: String_of_def ByteBuf_of_def strlen_def cstr_append_nul)
  ultimately show ?thesis using False l
    unfolding substring_def slength_text [OF assms(1)] c_str_text [OF assms(1)] Let_def
    by (simp add: String_of_len_def)
qed (simp add: substring_def Let_def)

lemma getOption_here:
  assumes t: "t = a @ 0x7B # o1 @ 0x7D # b" and z: "0 \<notin> set t" "length t < 2 ^ 62" and o1: "0x7D \<notin> set o1"
  shows "getOption (String_of (t @ [0])) (length a) =
    Inr (if o1 = [] then None else String_of (o1 @ [0]), length (a @ 0x7B # o1 @ [0x7D]))"
proof -
  let ?s = "String_of (t @ [0])"
  have e: "t = (a @ [0x7B]) @ o1 @ 0x7D # b" using t by simp
  have sl: "slength ?s = length t" "c_str ?s = t @ [0]" using z(1) by (rule slength_text, intro c_str_text)
  have at: "at ?s (length a) = 0x7B" using at_here [of a "0x7B # o1 @ 0x7D # b" "length a" 0] z(1) by (simp add: t)
  have "drop (length a) (t @ [0]) = (0x7B # o1) @ 0x7D # b @ [0]" by (simp add: t)
  moreover have "strchr ((0x7B # o1) @ 0x7D # b @ [0]) 0x7D = Some (Suc (length o1))"
    using strchr_here [of "0x7D" "0x7B # o1" "b @ [0]"] z(1) o1 t by simp
  ultimately have i: "indexOf_char ?s 0x7D (length a) = length a + Suc (length o1)"
    by (simp only: indexOf_char_def sl) (simp add: t)
  have n: "size_add (length a) 1 = length (a @ [0x7B])"
    "size_sub (length a + Suc (length o1)) (length (a @ [0x7B])) = length o1"
    "size_add (length a + Suc (length o1)) 1 = length (a @ 0x7B # o1 @ [0x7D])"
    using z(2) by (simp_all add: t size_add_def size_sub_def)
  have "substring ?s (length (a @ [0x7B])) (length o1) = Inr (if o1 = [] then None else String_of (o1 @ [0]))"
    unfolding e by (rule substring_here [OF z [unfolded e]])
  then show ?thesis unfolding getOption_def Let_def sl(1) at i n
    by (simp add: t string_step_def)
qed

lemma getOption_none:
  assumes t: "t = a @ b" and z: "0 \<notin> set t" and b: "b = [] \<or> hd b \<noteq> 0x7B"
  shows "getOption (String_of (t @ [0])) (length a) = Inr (None, length a)"
proof (cases b)
  case Nil
  then show ?thesis unfolding getOption_def slength_text [OF z] by (simp add: t)
next
  case (Cons c cs)
  then have "at (String_of (t @ [0])) (length a) = c" using at_here [of a b "length a" 0] z by (simp add: t)
  then show ?thesis using b Cons by (simp add: getOption_def)
qed

section \<open>The printer\<close>

datatype kind = Simple u8 | Component "nat option" | Date "bytes option"

datatype item = Text bytes | Conversion bool "nat option" "nat option" kind

definition brace_text :: "bytes option \<Rightarrow> bytes" where
  "brace_text o1 = (case o1 of None \<Rightarrow> [] | Some t \<Rightarrow> 0x7B # t @ [0x7D])"

fun kind_text :: "kind \<Rightarrow> bytes" where
  "kind_text (Simple c) = [c]"
| "kind_text (Component n) = 0x63 # brace_text (map_option print_nat n)"
| "kind_text (Date o1) = 0x64 # brace_text o1"

definition min_text :: "nat option \<Rightarrow> bytes" where
  "min_text mn = (case mn of None \<Rightarrow> [] | Some n \<Rightarrow> print_nat n)"

definition max_text :: "nat option \<Rightarrow> bytes" where
  "max_text mx = (case mx of None \<Rightarrow> [] | Some n \<Rightarrow> 0x2E # print_nat n)"

fun item_text :: "item \<Rightarrow> bytes" where
  "item_text (Text u) = escape_text u"
| "item_text (Conversion left mn mx k) =
     0x25 # (if left then [0x2D] else []) @ min_text mn @ max_text mx @ kind_text k"

definition print_items :: "item list \<Rightarrow> bytes" where "print_items xs = concat (map item_text xs)"

definition option_String :: "bytes option \<Rightarrow> String" where
  "option_String o1 = (case o1 of None \<Rightarrow> None | Some t \<Rightarrow> String_of (t @ [0]))"

definition simple_converters :: "(u8 \<times> (Formatting \<Rightarrow> Converter)) list" where
  "simple_converters =
     [(0x46, FileLocationConverter), (0x6C, FullLocationConverter), (0x4C, LineLocationConverter),
      (0x4D, MethodLocationConverter), (0x6D, MessageConverter), (0x65, XMLMessageConverter),
      (0x70, CategoryConverter), (0x72, RelativeTimeConverter), (0x74, ThreadConverter), (0x50, PidConverter)]"

fun kind_converter :: "Formatting \<Rightarrow> kind \<Rightarrow> Converter" where
  "kind_converter f (Simple c) = the (map_of simple_converters c) f"
| "kind_converter f (Component n) = ComponentConverter f (case n of None \<Rightarrow> 0 | Some n \<Rightarrow> int n)"
| "kind_converter f (Date o1) = DateConverter f (projr (the (date_format (option_String o1))))"

definition item_formatting :: "bool \<Rightarrow> nat option \<Rightarrow> nat option \<Rightarrow> Formatting" where
  "item_formatting left mn mx =
     \<lparr>minWidth = (case mn of None \<Rightarrow> NO_MIN_WIDTH | Some n \<Rightarrow> int n),
      maxWidth = (case mx of None \<Rightarrow> NO_MAX_WIDTH | Some n \<Rightarrow> int n),
      justification = (if left then E_LEFT_JUSTIFY else E_RIGHT_JUSTIFY)\<rparr>"

fun item_converter :: "item \<Rightarrow> Converter" where
  "item_converter (Text u) = LiteralConverter (literal_String u)"
| "item_converter (Conversion left mn mx k) = kind_converter (item_formatting left mn mx) k"

text \<open>A conversion without an option must not stand before a brace, and texts must not be
  adjacent: both would be read as something else.\<close>

fun kind_ok :: "kind \<Rightarrow> bytes \<Rightarrow> bool" where
  "kind_ok (Simple c) rest = (c \<in> fst ` set simple_converters)"
| "kind_ok (Component n) rest = (case n of None \<Rightarrow> rest = [] \<or> hd rest \<noteq> 0x7B | Some n \<Rightarrow> n < 2 ^ 31)"
| "kind_ok (Date o1) rest = ((case o1 of None \<Rightarrow> rest = [] \<or> hd rest \<noteq> 0x7B | Some t \<Rightarrow> t \<noteq> [] \<and> 0x7D \<notin> set t) \<and>
     (\<exists>f. date_format (option_String o1) = Some (Inr f)))"

fun small :: "nat option \<Rightarrow> bool" where "small None = True" | "small (Some n) = (n < 2 ^ 31)"

fun printable :: "item list \<Rightarrow> bool" where
  "printable [] = True"
| "printable (Text u # xs) = (u \<noteq> [] \<and> (\<forall>v ys. xs \<noteq> Text v # ys) \<and> printable xs)"
| "printable (Conversion left mn mx k # xs) = (small mn \<and> small mx \<and> kind_ok k (print_items xs) \<and> printable xs)"

lemma simple_ok:
  assumes "c \<in> fst ` set simple_converters"
  shows "make_converter s i f c = Some (Inr (kind_converter f (Simple c), i))"
    "\<not> isdigit c" "c \<noteq> 0x2D" "c \<noteq> 0x2E" "c \<noteq> 0x25" "c \<noteq> 0x6E"
  using assms by (auto simp: simple_converters_def make_converter_def isdigit_def)

lemma getPrecision_here:
  assumes t: "t = a @ brace_text (map_option print_nat n) @ b" and z: "0 \<notin> set t" "length t < 2 ^ 62"
    and n: "case n of None \<Rightarrow> b = [] \<or> hd b \<noteq> 0x7B | Some n \<Rightarrow> n < 2 ^ 31"
  shows "getPrecision (String_of (t @ [0])) (length a) =
    Inr (case n of None \<Rightarrow> 0 | Some n \<Rightarrow> int n, length (a @ brace_text (map_option print_nat n)))"
proof (cases n)
  case None
  then show ?thesis using getOption_none [of t a b] t z(1) n
    by (simp add: getPrecision_def brace_text_def slength_def)
next
  case (Some m)
  let ?o = "print_nat m"
  have o1: "numeral_ok 10 ?o" "numeral_value 10 ?o = m" using print_nat_numeral by simp_all
  then have ne: "?o \<noteq> []" "list_all (digit_at 10) ?o" by (simp_all add: numeral_ok_def)
  have "\<not> digit_at 10 0x7D" by (simp add: digit_value_def isdigit_def isalpha_def isupper_def)
  then have br: "0x7D \<notin> set ?o" using ne(2) by (auto simp: list_all_iff)
  have "t = a @ 0x7B # ?o @ 0x7D # b" using t Some by (simp add: brace_text_def)
  note g = getOption_here [OF this z br]
  have nz: "0 \<notin> set ?o" by (rule print_nat_nonzero)
  have "toUInt32 (String_of (?o @ [0])) 10 = Inr m"
    using convertToUIntType_numeral [OF o1(1), of 32] n Some o1(2) by (simp add: toUInt32_def)
  moreover have "signed_wrap 32 (int m) = int m" using n Some signed_wrap_id [of 32 "int m"] by simp
  ultimately show ?thesis using g ne(1) slength_text [OF nz] Some
    by (simp add: getPrecision_def brace_text_def)
qed

lemma make_date_here:
  assumes t: "t = a @ brace_text o1 @ b" and z: "0 \<notin> set t" "length t < 2 ^ 62"
    and o1: "case o1 of None \<Rightarrow> b = [] \<or> hd b \<noteq> 0x7B | Some u \<Rightarrow> u \<noteq> [] \<and> 0x7D \<notin> set u"
    and d: "date_format (option_String o1) = Some (Inr fmt)"
  shows "make_converter (String_of (t @ [0])) (length a) f 0x64 = Some (Inr (DateConverter f fmt, length (a @ brace_text o1)))"
proof -
  have "getOption (String_of (t @ [0])) (length a) = Inr (option_String o1, length (a @ brace_text o1))"
  proof (cases o1)
    case None
    then show ?thesis using getOption_none [of t a b] t z(1) o1 by (simp add: brace_text_def option_String_def)
  next
    case (Some u)
    then have "t = a @ 0x7B # u @ 0x7D # b" using t by (simp add: brace_text_def)
    from getOption_here [OF this z] show ?thesis using o1 Some by (simp add: brace_text_def option_String_def)
  qed
  then show ?thesis using d by (simp add: make_converter_def)
qed

lemma kind_here:
  assumes t: "t = a @ kind_text k @ b" and z: "0 \<notin> set t" "length t < 2 ^ 62" and k: "kind_ok k b"
  shows "\<exists>c r. kind_text k = c # r \<and> \<not> isdigit c \<and> c \<noteq> 0x2D \<and> c \<noteq> 0x2E \<and> c \<noteq> 0x25 \<and> c \<noteq> 0x6E \<and>
    make_converter (String_of (t @ [0])) (Suc (length a)) f c = Some (Inr (kind_converter f k, length (a @ kind_text k)))"
proof (cases k)
  case (Simple c)
  then show ?thesis using simple_ok [of c] k by simp
next
  case (Component n)
  then have e: "t = (a @ [0x63]) @ brace_text (map_option print_nat n) @ b" using t by simp
  from getPrecision_here [OF e z] k Component show ?thesis by (simp add: make_converter_def isdigit_def)
next
  case (Date o1)
  then have e: "t = (a @ [0x64]) @ brace_text o1 @ b" using t by simp
  obtain fmt where d: "date_format (option_String o1) = Some (Inr fmt)" using k Date by auto
  from make_date_here [OF e z _ d, of f] k Date d show ?thesis by (simp add: isdigit_def)
qed

lemma item_formatting_update:
  "item_formatting left None None = Formatting_new\<lparr>justification := (if left then E_LEFT_JUSTIFY else E_RIGHT_JUSTIFY)\<rparr>"
  "item_formatting left (Some n) None = (item_formatting left None None)\<lparr>minWidth := int n\<rparr>"
  "item_formatting left mn (Some m) = (item_formatting left mn None)\<lparr>maxWidth := int m\<rparr>"
  by (simp_all add: item_formatting_def Formatting_new_def)

text \<open>A whole conversion, from the percent sign to the end of its option.\<close>

lemma conversion_head:
  assumes "kind_ok k b"
  obtains c r where "(if left then [0x2D] else []) @ min_text mn @ max_text mx @ kind_text k = c # r" "c \<noteq> 0x25" "c \<noteq> 0x6E"
proof -
  obtain c r where k: "kind_text k = c # r" "c \<noteq> 0x25" "c \<noteq> 0x6E"
    using simple_ok assms by (cases k) auto
  have d: "\<exists>d ds. print_nat n @ x = d # ds \<and> d \<noteq> 0x25 \<and> d \<noteq> 0x6E" for n x
    by (rule print_nat_digits [of n]) (use dec_digit(5,6) in auto)
  have "\<exists>c r. (if left then [0x2D] else []) @ min_text mn @ max_text mx @ kind_text k = c # r \<and> c \<noteq> 0x25 \<and> c \<noteq> 0x6E"
    using k d by (cases left; cases mn; cases mx) (simp_all add: min_text_def max_text_def)
  then show thesis using that by blast
qed

lemma parses_percent:
  assumes "t = a @ 0x25 # c # b" "0 \<notin> set t" "c \<noteq> 0x25" "c \<noteq> 0x6E"
  shows "parses t (literal_state (length a) l, cs) (conv_state E_CONVERTER_STATE (length (a @ [0x25])) [0x25] Formatting_new,
    cs @ (if l = [] then [] else [LiteralConverter (literal_String l)]))"
proof -
  have "at (String_of (t @ [0])) (Suc (length a)) = c" "length t \<noteq> Suc (length a)"
    using at_here [of a "0x25 # c # b" "Suc (length a)" 1] assms by simp_all
  then have "literal_step (String_of (t @ [0])) (literal_state (Suc (length a)) l) cs 0x25 =
      (conv_state E_CONVERTER_STATE (length (a @ [0x25])) [0x25] Formatting_new,
       cs @ (if l = [] then [] else [LiteralConverter (literal_String l)]))"
    using assms(3,4) slength_text [OF assms(2)] by (simp add: literal_step_def literal_state_def conv_state_def)
  then show ?thesis using parses_here [OF assms(1,2), of "literal_state (length a) l" cs] by (simp add: literal_state_def)
qed

lemma parses_left:
  assumes "t = a @ (if left then [0x2D] else []) @ b" "0 \<notin> set t"
  shows "\<exists>l'. parses t (conv_state E_CONVERTER_STATE (length a) l Formatting_new, cs)
    (conv_state E_CONVERTER_STATE (length (a @ (if left then [0x2D] else []))) l' (item_formatting left None None), cs)"
proof (cases left)
  case True
  then have "t = a @ 0x2D # b" using assms(1) by simp
  from parses_here [OF this assms(2), of "conv_state E_CONVERTER_STATE (length a) l Formatting_new" cs] True
  show ?thesis by (auto simp: conv_state_def converter_step_def Let_def item_formatting_update(1))
next
  case False
  then show ?thesis by (auto simp: item_formatting_update(1) Formatting_new_def intro: parses_refl)
qed

lemma parses_min_option:
  assumes "t = a @ min_text mn @ b" "0 \<notin> set t" "small mn"
  shows "\<exists>l' st. (st = E_CONVERTER_STATE \<or> st = E_MIN_STATE) \<and>
    parses t (conv_state E_CONVERTER_STATE (length a) l (item_formatting left None None), cs)
      (conv_state st (length (a @ min_text mn)) l' (item_formatting left mn None), cs)"
proof (cases mn)
  case None
  then have "length (a @ min_text mn) = length a" by (simp add: min_text_def)
  then show ?thesis using parses_refl None by metis
next
  case (Some n)
  then have "t = a @ print_nat n @ b" "n < 2 ^ 31" using assms by (simp_all add: min_text_def)
  from parses_min [OF this(1) assms(2) this(2), of l "item_formatting left None None" cs] Some show ?thesis
    unfolding Some item_formatting_update(2) min_text_def option.case by blast
qed

lemma parses_max_option:
  assumes "t = a @ max_text mx @ b" "0 \<notin> set t" "small mx" "st = E_CONVERTER_STATE \<or> st = E_MIN_STATE"
  shows "\<exists>l' st'. (st' = E_CONVERTER_STATE \<or> st' = E_MIN_STATE \<or> st' = E_MAX_STATE) \<and>
    parses t (conv_state st (length a) l (item_formatting left mn None), cs)
      (conv_state st' (length (a @ max_text mx)) l' (item_formatting left mn mx), cs)"
proof (cases mx)
  case None
  then have "length (a @ max_text mx) = length a" by (simp add: max_text_def)
  then show ?thesis using parses_refl None assms(4) by metis
next
  case (Some n)
  then have "t = a @ 0x2E # print_nat n @ b" "n < 2 ^ 31" using assms by (simp_all add: max_text_def)
  from parses_max [OF this(1) assms(2) this(2) assms(4), of l "item_formatting left mn None" cs] show ?thesis
    unfolding Some item_formatting_update(3) [of left mn n] max_text_def option.case by blast
qed

text \<open>From the percent sign to the end of the option.\<close>

lemma parses_conversion:
  assumes t: "t = a @ item_text (Conversion left mn mx k) @ b" and z: "0 \<notin> set t" "length t < 2 ^ 62"
    and ok: "small mn" "small mx" "kind_ok k b"
  shows "parses t (literal_state (length a) l, cs)
    (literal_state (length (a @ item_text (Conversion left mn mx k))) [],
     cs @ (if l = [] then [] else [LiteralConverter (literal_String l)]) @ [item_converter (Conversion left mn mx k)])"
proof -
  define a2 where "a2 = (a @ [0x25]) @ (if left then [0x2D] else [])"
  define a3 where "a3 = a2 @ min_text mn"
  define a4 where "a4 = a3 @ max_text mx"
  define L where "L = (if left then [0x2D] else [] :: bytes)"
  define cs' where "cs' = cs @ (if l = [] then [] else [LiteralConverter (literal_String l)])"
  note as = a2_def a3_def a4_def L_def
  have e: "t = a @ 0x25 # (L @ min_text mn @ max_text mx @ kind_text k) @ b"
    "t = (a @ [0x25]) @ (if left then [0x2D] else []) @ min_text mn @ max_text mx @ kind_text k @ b"
    "t = a2 @ min_text mn @ max_text mx @ kind_text k @ b" "t = a3 @ max_text mx @ kind_text k @ b" "t = a4 @ kind_text k @ b"
    using t by (simp_all add: as)
  obtain c r where cr: "L @ min_text mn @ max_text mx @ kind_text k = c # r" "c \<noteq> 0x25" "c \<noteq> 0x6E"
    using conversion_head [OF ok(3)] unfolding L_def .
  have "t = a @ 0x25 # c # r @ b" using e(1) unfolding cr(1) by simp
  note s0 = parses_percent [OF this z(1) cr(2,3), of l cs, folded cs'_def]
  obtain l1 where s1: "parses t (conv_state E_CONVERTER_STATE (length (a @ [0x25])) [0x25] Formatting_new, cs')
      (conv_state E_CONVERTER_STATE (length a2) l1 (item_formatting left None None), cs')"
    using parses_left [where l = "[0x25]" and cs = cs', OF e(2) z(1)] unfolding a2_def by blast
  obtain l2 st where st: "st = E_CONVERTER_STATE \<or> st = E_MIN_STATE"
    and s2: "parses t (conv_state E_CONVERTER_STATE (length a2) l1 (item_formatting left None None), cs')
      (conv_state st (length a3) l2 (item_formatting left mn None), cs')"
    using parses_min_option [where l = l1 and left = left and cs = cs', OF e(3) z(1) ok(1)] unfolding a3_def by blast
  obtain l3 st' where st': "st' = E_CONVERTER_STATE \<or> st' = E_MIN_STATE \<or> st' = E_MAX_STATE"
    and s3: "parses t (conv_state st (length a3) l2 (item_formatting left mn None), cs')
      (conv_state st' (length a4) l3 (item_formatting left mn mx), cs')"
    using parses_max_option [where l = l2 and left = left and mn = mn and cs = cs', OF e(4) z(1) ok(2) st] unfolding a4_def by blast
  obtain c r where k: "kind_text k = c # r" "\<not> isdigit c" "c \<noteq> 0x2D" "c \<noteq> 0x2E"
    "make_converter (String_of (t @ [0])) (Suc (length a4)) (item_formatting left mn mx) c =
      Some (Inr (kind_converter (item_formatting left mn mx) k, length (a4 @ kind_text k)))"
    using kind_here [OF e(5) z ok(3)] by blast
  have "t = a4 @ c # r @ b" using e(5) k(1) by simp
  note s4 = parses_final [OF this z(1) st' k(2-5), of l3 cs']
  have "a4 @ kind_text k = a @ item_text (Conversion left mn mx k)" by (simp add: as)
  then show ?thesis
    using parses_trans [OF s0 parses_trans [OF s1 parses_trans [OF s2 parses_trans [OF s3 s4]]]] by (simp add: cs'_def)
qed

lemma pattern_items:
  assumes z: "0 \<notin> set t" "length t < 2 ^ 62"
  shows "t = a @ print_items xs \<Longrightarrow> printable xs \<Longrightarrow> l = [] \<or> (\<forall>v ys. xs \<noteq> Text v # ys) \<Longrightarrow>
    pattern_loop (String_of (t @ [0])) (literal_state (length a) l) cs =
      Some (Inr (cs @ (if l = [] then [] else [LiteralConverter (literal_String l)]) @ map item_converter xs))"
proof (induction xs arbitrary: a l cs)
  case Nil
  then have "length a = length t" by (simp add: print_items_def)
  then show ?case using slength_text [OF z(1)] by (subst pattern_loop.simps) (simp add: literal_state_def)
next
  case (Cons x xs)
  show ?case
  proof (cases x)
    case (Text u)
    then have u: "t = a @ escape_text u @ print_items xs" "u \<noteq> []" "l = []" "t = (a @ escape_text u) @ print_items xs"
      "printable xs" "\<forall>v ys. xs \<noteq> Text v # ys"
      using Cons.prems by (simp_all add: print_items_def)
    have "pattern_loop (String_of (t @ [0])) (literal_state (length a) l) cs =
        pattern_loop (String_of (t @ [0])) (literal_state (length (a @ escape_text u)) u) cs"
      using parses_escaped_text [OF u(1) z(1), of l cs] u(3) by (simp add: parses_def Let_def)
    then show ?thesis using Cons.IH [OF u(4,5), of u cs] u(2,3,6) Text by simp
  next
    case (Conversion left mn mx k)
    then have u: "t = a @ item_text (Conversion left mn mx k) @ print_items xs" "small mn" "small mx" "kind_ok k (print_items xs)"
      "t = (a @ item_text (Conversion left mn mx k)) @ print_items xs" "printable xs"
      using Cons.prems by (simp_all add: print_items_def)
    have "pattern_loop (String_of (t @ [0])) (literal_state (length a) l) cs =
        pattern_loop (String_of (t @ [0])) (literal_state (length (a @ item_text (Conversion left mn mx k))) [])
          (cs @ (if l = [] then [] else [LiteralConverter (literal_String l)]) @ [item_converter (Conversion left mn mx k)])"
      using parses_conversion [OF u(1) z u(2-4), of l cs] unfolding parses_def Let_def fst_conv snd_conv .
    then show ?thesis using Cons.IH [OF u(5,6), of "[]"] Conversion by simp
  qed
qed

text \<open>
  C19. The parser is the inverse of the printer of patterns: it finds the literals, with
  their doubled percent signs and backslashes undone, and the conversions with their
  justification, widths and options, in the order in which they were printed.
\<close>

theorem pattern_roundtrip:
  assumes "printable xs" and "0 \<notin> set (print_items xs)" and "length (print_items xs) < 2 ^ 62"
  shows "pattern_parse (String_of (print_items xs @ [0])) = Some (Inr (map item_converter xs))"
  using pattern_items [OF assms(2,3), of "[]" xs "[]" "[]"] assms(1)
  by (simp add: pattern_parse_def literal_state_def Parser_new_def)

theorem pattern_roundtrip_witness:
  "pattern_parse (String_of (STR_DEFAULT_MESSAGE_PATTERN @ [0])) = Some (Inr
     [RelativeTimeConverter Formatting_new, LiteralConverter (literal_String (lit '' ['')), ThreadConverter Formatting_new,
      LiteralConverter (literal_String (lit ''] '')), CategoryConverter Formatting_new, LiteralConverter (literal_String (lit '' '')),
      ComponentConverter Formatting_new 0, LiteralConverter (literal_String (lit '' - '')), MessageConverter Formatting_new])"
proof -
  let ?c = "\<lambda>k. Conversion False None None k"
  let ?xs = "[?c (Simple 0x72), Text (lit '' [''), ?c (Simple 0x74), Text (lit ''] ''), ?c (Simple 0x70), Text (lit '' ''),
    ?c (Component None), Text (lit '' - ''), ?c (Simple 0x6D)]"
  have p: "print_items ?xs = STR_DEFAULT_MESSAGE_PATTERN"
    by (simp add: print_items_def escape_text_def escape_char_def lit_def min_text_def max_text_def brace_text_def STR_DEFAULT_MESSAGE_PATTERN_def)
  have ok: "printable ?xs"
    by (simp add: simple_converters_def print_items_def escape_text_def escape_char_def lit_def)
  have f: "item_formatting False None None = Formatting_new" by (simp add: item_formatting_def Formatting_new_def)
  have z: "0 \<notin> set (print_items ?xs)" "length (print_items ?xs) < 2 ^ 62" unfolding p
    by (simp_all add: STR_DEFAULT_MESSAGE_PATTERN_def lit_def)
  show ?thesis using pattern_roundtrip [OF ok z, unfolded p] by (simp add: f simple_converters_def)
qed

section \<open>Termination\<close>

definition ascii :: "bytes \<Rightarrow> bool" where "ascii t \<longleftrightarrow> (\<forall>x \<in> set t. 0 < unat x \<and> unat x < 0x80)"

text \<open>Every opening brace is closed somewhere behind it.\<close>

definition braces_closed :: "bytes \<Rightarrow> bool" where
  "braces_closed t \<longleftrightarrow> (\<forall>a b. t = a @ 0x7B # b \<longrightarrow> 0x7D \<in> set b)"

lemma ascii_nonzero: "ascii t \<Longrightarrow> 0 \<notin> set t" by (force simp: ascii_def)

lemma predefined_returns:
  assumes "ascii u" and "\<forall>(n, p) \<in> set fs. ascii n"
  shows "\<exists>r. predefined fs (String_of (u @ [0])) = Some r"
  using assms(2)
proof (induction fs)
  case (Cons x fs)
  obtain n q where x: "x = (n, q)" by fastforce
  have "\<exists>b. equalsIgnoreCase (String_of (u @ [0])) (n @ [0]) = Some (Inr b)"
    using equalsIgnoreCase_ascii [of u n] assms(1) Cons.prems by (auto simp: ascii_def x)
  then obtain b where "equalsIgnoreCase (String_of (u @ [0])) (n @ [0]) = Some (Inr b)" by blast
  then show ?case using Cons by (cases b) (auto simp: x)
qed simp

lemma date_format_returns:
  assumes "ascii u"
  shows "\<exists>r. date_format (if u = [] then None else String_of (u @ [0])) = Some r"
proof -
  let ?fs = "[(ISO8601_DATE_FORMAT, ISO8601_PATTERN), (ABSOLUTE_DATE_FORMAT, ABSOLUTE_PATTERN), (DATE_DATE_FORMAT, DATE_PATTERN)]"
  let ?u = "if u = [] then ISO8601_DATE_FORMAT else u"
  have n: "\<forall>(n, p) \<in> set ?fs. ascii n"
    by (simp add: ascii_def ISO8601_DATE_FORMAT_def ABSOLUTE_DATE_FORMAT_def DATE_DATE_FORMAT_def lit_def)
  have "ascii ?u" using assms n by auto
  from predefined_returns [OF this n] obtain r where r: "predefined ?fs (String_of (?u @ [0])) = Some r" by blast
  have "slength (String_of (u @ [0])) = length u" using ascii_nonzero [OF assms] by (rule slength_text)
  then have "date_format (if u = [] then None else String_of (u @ [0])) =
      (case r of Inl e \<Rightarrow> Some (Inl (Case_failure e)) | Inr f \<Rightarrow> Some (string_step (escape_Q f)))"
    using r by (cases "u = []") (simp_all add: date_format_def slength_def split: sum.splits)
  then show ?thesis by (auto split: sum.splits)
qed

lemma getOption_progress:
  assumes t: "ascii t" "braces_closed t" "length t < 2 ^ 62" and i: "i \<le> length t"
  shows "\<exists>u j. getOption (String_of (t @ [0])) i = Inr (if u = [] then None else String_of (u @ [0]), j) \<and> ascii u \<and> i \<le> j"
proof -
  have z: "0 \<notin> set t" using t(1) by (rule ascii_nonzero)
  define a b where "a = take i t" and "b = drop i t"
  have ab: "t = a @ b" "length a = i" using i by (simp_all add: a_def b_def)
  show ?thesis
  proof (cases "b = [] \<or> hd b \<noteq> 0x7B")
    case True
    then show ?thesis using getOption_none [OF ab(1) z] by (intro exI [of _ "[]"] exI [of _ i]) (simp add: ab ascii_def)
  next
    case False
    then obtain b' where b: "t = a @ 0x7B # b'" using ab by (cases b) auto
    then have "0x7D \<in> set b'" using t(2) by (simp add: braces_closed_def)
    then obtain u v where uv: "b' = u @ 0x7D # v" "0x7D \<notin> set u" by (meson split_list_first)
    have e: "t = a @ 0x7B # u @ 0x7D # v" using b uv(1) by simp
    have "ascii u" using t(1) by (simp add: ascii_def e)
    then show ?thesis using getOption_here [OF e z t(3) uv(2)] ab(2)
      by (intro exI [of _ u] exI [of _ "length (a @ 0x7B # u @ [0x7D])"]) simp
  qed
qed

lemma make_converter_progress:
  assumes "ascii t" "braces_closed t" "length t < 2 ^ 62" "i \<le> length t"
  shows "\<exists>r. make_converter (String_of (t @ [0])) i f c = Some r \<and> (\<forall>rv j. r = Inr (rv, j) \<longrightarrow> i \<le> j)"
proof -
  obtain u j where g: "getOption (String_of (t @ [0])) i = Inr (if u = [] then None else String_of (u @ [0]), j)" "ascii u" "i \<le> j"
    using getOption_progress [OF assms] by blast
  have "\<forall>n k. getPrecision (String_of (t @ [0])) i = Inr (n, k) \<longrightarrow> i \<le> k"
    using g(3) by (auto simp: getPrecision_def g(1) split: sum.splits if_splits)
  then have c: "\<forall>rv j. rbind (getPrecision (String_of (t @ [0])) i) (\<lambda>(p, i). Inr (ComponentConverter f p, i)) = Inr (rv, j) \<longrightarrow> i \<le> j"
    by (cases "getPrecision (String_of (t @ [0])) i") auto
  obtain d where d: "date_format (if u = [] then None else String_of (u @ [0])) = Some d"
    using date_format_returns [OF g(2)] by blast
  have "\<forall>rv k. rbind d (\<lambda>fmt. Inr (DateConverter f fmt, j)) = Inr (rv, k) \<longrightarrow> i \<le> k" using g(3) by (cases d) auto
  then have "c = 0x64 \<Longrightarrow> ?thesis" by (simp add: make_converter_def g(1) d)
  moreover have "c = 0x63 \<Longrightarrow> ?thesis" using c by (simp add: make_converter_def)
  moreover have "c \<noteq> 0x63 \<Longrightarrow> c \<noteq> 0x64 \<Longrightarrow> ?thesis" by (simp add: make_converter_def)
  ultimately show ?thesis by blast
qed

lemma finalize_progress:
  assumes "ascii t" "braces_closed t" "length t < 2 ^ 62" "p_i p \<le> length t"
  shows "\<exists>r. finalizeConverter (String_of (t @ [0])) p cs c = Some r \<and> (\<forall>x. r = Inr x \<longrightarrow> p_i p \<le> p_i (fst x))"
proof -
  obtain r where r: "make_converter (String_of (t @ [0])) (p_i p) (p_formatting p) c = Some r" "\<forall>rv j. r = Inr (rv, j) \<longrightarrow> p_i p \<le> j"
    using make_converter_progress [OF assms] by blast
  then show ?thesis by (cases r) (auto simp: finalizeConverter_def)
qed

lemma literal_progress: "p_i p \<le> p_i (fst (literal_step s p cs c))"
proof -
  have b: "i \<le> snd (backslash s i)" for i by (simp add: backslash_def Let_def split: prod.splits)
  show ?thesis using b [of "p_i p"] by (auto simp: literal_step_def Let_def split: prod.splits)
qed

lemma step_progress:
  assumes "ascii t" "braces_closed t" "length t < 2 ^ 62" "p_i p < length t"
  shows "\<exists>r. parse_step (String_of (t @ [0])) p cs = Some r \<and> (\<forall>x. r = Inr x \<longrightarrow> p_i p < p_i (fst x))"
proof -
  have f: "\<exists>r. finalizeConverter (String_of (t @ [0])) (p\<lparr>p_i := p_i p + 1, p_literal := l\<rparr>) cs c = Some r \<and>
      (\<forall>x. r = Inr x \<longrightarrow> p_i p < p_i (fst x))" for l c
    using finalize_progress [OF assms(1-3), of "p\<lparr>p_i := p_i p + 1, p_literal := l\<rparr>" cs c] assms(4) by fastforce
  have a: "rbind (add_digit w c) (\<lambda>n. Inr (q n)) = Inr x \<Longrightarrow> \<exists>n. x = q n" for w c x and q :: "int \<Rightarrow> Parser \<times> Converter list"
    by (auto simp: add_digit_def Let_def split: if_splits)
  show ?thesis
  proof (cases "p_state p")
    case E_LITERAL_STATE
    then show ?thesis using literal_progress [of "p\<lparr>p_i := p_i p + 1\<rparr>"] by (simp add: parse_step_def Let_def less_eq_Suc_le) (metis fst_conv)
  next
    case E_CONVERTER_STATE
    then show ?thesis using f by (simp add: parse_step_def converter_step_def Let_def)
  next
    case E_DOT_STATE
    then show ?thesis by (simp add: parse_step_def dot_step_def Let_def)
  next
    case E_MIN_STATE
    then show ?thesis using f by (auto simp: parse_step_def min_step_def Let_def dest: a)
  next
    case E_MAX_STATE
    then show ?thesis using f by (auto simp: parse_step_def max_step_def Let_def dest: a)
  qed
qed

text \<open>
  C20. The parser returns, with converters or with an exception, for every ASCII pattern in
  which every opening brace is closed.
\<close>

theorem parse_returns:
  assumes "ascii t" and "braces_closed t" and "length t < 2 ^ 62"
  shows "\<exists>r. pattern_parse (String_of (t @ [0])) = Some r"
proof -
  have "\<exists>r. pattern_loop (String_of (t @ [0])) p cs = Some r" for p cs
  proof (induction "length t - p_i p" arbitrary: p cs rule: less_induct)
    case less
    have l: "slength (String_of (t @ [0])) = length t" using ascii_nonzero [OF assms(1)] by (rule slength_text)
    show ?case
    proof (cases "p_i p < length t")
      case True
      obtain r where r: "parse_step (String_of (t @ [0])) p cs = Some r" "\<forall>x. r = Inr x \<longrightarrow> p_i p < p_i (fst x)"
        using step_progress [OF assms True] by blast
      show ?thesis
      proof (cases r)
        case (Inl e)
        then show ?thesis using r True l by (subst pattern_loop.simps) simp
      next
        case (Inr x)
        then have "length t - p_i (fst x) < length t - p_i p" using r(2) True by auto
        then show ?thesis using less r Inr True l by (subst pattern_loop.simps) simp
      qed
    next
      case False
      then show ?thesis using l by (subst pattern_loop.simps) simp
    qed
  qed
  then show ?thesis by (simp add: pattern_parse_def)
qed

theorem parse_returns_witness: "\<exists>r. pattern_parse (String_of (lit ''%d{DATE} %5.3m'' @ [0])) = Some r"
proof (rule parse_returns)
  show "ascii (lit ''%d{DATE} %5.3m'')" "length (lit ''%d{DATE} %5.3m'') < 2 ^ 62" by (simp_all add: ascii_def lit_def)
  have "lit ''%d{DATE} %5.3m'' = [0x25, 0x64] @ 0x7B # lit ''DATE'' @ 0x7D # lit '' %5.3m''" by (simp add: lit_def)
  then show "braces_closed (lit ''%d{DATE} %5.3m'')"
    by (auto simp: braces_closed_def lit_def Cons_eq_append_conv)
qed

section \<open>An option without its closing brace\<close>

lemma size_sub_small: "b \<le> a \<Longrightarrow> a < 2 ^ 64 \<Longrightarrow> size_sub a b = a - b"
proof -
  assume le: "b \<le> a" and a: "a < 2 ^ 64"
  have "a + 2 ^ 64 - b = a - b + 2 ^ 64" using le by simp
  then show ?thesis using a unfolding size_sub_def by (simp only: mod_add_self2) simp
qed

lemma getOption_unterminated:
  assumes t: "t = a @ 0x7B # u" and z: "0 \<notin> set t" "length t < 2 ^ 62" and u: "0x7D \<notin> set u"
  shows "getOption (String_of (t @ [0])) (length a) = Inr (if u = [] then None else String_of (u @ [0]), 0)"
proof -
  let ?s = "String_of (t @ [0])"
  have at: "at ?s (length a) = 0x7B" using at_here [of a "0x7B # u" "length a" 0] z(1) by (simp add: t)
  have "strchr (w @ [0]) 0x7D = None" if "0 \<notin> set w" "0x7D \<notin> set w" for w using that by (induction w) auto
  from this [of "0x7B # u"] have "strchr (drop (length a) (t @ [0])) 0x7D = None" using z(1) u by (simp add: t)
  then have i: "indexOf_char ?s 0x7D (length a) = npos"
    unfolding indexOf_char_def slength_text [OF z(1)] c_str_text [OF z(1)] by (simp del: drop_append)
  have n: "size_add (length a) 1 = length (a @ [0x7B])" "size_add npos 1 = 0" "npos > length a" "length (a @ [0x7B]) \<le> 2 ^ 62"
    using z(2) by (simp_all add: t size_add_def npos_def)
  have "npos < 2 ^ 64" "length (a @ [0x7B]) \<le> npos" using n(4) by (simp_all add: npos_def)
  then have k: "size_sub npos (length (a @ [0x7B])) = npos - length (a @ [0x7B])" by (intro size_sub_small)
  have k2: "npos - length (a @ [0x7B]) \<noteq> 0" using n(4) by (simp add: npos_def)
  have "substring ?s (length (a @ [0x7B])) (npos - length (a @ [0x7B])) = Inr (if u = [] then None else String_of (u @ [0]))"
  proof (cases "u = []")
    case True
    then show ?thesis unfolding substring_def slength_text [OF z(1)] Let_def by (simp add: t)
  next
    case False
    have e: "t = (a @ [0x7B]) @ u @ []" by (simp add: t)
    have "size_add (npos - length (a @ [0x7B])) (length (a @ [0x7B])) = npos"
      using n(4) by (simp add: size_add_def npos_def)
    moreover have "npos > length t" using z(2) by (simp add: npos_def)
    moreover have "npos - length (a @ [0x7B]) \<noteq> npos" by (simp add: npos_def)
    moreover have "size_add (length u) (length (a @ [0x7B])) = length t" using z(2) by (simp add: t size_add_def)
    moreover have "length u \<noteq> npos" "length u \<noteq> 0" "length t = length (a @ [0x7B]) + length u"
      using z(2) False by (simp_all add: t npos_def)
    ultimately have "substring ?s (length (a @ [0x7B])) (npos - length (a @ [0x7B])) = substring ?s (length (a @ [0x7B])) (length u)"
      unfolding substring_def slength_text [OF z(1)] Let_def using k2 by auto
    also have "\<dots> = Inr (if u = [] then None else String_of (u @ [0]))"
      unfolding e by (rule substring_here) (use z e in simp_all)
    finally show ?thesis .
  qed
  then show ?thesis unfolding getOption_def Let_def slength_text [OF z(1)] at i n k
    using n(3) by (simp add: t string_step_def)
qed

text \<open>A loop that keeps an invariant without getting to the end does not return.\<close>

lemma pattern_loop_stuck:
  assumes step: "\<And>p cs. Inv p \<Longrightarrow> p_i p < slength s \<and> (\<exists>q cs'. parse_step s p cs = Some (Inr (q, cs')) \<and> Inv q)"
    and inv: "Inv p"
  shows "pattern_loop s p cs = None"
proof -
  have "s' = s \<longrightarrow> \<not> Inv p" if "pattern_loop s' p cs = Some r" for s' p cs r
  proof (rule pattern_loop.raw_induct [where P = "\<lambda>s' p cs r. s' = s \<longrightarrow> \<not> Inv p", OF _ that])
    fix f s' p cs r
    assume IH: "\<And>s' p cs r. f s' p cs = Some r \<Longrightarrow> s' = s \<longrightarrow> \<not> Inv p"
      and run: "(if p_i p < slength s' then
          (case parse_step s' p cs of None \<Rightarrow> None
           | Some r \<Rightarrow> (case r of Inl e \<Rightarrow> Some (Inl e) | Inr x \<Rightarrow> f s' (fst x) (snd x)))
        else Some (Inr (if length (p_literal p) > 0 then cs @ [LiteralConverter (literal_String (p_literal p))] else cs))) = Some r"
    show "s' = s \<longrightarrow> \<not> Inv p"
    proof (intro impI notI)
      assume s: "s' = s" and inv: "Inv p"
      obtain q cs' where "p_i p < slength s" "parse_step s p cs = Some (Inr (q, cs'))" and q: "Inv q" using step [OF inv] by blast
      then have "f s q cs' = Some r" using run s by simp
      then show False using IH s q by blast
    qed
  qed
  then show ?thesis using inv by (cases "pattern_loop s p cs") auto
qed

text \<open>The pattern of the next theorem, and the states that its parser goes through.\<close>

definition going_round :: "nat \<Rightarrow> Parser \<Rightarrow> bool" where
  "going_round n p \<longleftrightarrow> (\<exists>i l. p = literal_state i l \<and> i \<le> n) \<or> (\<exists>f l. p = conv_state E_CONVERTER_STATE (Suc n) l f)"

lemma getPrecision_unterminated:
  assumes t: "t = a @ 0x7B # u" and z: "0 \<notin> set t" "length t < 2 ^ 62"
    and u: "u = [] \<or> numeral_ok 10 u \<and> numeral_value 10 u < 2 ^ 32"
  shows "\<exists>n. getPrecision (String_of (t @ [0])) (length a) = Inr (n, 0)"
proof -
  have "\<not> digit_at 10 0x7D" by (simp add: digit_value_def isdigit_def isalpha_def isupper_def)
  then have br: "0x7D \<notin> set u" using u by (auto simp: numeral_ok_def list_all_iff)
  note g = getOption_unterminated [OF t z br]
  have "0 \<notin> set u" using z(1) by (simp add: t)
  note l = slength_text [OF this]
  show ?thesis
  proof (cases "u = []")
    case True
    then show ?thesis using g by (simp add: getPrecision_def slength_def)
  next
    case False
    then have "toUInt32 (String_of (u @ [0])) 10 = Inr (numeral_value 10 u)"
      using u convertToUIntType_numeral [of 10 u 32] by (simp add: toUInt32_def)
    then show ?thesis using g False l by (simp add: getPrecision_def)
  qed
qed

lemma going_round_step:
  assumes te: "t = pre @ 0x25 # 0x63 # 0x7B # u" and z: "0 \<notin> set t"
    and pre: "\<forall>c \<in> set pre. c \<noteq> 0x25 \<and> c \<noteq> 0x5C"
    and gp: "getPrecision (String_of (t @ [0])) (Suc (Suc (length pre))) = Inr (n, 0)"
    and p: "going_round (length pre) p"
  shows "p_i p < slength (String_of (t @ [0])) \<and>
    (\<exists>q cs'. parse_step (String_of (t @ [0])) p cs = Some (Inr (q, cs')) \<and> going_round (length pre) q)"
proof -
  have s: "slength (String_of (t @ [0])) = length t" using z by (rule slength_text)
  have at: "at (String_of (t @ [0])) i = (t @ [0]) ! i" if "i \<le> length t" for i using z that by (rule at_text)
  consider i l where "p = literal_state i l" "i < length pre" | l where "p = literal_state (length pre) l"
    | f l where "p = conv_state E_CONVERTER_STATE (Suc (length pre)) l f"
    using p le_neq_implies_less unfolding going_round_def by blast
  then show ?thesis
  proof cases
    case 1
    then have "at (String_of (t @ [0])) i = pre ! i" by (subst at) (simp_all add: te nth_append)
    moreover have "pre ! i \<noteq> 0x25" "pre ! i \<noteq> 0x5C" using pre 1 by auto
    ultimately have "parse_step (String_of (t @ [0])) p cs = Some (Inr (literal_state (Suc i) (l @ [pre ! i]), cs))"
      using 1 s by (simp add: parse_step_def literal_step_def literal_state_def Let_def te)
    moreover have "going_round (length pre) (literal_state (Suc i) (l @ [pre ! i]))"
      using 1 by (auto simp: going_round_def)
    ultimately show ?thesis using 1 s by (simp add: literal_state_def te)
  next
    case 2
    have "at (String_of (t @ [0])) (length pre) = 0x25" by (subst at) (simp_all add: te nth_append)
    moreover have "at (String_of (t @ [0])) (Suc (length pre)) = 0x63" by (subst at) (simp_all add: te nth_append)
    ultimately have "\<exists>cs'. parse_step (String_of (t @ [0])) p cs =
        Some (Inr (conv_state E_CONVERTER_STATE (Suc (length pre)) [0x25] Formatting_new, cs'))"
      using 2 s by (simp add: parse_step_def literal_step_def literal_state_def conv_state_def te)
    moreover have "going_round (length pre) (conv_state E_CONVERTER_STATE (Suc (length pre)) [0x25] Formatting_new)"
      by (auto simp: going_round_def)
    ultimately show ?thesis using 2 s by (auto simp: literal_state_def te)
  next
    case 3
    have "at (String_of (t @ [0])) (Suc (length pre)) = 0x63" by (subst at) (simp_all add: te nth_append)
    then have "parse_step (String_of (t @ [0])) p cs = Some (Inr (literal_state 0 [], cs @ [ComponentConverter f n]))"
      using gp by (simp add: 3 parse_step_def conv_state_def converter_step_def isdigit_def finalizeConverter_def
          make_converter_def literal_state_def Let_def)
    moreover have "going_round (length pre) (literal_state 0 [])" by (auto simp: going_round_def)
    ultimately show ?thesis using 3 s by (simp add: conv_state_def te)
  qed
qed

text \<open>
  C26. A pattern that ends in a component conversion whose precision lacks its closing brace
  makes the constructor run for ever: the position after the option wraps to the start of
  the pattern, and the same converters are made again and again.
\<close>

theorem unterminated_option_diverges:
  assumes pre: "\<forall>c \<in> set pre. c \<noteq> 0 \<and> c \<noteq> 0x25 \<and> c \<noteq> 0x5C" and u: "u = [] \<or> numeral_ok 10 u \<and> numeral_value 10 u < 2 ^ 32"
    and len: "length pre + length u < 2 ^ 60"
  shows "pattern_parse (String_of ((pre @ lit ''%c{'' @ u) @ [0])) = None"
proof -
  have e: "pre @ lit ''%c{'' @ u = pre @ 0x25 # 0x63 # 0x7B # u" "pre @ lit ''%c{'' @ u = (pre @ [0x25, 0x63]) @ 0x7B # u"
    by (simp_all add: lit_def)
  have "0 \<notin> set u" using u by (auto simp: numeral_ok_def list_all_iff)
  then have z: "0 \<notin> set (pre @ lit ''%c{'' @ u)" "length (pre @ lit ''%c{'' @ u) < 2 ^ 62"
    using pre len by (auto simp: lit_def)
  obtain n where "getPrecision (String_of ((pre @ lit ''%c{'' @ u) @ [0])) (Suc (Suc (length pre))) = Inr (n, 0)"
    using getPrecision_unterminated [OF e(2) z u] by auto
  note step = going_round_step [OF e(1) z(1) _ this]
  have "pattern_loop (String_of ((pre @ lit ''%c{'' @ u) @ [0])) Parser_new [] = None"
  proof (rule pattern_loop_stuck [where Inv = "going_round (length pre)"])
    show "going_round (length pre) Parser_new" by (simp add: going_round_def Parser_new_def literal_state_def)
  qed (use step pre in blast)
  then show ?thesis by (simp add: pattern_parse_def)
qed

theorem unterminated_option_diverges_witness: "pattern_parse (String_of (lit ''[%c{2'' @ [0])) = None"
  using unterminated_option_diverges [of "lit ''[''" "lit ''2''"]
  by (simp add: lit_def numeral_ok_def numeral_value_def digit_value_def isdigit_def)

end
