(* ===== verification/LogPattern_Convert.thy ===== *)
theory LogPattern_Convert
  imports LogPattern_Props
begin

text \<open>
  What the converters of a component and of an XML message make of their texts.
\<close>

section \<open>XML messages\<close>

text \<open>The reference: the pieces of a text between the ends of CDATA sections.\<close>

lemma length_CDATA_END: "length CDATA_END = 3" "CDATA_END \<noteq> []" "0 \<notin> set CDATA_END"
  by (simp_all add: CDATA_END_def lit_def)

function cdata_pieces :: "bytes \<Rightarrow> bytes list" where
  "cdata_pieces m = (case strstr m CDATA_END of
     None \<Rightarrow> [m] | Some i \<Rightarrow> take i m # cdata_pieces (drop (i + 3) m))"
  by pat_completeness auto
termination
proof (relation "measure length")
  show "strstr m CDATA_END = Some i \<Longrightarrow> (drop (i + 3) m, m) \<in> measure length" for m i
    using strstr_bound [of m CDATA_END i] length_CDATA_END by auto
qed simp

declare cdata_pieces.simps [simp del]

fun join :: "bytes \<Rightarrow> bytes list \<Rightarrow> bytes" where
  "join sep [] = []"
| "join sep [p] = p"
| "join sep (p # q # ps) = p @ sep @ join sep (q # ps)"

lemma cdata_pieces_nonempty: "cdata_pieces m \<noteq> []"
  by (subst cdata_pieces.simps) (simp split: option.splits)

lemma join_Cons: "ps \<noteq> [] \<Longrightarrow> join sep (p # ps) = p @ sep @ join sep ps" by (cases ps) auto

text \<open>The pieces and the ends between them are the whole text.\<close>

lemma join_cdata_pieces: "join CDATA_END (cdata_pieces m) = m"
proof (induction m rule: cdata_pieces.induct)
  case (1 m)
  show ?case
  proof (cases "strstr m CDATA_END")
    case None
    then show ?thesis by (subst cdata_pieces.simps) simp
  next
    case (Some i)
    have "take i m @ CDATA_END @ drop (i + 3) m = m"
      using strstr_shift [OF Some] append_take_drop_id [of i m] append_take_drop_id [of 3 "drop i m"]
      unfolding length_CDATA_END by (simp add: add.commute)
    then show ?thesis using 1 [OF Some] Some
      by (subst cdata_pieces.simps) (simp add: join_Cons cdata_pieces_nonempty)
  qed
qed

lemma indexOf_END:
  assumes "0 \<notin> set m" "length m < 2 ^ 62" "i < length m"
  shows "indexOf (String_of (m @ [0])) (CDATA_END @ [0]) i =
    (case strstr (drop i m) CDATA_END of Some j \<Rightarrow> i + j | None \<Rightarrow> npos)"
proof -
  have "0 \<notin> set (drop i m)" using assms(1) by (meson in_set_dropD)
  then have "cstr (drop i (m @ [0])) = drop i m" "cstr (CDATA_END @ [0]) = CDATA_END" "CDATA_END \<noteq> []"
    using assms(3) length_CDATA_END by (simp_all add: cstr_append_nul)
  then show ?thesis unfolding indexOf_def slength_text [OF assms(1)] c_str_text [OF assms(1)]
    using assms(3) by simp
qed

lemma xml_loop_pieces:
  assumes z: "0 \<notin> set m" "length m < 2 ^ 62" and "strstr (drop start m) CDATA_END = Some i" "start < length m"
  shows "xml_loop (String_of (m @ [0])) start (start + i) out =
    out @ concat (map (\<lambda>p. p @ CDATA_EMBEDDED_END) (butlast (cdata_pieces (drop start m))))"
  using assms(3,4)
proof (induction "length m - start" arbitrary: start i out rule: less_induct)
  case less
  have i: "i + start < length m" "start + i \<noteq> npos"
    using strstr_bound [OF less.prems(1)] length_CDATA_END z(2) by (auto simp: npos_def)
  let ?d = "drop (start + i + 3) m"
  let ?out = "out @ take i (drop start m) @ CDATA_EMBEDDED_END"
  have t: "take i (drop start (m @ [0])) = take i (drop start m)" using i by simp
  have p: "cdata_pieces (drop start m) = take i (drop start m) # cdata_pieces ?d"
    using less.prems(1) by (subst cdata_pieces.simps) (simp add: ac_simps)
  have run: "xml_loop (String_of (m @ [0])) start (start + i) out =
      (if start + i + 3 < length m
       then xml_loop (String_of (m @ [0])) (start + i + 3) (indexOf (String_of (m @ [0])) (CDATA_END @ [0]) (start + i + 3)) ?out
       else ?out)"
    using i(2) t by (subst xml_loop.simps)
      (simp only: Let_def length_CDATA_END slength_text [OF z(1)] c_str_text [OF z(1)] if_False add_diff_cancel_left')
  show ?case
  proof (cases "start + i + 3 < length m")
    case False
    then have "cdata_pieces ?d = [[]]" by (subst cdata_pieces.simps) (simp add: CDATA_END_def lit_def)
    then show ?thesis using run False p by simp
  next
    case True
    note ix = indexOf_END [OF z True]
    show ?thesis
    proof (cases "strstr ?d CDATA_END")
      case None
      then have "cdata_pieces ?d = [?d]" by (subst cdata_pieces.simps) simp
      moreover have "xml_loop (String_of (m @ [0])) (start + i + 3) npos ?out = ?out" by (subst xml_loop.simps) simp
      ultimately show ?thesis using run True p ix None by simp
    next
      case (Some j)
      have "length m - (start + i + 3) < length m - start" using True by simp
      from less.hyps [OF this Some True, of ?out] show ?thesis
        using run True p ix Some cdata_pieces_nonempty [of ?d] by simp
    qed
  qed
qed

text \<open>
  A message without the end of a CDATA section is put into one as it is; of any other
  one each piece is put into a section of its own with the end between them escaped, except
  the last piece, which is lost.
\<close>

theorem xml_loses_last_piece:
  assumes "0 \<notin> set m" "length m < 2 ^ 62"
  shows "xml_text (String_of (m @ [0])) =
      CDATA_START @ (if length (cdata_pieces m) = 1 then m
        else concat (map (\<lambda>p. p @ CDATA_EMBEDDED_END) (butlast (cdata_pieces m)))) @ CDATA_END \<and>
    m = join CDATA_END (cdata_pieces m)"
proof (cases "m = []")
  case True
  then have "cdata_pieces m = [[]]" by (subst cdata_pieces.simps) (simp add: CDATA_END_def lit_def)
  then show ?thesis using True by (simp add: xml_text_def slength_def String_of_def ByteBuf_of_def strlen_def cstr_def)
next
  case False
  then have ix: "indexOf (String_of (m @ [0])) (CDATA_END @ [0]) 0 = (case strstr m CDATA_END of Some j \<Rightarrow> j | None \<Rightarrow> npos)"
    using indexOf_END [OF assms, of 0] by (simp split: option.splits)
  have s: "slength (String_of (m @ [0])) = length m" "string_bytes (String_of (m @ [0])) = m"
    using assms(1) by (rule slength_text, intro string_bytes_text)
  have "xml_text (String_of (m @ [0])) =
      CDATA_START @ (if length (cdata_pieces m) = 1 then m
        else concat (map (\<lambda>p. p @ CDATA_EMBEDDED_END) (butlast (cdata_pieces m)))) @ CDATA_END"
  proof (cases "strstr m CDATA_END")
    case None
    then have "cdata_pieces m = [m]" by (subst cdata_pieces.simps) simp
    moreover have "xml_loop (String_of (m @ [0])) 0 npos m = m" by (subst xml_loop.simps) simp
    ultimately show ?thesis using False None ix s by (simp add: xml_text_def)
  next
    case (Some i)
    have p: "length (cdata_pieces m) \<noteq> 1" using Some cdata_pieces_nonempty
      by (subst cdata_pieces.simps) simp
    have "i \<noteq> npos" using strstr_bound [OF Some] length_CDATA_END assms(2) by (auto simp: npos_def)
    moreover have "xml_loop (String_of (m @ [0])) 0 i [] =
        concat (map (\<lambda>p. p @ CDATA_EMBEDDED_END) (butlast (cdata_pieces m)))"
      using xml_loop_pieces [OF assms, of 0 i "[]"] Some False by simp
    ultimately show ?thesis using False Some ix s p by (simp add: xml_text_def)
  qed
  then show ?thesis by (simp add: join_cdata_pieces)
qed

theorem xml_loses_last_piece_witness:
  "xml_text (String_of (lit ''ab]]>cd'' @ [0])) = lit ''<![CDATA[ab]]>]]&gt;<![CDATA[]]>''"
proof -
  have "cdata_pieces (lit ''cd'') = [lit ''cd'']" by (subst cdata_pieces.simps) (simp add: CDATA_END_def lit_def)
  then have "cdata_pieces (lit ''ab]]>cd'') = [lit ''ab'', lit ''cd'']"
    by (subst cdata_pieces.simps) (simp add: CDATA_END_def lit_def)
  then show ?thesis using xml_loses_last_piece [of "lit ''ab]]>cd''"]
    by (simp add: lit_def CDATA_START_def CDATA_END_def CDATA_EMBEDDED_END_def)
qed

section \<open>Components\<close>

lemma last_char_loop_found:
  assumes "ch \<notin> set v"
  shows "last_char_loop (u @ ch # v @ w) ch (length u + length v) = length u"
  using assms
proof (induction v arbitrary: w rule: rev_induct)
  case Nil
  then show ?case by (subst last_char_loop.simps) (simp add: nth_append)
next
  case (snoc x v)
  have "(u @ ch # (v @ [x]) @ w) ! (length u + length (v @ [x])) = x" by (simp add: nth_append)
  moreover have "x \<noteq> ch" using snoc.prems by auto
  ultimately have "last_char_loop (u @ ch # (v @ [x]) @ w) ch (length u + length (v @ [x])) =
      last_char_loop (u @ ch # (v @ [x]) @ w) ch (length u + length v)"
    by (subst last_char_loop.simps) simp
  then show ?case using snoc.IH [of "x # w"] snoc.prems by simp
qed

lemma last_char_loop_none: "i < length d \<Longrightarrow> ch \<notin> set (take (Suc i) d) \<Longrightarrow> last_char_loop d ch i = npos"
proof (induction i)
  case 0
  then show ?case by (subst last_char_loop.simps) (auto simp: take_Suc_conv_app_nth)
next
  case (Suc i)
  then have "d ! Suc i \<noteq> ch" by (auto simp: take_Suc_conv_app_nth)
  then show ?case using Suc by (subst last_char_loop.simps) (auto simp: take_Suc_conv_app_nth)
qed

text \<open>The last dot before an offset.\<close>

lemma last_dot:
  assumes z: "0 \<notin> set t" "length t < 2 ^ 62" and t: "t = u @ 0x2E # v @ w" "0x2E \<notin> set v"
  shows "lastIndexOf_char (String_of (t @ [0])) 0x2E (length u + length v) = length u"
proof -
  have "length u + length v \<noteq> npos" "length u + length v < length t" using z(2) by (auto simp: t npos_def)
  moreover have "t @ [0] = u @ 0x2E # v @ (w @ [0])" by (simp add: t)
  note last_char_loop_found [OF t(2), of u "w @ [0]", folded this]
  ultimately show ?thesis
    unfolding lastIndexOf_char_def slength_text [OF z(1)] c_str_text [OF z(1)] Let_def by simp
qed

lemma no_dot:
  assumes z: "0 \<notin> set t" "length t < 2 ^ 62" and "i < length t" "0x2E \<notin> set (take (Suc i) t)"
  shows "lastIndexOf_char (String_of (t @ [0])) 0x2E i = npos"
proof -
  have "i \<noteq> npos" using assms by (auto simp: npos_def)
  moreover have "last_char_loop (t @ [0]) 0x2E i = npos" using assms(3,4) by (intro last_char_loop_none) auto
  ultimately show ?thesis
    unfolding lastIndexOf_char_def slength_text [OF z(1)] c_str_text [OF z(1)] Let_def using assms(3) by simp
qed

definition dot_free :: "bytes \<Rightarrow> bool" where "dot_free q \<longleftrightarrow> q \<noteq> [] \<and> 0x2E \<notin> set q \<and> 0 \<notin> set q"

lemma join_append:
  "ps \<noteq> [] \<Longrightarrow> qs \<noteq> [] \<Longrightarrow> join sep (ps @ qs) = join sep ps @ sep @ join sep qs"
proof (induction ps)
  case (Cons p ps)
  then show ?case by (cases "ps = []") (simp_all add: join_Cons)
qed simp

lemma join_nonempty: "ps \<noteq> [] \<Longrightarrow> list_all dot_free ps \<Longrightarrow> join [0x2E] ps \<noteq> []"
  by (cases ps rule: list.exhaust; cases "tl ps") (auto simp: dot_free_def)

text \<open>One turn of the loop, from the end of the parts \<open>ps @ [q]\<close> to the end of \<open>ps\<close>.\<close>

lemma dot_before:
  assumes z: "0 \<notin> set t" "length t < 2 ^ 62" and t: "t = join [0x2E] (ps @ [q]) @ w" and q: "dot_free q"
    and e: "length (join [0x2E] (ps @ [q])) \<le> Suc e" "e < length (join [0x2E] (ps @ [q]))" and ps: "list_all dot_free ps"
    and last: "0 < e \<or> ps = []"
  shows "lastIndexOf_char (String_of (t @ [0])) 0x2E e = (if ps = [] then npos else length (join [0x2E] ps))"
proof (cases "ps = []")
  case True
  then have "take (Suc e) t = q" "e < length t" using t e by simp_all
  then show ?thesis using no_dot [OF z] True q by (simp add: dot_free_def)
next
  case False
  then have tt: "t = join [0x2E] ps @ 0x2E # q @ w" using t by (simp add: join_append)
  have "e = length (join [0x2E] ps) + length q" using e False by (simp add: join_append)
  moreover have "0x2E \<notin> set q" using q by (simp add: dot_free_def)
  ultimately show ?thesis using last_dot [OF z tt] False by simp
qed

lemma component_loop_parts:
  assumes z: "0 \<notin> set t" "length t < 2 ^ 62"
  shows "list_all dot_free ps \<Longrightarrow> ps \<noteq> [] \<Longrightarrow> t = join [0x2E] ps @ w \<Longrightarrow>
    component_loop (String_of (t @ [0])) n (length (join [0x2E] ps)) =
      (if n < length ps then Some (length (join [0x2E] (take (length ps - n) ps))) else None)"
proof (induction n arbitrary: ps w)
  case (Suc n)
  obtain qs q where ps: "ps = qs @ [q]" using Suc.prems(2) by (cases ps rule: rev_exhaust) auto
  have q: "dot_free q" "list_all dot_free qs" using Suc.prems(1) ps by simp_all
  let ?e = "length (join [0x2E] ps)"
  have pos: "0 < ?e" using join_nonempty [OF Suc.prems(2,1)] by simp
  have "?e < 2 ^ 62" using z(2) Suc.prems(3) by simp
  then have e1: "size_sub ?e 1 = ?e - 1" using pos by (intro size_sub_small) (simp_all add: Suc_le_eq)
  have "0 < ?e - 1 \<or> qs = []" using q join_nonempty [of qs] by (cases "qs = []") (auto simp: ps join_append dot_free_def)
  then have l: "lastIndexOf_char (String_of (t @ [0])) 0x2E (?e - 1) = (if qs = [] then npos else length (join [0x2E] qs))"
    using dot_before [OF z Suc.prems(3) [unfolded ps] q(1) _ _ q(2), of "?e - 1"] pos by (simp add: ps)
  show ?case
  proof (cases "qs = []")
    case True
    then show ?thesis using l e1 ps by (simp add: Let_def)
  next
    case False
    have tt: "t = join [0x2E] qs @ 0x2E # q @ w" using Suc.prems(3) False by (simp add: ps join_append)
    have "length (join [0x2E] qs) \<noteq> npos" using z(2) by (simp add: tt npos_def)
    then show ?thesis using Suc.IH [OF q(2) False tt] l e1 False by (simp add: ps Let_def Suc_diff_le)
  qed
qed simp

text \<open>The first turn starts one before the last character, which is not a dot.\<close>

lemma component_loop_start:
  assumes z: "0 \<notin> set t" "length t < 2 ^ 62" and ps: "list_all dot_free ps" "ps \<noteq> []" and t: "t = join [0x2E] ps" and n: "0 < n"
  shows "component_loop (String_of (t @ [0])) n (size_sub (length t) 1) = component_loop (String_of (t @ [0])) n (length t)"
proof -
  obtain m where m: "n = Suc m" using n by (cases n) auto
  obtain qs q where qs: "ps = qs @ [q]" using ps(2) by (cases ps rule: rev_exhaust) auto
  obtain q' x where q: "q = q' @ [x]" "x \<noteq> 0x2E" using ps(1) qs by (cases q rule: rev_exhaust) (auto simp: dot_free_def)
  have tx: "\<exists>u. t = u @ [x]" using t qs q by (cases "qs = []") (simp_all add: join_append)
  then obtain u where u: "t = u @ [x]" by blast
  have l1: "size_sub (length t) 1 = length u" using z(2) by (subst size_sub_small) (simp_all add: u)
  have "lastIndexOf_char (String_of (t @ [0])) 0x2E (length u) = lastIndexOf_char (String_of (t @ [0])) 0x2E (size_sub (length u) 1)"
  proof (cases "u = []")
    case True
    then have "size_sub (length u) 1 = npos" by (simp add: size_sub_def npos_def)
    then show ?thesis unfolding lastIndexOf_char_def slength_text [OF z(1)] c_str_text [OF z(1)] Let_def
      using True by (simp add: u npos_def)
  next
    case False
    then have l2: "size_sub (length u) 1 = length u - 1" using z(2) False by (intro size_sub_small) (simp_all add: u Suc_le_eq)
    have "last_char_loop (t @ [0]) 0x2E (length u) = last_char_loop (t @ [0]) 0x2E (length u - 1)"
      using q(2) False by (subst last_char_loop.simps) (simp add: u nth_append split: nat.splits)
    moreover have "length u \<noteq> npos" "length u - 1 \<noteq> npos" using z(2) by (simp_all add: u npos_def)
    ultimately show ?thesis unfolding l2 lastIndexOf_char_def slength_text [OF z(1)] c_str_text [OF z(1)] Let_def
      by (simp add: u less_Suc_eq_le)
  qed
  then show ?thesis by (simp only: m component_loop.simps l1)
qed

text \<open>
  The component converter with a precision yields that many of the last parts of the
  dotted name, or the whole name when it has no more, for every name whose parts are not
  empty.
\<close>

theorem component_keeps_last_parts:
  assumes "list_all dot_free ps" and "ps \<noteq> []" and "length (join [0x2E] ps) < 2 ^ 62" and "0 < n"
  shows "component_text (int n) (String_of (join [0x2E] ps @ [0])) = Inr (join [0x2E] (drop (length ps - n) ps))"
proof -
  define t where "t = join [0x2E] ps"
  have z: "0 \<notin> set t" unfolding t_def using assms(1)
  proof (induction ps)
    case (Cons p ps)
    then show ?case by (cases "ps = []") (auto simp: join_Cons dot_free_def)
  qed simp
  have l: "length t < 2 ^ 62" using assms(3) by (simp add: t_def)
  have loop: "component_loop (String_of (t @ [0])) n (size_sub (length t) 1) =
      (if n < length ps then Some (length (join [0x2E] (take (length ps - n) ps))) else None)"
    unfolding component_loop_start [OF z l assms(1,2) t_def assms(4)]
    using component_loop_parts [OF z l assms(1,2), of "[]" n] by (simp add: t_def)
  show ?thesis
  proof (cases "n < length ps")
    case False
    then show ?thesis using loop assms(4) unfolding component_text_def Let_def slength_text [OF z, unfolded t_def]
      by (simp add: t_def string_bytes_text [OF z, unfolded t_def])
  next
    case True
    let ?a = "take (length ps - n) ps" and ?b = "drop (length ps - n) ps"
    have ab: "?a \<noteq> []" "?b \<noteq> []" using True assms(4) by auto
    have e: "t = (join [0x2E] ?a @ [0x2E]) @ join [0x2E] ?b @ []"
      using join_append [OF ab, of "[0x2E]"] by (simp add: t_def)
    have n1: "size_add (length (join [0x2E] ?a)) 1 = length (join [0x2E] ?a @ [0x2E])"
      "size_sub (length t) (length (join [0x2E] ?a @ [0x2E])) = length (join [0x2E] ?b)"
      using l by (simp_all add: e size_add_def size_sub_def)
    have "substring (String_of (t @ [0])) (length (join [0x2E] ?a @ [0x2E])) (length (join [0x2E] ?b)) =
        Inr (if join [0x2E] ?b = [] then None else String_of (join [0x2E] ?b @ [0]))"
      unfolding e by (rule substring_here) (use z l e in simp_all)
    moreover have "join [0x2E] ?b \<noteq> []" using join_nonempty [OF ab(2)] assms(1) by (metis list_all_append append_take_drop_id)
    moreover have "0 \<notin> set (join [0x2E] ?b)" using z e by (metis Un_iff set_append)
    ultimately show ?thesis using loop True assms(4) n1 unfolding component_text_def Let_def slength_text [OF z, unfolded t_def] t_def
      by (simp add: string_bytes_text)
  qed
qed

theorem component_keeps_last_parts_witness:
  "component_text 2 (String_of (lit ''blocxx.log.test'' @ [0])) = Inr (lit ''log.test'')"
proof -
  have "component_text (int 2) (String_of (join [0x2E] [lit ''blocxx'', lit ''log'', lit ''test''] @ [0])) =
      Inr (join [0x2E] (drop (length [lit ''blocxx'', lit ''log'', lit ''test''] - 2) [lit ''blocxx'', lit ''log'', lit ''test'']))"
    by (rule component_keeps_last_parts) (simp_all add: dot_free_def lit_def)
  then show ?thesis by (simp add: lit_def)
qed

text \<open>With a leading dot, an index of 0 makes the next search start at the end again.\<close>

theorem leading_dot_loses_parts: "component_text 3 (String_of (lit ''.a.b'' @ [0])) = Inr (lit ''b'')"
proof -
  let ?t = "[0x2E, 0x61, 0x2E, 0x62] :: bytes"
  have z: "0 \<notin> set ?t" "length ?t < 2 ^ 62" by simp_all
  have l: "lastIndexOf_char (String_of (?t @ [0])) 0x2E 2 = 2" "lastIndexOf_char (String_of (?t @ [0])) 0x2E 1 = 0"
    "lastIndexOf_char (String_of (?t @ [0])) 0x2E 3 = 2"
    using last_dot [OF z, of "[0x2E, 0x61]" "[]" "[0x62]"] last_dot [OF z, of "[]" "[0x61]" "[0x2E, 0x62]"]
      last_dot [OF z, of "[0x2E, 0x61]" "[0x62]" "[]"] by (simp_all flip: numeral_2_eq_2 numeral_3_eq_3)
  have n: "lastIndexOf_char (String_of (?t @ [0])) 0x2E npos = 2"
    using l(3) unfolding lastIndexOf_char_def slength_text [OF z(1)] Let_def
    by (simp add: npos_def flip: numeral_2_eq_2 numeral_3_eq_3)
  have s: "size_sub 4 1 = 3" "size_sub 3 1 = 2" "size_sub 2 1 = 1" "size_sub 0 1 = npos" "size_add 2 1 = 3" "size_sub 4 3 = 1"
    by (simp_all add: size_sub_def npos_def size_add_def)
  have "(2 :: nat) \<noteq> npos" "(0 :: nat) \<noteq> npos" by (simp_all add: npos_def)
  then have "component_loop (String_of (?t @ [0])) (Suc (Suc (Suc 0))) 3 = Some 2"
    by (simp only: component_loop.simps Let_def s l n if_False)
  then have "component_loop (String_of (?t @ [0])) (nat 3) 3 = Some 2" by (simp add: numeral_3_eq_3)
  moreover have "substring (String_of (?t @ [0])) 3 1 = Inr (String_of ([0x62] @ [0]))"
    using substring_here [of "[0x2E, 0x61, 0x2E]" "[0x62]" "[]"] by (simp flip: numeral_3_eq_3)
  moreover have "slength (String_of (?t @ [0])) = 4" using slength_text [OF z(1)] by simp
  moreover have "string_bytes (String_of ([0x62] @ [0])) = [0x62]" by (rule string_bytes_text) simp
  ultimately have "component_text 3 (String_of (?t @ [0])) = Inr [0x62]"
    unfolding component_text_def Let_def by (simp only: s option.case rbind_simps) simp
  then show ?thesis by (simp add: lit_def)
qed

end
