(* ===== verification/UUID.thy ===== *)
theory UUID
  imports Strings_Props
begin

text \<open>
  The identifiers of \<open>UUID.cpp\<close>: their generation from the clock, the random node and the
  counter of the static generator, and their text. Every call runs under the mutex of the
  generator, so calls are a sequence.
\<close>

unbundle bit_operations_syntax

section \<open>The generator\<close>

type_synonym uuid_time = u64

record uuid_state =
  us_timestamp :: uuid_time
  us_nodeId :: bytes
  us_clockSequence :: u16

record timeval =
  tv_sec :: int
  tv_usec :: int

text \<open>The globals; the memory of \<open>g_state\<close> is zero at the start.\<close>

record generator =
  timeLast :: uuid_time
  uuidsThisTick :: u16
  currentTimeInited :: bool
  nodeId :: "bytes option"
  g_state :: uuid_state

definition generator_new :: generator where
  "generator_new = \<lparr>timeLast = 0, uuidsThisTick = 0, currentTimeInited = False, nodeId = None,
     g_state = \<lparr>us_timestamp = 0, us_nodeId = replicate 6 0, us_clockSequence = 0\<rparr>\<rparr>"

text \<open>What a call finds outside: the clock when it is read for the initialisation, the clock
  when it is read for the time, and random octets.\<close>

record uuid_input =
  first_reading :: timeval
  clock_reading :: timeval
  random_octets :: bytes

definition getSystemTime :: "timeval \<Rightarrow> uuid_time" where
  "getSystemTime tp = word_of_int (tv_sec tp) * 10000000 + word_of_int (tv_usec tp * 10) +
     push_bit 32 0x01B21DD2 + 0x13814000"

definition getCurrentTime :: "uuid_input \<Rightarrow> generator \<Rightarrow> uuid_time \<times> generator" where
  "getCurrentTime inp g0 =
     (let g = (if \<not> currentTimeInited g0
               then g0\<lparr>timeLast := getSystemTime (first_reading inp), uuidsThisTick := 0, currentTimeInited := True\<rparr>
               else g0);
          timeNow = getSystemTime (clock_reading inp);
          g' = (if timeLast g \<noteq> timeNow then g\<lparr>uuidsThisTick := 0, timeLast := timeNow\<rparr>
                else g\<lparr>uuidsThisTick := uuidsThisTick g + 1\<rparr>)
      in (timeNow + ucast (uuidsThisTick g'), g'))"

definition getNodeIdentifier :: "uuid_input \<Rightarrow> generator \<Rightarrow> bytes \<times> generator" where
  "getNodeIdentifier inp g = (case nodeId g of
     Some node \<Rightarrow> (node, g)
   | None \<Rightarrow> (let r = random_octets inp; node = r[0 := r ! 0 OR 0x80] in (node, g\<lparr>nodeId := Some node\<rparr>)))"

text \<open>The octets of an identifier.\<close>

definition stuff_fields :: "uuid_time \<Rightarrow> u16 \<Rightarrow> bytes \<Rightarrow> bytes" where
  "stuff_fields timestamp clockseq node =
     (let low = ucast (timestamp AND 0xFFFFFFFF) :: u32;
          mid = ucast (ucast (drop_bit 32 timestamp AND 0xFFFF) :: u16) :: u32;
          hi = ucast (ucast (drop_bit 48 timestamp AND 0x0FFF OR push_bit 12 1) :: u16) :: u32;
          seq_low = ucast (clockseq AND 0xFF) :: u32;
          seq_hi = drop_bit 8 (ucast clockseq AND 0x3F00) OR 0x80 :: u32
      in [ucast (drop_bit 24 low), ucast (drop_bit 16 low), ucast (drop_bit 8 low), ucast low,
          ucast (drop_bit 8 mid), ucast mid, ucast (drop_bit 8 hi), ucast hi,
          ucast seq_hi, ucast seq_low] @ node)"

definition UUID_new :: "uuid_input \<Rightarrow> generator \<Rightarrow> bytes \<times> generator" where
  "UUID_new inp g0 =
     (let (timestamp, g1) = getCurrentTime inp g0;
          (node, g2) = getNodeIdentifier inp g1;
          last_time = us_timestamp (g_state g2);
          clockseq = (if timestamp < last_time then us_clockSequence (g_state g2) + 1 else us_clockSequence (g_state g2));
          last_node = us_nodeId (g_state g2)
      in (stuff_fields timestamp clockseq node,
          g2\<lparr>g_state := \<lparr>us_timestamp = last_time, us_nodeId = last_node, us_clockSequence = clockseq\<rparr>\<rparr>))"

fun uuids :: "generator \<Rightarrow> uuid_input list \<Rightarrow> bytes list" where
  "uuids g [] = []"
| "uuids g (inp # inps) = (let (u, g') = UUID_new inp g in u # uuids g' inps)"

section \<open>The text\<close>

definition isxdigit :: "u8 \<Rightarrow> bool" where
  "isxdigit c \<longleftrightarrow> (0x30 \<le> c \<and> c \<le> 0x39) \<or> (0x41 \<le> c \<and> c \<le> 0x46) \<or> (0x61 \<le> c \<and> c \<le> 0x66)"

definition decodeHex :: "u8 \<Rightarrow> u8" where
  "decodeHex c = (if 0x30 \<le> c \<and> c \<le> 0x39 then c - 0x30
     else (let c = (if 0x61 \<le> c \<and> c \<le> 0x7A then c - 0x20 else c) in c - 0x41 + 0xA))"

text \<open>\<open>None\<close> is the exception.\<close>

definition fromHexStr :: "u8 \<Rightarrow> u8 \<Rightarrow> u8 option" where
  "fromHexStr c1 c2 = (if \<not> isxdigit c1 \<or> \<not> isxdigit c2 then None
     else Some (push_bit 4 (decodeHex c1) OR decodeHex c2))"

definition toHexHi :: "u8 \<Rightarrow> u8" where
  "toHexHi c = (let t = drop_bit 4 c in if t \<ge> 10 then t - 10 + 0x61 else t + 0x30)"

definition toHexLow :: "u8 \<Rightarrow> u8" where
  "toHexLow c = (let t = c AND 0xF in if t \<ge> 10 then t - 10 + 0x61 else t + 0x30)"

text \<open>The offsets of the two digits of each octet, in the order in which they are read.\<close>

definition digit_offsets :: "nat list" where
  "digit_offsets = [0, 2, 4, 6, 9, 11, 14, 16, 19, 21, 24, 26, 28, 30, 32, 34]"

fun from_hex :: "bytes \<Rightarrow> nat list \<Rightarrow> bytes option" where
  "from_hex s [] = Some []"
| "from_hex s (i # is) = (case fromHexStr (s ! i) (s ! (i + 1)) of
     None \<Rightarrow> None
   | Some b \<Rightarrow> map_option (\<lambda>bs. b # bs) (from_hex s is))"

definition UUID_of_String :: "String \<Rightarrow> bytes option" where
  "UUID_of_String uuidStr =
     (let s = c_str uuidStr in
      if slength uuidStr \<noteq> 36 \<or> s ! 8 \<noteq> 0x2D \<or> s ! 13 \<noteq> 0x2D \<or> s ! 18 \<noteq> 0x2D \<or> s ! 23 \<noteq> 0x2D then None
      else from_hex s digit_offsets)"

definition hex_octet :: "u8 \<Rightarrow> bytes" where "hex_octet b = [toHexHi b, toHexLow b]"

definition UUID_toString :: "bytes \<Rightarrow> String" where
  "UUID_toString u =
     (let h = \<lambda>i j. concat (map hex_octet (take (j - i) (drop i u)));
          buf = h 0 4 @ [0x2D] @ h 4 6 @ [0x2D] @ h 6 8 @ [0x2D] @ h 8 10 @ [0x2D] @ h 10 16 @ [0]
      in Some \<lparr>m_len = 36, m_data = buf\<rparr>)"

text \<open>\<open>memcmp\<close> of the 16 octets.\<close>

fun memcmp :: "bytes \<Rightarrow> bytes \<Rightarrow> int" where
  "memcmp (x # xs) (y # ys) = (if x \<noteq> y then uint x - uint y else memcmp xs ys)"
| "memcmp _ _ = 0"

definition uuid_eq :: "bytes \<Rightarrow> bytes \<Rightarrow> bool" where "uuid_eq x y \<longleftrightarrow> memcmp x y = 0"
definition uuid_less :: "bytes \<Rightarrow> bytes \<Rightarrow> bool" where "uuid_less x y \<longleftrightarrow> memcmp x y < 0"
definition uuid_neq :: "bytes \<Rightarrow> bytes \<Rightarrow> bool" where "uuid_neq x y \<longleftrightarrow> \<not> uuid_eq x y"

section \<open>Text round trip\<close>

lemma hex_digits:
  "isxdigit (toHexHi b)" "isxdigit (toHexLow b)" "decodeHex (toHexHi b) = drop_bit 4 b" "decodeHex (toHexLow b) = b AND 0xF"
  "toHexHi b \<noteq> 0" "toHexLow b \<noteq> 0"
proof -
  have d: "isxdigit d \<and> decodeHex d = t \<and> d \<noteq> 0" if t: "t < 16" and d: "d = (if t \<ge> 10 then t - 10 + 0x61 else t + 0x30)" for t d :: u8
  proof -
    define n where "n = unat t"
    have n: "n < 16" "t = of_nat n" using t by (simp_all add: n_def word_less_nat_alt)
    then have "n = 0 \<or> n = 1 \<or> n = 2 \<or> n = 3 \<or> n = 4 \<or> n = 5 \<or> n = 6 \<or> n = 7 \<or> n = 8 \<or> n = 9 \<or>
        n = 10 \<or> n = 11 \<or> n = 12 \<or> n = 13 \<or> n = 14 \<or> n = 15" by presburger
    then consider "n = 0" | "n = 1" | "n = 2" | "n = 3" | "n = 4" | "n = 5" | "n = 6" | "n = 7" | "n = 8" | "n = 9"
      | "n = 10" | "n = 11" | "n = 12" | "n = 13" | "n = 14" | "n = 15" by blast
    moreover have "\<not> (10 :: u8) \<le> 1" by (simp add: word_le_nat_alt)
    ultimately show ?thesis unfolding d n(2) by cases (simp_all add: isxdigit_def decodeHex_def)
  qed
  have hi: "drop_bit 4 b < 16"
  proof -
    have "unat (drop_bit 4 b) = unat b div 16" unfolding unat_drop_bit_eq by (simp add: drop_bit_eq_div)
    moreover have "unat b < 16 * 16" using unsigned_less [of b, where 'a = nat] by simp
    then have "unat b div 16 < 16" by (rule less_mult_imp_div_less)
    ultimately have "unat (drop_bit 4 b) < 16" by simp
    then show ?thesis by (simp add: word_less_nat_alt)
  qed
  have lo: "b AND 0xF < 16"
  proof -
    have "b AND 0xF = take_bit 4 b" by (simp add: take_bit_eq_mask mask_eq_exp_minus_1)
    moreover have "unat (take_bit 4 b) < 16" using take_bit_nat_less_exp [of 4 "unat b"] by (simp add: unsigned_take_bit_eq)
    ultimately show ?thesis by (simp add: word_less_nat_alt)
  qed
  show "isxdigit (toHexHi b)" "isxdigit (toHexLow b)" "decodeHex (toHexHi b) = drop_bit 4 b" "decodeHex (toHexLow b) = b AND 0xF"
    "toHexHi b \<noteq> 0" "toHexLow b \<noteq> 0"
    using d [OF hi, of "toHexHi b"] d [OF lo, of "toHexLow b"] by (simp_all add: toHexHi_def toHexLow_def Let_def)
qed

lemma from_hex_octet: "fromHexStr (toHexHi b) (toHexLow b) = Some b"
proof -
  have low: "b AND 0xF = take_bit 4 b" by (simp add: take_bit_eq_mask mask_eq_exp_minus_1)
  have "push_bit 4 (drop_bit 4 b) OR (b AND 0xF) = b"
    unfolding low by (rule bit_word_eqI) (auto simp: bit_simps not_le)
  then show ?thesis by (simp add: fromHexStr_def hex_digits)
qed

lemma hex_octets_nonzero: "0 \<notin> set (concat (map hex_octet u))"
  by (induction u) (auto simp: hex_octet_def hex_digits)

text \<open>
  The text of an identifier has 36 characters in the usual form, and reading it gives
  the identifier back.
\<close>

theorem uuid_text_roundtrip:
  assumes "length u = 16"
  shows "UUID_of_String (UUID_toString u) = Some u \<and> str_ok (UUID_toString u) \<and> slength (UUID_toString u) = 36"
proof -
  obtain a0 a1 a2 a3 a4 a5 a6 a7 a8 a9 a10 a11 a12 a13 a14 a15
    where u: "u = [a0, a1, a2, a3, a4, a5, a6, a7, a8, a9, a10, a11, a12, a13, a14, a15]"
    using assms by (auto simp: length_Suc_conv numeral_eq_Suc)
  let ?t = "hex_octet a0 @ hex_octet a1 @ hex_octet a2 @ hex_octet a3 @ 0x2D # hex_octet a4 @ hex_octet a5 @ 0x2D #
    hex_octet a6 @ hex_octet a7 @ 0x2D # hex_octet a8 @ hex_octet a9 @ 0x2D # hex_octet a10 @ hex_octet a11 @ hex_octet a12 @
    hex_octet a13 @ hex_octet a14 @ hex_octet a15"
  have t: "UUID_toString u = Some \<lparr>m_len = 36, m_data = ?t @ [0]\<rparr>" by (simp add: UUID_toString_def u)
  have "UUID_of_String (UUID_toString u) = Some u"
    unfolding t by (simp add: UUID_of_String_def slength_def c_str_def digit_offsets_def hex_octet_def from_hex_octet u)
  moreover have l: "length ?t = 36" and z: "0 \<notin> set ?t" by (simp_all add: hex_octet_def hex_digits)
  have "str_ok (UUID_toString u)" unfolding t using str_ok_Some [OF z] unfolding l by blast
  ultimately show ?thesis by (simp add: t slength_def)
qed

theorem uuid_text_roundtrip_witness:
  "UUID_of_String (UUID_toString (map word_of_nat [0..<16])) = Some (map word_of_nat [0..<16])"
  using uuid_text_roundtrip [of "map word_of_nat [0..<16]"] by simp

section \<open>The fields of an identifier\<close>

lemma constant_bits:
  fixes n :: nat
  shows "bit (0x3F :: 'a :: len word) n \<longleftrightarrow> n < 6 \<and> n < LENGTH('a)" "bit (0x80 :: 'a :: len word) n \<longleftrightarrow> n = 7 \<and> n < LENGTH('a)"
    "bit (0x10 :: 'a :: len word) n \<longleftrightarrow> n = 4 \<and> n < LENGTH('a)" "bit (0x1000 :: 'a :: len word) n \<longleftrightarrow> n = 12 \<and> n < LENGTH('a)"
    "bit (0x3F00 :: 'a :: len word) n \<longleftrightarrow> 8 \<le> n \<and> n < 14 \<and> n < LENGTH('a)"
proof -
  have f: "(0x3F :: 'a word) = mask 6" "(0x80 :: 'a word) = push_bit 7 1" "(0x10 :: 'a word) = push_bit 4 1"
    "(0x1000 :: 'a word) = push_bit 12 1" "(0x3F00 :: 'a word) = push_bit 8 (mask 6)"
    by (simp_all add: mask_eq_exp_minus_1 push_bit_eq_mult)
  show "bit (0x3F :: 'a word) n \<longleftrightarrow> n < 6 \<and> n < LENGTH('a)" unfolding f(1) bit_mask_iff by auto
  show "bit (0x80 :: 'a word) n \<longleftrightarrow> n = 7 \<and> n < LENGTH('a)" unfolding f(2) bit_push_bit_iff by (auto simp: bit_1_iff)
  show "bit (0x10 :: 'a word) n \<longleftrightarrow> n = 4 \<and> n < LENGTH('a)" unfolding f(3) bit_push_bit_iff by (auto simp: bit_1_iff)
  show "bit (0x1000 :: 'a word) n \<longleftrightarrow> n = 12 \<and> n < LENGTH('a)" unfolding f(4) bit_push_bit_iff by (auto simp: bit_1_iff)
  show "bit (0x3F00 :: 'a word) n \<longleftrightarrow> 8 \<le> n \<and> n < 14 \<and> n < LENGTH('a)"
    unfolding f(5) bit_push_bit_iff bit_mask_iff by auto
qed

lemma field_octets:
  fixes ts :: u64 and c :: u16
  shows "ucast (drop_bit 24 (ucast (ts AND 0xFFFFFFFF) :: u32)) = (ucast (drop_bit 24 ts) :: u8)"
    "ucast (drop_bit 16 (ucast (ts AND 0xFFFFFFFF) :: u32)) = (ucast (drop_bit 16 ts) :: u8)"
    "ucast (drop_bit 8 (ucast (ts AND 0xFFFFFFFF) :: u32)) = (ucast (drop_bit 8 ts) :: u8)"
    "ucast (ucast (ts AND 0xFFFFFFFF) :: u32) = (ucast ts :: u8)"
    "ucast (drop_bit 8 (ucast (ucast (drop_bit 32 ts AND 0xFFFF) :: u16) :: u32)) = (ucast (drop_bit 40 ts) :: u8)"
    "ucast (ucast (ucast (drop_bit 32 ts AND 0xFFFF) :: u16) :: u32) = (ucast (drop_bit 32 ts) :: u8)"
    "ucast (drop_bit 8 (ucast (ucast (drop_bit 48 ts AND 0x0FFF OR 0x1000) :: u16) :: u32)) =
      (take_bit 4 (ucast (drop_bit 56 ts)) OR 0x10 :: u8)"
    "ucast (ucast (ucast (drop_bit 48 ts AND 0x0FFF OR 0x1000) :: u16) :: u32) = (ucast (drop_bit 48 ts) :: u8)"
    "ucast (drop_bit 8 (ucast c AND 0x3F00) OR 0x80 :: u32) = (take_bit 6 (ucast (drop_bit 8 c)) OR 0x80 :: u8)"
    "ucast (ucast (c AND 0xFF) :: u32) = (ucast c :: u8)"
proof -
  have m: "ts AND 0xFFFFFFFF = take_bit 32 ts" "drop_bit 32 ts AND 0xFFFF = take_bit 16 (drop_bit 32 ts)"
    "drop_bit 48 ts AND 0x0FFF = take_bit 12 (drop_bit 48 ts)" "c AND 0xFF = take_bit 8 c"
    by (simp_all add: take_bit_eq_mask mask_eq_exp_minus_1)
  show "ucast (drop_bit 24 (ucast (ts AND 0xFFFFFFFF) :: u32)) = (ucast (drop_bit 24 ts) :: u8)"
    "ucast (drop_bit 16 (ucast (ts AND 0xFFFFFFFF) :: u32)) = (ucast (drop_bit 16 ts) :: u8)"
    "ucast (drop_bit 8 (ucast (ts AND 0xFFFFFFFF) :: u32)) = (ucast (drop_bit 8 ts) :: u8)"
    "ucast (ucast (ts AND 0xFFFFFFFF) :: u32) = (ucast ts :: u8)"
    "ucast (drop_bit 8 (ucast (ucast (drop_bit 32 ts AND 0xFFFF) :: u16) :: u32)) = (ucast (drop_bit 40 ts) :: u8)"
    "ucast (ucast (ucast (drop_bit 32 ts AND 0xFFFF) :: u16) :: u32) = (ucast (drop_bit 32 ts) :: u8)"
    "ucast (drop_bit 8 (ucast (ucast (drop_bit 48 ts AND 0x0FFF OR 0x1000) :: u16) :: u32)) =
      (take_bit 4 (ucast (drop_bit 56 ts)) OR 0x10 :: u8)"
    "ucast (ucast (ucast (drop_bit 48 ts AND 0x0FFF OR 0x1000) :: u16) :: u32) = (ucast (drop_bit 48 ts) :: u8)"
    "ucast (drop_bit 8 (ucast c AND 0x3F00) OR 0x80 :: u32) = (take_bit 6 (ucast (drop_bit 8 c)) OR 0x80 :: u8)"
    "ucast (ucast (c AND 0xFF) :: u32) = (ucast c :: u8)"
    unfolding m by (rule bit_word_eqI, auto simp: bit_simps constant_bits simp del: bit_numeral_word_iff)+
qed

lemma stuff_fields_octets:
  "stuff_fields ts c node =
     map (\<lambda>j. ucast (drop_bit j ts)) [24, 16, 8, 0, 40, 32] @
     [take_bit 4 (ucast (drop_bit 56 ts)) OR 0x10, ucast (drop_bit 48 ts), take_bit 6 (ucast (drop_bit 8 c)) OR 0x80, ucast c] @ node"
  unfolding stuff_fields_def Let_def field_octets by (simp add: field_octets [simplified])

lemma octet_bit:
  fixes ts ts' :: u64
  assumes "(ucast (drop_bit j ts) :: u8) = ucast (drop_bit j ts')" and "n < 8"
  shows "bit ts (j + n) = bit ts' (j + n)"
proof -
  have "bit (ucast (drop_bit j ts) :: u8) n = bit (ucast (drop_bit j ts') :: u8) n" using assms(1) by simp
  then show ?thesis using assms(2) by (simp add: bit_simps)
qed

lemma stuff_fields_stamp:
  assumes "stuff_fields ts c node = stuff_fields ts' c' node'"
  shows "take_bit 60 ts = take_bit 60 ts'"
proof (rule bit_word_eqI)
  fix n assume "n < LENGTH(64)"
  have o: "(ucast (drop_bit j ts) :: u8) = ucast (drop_bit j ts')" if "j \<in> {0, 8, 16, 24, 32, 40, 48}" for j
    using assms that unfolding stuff_fields_octets by auto
  have h: "take_bit 4 (ucast (drop_bit 56 ts)) OR 0x10 = (take_bit 4 (ucast (drop_bit 56 ts')) OR 0x10 :: u8)"
    using assms unfolding stuff_fields_octets by simp
  have top: "bit ts (56 + k) = bit ts' (56 + k)" if "k < 4" for k
  proof -
    have "bit (take_bit 4 (ucast (drop_bit 56 ts)) OR 0x10 :: u8) k = bit (take_bit 4 (ucast (drop_bit 56 ts')) OR 0x10 :: u8) k"
      using h by simp
    then show ?thesis using that by (simp add: bit_simps constant_bits del: bit_numeral_word_iff)
  qed
  have "bit ts n = bit ts' n" if "n < 60"
  proof -
    show ?thesis
    proof (cases "n < 56")
      case True
      then have "n div 8 < 7" by (simp add: less_mult_imp_div_less)
      then have "n div 8 \<in> {0, 1, 2, 3, 4, 5, 6}" by auto
      then have "8 * (n div 8) \<in> {0, 8, 16, 24, 32, 40, 48}" by auto
      from octet_bit [OF o [OF this], of "n mod 8"] show ?thesis by simp
    next
      case False
      then show ?thesis using that top [of "n - 56"] by simp
    qed
  qed
  then show "bit (take_bit 60 ts) n = bit (take_bit 60 ts') n" by (auto simp: bit_simps)
qed

section \<open>The stamps of a sequence of calls\<close>

definition micro :: "timeval \<Rightarrow> int" where "micro tp = tv_sec tp * 1000000 + tv_usec tp"

definition stamp_offset :: int where "stamp_offset = 0x01B21DD213814000"

lemma getSystemTime_micro: "getSystemTime tp = word_of_int (10 * micro tp + stamp_offset)"
  by (simp add: getSystemTime_def micro_def stamp_offset_def algebra_simps push_bit_eq_mult)

fun stamps :: "int \<Rightarrow> int \<Rightarrow> int list \<Rightarrow> int list" where
  "stamps m k [] = []"
| "stamps m k (x # xs) = (if x = m then (10 * m + (k + 1)) # stamps m (k + 1) xs else (10 * x) # stamps x 0 xs)"

lemma stamps_increase:
  assumes "sorted (m # xs)" and "k + int (count_list xs m) \<le> 9" and "0 \<le> k"
    and "\<And>x. x \<noteq> m \<Longrightarrow> count_list xs x \<le> 10"
  shows "sorted_wrt (<) ((10 * m + k) # stamps m k xs)"
  using assms
proof (induction xs arbitrary: m k)
  case (Cons x xs)
  show ?case
  proof (cases "x = m")
    case True
    have "sorted_wrt (<) ((10 * m + (k + 1)) # stamps m (k + 1) xs)"
      using Cons.prems True by (intro Cons.IH) (auto split: if_splits)
    then show ?thesis using True by auto
  next
    case False
    have "count_list xs y \<le> 10" for y
      using Cons.prems(2,3) Cons.prems(4) [of y] False by (cases "y = m") (auto split: if_splits)
    moreover have "count_list xs x \<le> 9" using Cons.prems(4) [of x] False by simp
    ultimately have "sorted_wrt (<) ((10 * x + 0) # stamps x 0 xs)"
      using Cons.prems by (intro Cons.IH) auto
    moreover have "10 * m + k < 10 * x" using Cons.prems(1,2) False by (auto split: if_splits)
    ultimately show ?thesis using False by auto
  qed
qed simp

lemma stamps_bounds:
  assumes "z \<in> set (stamps m k xs)" and "k + int (count_list xs m) \<le> 9" and "0 \<le> k"
    and "\<And>x. x \<noteq> m \<Longrightarrow> count_list xs x \<le> 10"
  shows "\<exists>x \<in> set (m # xs). 10 * x \<le> z \<and> z \<le> 10 * x + 9"
  using assms
proof (induction xs arbitrary: m k)
  case (Cons x xs)
  show ?case
  proof (cases "x = m")
    case True
    then consider "z = 10 * m + (k + 1)" | "z \<in> set (stamps m (k + 1) xs)" using Cons.prems(1) by auto
    then show ?thesis
    proof cases
      case 2
      show ?thesis using Cons.IH [OF 2] Cons.prems True by (force split: if_splits)
    qed (use Cons.prems True in auto)
  next
    case False
    have "count_list xs y \<le> 10" for y
      using Cons.prems(2,3) Cons.prems(4) [of y] False by (cases "y = m") (auto split: if_splits)
    moreover have "count_list xs x \<le> 9" using Cons.prems(4) [of x] False by simp
    ultimately show ?thesis using Cons.IH [of x 0] Cons.prems(1) False by auto
  qed
qed simp
text \<open>The times for which stamps keep apart in the 60 bits of an identifier: up to the year 5138.\<close>

abbreviation in_time :: "int \<Rightarrow> bool" where "in_time x \<equiv> 0 \<le> x \<and> x < 10 ^ 17"

lemma word_of_int_eq_small:
  "0 \<le> a \<Longrightarrow> a < 2 ^ 60 \<Longrightarrow> 0 \<le> b \<Longrightarrow> b < 2 ^ 60 \<Longrightarrow> (word_of_int a :: u64) = word_of_int b \<longleftrightarrow> a = b"
  by (simp add: word_of_int_eq_iff take_bit_int_eq_self)

lemma stamp_word_eq:
  "in_time a \<Longrightarrow> in_time b \<Longrightarrow> (word_of_int (10 * a + stamp_offset) :: u64) = word_of_int (10 * b + stamp_offset) \<longleftrightarrow> a = b"
  by (subst word_of_int_eq_small) (auto simp: stamp_offset_def)

lemma tick_word: "0 \<le> k \<Longrightarrow> k < 2 ^ 16 \<Longrightarrow> (ucast (word_of_int k :: u16) :: u64) = word_of_int k"
  by (simp add: unsigned_ucast_eq word_eq_iff_unsigned ucast_eq take_bit_int_eq_self unsigned_of_int)

definition stamped :: "bytes \<Rightarrow> int \<Rightarrow> bool" where
  "stamped u z \<longleftrightarrow> (\<exists>c node. u = stuff_fields (word_of_int (z + stamp_offset)) c node)"

lemma UUID_new_stamped:
  assumes g: "currentTimeInited g" "timeLast g = word_of_int (10 * m + stamp_offset)" "uuidsThisTick g = word_of_int k"
    and k: "0 \<le> k" "k \<le> 9" and t: "in_time m" "in_time (micro (clock_reading inp))"
  defines "x \<equiv> micro (clock_reading inp)"
  defines "k' \<equiv> (if x = m then k + 1 else 0)"
  obtains u g' where "UUID_new inp g = (u, g')" "stamped u (10 * x + k')" "currentTimeInited g'"
    "timeLast g' = word_of_int (10 * x + stamp_offset)" "uuidsThisTick g' = word_of_int k'"
proof -
  have k': "0 \<le> k'" "k' < 2 ^ 16" using k by (simp_all add: k'_def)
  obtain ts g1 where c: "getCurrentTime inp g = (ts, g1)" by fastforce
  have 1: "currentTimeInited g1" "timeLast g1 = word_of_int (10 * x + stamp_offset)" "uuidsThisTick g1 = word_of_int k'"
    "ts = word_of_int (10 * x + stamp_offset) + ucast (uuidsThisTick g1)"
    using c g stamp_word_eq [OF t] by (auto simp: getCurrentTime_def getSystemTime_micro Let_def x_def k'_def)
  have ts: "ts = word_of_int (10 * x + k' + stamp_offset)"
    using 1(3,4) tick_word [OF k'] by (simp add: algebra_simps)
  obtain n g2 where n: "getNodeIdentifier inp g1 = (n, g2)" by fastforce
  have 2: "currentTimeInited g2 = currentTimeInited g1" "timeLast g2 = timeLast g1" "uuidsThisTick g2 = uuidsThisTick g1"
    using n by (auto simp: getNodeIdentifier_def Let_def split: option.splits)
  obtain u g' where u: "UUID_new inp g = (u, g')" by fastforce
  have "stamped u (10 * x + k')" using u c n ts by (auto simp: UUID_new_def stamped_def Let_def)
  moreover have "currentTimeInited g' = currentTimeInited g2" "timeLast g' = timeLast g2" "uuidsThisTick g' = uuidsThisTick g2"
    using u c n by (auto simp: UUID_new_def Let_def)
  ultimately show thesis using that [OF u] 1 2 by simp
qed

lemma uuids_stamped:
  assumes "currentTimeInited g" "timeLast g = word_of_int (10 * m + stamp_offset)" "uuidsThisTick g = word_of_int k"
    and "0 \<le> k" "k + int (count_list xs m) \<le> 9" "\<And>x. x \<noteq> m \<Longrightarrow> count_list xs x \<le> 10"
    and "xs = map (\<lambda>i. micro (clock_reading i)) inps" "in_time m" "\<forall>x \<in> set xs. in_time x"
  shows "list_all2 stamped (uuids g inps) (stamps m k xs)"
  using assms
proof (induction inps arbitrary: g m k xs)
  case (Cons i inps)
  let ?x = "micro (clock_reading i)"
  obtain ys where xs: "xs = ?x # ys" "ys = map (\<lambda>i. micro (clock_reading i)) inps" using Cons.prems(7) by simp
  define k' where "k' = (if ?x = m then k + 1 else 0)"
  have ks: "k \<le> 9" "in_time ?x" using Cons.prems(5,9) xs by auto
  obtain u g' where u: "UUID_new i g = (u, g')" "stamped u (10 * ?x + k')" "currentTimeInited g'"
    "timeLast g' = word_of_int (10 * ?x + stamp_offset)" "uuidsThisTick g' = word_of_int k'"
    unfolding k'_def by (rule UUID_new_stamped [OF Cons.prems(1-4) ks(1) Cons.prems(8) ks(2)])
  have k': "0 \<le> k'" "k' + int (count_list ys ?x) \<le> 9"
    using Cons.prems(4,5) Cons.prems(6) [of ?x] by (auto simp: k'_def xs(1) split: if_splits)
  have others: "count_list ys y \<le> 10" if "y \<noteq> ?x" for y
    using Cons.prems(4,5) Cons.prems(6) [of y] that by (cases "y = m") (auto simp: xs(1) split: if_splits)
  have "list_all2 stamped (uuids g' inps) (stamps ?x k' ys)"
    by (rule Cons.IH [OF u(3-5) k' others xs(2) ks(2)]) (use Cons.prems(9) xs(1) in auto)
  moreover have "stamps m k xs = (10 * ?x + k') # stamps ?x k' ys" by (simp add: xs(1) k'_def)
  ultimately show ?case using u(1,2) by simp
qed simp
lemma take_bit_of_int:
  assumes "take_bit 60 (word_of_int a :: u64) = take_bit 60 (word_of_int b)"
  shows "take_bit 60 a = take_bit 60 b"
proof -
  have "uint (take_bit 60 (word_of_int x :: u64)) = take_bit 60 x" for x
    by (simp add: unsigned_take_bit_eq unsigned_of_int)
  then show ?thesis using assms by metis
qed

lemma stamped_inj:
  assumes "stamped u z" "stamped u z'" "0 \<le> z" "z < 10 ^ 18" "0 \<le> z'" "z' < 10 ^ 18"
  shows "z = z'"
proof -
  have "take_bit 60 (word_of_int (z + stamp_offset) :: u64) = take_bit 60 (word_of_int (z' + stamp_offset))"
    using assms(1,2) stuff_fields_stamp unfolding stamped_def by metis
  from take_bit_of_int [OF this] have "take_bit 60 (z + stamp_offset) = take_bit 60 (z' + stamp_offset)" .
  then show ?thesis using assms(3-6) by (simp add: take_bit_int_eq_self stamp_offset_def)
qed

lemma stamped_distinct:
  assumes "list_all2 stamped us zs" "sorted_wrt (<) zs" "\<forall>z \<in> set zs. 0 \<le> z \<and> z < 10 ^ 18"
  shows "distinct us"
  using assms
proof (induction us zs rule: list_all2_induct)
  case (Cons u us z zs)
  have "u \<notin> set us"
  proof
    assume "u \<in> set us"
    then obtain z' where z': "z' \<in> set zs" "stamped u z'"
      using Cons.hyps(2) by (metis in_set_conv_nth list_all2_conv_all_nth)
    then have "z = z'" using stamped_inj [OF Cons.hyps(1) z'(2)] Cons.prems(2) by auto
    then show False using Cons.prems(1) z'(1) by auto
  qed
  then show ?case using Cons by simp
qed simp

section \<open>Identifiers are unique\<close>

text \<open>
  C40. The identifiers that one process makes are all different as long as its clock does not
  go backwards and at most nine of them are asked for within one microsecond, for times from
  1970 to the year 5138.
\<close>

theorem uuids_are_distinct:
  assumes "sorted (map (\<lambda>i. micro (clock_reading i)) inps)"
    and "\<And>x. count_list (map (\<lambda>i. micro (clock_reading i)) inps) x \<le> 9"
    and "\<And>i. i \<in> set inps \<Longrightarrow> 0 \<le> micro (clock_reading i) \<and> micro (clock_reading i) < 10 ^ 17"
    and "\<And>i. i \<in> set inps \<Longrightarrow> 0 \<le> micro (first_reading i) \<and> micro (first_reading i) \<le> micro (clock_reading i)"
  shows "distinct (uuids generator_new inps)"
proof (cases inps)
  case (Cons i rest)
  let ?xs = "map (\<lambda>i. micro (clock_reading i)) inps" and ?m = "micro (first_reading i)"
  let ?g = "generator_new\<lparr>timeLast := getSystemTime (first_reading i), uuidsThisTick := 0, currentTimeInited := True\<rparr>"
  have "UUID_new i generator_new = UUID_new i ?g"
    by (simp add: UUID_new_def getCurrentTime_def generator_new_def)
  then have e: "uuids generator_new inps = uuids ?g inps" by (simp add: Cons)
  have m: "in_time ?m" using assms(3,4) [of i] Cons by auto
  have le: "?m \<le> x" if "x \<in> set ?xs" for x
    using assms(1) assms(4) [of i] that Cons by auto
  then have s: "sorted (?m # ?xs)" using assms(1) by simp
  have c: "0 + int (count_list ?xs ?m) \<le> 9" "count_list ?xs x \<le> 10" for x
    using assms(2) [of ?m] assms(2) [of x] by simp_all
  have st: "list_all2 stamped (uuids ?g inps) (stamps ?m 0 ?xs)"
    by (rule uuids_stamped [OF _ _ _ _ c refl m])
      (use assms(3) in \<open>auto simp: getSystemTime_micro\<close>)
  have "sorted_wrt (<) (stamps ?m 0 ?xs)" using stamps_increase [OF s c(1) _ c(2)] by simp
  moreover have "0 \<le> z \<and> z < 10 ^ 18" if z: "z \<in> set (stamps ?m 0 ?xs)" for z
  proof -
    obtain x where "x \<in> set (?m # ?xs)" "10 * x \<le> z" "z \<le> 10 * x + 9"
      using stamps_bounds [OF z c(1) _ c(2)] by auto
    moreover from this(1) have "in_time x" using m assms(3) by auto
    ultimately show ?thesis by auto
  qed
  ultimately show ?thesis unfolding e by (intro stamped_distinct [OF st]) blast+
qed simp
abbreviation call_at :: "int \<Rightarrow> uuid_input" where
  "call_at t \<equiv> \<lparr>first_reading = \<lparr>tv_sec = t, tv_usec = 0\<rparr>, clock_reading = \<lparr>tv_sec = t, tv_usec = 7\<rparr>, random_octets = [1, 2, 3, 4, 5, 6]\<rparr>"

theorem uuids_are_distinct_witness:
  "distinct (uuids generator_new [call_at 1000000000, call_at 1000000000, call_at 1000000001])"
  by (rule uuids_are_distinct) (auto simp: micro_def)

text \<open>
  A clock that is set back brings identifiers back: the member that should hold the time of
  the last identifier is stored unchanged, so that the comparison that should notice is always
  with 0 and the clock sequence is never counted up. With readings \<open>t\<close>, a later or earlier
  one, and \<open>t\<close> again, the third identifier is the first one.
\<close>

theorem clock_set_back_repeats_uuid:
  assumes "micro (clock_reading c) = micro (clock_reading a)" "in_time (micro (clock_reading a))" "in_time (micro (clock_reading b))"
    "in_time (micro (first_reading a))" "micro (first_reading a) \<noteq> micro (clock_reading a)" "micro (clock_reading b) \<noteq> micro (clock_reading a)"
  shows "uuids generator_new [a, b, c] ! 2 = uuids generator_new [a, b, c] ! 0"
  using assms stamp_word_eq [of "micro (first_reading a)" "micro (clock_reading a)"]
    stamp_word_eq [of "micro (clock_reading a)" "micro (clock_reading b)"] stamp_word_eq [of "micro (clock_reading b)" "micro (clock_reading a)"]
  by (simp add: UUID_new_def getCurrentTime_def getNodeIdentifier_def generator_new_def getSystemTime_micro Let_def
      numeral_2_eq_2)

theorem clock_set_back_repeats_uuid_witness:
  "uuids generator_new [call_at 1000000000, call_at 1000000001, call_at 1000000000] ! 2 =
    uuids generator_new [call_at 1000000000, call_at 1000000001, call_at 1000000000] ! 0"
  by (rule clock_set_back_repeats_uuid) (simp_all add: micro_def)

end
