(* ===== verification/Spec2Isabelle.thy ===== *)
theory Spec2Isabelle
  imports UTF8_Case RWLock_Live ThreadPool_Props UTF8_Compare_Props PathSecurity_Props Strings_Numbers
    Serialization CmdLine_Props Monitor MTQueue MD5_Props DateTime_Parse_Props StringBuffer_Props TimePeriod
    Process_Props EnvVars SafeCString LogPattern_Convert UUID
begin

text \<open>
  A model of the core of the BloCxx library (\<open>src/blocxx-2.3.0/src/blocxx\<close>), with the
  theorems that make it correct and those that show where it is not.

  \<^bold>\<open>The parts and how they interact.\<close>
  BloCxx is a C++ framework: character strings and their encodings, containers, locks and
  thread pools, access to files, and wrappers of the operating system. The wrappers have
  little logic of their own; the rest is modelled here, one theory (or a theory of
  definitions and one of proofs) per component:

  \<^item> \<open>Prelude\<close>: machine integers, results with exceptions (\<open>rbind\<close>), reads and
    writes of C buffers, \<open>std::lower_bound\<close>, and the locale \<open>invariant_system\<close> of a
    transition system with an inductive invariant.
  \<^item> \<open>UTF8_Codec\<close>: the codec of \<open>UTF8Utils.cpp\<close> (\<open>charCount\<close>,
    \<open>UTF8toUCS4\<close>, \<open>UCS4toUTF8\<close>, \<open>StringToUCS2\<close>, \<open>UCS2ToString\<close>).
  \<^item> \<open>UTF8_Tables\<close>, \<open>UTF8_Case\<close>: the two mapping tables and the conversions of
    case, with and without a new buffer (\<open>transform\<close>, \<open>transformInPlace\<close>).
  \<^item> \<open>UTF8_CompareTables\<close>, \<open>UTF8_Compare\<close>, \<open>UTF8_Compare_Props\<close>:
    \<open>UTF8UtilscompareToIgnoreCase.cpp\<close>, an automaton of 561 labels that a generator has
    written as \<open>goto\<close> code, state by state.
  \<^item> \<open>Strings\<close>, \<open>Strings_Props\<close>, \<open>Strings_Numbers\<close>: the class
    \<open>String\<close> (\<open>String.cpp\<close>). It calls the case conversions and the comparison above.
  \<^item> \<open>Serialization\<close>: \<open>BinarySerialization.cpp\<close> over the memory streams of
    \<open>DataStreams.cpp\<close>, and the objects written with it.
  \<^item> \<open>SortedVector\<close>: \<open>SortedVectorMap.hpp\<close> and \<open>SortedVectorSet.hpp\<close>.
  \<^item> \<open>RWLock\<close>, \<open>RWLock_Live\<close>: the recursive reader/writer lock of
    \<open>GenericRWLockImpl.hpp\<close>.
  \<^item> \<open>ThreadPool\<close>, \<open>ThreadPool_Props\<close>: the three pools of \<open>ThreadPool.cpp\<close>.
  \<^item> \<open>PathSecurity\<close>, \<open>PathSecurity_Props\<close>: \<open>PathSecurity.cpp\<close>,
    \<open>PosixPathSecurity.cpp\<close> and the functions of \<open>PosixFileSystem.cpp\<close> they call.
  \<^item> \<open>Monitor\<close>: the small synchronisation classes as monitors, \<open>Semaphore.hpp\<close>,
    \<open>ThreadCounter.cpp\<close> and the generic barrier of \<open>ThreadBarrier.cpp\<close>.
  \<^item> \<open>MTQueue\<close>: the bounded queue between threads of \<open>MTQueue.cpp\<close> and \<open>MTQueue.hpp\<close>.
  \<^item> \<open>CmdLine\<close>, \<open>CmdLine_Props\<close>: \<open>CmdLineParser.cpp\<close>. It keeps the values it parsed
    in the \<open>SortedVectorMap\<close> of \<open>SortedVector\<close>.
  \<^item> \<open>MD5\<close>, \<open>MD5_Props\<close>: the digest of \<open>MD5.cpp\<close> and its stream.
  \<^item> \<open>TmUtils\<close>, \<open>TmUtils_Props\<close>: the calendar of \<open>TmUtils.cpp\<close> over the divisions of
    \<open>DivRem.hpp\<close>.
  \<^item> \<open>DateTime\<close>, \<open>DateTime_Props\<close>: the classes \<open>DateTime\<close> (\<open>DateTime.cpp\<close>) and
    \<open>TimeDuration\<close> (\<open>TimeDuration.cpp\<close>) over the calendar.
  \<^item> \<open>DateTime_Parse\<close>, \<open>DateTime_Parse_Props\<close>: the constructor of a \<open>DateTime\<close> from
    text; it calls \<open>tokenize\<close>, \<open>substring\<close> and \<open>toInt32\<close> of \<open>Strings\<close>.
  \<^item> \<open>TimePeriod\<close>: \<open>TimePeriod.cpp\<close> and the predicates of \<open>TimeUtils.cpp\<close>, over \<open>DateTime\<close>.
  \<^item> \<open>StringBuffer\<close>, \<open>StringBuffer_Props\<close>: \<open>StringBuffer.cpp\<close>, with its block of memory.
  \<^item> \<open>Timeouts\<close>: \<open>Timeout.cpp\<close> and \<open>TimeoutTimer.cpp\<close>.
  \<^item> \<open>Process\<close>, \<open>Process_Props\<close>: the object of a child process in \<open>Process.cpp\<close>, its waits,
    which use the timers of \<open>Timeouts\<close>, its signals and its reaper.
  \<^item> \<open>EnvVars\<close>: \<open>EnvVars.cpp\<close>, a map of names and values and the array it is passed on as.
  \<^item> \<open>SafeCString\<close>: the bounded C strings of \<open>SafeCString.cpp\<close>.
  \<^item> \<open>LogPattern\<close>, \<open>LogPattern_Props\<close>, \<open>LogPattern_Convert\<close>: the parser, the converters
    and the widths of \<open>LogMessagePatternFormatter.cpp\<close>.
  \<^item> \<open>UUID\<close>: \<open>UUID.cpp\<close>.

  \<^bold>\<open>State and operations.\<close>
  Definitions have the names of the functions they model, with a suffix where a name is
  overloaded. Code that works on a C buffer takes the list of its bytes, and every access is
  checked: a read outside the buffer, which is undefined in C++, is an error value of its own
  (\<open>BadRead\<close>, \<open>OutOfBounds\<close>, \<open>HeapOverflow\<close>), so that memory safety is a
  theorem where it holds and a counterexample where it does not. Exceptions are values of the
  error datatypes. Unsigned integers are words; \<open>size_t\<close> is a natural number below
  \<open>2 ^ 64\<close> with the wrap-around written out where the code adds or subtracts.
  The lock and the pools are transition systems (\<open>rw_step\<close>, \<open>pool_step\<close>): a
  critical section is one function and one step; a thread that waits on a condition is a
  position in its code, with the flag whether it has been notified. Timeouts and spurious
  wakeups may happen at any time. The path code takes the file system as an argument, the
  record \<open>env\<close> of the functions that \<open>FileSystemMockObject\<close> can replace.
  The monitors have one function per class, from one wait to the next, and one step relation
  for all (\<open>monitor_step\<close>); the queue needs its own (\<open>mt_step\<close>), since \<open>notifyOne\<close> chooses
  a thread. Times are integers where the code checks their limits first, and wrap
  (\<open>wrap64\<close>, \<open>wrap32\<close>) where it does not. \<open>localtime_r\<close> and \<open>mktime\<close> and the limits
  that configure finds are fields of the argument \<open>platform\<close>; \<open>gmtime_r\<close> is defined, as
  the C library documents it. In \<open>CmdLine\<close> a \<open>String\<close> is the list of its characters. A
  \<open>StringBuffer\<close> has its block as a list of bytes of unknown content where nothing was
  written. The functions of \<open>SafeCString\<close> work on a memory of bytes; a broken precondition
  is the value of its own that the \<open>BLOCXX_ASSERT\<close> stands for. A child process is an object
  over the record of what the operating system answers, and the list of what happened to it;
  clocks, random octets and the thread that logs are arguments. One idealisation: the seconds
  of \<open>Timeouts\<close> are exact microseconds or infinity, where the code has \<open>float\<close> and \<open>double\<close>;
  their rounding is not seen.

  \<^bold>\<open>What the lemmas show.\<close>
  Codec: encoding and decoding are inverse for the characters from \<open>U+1\<close> to \<open>U+FFFFF\<close>; the
  encoding of 0 is refused by the decoder's assertion, and the last plane decodes wrongly. Case conversion: the binary search finds what a linear lookup
  finds, the mapped text is the text of the mapped characters, and the conversion in place
  agrees with it where it succeeds. Comparison: it returns for all strings, agrees with the
  ASCII reference, and calls some different strings equal. Strings: searches, parts,
  trimming, tokens and numerals against functions on lists; the class invariant and the
  calls that break it. Serialization: every object that is written is read back, from any
  place in a stream, and a truncated or foreign object is reported. Containers: insertion and
  erasure keep the order and refine a map and a set. Lock: exclusion, the assertions of
  the code, no lost wakeups without timeouts, and the deadlock and the lost wakeup that do
  happen. Pools: order of the queue, its bounds, progress, shutdown, and two races of the
  dynamic pool. Paths: the walk over characters implements the resolution of components;
  canonical results; what a secure verdict means, and what it does not.
  Monitors: no thread sleeps unnotified where it could go on, a barrier separates its
  generations when it is used by as many threads as its threshold, and how it fails with
  more. Queue: first in, first out, its bound, no consumer forgotten while no producer waits,
  and the wakeup that is lost otherwise. Command line: what is written by the rules is parsed
  to what was written, the values have the types of their options, the errors, and the usage
  text, which is complete and fits, or never returns. MD5: any sequence of updates and stream
  writes has the digest of RFC 1321 of the whole message, and the lengths for which it has
  not. Calendar: seconds against the sum of the lengths of years and months, and back
  through \<open>gmtime_r\<close>, with year 0, the first that configure may find, a day late. Times: the
  invariant of the class under the calls that keep it and the conditions of those that need one, exact sums and differences,
  order, the parts of a duration, and five calls that check or store the wrong number. Texts
  of times: CIM datetimes are read back exactly, time zones are taken off exactly but for the
  first hours of a year. Periods: their operations are those of sets of times, but for the
  period of the default constructor and the order of the arguments of \<open>merge\<close>. String
  buffers: a sequence of operations refines the same operations on a list, within the block;
  lines, integers, and what is lost behind a NUL or when a buffer is appended to itself.
  Timers: milliseconds, timevals and timespecs against the time left, with the seconds that
  are added by rounding twice. Child processes: the waits, the closing of the streams and the
  signals come in order, the waits end, and every child has somebody to reap it. Environment:
  refinement of a map. C strings: what \<open>strcpy\<close> and its variants write, return and report,
  and no access outside their arguments. Patterns: a printed pattern is parsed to what was
  printed, the parser returns when braces are closed and runs for ever when one is not, the
  widths, and the parts of a message that a converter loses. Identifiers: distinct while the
  clock does not go back, repeated when it does; their text.

  \<^bold>\<open>Interfaces.\<close>
  \<open>char_mapping\<close> (what the case conversions need of a table, interpreted on both tables),
  \<open>serializable\<close> (what an array needs of its elements, interpreted on \<open>Bool\<close>,
  \<open>Char16\<close> and \<open>String\<close>), the ordering of the sorted vectors (interpreted on \<open>(<)\<close> and
  on the comparison of a list of fields), \<open>fair_monitor\<close> (what makes waking everybody enough,
  interpreted on the semaphore, the counter and the barrier), the order of times of which a period is an
  interval (interpreted on \<open>dt_less\<close>), and \<open>invariant_system\<close>
  (interpreted on the lock, the pools and the queue, with and without room for all producers).

  \<^bold>\<open>Bounds and fuel.\<close>
  There is no fuel. \<open>path_walk\<close> ends by the number of symbolic links it may still follow
  (\<open>MAX_SYMBOLIC_LINKS\<close> is 100) and, between two links, by the text that is left.
  \<open>read_link_loop\<close> and \<open>cmp_run\<close> are partial functions; that they return is
  proved, for every link text and for all C strings. \<open>md5_blocks\<close> and \<open>wrap_loop\<close> are
  partial functions as well: for which lengths and widths they return is a theorem, and so
  is that they do not for others. The loops of \<open>normTm\<close> end for all fields. All other
  loops recurse on their data or have a termination proof.

  \<^bold>\<open>Not modelled.\<close>
  Sockets, SSL, the start of processes (\<open>fork\<close> and \<open>exec\<close>) and their pipes, shared
  libraries, regular expressions, iconv and user names: calls of the operating system and of
  other libraries. Loggers and appenders: output. Reference counting and copy-on-write: not
  visible in values. The Windows, HP-UX, AIX, Solaris and Darwin branches. The clock,
  \<open>strftime\<close> and floating point durations of the time classes, and the rounding of floating
  point seconds in timeouts.
\<close>

end
